(* ===== verification/Prelude.thy ===== *)
theory Prelude
  imports Main "HOL-Library.Word"
begin

text \<open>
  Shared vocabulary of the development: the fixed-width integer types of the C code, big-endian
  byte packing, the fact collections used by the component proofs, and the two contracts that
  several components share (a step that keeps an invariant, and a step that makes progress
  towards a goal).
\<close>

unbundle bit_operations_syntax

type_synonym u8 = "8 word"
type_synonym u16 = "16 word"
type_synonym u32 = "32 word"

named_theorems hw_simps \<open>equations that evaluate hardware call traces\<close>
named_theorems inv_intros \<open>preservation of component invariants by operations\<close>

section \<open>Words as numbers\<close>

lemma unat_sub_nat: "unat b \<le> unat a \<Longrightarrow> unat (a - b :: 'a::len word) = unat a - unat b"
  by (simp add: unat_sub word_le_nat_alt)

lemma unat_add_nat: "unat a + unat b < 2 ^ LENGTH('a) \<Longrightarrow> unat (a + b :: 'a::len word) = unat a + unat b"
  by (rule unat_add_lem [THEN iffD1])

lemma unat_of_nat_32: "n < 2 ^ 32 \<Longrightarrow> unat (of_nat n :: u32) = n"
  by (simp add: unat_of_nat)

lemma unat_u16_less: "unat (c :: u16) < 65536"
  using unsigned_less [where ?'a = nat, of c] by simp

lemma unat_ucast_16_32: "unat (ucast (c :: u16) :: u32) = unat c"
  using unat_u16_less [of c] by (simp add: unsigned_ucast_eq take_bit_nat_eq_self)

section \<open>Big-endian byte packing\<close>

text \<open>The C expressions \<open>(v >> 8) & 0xFF\<close> and \<open>v & 0xFF\<close>, stored into a \<open>uint8_t\<close>.\<close>

definition hi8 :: "u16 \<Rightarrow> u8" where
  "hi8 v = ucast (drop_bit 8 v AND 0xFF)"

definition lo8 :: "u16 \<Rightarrow> u8" where
  "lo8 v = ucast (v AND 0xFF)"

text \<open>The C expression \<open>(a << 8) | b\<close> over two bytes, stored into a \<open>uint16_t\<close>.\<close>

definition be16 :: "u8 \<Rightarrow> u8 \<Rightarrow> u16" where
  "be16 a b = push_bit 8 (ucast a) OR ucast b"

lemma byte_mask: "0xFF = (mask 8 :: 'a::len word)"
  by (simp add: mask_eq_exp_minus_1)

lemma be16_hi_lo [simp]: "be16 (hi8 v) (lo8 v) = v"
  by (rule bit_word_eqI) (auto simp: be16_def hi8_def lo8_def byte_mask bit_simps)

lemma hi8_be16 [simp]: "hi8 (be16 a b) = a"
  by (rule bit_word_eqI)
    (auto simp: be16_def hi8_def byte_mask bit_simps dest: bit_imp_le_length)

lemma lo8_be16 [simp]: "lo8 (be16 a b) = b"
  by (rule bit_word_eqI) (auto simp: be16_def lo8_def byte_mask bit_simps)

lemma be16_inj: "be16 a b = be16 c d \<longleftrightarrow> a = c \<and> b = d"
  by (metis hi8_be16 lo8_be16)

section \<open>Contracts shared by the components\<close>

text \<open>
  A machine is a step function driven by inputs. Its invariant is kept by every step whose
  input the environment may produce.
\<close>

locale invariant_machine =
  fixes step :: "'i \<Rightarrow> 's \<Rightarrow> 's"
    and admissible :: "'i \<Rightarrow> bool"
    and inv :: "'s \<Rightarrow> bool"
  assumes step_inv: "inv s \<Longrightarrow> admissible i \<Longrightarrow> inv (step i s)"
begin

lemma run_inv: "inv s \<Longrightarrow> list_all admissible is \<Longrightarrow> inv (fold step is s)"
  by (induction "is" arbitrary: s) (simp_all add: step_inv)

end

text \<open>
  A machine that also makes progress: as long as the goal is not reached every admissible step
  lowers a rank, and the goal, once reached, stays.
\<close>

locale progress_machine = invariant_machine +
  fixes goal :: "'s \<Rightarrow> bool"
    and rank :: "'s \<Rightarrow> nat"
  assumes rank_decreases:
      "inv s \<Longrightarrow> admissible i \<Longrightarrow> \<not> goal s \<Longrightarrow> goal (step i s) \<or> rank (step i s) < rank s"
    and goal_stays: "inv s \<Longrightarrow> admissible i \<Longrightarrow> goal s \<Longrightarrow> goal (step i s)"
begin

lemma run_keeps_goal: "inv s \<Longrightarrow> list_all admissible is \<Longrightarrow> goal s \<Longrightarrow> goal (fold step is s)"
  by (induction "is" arbitrary: s) (simp_all add: step_inv goal_stays)

lemma run_reaches_goal:
  "inv s \<Longrightarrow> list_all admissible is \<Longrightarrow> rank s < length is \<Longrightarrow> goal (fold step is s)"
proof (induction "is" arbitrary: s)
  case Nil
  then show ?case by simp
next
  case (Cons i "is")
  then have i: "admissible i" and rest: "list_all admissible is" and inv': "inv (step i s)"
    by (simp_all add: step_inv)
  show ?case
  proof (cases "goal s \<or> goal (step i s)")
    case True
    then have "goal (step i s)" using Cons.prems(1) i by (blast intro: goal_stays)
    then show ?thesis using inv' rest by (simp add: run_keeps_goal)
  next
    case False
    then have "rank (step i s) < rank s"
      using Cons.prems(1) i by (blast dest: rank_decreases)
    then show ?thesis using Cons.IH [OF inv' rest] Cons.prems(3) by simp
  qed
qed

end

end
