(* ===== verification/Hal.thy ===== *)
theory Hal
  imports Prelude "HOL-Library.Monad_Syntax"
begin

text \<open>
  The boundary to the hardware. The STM32 HAL and the CMSIS register files are not part of the
  repository: a call to them, or a write to a peripheral register, is an entry of an output trace
  in program order, with the arguments the code passes. Values the hardware delivers (pin levels,
  counters, statuses) are arguments of the modelled functions. A trace is read back only through
  the documented effect of a call on what it names: a pin level, an output compare channel, a
  register. \<open>SEGGER_RTT\<close> is a diagnostic message with its arguments, the line breaks left out.
\<close>

section \<open>Peripherals and their configuration records\<close>

datatype gpio_port = GPIOA | GPIOB | GPIOC | GPIOE | GPIOG | GPIOH

datatype clk = CLK_GPIO gpio_port | CLK_TIM2 | CLK_TIM4 | CLK_TIM5 | CLK_USART6 | CLK_DMA2
  | CLK_SYSCFG | CLK_CRC | CLK_PWR | CLK_ETH

datatype gpio_mode = MODE_INPUT | MODE_OUTPUT_PP | MODE_OUTPUT_OD | MODE_AF_PP | MODE_AF_OD
  | MODE_IT_RISING

datatype gpio_pull = GPIO_NOPULL | GPIO_PULLUP | GPIO_PULLDOWN

datatype gpio_speed = SPEED_LOW | SPEED_HIGH | SPEED_VERY_HIGH

record gpio_init =
  gi_Pin :: u16
  gi_Mode :: gpio_mode
  gi_Pull :: gpio_pull
  gi_Speed :: gpio_speed
  gi_Alternate :: nat

text \<open>\<open>GPIO_InitTypeDef GPIO_InitStruct = {0}\<close>.\<close>

definition gpio_init0 :: gpio_init where
  "gpio_init0 = \<lparr>gi_Pin = 0, gi_Mode = MODE_INPUT, gi_Pull = GPIO_NOPULL, gi_Speed = SPEED_LOW,
     gi_Alternate = 0\<rparr>"

definition GPIO_PIN :: "nat \<Rightarrow> u16" where
  "GPIO_PIN n = push_bit n 1"

datatype irq = EXTI2_IRQn | EXTI9_5_IRQn | USART6_IRQn | DMA2_Stream6_IRQn | ETH_IRQn
  | SysTick_IRQn

datatype timer = TIM2 | TIM4 | TIM5

record tim_init =
  ti_Prescaler :: u32
  ti_Period :: u32
  ti_AutoReloadPreload :: bool

datatype reg = TIM2_ARR | TIM2_CCR3 | TIM2_EGR | TIM4_CNT | TIM4_CCER | EXTI_IMR | EXTI_RTSR
  | EXTI_FTSR | SYSCFG_EXTICR1 | USART6_BRR

datatype hal_status = HAL_OK | HAL_ERROR | HAL_BUSY | HAL_TIMEOUT

datatype hal_call =
    RCC_CLK_ENABLE clk
  | HAL_GPIO_Init gpio_port gpio_init
  | HAL_GPIO_WritePin gpio_port u16 bool
  | HAL_GPIO_TogglePin gpio_port u16
  | HAL_NVIC_SetPriority irq nat nat
  | HAL_NVIC_EnableIRQ irq
  | HAL_NVIC_DisableIRQ irq
  | HAL_TIM_PWM_Init timer tim_init
  | HAL_TIM_PWM_ConfigChannel timer nat u32
  | HAL_TIM_PWM_Start timer nat
  | HAL_TIM_PWM_Stop timer nat
  | HAL_TIM_Base_Init timer tim_init
  | HAL_TIM_Base_Start timer
  | HAL_TIM_Encoder_Init timer tim_init nat
  | HAL_TIM_Encoder_Start timer
  | GPIO_EXTI_CLEAR_IT u16
  | REG_WRITE reg u32
  | HAL_UART_Init u32
  | HAL_DMA_Init
  | HAL_LINKDMA
  | HAL_UART_Receive_IT
  | HAL_UART_Transmit_DMA "u8 list"
  | HAL_UART_Abort
  | HAL_UART_AbortReceive
  | HAL_UART_CLEAR_FLAGS
  | HAL_UART_DISABLE
  | HAL_UART_ENABLE
  | HAL_Delay u32
  | NVIC_SystemReset
  | SEGGER_RTT string "int list"

section \<open>Reading a trace back\<close>

text \<open>The level last driven on an output pin, and whether a PWM channel is running.\<close>

fun drive_pin :: "gpio_port \<Rightarrow> u16 \<Rightarrow> hal_call \<Rightarrow> bool \<Rightarrow> bool" where
  "drive_pin port pin (HAL_GPIO_WritePin p n l) old = (if p = port \<and> n = pin then l else old)"
| "drive_pin port pin (HAL_GPIO_TogglePin p n) old = (if p = port \<and> n = pin then \<not> old else old)"
| "drive_pin port pin _ old = old"

definition pin_after :: "gpio_port \<Rightarrow> u16 \<Rightarrow> bool \<Rightarrow> hal_call list \<Rightarrow> bool" where
  "pin_after port pin l cs = fold (drive_pin port pin) cs l"

fun drive_pwm :: "timer \<Rightarrow> nat \<Rightarrow> hal_call \<Rightarrow> bool \<Rightarrow> bool" where
  "drive_pwm t ch (HAL_TIM_PWM_Start t' c') old = (if t' = t \<and> c' = ch then True else old)"
| "drive_pwm t ch (HAL_TIM_PWM_Stop t' c') old = (if t' = t \<and> c' = ch then False else old)"
| "drive_pwm t ch _ old = old"

definition pwm_after :: "timer \<Rightarrow> nat \<Rightarrow> bool \<Rightarrow> hal_call list \<Rightarrow> bool" where
  "pwm_after t ch r cs = fold (drive_pwm t ch) cs r"

fun write_reg :: "reg \<Rightarrow> hal_call \<Rightarrow> u32 \<Rightarrow> u32" where
  "write_reg r (REG_WRITE r' v) old = (if r' = r then v else old)"
| "write_reg r _ old = old"

definition reg_after :: "reg \<Rightarrow> u32 \<Rightarrow> hal_call list \<Rightarrow> u32" where
  "reg_after r v cs = fold (write_reg r) cs v"

lemma trace_Nil [simp]:
  "pin_after port pin l [] = l" "pwm_after t ch r [] = r" "reg_after g v [] = v"
  by (simp_all add: pin_after_def pwm_after_def reg_after_def)

lemma trace_Cons [hw_simps]:
  "pin_after port pin l (c # cs) = pin_after port pin (drive_pin port pin c l) cs"
  "pwm_after t ch r (c # cs) = pwm_after t ch (drive_pwm t ch c r) cs"
  "reg_after g v (c # cs) = reg_after g (write_reg g c v) cs"
  by (simp_all add: pin_after_def pwm_after_def reg_after_def)

lemma trace_append [simp]:
  "pin_after port pin l (cs @ ds) = pin_after port pin (pin_after port pin l cs) ds"
  "pwm_after t ch r (cs @ ds) = pwm_after t ch (pwm_after t ch r cs) ds"
  "reg_after g v (cs @ ds) = reg_after g (reg_after g v cs) ds"
  by (simp_all add: pin_after_def pwm_after_def reg_after_def)

end
