(* ===== verification/Float_Round.thy ===== *)
theory Float_Round
  imports Complex_Main "HOL-Library.Log_Nat" Prelude
begin

text \<open>
  Rounding of exact rational results to a binary floating-point format, round to nearest with
  ties to even (the rounding the C code runs with). A format is given by its precision \<open>p\<close> and
  the exponent \<open>emin\<close> of its smallest quantum: binary32 is \<open>24, -149\<close>, binary64 is \<open>53, -1074\<close>.
\<close>

section \<open>Binary logarithm of a positive rational\<close>

definition ilog2 :: "rat \<Rightarrow> int" where
  "ilog2 x =
     (let (n, d) = quotient_of x; e = bitlen n - bitlen d
      in if 2 powi e \<le> x then e else e - 1)"

lemma powi_add2: "(2::rat) powi (a + b) = 2 powi a * 2 powi b"
  by (simp add: power_int_add)

lemma powi_nat: "0 \<le> e \<Longrightarrow> (2::rat) powi e = 2 ^ nat e"
  by (simp add: power_int_def)

lemma powi_pos [simp]: "(0::rat) < 2 powi e"
  by simp

lemma powi_mono: "a \<le> b \<Longrightarrow> (2::rat) powi a \<le> 2 powi b"
  by (simp add: power_int_increasing)

lemma powi_less_iff: "(2::rat) powi a < 2 powi b \<longleftrightarrow> a < b"
  by (meson linorder_not_less powi_mono power_int_strict_increasing one_less_numeral_iff
      semiring_norm(76))

lemma powi_Suc: "(2::rat) powi (e + 1) = 2 * 2 powi e"
  by (simp add: powi_add2)

lemma powi_diff2: "(2::rat) powi (a - b) = 2 powi a / 2 powi b"
  by (simp add: power_int_diff)

lemma bitlen_rat_bounds:
  assumes "0 < n"
  shows "(2::rat) powi (bitlen n - 1) \<le> of_int n" and "of_int n < (2::rat) powi (bitlen n)"
proof -
  have pos: "0 < bitlen n" using bitlen_bounds [OF assms] assms by (cases "bitlen n \<le> 0") auto
  have "2 ^ nat (bitlen n - 1) \<le> n" "n < 2 ^ nat (bitlen n)"
    using bitlen_bounds [OF assms] by auto
  then have "(of_int (2 ^ nat (bitlen n - 1)) :: rat) \<le> of_int n"
    "(of_int n :: rat) < of_int (2 ^ nat (bitlen n))"
    by (simp_all only: of_int_le_iff of_int_less_iff)
  then show "(2::rat) powi (bitlen n - 1) \<le> of_int n" "of_int n < (2::rat) powi (bitlen n)"
    using pos by (simp_all add: powi_nat)
qed

lemma ilog2_bounds:
  assumes "0 < x"
  shows "2 powi (ilog2 x) \<le> x" and "x < 2 powi (ilog2 x + 1)"
proof -
  obtain n d where q: "quotient_of x = (n, d)" by fastforce
  then have d: "0 < d" using quotient_of_denom_pos by blast
  have x: "x = of_int n / of_int d" using q by (rule quotient_of_div)
  with assms d have n: "0 < n" by (simp add: zero_less_divide_iff)
  let ?e = "bitlen n - bitlen d"
  note bn = bitlen_rat_bounds [OF n] and bd = bitlen_rat_bounds [OF d]
  have "x < 2 powi (bitlen n) / 2 powi (bitlen d - 1)"
    unfolding x using bn bd n d by (intro frac_less) auto
  also have "\<dots> = 2 powi (?e + 1)" by (simp flip: powi_diff2 add: algebra_simps)
  finally have up: "x < 2 powi (?e + 1)" .
  have "2 powi (bitlen n - 1) / 2 powi (bitlen d) \<le> x"
    unfolding x using bn bd n d by (intro frac_le) auto
  then have low: "2 powi (?e - 1) \<le> x" by (simp flip: powi_diff2 add: algebra_simps)
  have "ilog2 x = (if 2 powi ?e \<le> x then ?e else ?e - 1)"
    using q by (simp add: ilog2_def)
  then show "2 powi (ilog2 x) \<le> x" "x < 2 powi (ilog2 x + 1)"
    using up low by auto
qed

lemma ilog2_unique:
  assumes "2 powi e \<le> x" and "x < 2 powi (e + 1)"
  shows "ilog2 x = e"
proof -
  have "0 < x" using assms(1) powi_pos [of e] by (rule order.strict_trans2 [rotated])
  note b = ilog2_bounds [OF this]
  have "(2::rat) powi e < 2 powi (ilog2 x + 1)" using assms(1) b(2) by (rule order.strict_trans1)
  moreover have "(2::rat) powi (ilog2 x) < 2 powi (e + 1)"
    using b(1) assms(2) by (rule order.strict_trans1)
  ultimately show ?thesis by (simp only: powi_less_iff)
qed

lemma ilog2_mono: "0 < x \<Longrightarrow> x \<le> y \<Longrightarrow> ilog2 x \<le> ilog2 y"
proof -
  assume "0 < x" "x \<le> y"
  then have "(2::rat) powi (ilog2 x) < 2 powi (ilog2 y + 1)"
    using ilog2_bounds(1) [of x] ilog2_bounds(2) [of y] by linarith
  then show ?thesis by (simp only: powi_less_iff)
qed

lemma ilog2_less: "0 < x \<Longrightarrow> x < 2 powi e \<Longrightarrow> ilog2 x < e"
  using ilog2_bounds(1) [of x] by (metis order.strict_trans1 powi_less_iff)

lemma ilog2_ge: "2 powi e \<le> x \<Longrightarrow> e \<le> ilog2 x"
proof -
  assume "2 powi e \<le> x"
  moreover then have "0 < x" using powi_pos [of e] by linarith
  ultimately have "(2::rat) powi e < 2 powi (ilog2 x + 1)"
    using ilog2_bounds(2) [of x] by linarith
  then show ?thesis by (simp only: powi_less_iff)
qed

section \<open>Rounding to the nearest integer, ties to even\<close>

definition rne :: "rat \<Rightarrow> int" where
  "rne x =
     (let f = \<lfloor>x\<rfloor>; d = x - of_int f
      in if d < 1 / 2 then f else if 1 / 2 < d then f + 1 else if even f then f else f + 1)"

lemma rne_of_int [simp]: "rne (of_int n) = n"
  by (simp add: rne_def)

lemma rne_err: "\<bar>of_int (rne x) - x\<bar> \<le> 1 / 2"
proof -
  have "of_int \<lfloor>x\<rfloor> \<le> x" "x < of_int \<lfloor>x\<rfloor> + 1" by linarith+
  moreover have "of_int (rne x) = (of_int \<lfloor>x\<rfloor> :: rat) \<and> x - of_int \<lfloor>x\<rfloor> \<le> 1 / 2 \<or>
      of_int (rne x) = (of_int \<lfloor>x\<rfloor> + 1 :: rat) \<and> 1 / 2 \<le> x - of_int \<lfloor>x\<rfloor>"
    unfolding rne_def Let_def by (auto simp del: floor_less_iff)
  ultimately show ?thesis by linarith
qed

lemma rne_floor: "rne x = \<lfloor>x\<rfloor> \<or> rne x = \<lfloor>x\<rfloor> + 1"
  by (simp add: rne_def Let_def)

lemma rne_mono: "x \<le> y \<Longrightarrow> rne x \<le> rne y"
proof -
  assume le: "x \<le> y"
  show ?thesis
  proof (cases "\<lfloor>x\<rfloor> = \<lfloor>y\<rfloor>")
    case True
    then show ?thesis using le by (auto simp: rne_def Let_def)
  next
    case False
    then have "\<lfloor>x\<rfloor> + 1 \<le> \<lfloor>y\<rfloor>" using floor_mono [OF le] by linarith
    then show ?thesis using rne_floor [of x] rne_floor [of y] by linarith
  qed
qed

lemma rne_ge: "of_int a \<le> x \<Longrightarrow> a \<le> rne x"
  using rne_mono [of "of_int a" x] by simp

lemma rne_le: "x \<le> of_int a \<Longrightarrow> rne x \<le> a"
  using rne_mono [of x "of_int a"] by simp

lemma rne_eqI: "\<bar>x - of_int n\<bar> < 1 / 2 \<Longrightarrow> rne x = n"
proof -
  assume "\<bar>x - of_int n\<bar> < 1 / 2"
  then have "\<bar>of_int (rne x) - (of_int n :: rat)\<bar> < 1" using rne_err [of x] by linarith
  then have "\<bar>rne x - n\<bar> < 1" by (metis of_int_1 of_int_abs of_int_diff of_int_less_iff)
  then show ?thesis by simp
qed

section \<open>Rounding to a format\<close>

text \<open>The exponent of the quantum at a positive \<open>x\<close>, and the rounded value.\<close>

definition qexp :: "int \<Rightarrow> int \<Rightarrow> rat \<Rightarrow> int" where
  "qexp p emin x = max (ilog2 x - (p - 1)) emin"

definition rnd :: "int \<Rightarrow> int \<Rightarrow> rat \<Rightarrow> rat" where
  "rnd p emin x =
     (if x = 0 then 0
      else let q = qexp p emin \<bar>x\<bar> in sgn x * (of_int (rne (\<bar>x\<bar> / 2 powi q)) * 2 powi q))"

text \<open>The values of a format, its exponent range unbounded above.\<close>

definition representable :: "int \<Rightarrow> int \<Rightarrow> rat \<Rightarrow> bool" where
  "representable p emin v \<longleftrightarrow> (\<exists>m q. \<bar>m\<bar> < 2 ^ nat p \<and> emin \<le> q \<and> v = of_int m * 2 powi q)"

lemma qexp_mono: "0 < x \<Longrightarrow> x \<le> y \<Longrightarrow> qexp p emin x \<le> qexp p emin y"
  using ilog2_mono [of x y] by (simp add: qexp_def max_def)

lemma rnd_0 [simp]: "rnd p emin 0 = 0"
  by (simp add: rnd_def)

lemma rnd_pos: "0 < x \<Longrightarrow>
  rnd p emin x = of_int (rne (x / 2 powi (qexp p emin x))) * 2 powi (qexp p emin x)"
  by (simp add: rnd_def Let_def)

lemma rnd_minus [simp]: "rnd p emin (- x) = - rnd p emin x"
  by (simp add: rnd_def Let_def sgn_if)

lemma rnd_err: "0 < x \<Longrightarrow> \<bar>rnd p emin x - x\<bar> \<le> 2 powi (qexp p emin x) / 2"
proof -
  assume "0 < x"
  let ?u = "(2::rat) powi (qexp p emin x)"
  have "rnd p emin x - x = (of_int (rne (x / ?u)) - x / ?u) * ?u"
    using \<open>0 < x\<close> by (simp add: rnd_pos left_diff_distrib)
  then have "\<bar>rnd p emin x - x\<bar> = \<bar>of_int (rne (x / ?u)) - x / ?u\<bar> * ?u"
    by (simp add: abs_mult)
  also have "\<dots> \<le> 1 / 2 * ?u"
    by (intro mult_right_mono rne_err) simp
  finally show ?thesis by simp
qed

lemma rnd_nonneg: "0 \<le> x \<Longrightarrow> 0 \<le> rnd p emin x"
proof (cases "x = 0")
  case False
  moreover assume "0 \<le> x"
  ultimately have "0 < x" by simp
  then have "0 \<le> rne (x / 2 powi (qexp p emin x))" by (intro rne_ge) simp
  with \<open>0 < x\<close> show ?thesis by (simp add: rnd_pos)
qed simp

lemma representable_minus: "representable p emin v \<Longrightarrow> representable p emin (- v)"
proof -
  assume "representable p emin v"
  then obtain m q where "\<bar>m\<bar> < 2 ^ nat p" "emin \<le> q" "v = of_int m * 2 powi q"
    by (auto simp: representable_def)
  then have "\<bar>- m\<bar> < 2 ^ nat p \<and> emin \<le> q \<and> - v = of_int (- m) * 2 powi q" by simp
  then show ?thesis unfolding representable_def by blast
qed

lemma rnd_fix_pos:
  assumes "representable p emin v" and "0 < v" and "0 < p"
  shows "rnd p emin v = v"
proof -
  obtain m q where m: "\<bar>m\<bar> < 2 ^ nat p" and q: "emin \<le> q" and v: "v = of_int m * 2 powi q"
    using assms(1) by (auto simp: representable_def)
  let ?q = "qexp p emin v"
  have "(0::rat) < of_int m" using \<open>0 < v\<close> powi_pos [of q] unfolding v by (rule zero_less_mult_pos2)
  then have "0 < m" by simp
  with m have "(of_int m :: rat) < of_int (2 ^ nat p)" by (simp only: of_int_less_iff)
  then have "(of_int m :: rat) < 2 powi p" using \<open>0 < p\<close> by (simp add: powi_nat)
  then have "v < 2 powi (p + q)" unfolding v by (simp add: powi_add2)
  then have "ilog2 v < p + q" using \<open>0 < v\<close> by (rule ilog2_less [rotated])
  then have le: "?q \<le> q" using q by (simp add: qexp_def)
  have "v / 2 powi ?q = of_int m * 2 powi (q - ?q)" unfolding v by (simp add: powi_diff2)
  also have "\<dots> = of_int (m * 2 ^ nat (q - ?q))" using le by (simp add: powi_nat)
  finally have "of_int (rne (v / 2 powi ?q)) = v / 2 powi ?q" by (simp only: rne_of_int)
  with \<open>0 < v\<close> show ?thesis by (simp add: rnd_pos)
qed

lemma rnd_fix:
  assumes "representable p emin v" and "0 < p"
  shows "rnd p emin v = v"
proof (cases v "0 :: rat" rule: linorder_cases)
  case less
  then have "rnd p emin (- v) = - v"
    using assms by (intro rnd_fix_pos representable_minus) auto
  then show ?thesis by simp
qed (simp_all add: assms rnd_fix_pos)

lemma powi_representable:
  assumes "emin \<le> e" and "0 < p"
  shows "representable p emin (2 powi e)"
proof -
  have "(1 :: int) < 2 ^ nat p" using assms(2) by simp
  then have "\<bar>1 :: int\<bar> < 2 ^ nat p \<and> emin \<le> e \<and> 2 powi e = of_int 1 * (2::rat) powi e"
    using assms(1) by simp
  then show ?thesis unfolding representable_def by blast
qed

text \<open>Rounding stays on the same side of an integer multiple of the quantum.\<close>

lemma rnd_le_multiple:
  assumes "0 < x" and "x \<le> of_int a * 2 powi (qexp p emin x)"
  shows "rnd p emin x \<le> of_int a * 2 powi (qexp p emin x)"
proof -
  have "x / 2 powi (qexp p emin x) \<le> of_int a" using assms(2) by (simp add: divide_le_eq)
  then have "rne (x / 2 powi (qexp p emin x)) \<le> a" by (rule rne_le)
  then show ?thesis using assms(1) by (simp add: rnd_pos)
qed

lemma rnd_mono_pos:
  assumes "0 < x" and "x \<le> y" and "0 < p"
  shows "rnd p emin x \<le> rnd p emin y"
proof (cases "qexp p emin x = qexp p emin y")
  case True
  have "0 < y" using assms by simp
  have "x / 2 powi (qexp p emin y) \<le> y / 2 powi (qexp p emin y)"
    using assms by (simp add: divide_right_mono)
  from rne_mono [OF this] show ?thesis using assms \<open>0 < y\<close> True by (simp add: rnd_pos)
next
  case False
  have "0 < y" using assms by simp
  have lt: "qexp p emin x < qexp p emin y" using False qexp_mono [OF assms(1,2), of p emin] by simp
  let ?e = "ilog2 y"
  have qy: "qexp p emin y = ?e - (p - 1)" and xe: "ilog2 x < ?e"
    using lt by (auto simp: qexp_def max_def split: if_splits)
  have "emin \<le> ?e" using lt qy \<open>0 < p\<close> by (simp add: qexp_def)
  have qx: "qexp p emin x \<le> ?e" using lt qy \<open>0 < p\<close> by simp
  have pw: "(2::rat) powi ?e = of_int (2 ^ nat (?e - qexp p emin x)) * 2 powi (qexp p emin x)"
    using qx by (simp flip: powi_nat powi_add2)
  have "x < 2 powi (ilog2 x + 1)" using assms(1) by (rule ilog2_bounds)
  also have "\<dots> \<le> 2 powi ?e" using xe by (intro powi_mono) simp
  finally have "rnd p emin x \<le> 2 powi ?e"
    using rnd_le_multiple [OF assms(1)] by (simp only: pw less_imp_le)
  also have "2 powi ?e \<le> rnd p emin y"
  proof -
    have pw: "(2::rat) powi ?e = of_int (2 ^ nat (p - 1)) * 2 powi (qexp p emin y)"
      using \<open>0 < p\<close> qy by (simp flip: powi_nat powi_add2)
    have "2 powi ?e \<le> y" using \<open>0 < y\<close> by (rule ilog2_bounds)
    then have "of_int (2 ^ nat (p - 1)) \<le> y / 2 powi (qexp p emin y)"
      unfolding pw by (simp add: le_divide_eq)
    from rne_ge [OF this] have "(of_int (2 ^ nat (p - 1)) :: rat) \<le>
        of_int (rne (y / 2 powi (qexp p emin y)))" by (simp only: of_int_le_iff)
    then show ?thesis unfolding pw using \<open>0 < y\<close> by (simp only: rnd_pos) simp
  qed
  finally show ?thesis .
qed

lemma rnd_mono: "x \<le> y \<Longrightarrow> 0 < p \<Longrightarrow> rnd p emin x \<le> rnd p emin y"
proof -
  assume le: "x \<le> y" and p: "0 < p"
  consider "0 < x" | "x \<le> 0" "0 \<le> y" | "y < 0" using le by linarith
  then show ?thesis
  proof cases
    case 1
    then show ?thesis using le p by (rule rnd_mono_pos)
  next
    case 2
    then have "0 \<le> rnd p emin (- x)" "0 \<le> rnd p emin y" by (simp_all only: rnd_nonneg neg_0_le_iff_le)
    then show ?thesis by simp
  next
    case 3
    then have "rnd p emin (- y) \<le> rnd p emin (- x)" using le p by (intro rnd_mono_pos) auto
    then show ?thesis by simp
  qed
qed

lemma scaled_less:
  assumes "0 < x"
  shows "x / 2 powi (qexp p emin x) < 2 powi p"
proof -
  have "x < 2 powi (ilog2 x + 1)" using assms by (rule ilog2_bounds)
  also have "\<dots> \<le> 2 powi (p + qexp p emin x)" by (intro powi_mono) (simp add: qexp_def)
  finally show ?thesis by (simp add: divide_less_eq powi_add2)
qed

lemma scaled_ge:
  assumes "0 < x" and "emin < qexp p emin x"
  shows "2 powi (p - 1) \<le> x / 2 powi (qexp p emin x)"
proof -
  have "ilog2 x = p - 1 + qexp p emin x" using assms(2) by (auto simp: qexp_def max_def)
  then have "2 powi (p - 1 + qexp p emin x) \<le> x" using ilog2_bounds(1) [OF assms(1)] by simp
  then show ?thesis by (simp add: le_divide_eq powi_add2)
qed

lemma rne_scaled_bounds:
  assumes "0 < x" and "0 < p"
  shows "0 \<le> rne (x / 2 powi (qexp p emin x))"
    and "rne (x / 2 powi (qexp p emin x)) \<le> 2 ^ nat p"
proof -
  show "0 \<le> rne (x / 2 powi (qexp p emin x))" using assms by (intro rne_ge) simp
  show "rne (x / 2 powi (qexp p emin x)) \<le> 2 ^ nat p"
    using scaled_less [OF assms(1), of p emin] assms(2) by (intro rne_le) (simp add: powi_nat)
qed

lemma rnd_representable_pos:
  assumes "0 < x" and "0 < p"
  shows "representable p emin (rnd p emin x)"
proof -
  let ?q = "qexp p emin x" and ?m = "rne (x / 2 powi (qexp p emin x))"
  note b = rne_scaled_bounds [OF assms, of emin]
  have q: "emin \<le> ?q" by (simp add: qexp_def)
  show ?thesis
  proof (cases "?m = 2 ^ nat p")
    case True
    have "2 ^ nat p = (2 :: int) ^ nat (p - 1) * 2"
      using assms(2) by (simp flip: power_Suc2 add: Suc_nat_eq_nat_zadd1)
    with True have "rnd p emin x = of_int (2 ^ nat (p - 1)) * 2 powi (?q + 1)"
      using assms(1) by (simp add: rnd_pos powi_Suc)
    moreover have "\<bar>2 ^ nat (p - 1) :: int\<bar> < 2 ^ nat p" using assms(2) by simp
    moreover have "emin \<le> ?q + 1" using q by simp
    ultimately show ?thesis unfolding representable_def by blast
  next
    case False
    then have "\<bar>?m\<bar> < 2 ^ nat p" using b by simp
    then show ?thesis unfolding representable_def using q rnd_pos [OF assms(1)] by blast
  qed
qed

lemma representable_0 [simp]: "representable p emin 0"
proof -
  have "\<bar>0 :: int\<bar> < 2 ^ nat p \<and> emin \<le> emin \<and> (0 :: rat) = of_int 0 * 2 powi emin" by simp
  then show ?thesis unfolding representable_def by blast
qed

lemma rnd_representable: "0 < p \<Longrightarrow> representable p emin (rnd p emin x)"
proof (cases x "0 :: rat" rule: linorder_cases)
  case less
  assume "0 < p"
  with less have "representable p emin (rnd p emin (- x))" by (intro rnd_representable_pos) auto
  then show ?thesis using representable_minus by fastforce
qed (simp_all add: rnd_representable_pos)

text \<open>Integers up to \<open>2 ^ p\<close> are exact.\<close>

lemma of_int_representable:
  assumes "\<bar>n\<bar> \<le> 2 ^ nat p" and "emin \<le> 0" and "0 < p"
  shows "representable p emin (of_int n)"
proof (cases "\<bar>n\<bar> = 2 ^ nat p")
  case False
  then have "\<bar>n\<bar> < 2 ^ nat p \<and> emin \<le> 0 \<and> (of_int n :: rat) = of_int n * 2 powi 0"
    using assms by simp
  then show ?thesis unfolding representable_def by blast
next
  case True
  then have "n = 2 ^ nat p \<or> n = - (2 ^ nat p)" by auto
  moreover have "(2 :: rat) ^ nat p = 2 powi p" using assms(3) by (simp add: powi_nat)
  moreover have "representable p emin (2 powi p)" using assms by (intro powi_representable) auto
  ultimately show ?thesis using representable_minus by auto
qed

section \<open>What the numeric code relies on\<close>

text \<open>The contract of a rounding: the facts the profile and timer computations are proved from.\<close>

locale rounding =
  fixes fl :: "rat \<Rightarrow> rat" and rep :: "rat \<Rightarrow> bool"
  assumes fl_mono: "x \<le> y \<Longrightarrow> fl x \<le> fl y"
    and fl_rep: "rep x \<Longrightarrow> fl x = x"
    and rep_fl: "rep (fl x)"
    and fl_minus: "fl (- x) = - fl x"
begin

lemma fl_0 [simp]: "fl 0 = 0"
  using fl_minus [of 0] by simp

lemma fl_ge: "rep a \<Longrightarrow> a \<le> x \<Longrightarrow> a \<le> fl x"
  using fl_mono [of a x] fl_rep [of a] by simp

lemma fl_le: "rep a \<Longrightarrow> x \<le> a \<Longrightarrow> fl x \<le> a"
  using fl_mono [of x a] fl_rep [of a] by simp

lemma fl_nonneg: "0 \<le> x \<Longrightarrow> 0 \<le> fl x"
  using fl_mono [of 0 x] by simp

lemma fl_add_ge: "rep x \<Longrightarrow> 0 \<le> d \<Longrightarrow> x \<le> fl (x + d)"
  by (rule fl_ge) auto

lemma fl_sub_le: "rep x \<Longrightarrow> 0 \<le> d \<Longrightarrow> fl (x - d) \<le> x"
  by (rule fl_le) auto

text \<open>
  Truncating a rounded value gives the exact floor, provided some representable number
  separates the exact value from the next integer.
\<close>

lemma fl_floor:
  assumes "rep (of_int n)" and "of_int n \<le> x" and "rep c" and "x \<le> c" and "c < of_int n + 1"
  shows "\<lfloor>fl x\<rfloor> = n"
  using fl_ge [OF assms(1,2)] fl_le [OF assms(3,4)] assms(5) by (simp add: floor_eq_iff)

end

interpretation b32: rounding "rnd 24 (-149)" "representable 24 (-149)"
  by unfold_locales (auto intro: rnd_mono rnd_fix rnd_representable)

interpretation b64: rounding "rnd 53 (-1074)" "representable 53 (-1074)"
  by unfold_locales (auto intro: rnd_mono rnd_fix rnd_representable)

end
