(* ===== verification/Float32.thy ===== *)
theory Float32
  imports Float_Round
begin

text \<open>
  The C type \<open>float\<close>: IEEE binary32 bit patterns, as they lie in the settings record in Flash,
  with the arithmetic, comparisons and conversions the firmware uses. Conversions to an integer
  type are \<open>None\<close> where C leaves the result undefined. The one \<open>double\<close> expression of the
  firmware (the timer reload value) is computed on exact values of binary64.
\<close>

type_synonym f32 = u32

abbreviation fl32 :: "rat \<Rightarrow> rat" where "fl32 \<equiv> rnd 24 (-149)"
abbreviation rep32 :: "rat \<Rightarrow> bool" where "rep32 \<equiv> representable 24 (-149)"
abbreviation fl64 :: "rat \<Rightarrow> rat" where "fl64 \<equiv> rnd 53 (-1074)"

section \<open>Bit patterns and values\<close>

definition f32_neg :: "f32 \<Rightarrow> bool" where
  "f32_neg w \<longleftrightarrow> bit w 31"

definition f32_mag :: "f32 \<Rightarrow> int" where
  "f32_mag w = uint (take_bit 31 w)"

definition inf_mag :: int where
  "inf_mag = 255 * 2 ^ 23"

definition f32_nan :: "f32 \<Rightarrow> bool" where
  "f32_nan w \<longleftrightarrow> inf_mag < f32_mag w"

definition f32_inf :: "f32 \<Rightarrow> bool" where
  "f32_inf w \<longleftrightarrow> f32_mag w = inf_mag"

definition f32_finite :: "f32 \<Rightarrow> bool" where
  "f32_finite w \<longleftrightarrow> f32_mag w < inf_mag"

definition mag_val :: "int \<Rightarrow> rat" where
  "mag_val n =
     (let e = n div 2 ^ 23; m = n mod 2 ^ 23
      in if e = 0 then of_int m * 2 powi (- 149) else of_int (2 ^ 23 + m) * 2 powi (e - 150))"

definition f32_val :: "f32 \<Rightarrow> rat" where
  "f32_val w = (if f32_neg w then - mag_val (f32_mag w) else mag_val (f32_mag w))"

definition f32_make :: "bool \<Rightarrow> int \<Rightarrow> f32" where
  "f32_make s n = word_of_int ((if s then 2 ^ 31 else 0) + n)"

text \<open>
  The magnitude field of the rounded value: exponent and fraction side by side, so that a
  carry out of the fraction moves to the next exponent and overflow lands on infinity.
\<close>

definition enc_mag :: "rat \<Rightarrow> int" where
  "enc_mag x =
     (let q = qexp 24 (- 149) x
      in min inf_mag ((q + 149) * 2 ^ 23 + rne (x / 2 powi q)))"

text \<open>Rounding an exact result to a bit pattern; \<open>z\<close> is the sign a zero result gets.\<close>

definition f32_round :: "bool \<Rightarrow> rat \<Rightarrow> f32" where
  "f32_round z x = (if x = 0 then f32_make z 0 else f32_make (x < 0) (enc_mag \<bar>x\<bar>))"

definition f32_qnan :: f32 where
  "f32_qnan = 0x7FC00000"

section \<open>Operations\<close>

definition f32_minus :: "f32 \<Rightarrow> f32" where
  "f32_minus w = w XOR 0x80000000"

definition f32_add :: "f32 \<Rightarrow> f32 \<Rightarrow> f32" where
  "f32_add a b =
     (if f32_nan a \<or> f32_nan b then f32_qnan
      else if f32_inf a then (if f32_inf b \<and> f32_neg a \<noteq> f32_neg b then f32_qnan else a)
      else if f32_inf b then b
      else f32_round (f32_neg a \<and> f32_neg b) (f32_val a + f32_val b))"

definition f32_sub :: "f32 \<Rightarrow> f32 \<Rightarrow> f32" where
  "f32_sub a b = (if f32_nan b then f32_qnan else f32_add a (f32_minus b))"

definition f32_mul :: "f32 \<Rightarrow> f32 \<Rightarrow> f32" where
  "f32_mul a b =
     (let s = (f32_neg a \<noteq> f32_neg b)
      in if f32_nan a \<or> f32_nan b then f32_qnan
         else if f32_inf a \<or> f32_inf b
           then (if f32_mag a = 0 \<or> f32_mag b = 0 then f32_qnan else f32_make s inf_mag)
         else f32_round s (f32_val a * f32_val b))"

definition f32_div :: "f32 \<Rightarrow> f32 \<Rightarrow> f32" where
  "f32_div a b =
     (let s = (f32_neg a \<noteq> f32_neg b)
      in if f32_nan a \<or> f32_nan b then f32_qnan
         else if f32_inf a then (if f32_inf b then f32_qnan else f32_make s inf_mag)
         else if f32_inf b then f32_make s 0
         else if f32_mag b = 0
           then (if f32_mag a = 0 then f32_qnan else f32_make s inf_mag)
         else f32_round s (f32_val a / f32_val b))"

text \<open>Comparisons with a NaN are false.\<close>

definition f32_lt :: "f32 \<Rightarrow> f32 \<Rightarrow> bool" where
  "f32_lt a b =
     (if f32_nan a \<or> f32_nan b then False
      else if f32_inf a then f32_neg a \<and> \<not> (f32_inf b \<and> f32_neg b)
      else if f32_inf b then \<not> f32_neg b
      else f32_val a < f32_val b)"

definition f32_le :: "f32 \<Rightarrow> f32 \<Rightarrow> bool" where
  "f32_le a b =
     (if f32_nan a \<or> f32_nan b then False
      else if f32_inf a then f32_neg a \<or> (f32_inf b \<and> \<not> f32_neg b)
      else if f32_inf b then \<not> f32_neg b
      else f32_val a \<le> f32_val b)"

section \<open>Conversions\<close>

text \<open>A decimal literal, and a conversion from an unsigned integer.\<close>

definition f32_lit :: "rat \<Rightarrow> f32" where
  "f32_lit x = f32_round False x"

definition f32_of_u32 :: "u32 \<Rightarrow> f32" where
  "f32_of_u32 w = f32_round False (of_int (uint w))"

definition f32_of_u16 :: "u16 \<Rightarrow> f32" where
  "f32_of_u16 w = f32_round False (of_int (uint w))"

definition trunc :: "rat \<Rightarrow> int" where
  "trunc x = (if 0 \<le> x then \<lfloor>x\<rfloor> else \<lceil>x\<rceil>)"

definition f32_to_u32 :: "f32 \<Rightarrow> u32 option" where
  "f32_to_u32 w =
     (if f32_finite w \<and> 0 \<le> trunc (f32_val w) \<and> trunc (f32_val w) < 2 ^ 32
      then Some (word_of_int (trunc (f32_val w))) else None)"

definition f32_to_u16 :: "f32 \<Rightarrow> u16 option" where
  "f32_to_u16 w =
     (if f32_finite w \<and> 0 \<le> trunc (f32_val w) \<and> trunc (f32_val w) < 2 ^ 16
      then Some (word_of_int (trunc (f32_val w))) else None)"

section \<open>Values of rounded results\<close>

lemma inf_mag_eq: "inf_mag = 2139095040"
  by (simp add: inf_mag_def)

lemma uint_of_int32: "0 \<le> k \<Longrightarrow> k < 2 ^ 32 \<Longrightarrow> uint (word_of_int k :: u32) = k"
  by (simp add: unsigned_of_int take_bit_int_eq_self)

lemma f32_make_fields:
  assumes "0 \<le> n" and "n < 2 ^ 31"
  shows "f32_mag (f32_make s n) = n" and "f32_neg (f32_make s n) = s"
proof -
  have b: "0 \<le> (if s then 2 ^ 31 else 0) + n" "(if s then 2 ^ 31 else 0) + n < 2 ^ 32"
    using assms by auto
  have u: "uint (f32_make s n) = (if s then 2 ^ 31 else 0) + n"
    unfolding f32_make_def using b by (rule uint_of_int32)
  have "f32_mag (f32_make s n) = take_bit 31 (uint (f32_make s n))"
    by (simp add: f32_mag_def unsigned_take_bit_eq)
  then show "f32_mag (f32_make s n) = n"
    using assms u by (auto simp: take_bit_eq_mod)
  have "f32_neg (f32_make s n) = bit (uint (f32_make s n)) 31"
    by (simp add: f32_neg_def bit_uint_iff)
  then have "f32_neg (f32_make s n) = odd (uint (f32_make s n) div 2 ^ 31)"
    by (simp only: bit_iff_odd)
  then show "f32_neg (f32_make s n) = s" using assms u by auto
qed

lemma enc_mag_bounds: "0 < x \<Longrightarrow> 0 \<le> enc_mag x" "enc_mag x \<le> inf_mag"
proof -
  show "enc_mag x \<le> inf_mag" by (simp add: enc_mag_def Let_def)
  assume "0 < x"
  then have "0 \<le> rne (x / 2 powi (qexp 24 (- 149) x))" by (rule rne_scaled_bounds) simp
  moreover have "- 149 \<le> qexp 24 (- 149) x" by (simp add: qexp_def)
  ultimately show "0 \<le> enc_mag x" by (simp add: enc_mag_def Let_def inf_mag_def)
qed

lemma enc_mag_less: "enc_mag x < 2 ^ 31"
  using enc_mag_bounds(2) [of x] by (simp add: inf_mag_def)

text \<open>Decoding undoes the side-by-side encoding of exponent and significand.\<close>

lemma mag_val_encode:
  assumes "0 \<le> m" and "m \<le> 2 ^ 24" and "- 149 \<le> q" and "- 149 < q \<Longrightarrow> 2 ^ 23 \<le> m"
  shows "mag_val ((q + 149) * 2 ^ 23 + m) = of_int m * 2 powi q"
proof -
  let ?n = "(q + 149) * 2 ^ 23 + m"
  consider (full) "m = 2 ^ 24" | (normal) "2 ^ 23 \<le> m" "m < 2 ^ 24" | (sub) "m < 2 ^ 23" "q = - 149"
    using assms by (cases "q = - 149"; force)
  then show ?thesis
  proof cases
    case full
    then have "?n = (q + 151) * 2 ^ 23" by simp
    then have "?n div 2 ^ 23 = q + 151" "?n mod 2 ^ 23 = 0" by simp_all
    then have "mag_val ?n = of_int (2 ^ 23) * 2 powi (q + 151 - 150)"
      using assms(3) unfolding mag_val_def Let_def by simp
    also have "q + 151 - 150 = q + 1" by simp
    finally show ?thesis unfolding powi_Suc using full by simp
  next
    case normal
    have n: "?n = 2 ^ 23 * (q + 150) + (m - 2 ^ 23)" and r: "0 \<le> m - 2 ^ 23" "m - 2 ^ 23 < 2 ^ 23"
      using normal by simp_all
    note int_div_pos_eq [OF n r] int_mod_pos_eq [OF n r]
    then show ?thesis using assms(3) by (simp add: mag_val_def)
  next
    case sub
    then have "?n div 2 ^ 23 = 0" "?n mod 2 ^ 23 = m" using assms(1) by simp_all
    then show ?thesis using sub by (simp add: mag_val_def)
  qed
qed

lemma mag_no_overflow:
  assumes m: "0 \<le> m" "m \<le> 2 ^ 24" and q: "- 149 \<le> q" "- 149 < q \<Longrightarrow> 2 ^ 23 \<le> m"
    and lt: "of_int m * (2::rat) powi q < 2 powi 128"
  shows "(q + 149) * 2 ^ 23 + m < inf_mag"
proof (rule ccontr)
  assume "\<not> ?thesis"
  then have ge: "255 * 2 ^ 23 \<le> (q + 149) * 2 ^ 23 + m" by (simp only: inf_mag_def not_less)
  then have "104 \<le> q" using m by simp
  then have "2 ^ 23 \<le> m" by (intro q(2)) simp
  then have m23: "(2::rat) ^ 23 \<le> of_int m"
    by (metis of_int_le_iff of_int_numeral of_int_power)
  have "(2::rat) powi 128 \<le> of_int m * 2 powi q"
  proof (cases "105 \<le> q")
    case True
    have "(2::rat) powi 128 = 2 powi 23 * 2 powi 105" by (simp flip: powi_add2)
    also have "\<dots> \<le> of_int m * 2 powi q"
      using m23 True by (intro mult_mono powi_mono) (simp_all add: powi_nat)
    finally show ?thesis .
  next
    case False
    with \<open>104 \<le> q\<close> have "q = 104" by simp
    with ge m have "m = 2 ^ 24" by simp
    then have "of_int m = (2::rat) powi 24" by (simp add: powi_nat)
    with \<open>q = 104\<close> show ?thesis by (simp flip: powi_add2)
  qed
  with lt show False by simp
qed

lemma mag_val_enc:
  assumes "0 < x" and "fl32 x < 2 powi 128"
  shows "mag_val (enc_mag x) = fl32 x" and "enc_mag x < inf_mag"
proof -
  let ?q = "qexp 24 (- 149) x"
  let ?m = "rne (x / 2 powi ?q)"
  have m: "0 \<le> ?m" "?m \<le> 2 ^ 24" using rne_scaled_bounds [OF assms(1), of 24 "- 149"] by simp_all
  have q: "- 149 \<le> ?q" by (simp add: qexp_def)
  have norm: "2 ^ 23 \<le> ?m" if "- 149 < ?q"
    using scaled_ge [OF assms(1) that] by (intro rne_ge) (simp add: powi_nat)
  have val: "fl32 x = of_int ?m * 2 powi ?q" using assms(1) by (rule rnd_pos)
  have "(?q + 149) * 2 ^ 23 + ?m < inf_mag"
    using assms(2) unfolding val by (intro mag_no_overflow m q norm)
  then have e: "enc_mag x = (?q + 149) * 2 ^ 23 + ?m" and "enc_mag x < inf_mag"
    by (simp_all add: enc_mag_def Let_def)
  then show "enc_mag x < inf_mag" by simp
  show "mag_val (enc_mag x) = fl32 x"
    unfolding e val using m q norm by (rule mag_val_encode)
qed

lemma mag_val_0 [simp]: "mag_val 0 = 0"
  by (simp add: mag_val_def)

definition fits32 :: "rat \<Rightarrow> bool" where
  "fits32 x \<longleftrightarrow> \<bar>fl32 x\<bar> < 2 powi 128"

lemma fl32_abs: "fl32 \<bar>x\<bar> = \<bar>fl32 x\<bar>"
proof (cases "0 \<le> x")
  case True
  then show ?thesis by (simp add: rnd_nonneg)
next
  case False
  then have "0 \<le> fl32 (- x)" by (intro rnd_nonneg) simp
  then show ?thesis using False by simp
qed

lemma f32_round_val:
  assumes "fits32 x"
  shows "f32_val (f32_round z x) = fl32 x" and "f32_finite (f32_round z x)"
proof (atomize (full), cases "x = 0")
  case True
  then show "f32_val (f32_round z x) = fl32 x \<and> f32_finite (f32_round z x)"
    by (simp add: f32_round_def f32_val_def f32_finite_def f32_make_fields inf_mag_def)
next
  case False
  then have pos: "0 < \<bar>x\<bar>" and lt: "fl32 \<bar>x\<bar> < 2 powi 128"
    using assms by (simp_all add: fits32_def fl32_abs)
  note e = mag_val_enc [OF pos lt] and b = enc_mag_bounds(1) [OF pos] enc_mag_less [of "\<bar>x\<bar>"]
  have sgn: "(if x < 0 then - fl32 \<bar>x\<bar> else fl32 \<bar>x\<bar>) = fl32 x" by simp
  have "f32_val (f32_round z x) = (if x < 0 then - mag_val (enc_mag \<bar>x\<bar>) else mag_val (enc_mag \<bar>x\<bar>))"
    "f32_mag (f32_round z x) = enc_mag \<bar>x\<bar>"
    using False b by (simp_all only: f32_round_def f32_val_def f32_make_fields if_False)
  then show "f32_val (f32_round z x) = fl32 x \<and> f32_finite (f32_round z x)"
    using e by (simp only: sgn f32_finite_def)
qed

text \<open>Everything up to \<open>2 ^ 127\<close> in magnitude fits.\<close>

lemma fits32_bound:
  assumes "\<bar>x\<bar> \<le> 2 powi 127"
  shows "fits32 x"
proof -
  have "fl32 \<bar>x\<bar> \<le> 2 powi 127"
    using assms by (intro b32.fl_le powi_representable) auto
  then have "\<bar>fl32 x\<bar> \<le> 2 powi 127" by (simp only: fl32_abs)
  also have "(2::rat) powi 127 < 2 powi 128" by (simp only: powi_less_iff)
  finally show ?thesis by (simp add: fits32_def)
qed

section \<open>Finite values are representable\<close>

lemma f32_mag_nonneg [simp]: "0 \<le> f32_mag w"
  by (simp add: f32_mag_def)

lemma mag_val_nonneg: "0 \<le> n \<Longrightarrow> 0 \<le> mag_val n"
  by (simp add: mag_val_def Let_def)

lemma mag_val_representable:
  assumes "0 \<le> n"
  shows "rep32 (mag_val n)"
proof -
  let ?e = "n div 2 ^ 23" and ?m = "n mod 2 ^ 23"
  have m: "0 \<le> ?m" "?m < 2 ^ 23" by simp_all
  have e: "0 \<le> ?e" using assms by simp
  show ?thesis
  proof (cases "?e = 0")
    case True
    then have "mag_val n = of_int ?m * 2 powi (- 149)" unfolding mag_val_def Let_def by simp
    moreover have "\<bar>?m\<bar> < 2 ^ nat 24" using m by simp
    ultimately show ?thesis unfolding representable_def by blast
  next
    case False
    then have "mag_val n = of_int (2 ^ 23 + ?m) * 2 powi (?e - 150)"
      unfolding mag_val_def Let_def by simp
    moreover have "\<bar>2 ^ 23 + ?m\<bar> < 2 ^ nat 24" using m by simp
    moreover have "- 149 \<le> ?e - 150" using False e by linarith
    ultimately show ?thesis unfolding representable_def by blast
  qed
qed

lemma f32_val_rep [simp]: "rep32 (f32_val w)"
  by (simp add: f32_val_def mag_val_representable representable_minus)

lemma fl32_val [simp]: "fl32 (f32_val w) = f32_val w"
  by (rule b32.fl_rep) simp

lemma f32_finite_simps [simp]:
  "f32_finite w \<Longrightarrow> \<not> f32_nan w" "f32_finite w \<Longrightarrow> \<not> f32_inf w"
  by (simp_all add: f32_finite_def f32_nan_def f32_inf_def)

lemma f32_val_0: "f32_mag w = 0 \<Longrightarrow> f32_val w = 0"
  by (simp add: f32_val_def)

section \<open>Exact results on finite operands\<close>

lemma f32_minus_fields:
  "f32_mag (f32_minus w) = f32_mag w" "f32_neg (f32_minus w) \<longleftrightarrow> \<not> f32_neg w"
proof -
  have m: "(0x80000000 :: f32) = push_bit 31 1" by simp
  have "take_bit 31 (f32_minus w) = take_bit 31 w"
    by (rule bit_word_eqI) (auto simp: f32_minus_def m bit_simps simp del: push_bit_of_1)
  then show "f32_mag (f32_minus w) = f32_mag w" by (simp add: f32_mag_def)
  show "f32_neg (f32_minus w) \<longleftrightarrow> \<not> f32_neg w"
    by (simp add: f32_neg_def f32_minus_def bit_xor_iff)
qed

lemma f32_minus_val [simp]:
  "f32_val (f32_minus w) = - f32_val w" "f32_finite (f32_minus w) = f32_finite w"
  by (simp_all add: f32_val_def f32_finite_def f32_minus_fields)

lemma f32_add_val:
  assumes "f32_finite a" "f32_finite b" "fits32 (f32_val a + f32_val b)"
  shows "f32_val (f32_add a b) = fl32 (f32_val a + f32_val b)" "f32_finite (f32_add a b)"
  using assms by (simp_all add: f32_add_def f32_round_val)

lemma f32_sub_val:
  assumes "f32_finite a" "f32_finite b" "fits32 (f32_val a - f32_val b)"
  shows "f32_val (f32_sub a b) = fl32 (f32_val a - f32_val b)" "f32_finite (f32_sub a b)"
  using assms f32_add_val [of a "f32_minus b"] by (simp_all add: f32_sub_def)

lemma f32_mul_val:
  assumes "f32_finite a" "f32_finite b" "fits32 (f32_val a * f32_val b)"
  shows "f32_val (f32_mul a b) = fl32 (f32_val a * f32_val b)" "f32_finite (f32_mul a b)"
  using assms by (simp_all add: f32_mul_def Let_def f32_round_val)

lemma f32_div_val:
  assumes "f32_finite a" "f32_finite b" "f32_val b \<noteq> 0" "fits32 (f32_val a / f32_val b)"
  shows "f32_val (f32_div a b) = fl32 (f32_val a / f32_val b)" "f32_finite (f32_div a b)"
proof -
  have "f32_mag b \<noteq> 0" using assms(3) f32_val_0 by blast
  then show "f32_val (f32_div a b) = fl32 (f32_val a / f32_val b)" "f32_finite (f32_div a b)"
    using assms by (simp_all add: f32_div_def Let_def f32_round_val)
qed

lemma f32_le_val: "f32_finite a \<Longrightarrow> f32_finite b \<Longrightarrow> f32_le a b \<longleftrightarrow> f32_val a \<le> f32_val b"
  by (simp add: f32_le_def)

lemma f32_lt_val: "f32_finite a \<Longrightarrow> f32_finite b \<Longrightarrow> f32_lt a b \<longleftrightarrow> f32_val a < f32_val b"
  by (simp add: f32_lt_def)

lemma f32_of_u16_val:
  "f32_val (f32_of_u16 w) = of_int (uint w)" "f32_finite (f32_of_u16 w)"
proof -
  have b: "uint w < 2 ^ 16" by (rule order.strict_trans2 [OF uint_lt2p]) simp
  then have r: "rep32 (of_int (uint w))" by (intro of_int_representable) auto
  have "(of_int (uint w) :: rat) \<le> of_int (2 ^ 16)" using b by (simp only: of_int_le_iff)
  also have "\<dots> \<le> 2 powi 127" by (simp add: powi_nat)
  finally have "\<bar>of_int (uint w) :: rat\<bar> \<le> 2 powi 127" by (simp only: abs_of_nonneg of_int_0_le_iff uint_ge_0)
  then have "fits32 (of_int (uint w))" by (rule fits32_bound)
  then show "f32_val (f32_of_u16 w) = of_int (uint w)" "f32_finite (f32_of_u16 w)"
    using b32.fl_rep [OF r] by (simp_all add: f32_of_u16_def f32_round_val)
qed

lemma f32_to_u32_Some:
  assumes "f32_finite w" "0 \<le> f32_val w" "f32_val w < 2 ^ 32"
  shows "f32_to_u32 w = Some (word_of_int \<lfloor>f32_val w\<rfloor>)"
  using assms by (simp add: f32_to_u32_def trunc_def floor_less_iff)

lemma f32_to_u16_Some:
  assumes "f32_finite w" "0 \<le> f32_val w" "f32_val w < 2 ^ 16"
  shows "f32_to_u16 w = Some (word_of_int \<lfloor>f32_val w\<rfloor>)"
  using assms by (simp add: f32_to_u16_def trunc_def floor_less_iff)

section \<open>Literals of the code\<close>

lemma f32_small_lit:
  assumes "\<bar>n\<bar> \<le> 2 ^ 24"
  shows "f32_val (f32_lit (of_int n)) = of_int n" and "f32_finite (f32_lit (of_int n))"
proof -
  have r: "rep32 (of_int n)" using assms by (intro of_int_representable) auto
  have "\<bar>of_int n :: rat\<bar> = of_int \<bar>n\<bar>" by simp
  also have "\<dots> \<le> of_int (2 ^ 24)" using assms by (simp only: of_int_le_iff)
  also have "\<dots> \<le> 2 powi 127" by (simp add: powi_nat)
  finally have "fits32 (of_int n)" by (rule fits32_bound)
  then show "f32_val (f32_lit (of_int n)) = of_int n" "f32_finite (f32_lit (of_int n))"
    using b32.fl_rep [OF r] by (simp_all add: f32_lit_def f32_round_val)
qed

lemma f32_lits [simp]:
  "f32_val (f32_lit 0) = 0" "f32_val (f32_lit 2) = 2" "f32_val (f32_lit 3) = 3"
  "f32_val (f32_lit 10) = 10" "f32_val (f32_lit 60) = 60" "f32_val (f32_lit 100) = 100"
  "f32_val (f32_lit 200) = 200" "f32_val (f32_lit 1000) = 1000"
  "f32_finite (f32_lit 0)" "f32_finite (f32_lit 2)" "f32_finite (f32_lit 3)"
  "f32_finite (f32_lit 10)" "f32_finite (f32_lit 60)" "f32_finite (f32_lit 100)"
  "f32_finite (f32_lit 200)" "f32_finite (f32_lit 1000)"
  using f32_small_lit [of 0] f32_small_lit [of 2] f32_small_lit [of 3] f32_small_lit [of 10]
    f32_small_lit [of 60] f32_small_lit [of 100] f32_small_lit [of 200] f32_small_lit [of 1000]
  by simp_all

lemma f32_tenth: "f32_lit (1 / 10) = 0x3DCCCCCD"
  by code_simp

lemma f32_milli: "f32_lit (1 / 1000) = 0x3A83126F"
  by code_simp

lemma f32_tenth_val [simp]:
  "f32_val (f32_lit (1 / 10)) = 13421773 / 2 ^ 27" "f32_finite (f32_lit (1 / 10))"
  unfolding f32_tenth by code_simp+

lemma f32_milli_val [simp]:
  "f32_val (f32_lit (1 / 1000)) = 8589935 / 2 ^ 33" "f32_finite (f32_lit (1 / 1000))"
  unfolding f32_milli by code_simp+

text \<open>A generous bound under which no operation of the firmware overflows.\<close>

lemma fits32_mil: "\<bar>x\<bar> \<le> 10 ^ 30 \<Longrightarrow> fits32 x"
proof (rule fits32_bound)
  assume "\<bar>x\<bar> \<le> 10 ^ 30"
  also have "(10 :: rat) ^ 30 \<le> 2 powi 127" by (simp add: powi_nat)
  finally show "\<bar>x\<bar> \<le> 2 powi 127" .
qed

lemma fl32_numeral_le: "x \<le> of_int n \<Longrightarrow> \<bar>n\<bar> \<le> 2 ^ 24 \<Longrightarrow> fl32 x \<le> of_int n"
  by (rule b32.fl_le) (auto intro: of_int_representable)

lemma fl32_numeral_ge: "of_int n \<le> x \<Longrightarrow> \<bar>n\<bar> \<le> 2 ^ 24 \<Longrightarrow> of_int n \<le> fl32 x"
  by (rule b32.fl_ge) (auto intro: of_int_representable)

text \<open>The rational value of a 16-bit integer.\<close>

definition rat16 :: "u16 \<Rightarrow> rat" where
  "rat16 w = of_int (uint w)"

lemma f32_of_u16_rat16 [simp]: "f32_val (f32_of_u16 w) = rat16 w" "f32_finite (f32_of_u16 w)"
  by (simp_all only: f32_of_u16_val rat16_def)

lemma rat16_bounds [simp]: "0 \<le> rat16 w" "rat16 w \<le> 65535"
proof -
  show "0 \<le> rat16 w" by (simp only: rat16_def of_int_0_le_iff uint_ge_0)
  have "uint w < 2 ^ 16" by (rule order.strict_trans2 [OF uint_lt2p]) simp
  then have "rat16 w \<le> of_int 65535" unfolding rat16_def by (simp only: of_int_le_iff) simp
  then show "rat16 w \<le> 65535" by simp
qed

end
