(* ===== verification/Hal_Motor.thy ===== *)
theory Hal_Motor
  imports Hal Float32
begin

text \<open>
  \<open>hal/hal_motor.c\<close>: the step, direction and enable pins and the pulse timer TIM2, with the
  reload value of the timer computed from a frequency.
\<close>

definition STEP_PIN :: u16 where "STEP_PIN = GPIO_PIN 10"
definition DIR_PIN :: u16 where "DIR_PIN = GPIO_PIN 6"
definition EN_PIN :: u16 where "EN_PIN = GPIO_PIN 5"

text \<open>\<open>TIM_CHANNEL_3\<close> is channel 3 of TIM2.\<close>

abbreviation STEP_CHANNEL :: nat where "STEP_CHANNEL \<equiv> 3"

definition HAL_Motor_Enable :: "bool \<Rightarrow> hal_call list" where
  "HAL_Motor_Enable state =
     (if state then [HAL_GPIO_WritePin GPIOB EN_PIN True]
      else [HAL_GPIO_WritePin GPIOB EN_PIN False])"

definition HAL_Motor_SetDirection :: "u8 \<Rightarrow> hal_call list" where
  "HAL_Motor_SetDirection dir = [HAL_GPIO_WritePin GPIOA DIR_PIN (dir \<noteq> 0)]"

text \<open>
  Conversion of a \<open>double\<close> to \<open>uint32_t\<close>; undefined outside the range of the type. The
  reload value is \<open>(TIM2_BASE_FREQ_HZ / freqHz) - 1\<close>, two \<open>double\<close> operations.
\<close>

definition f64_to_u32 :: "rat \<Rightarrow> u32 option" where
  "f64_to_u32 x =
     (if 0 \<le> trunc x \<and> trunc x < 2 ^ 32 then Some (word_of_int (trunc x)) else None)"

definition TIM2_BASE_FREQ_HZ :: rat where "TIM2_BASE_FREQ_HZ = 84000000"

definition HAL_Motor_SetFrequency :: "u32 \<Rightarrow> hal_call list option" where
  "HAL_Motor_SetFrequency freqHz =
     (if freqHz = 0 then Some []
      else do {
        new_arr \<leftarrow> f64_to_u32 (fl64 (fl64 (TIM2_BASE_FREQ_HZ / of_int (uint freqHz)) - 1));
        Some [REG_WRITE TIM2_ARR new_arr, REG_WRITE TIM2_CCR3 ((new_arr + 1) div 2)]
      })"

definition TIM_EGR_UG :: u32 where "TIM_EGR_UG = 1"

definition HAL_Motor_StartTimer :: "hal_call list" where
  "HAL_Motor_StartTimer = [REG_WRITE TIM2_EGR TIM_EGR_UG, HAL_TIM_PWM_Start TIM2 STEP_CHANNEL]"

definition HAL_Motor_StopTimer :: "hal_call list" where
  "HAL_Motor_StopTimer = [HAL_TIM_PWM_Stop TIM2 STEP_CHANNEL]"

definition HAL_Motor_Init :: "hal_call list" where
  "HAL_Motor_Init =
     (let g1 = gpio_init0\<lparr>gi_Pin := DIR_PIN, gi_Mode := MODE_OUTPUT_OD, gi_Pull := GPIO_NOPULL,
                 gi_Speed := SPEED_LOW\<rparr>;
          g2 = g1\<lparr>gi_Pin := EN_PIN\<rparr>;
          g3 = gpio_init0\<lparr>gi_Pin := STEP_PIN, gi_Mode := MODE_AF_OD, gi_Pull := GPIO_NOPULL,
                 gi_Speed := SPEED_VERY_HIGH, gi_Alternate := 1\<rparr>
      in [RCC_CLK_ENABLE (CLK_GPIO GPIOA), RCC_CLK_ENABLE (CLK_GPIO GPIOB), RCC_CLK_ENABLE CLK_TIM2,
          HAL_GPIO_Init GPIOA g1, HAL_GPIO_Init GPIOB g2]
       @ HAL_Motor_Enable False @ HAL_Motor_SetDirection 0
       @ [HAL_GPIO_Init GPIOB g3,
          HAL_TIM_PWM_Init TIM2 \<lparr>ti_Prescaler = 0, ti_Period = 0x1000, ti_AutoReloadPreload = True\<rparr>,
          HAL_TIM_PWM_ConfigChannel TIM2 STEP_CHANNEL 0])"

lemmas hal_motor_defs = HAL_Motor_Enable_def HAL_Motor_SetDirection_def HAL_Motor_StartTimer_def
  HAL_Motor_StopTimer_def

lemma motor_pins [simp]: "STEP_PIN = 1024" "DIR_PIN = 64" "EN_PIN = 32"
  by (simp_all add: STEP_PIN_def DIR_PIN_def EN_PIN_def GPIO_PIN_def)

section \<open>The reload value is exact\<close>

text \<open>
  Both \<open>double\<close> operations round, yet truncation gives the exact integer quotient: every
  quotient that is not an integer stays at least \<open>1 / freqHz\<close> below the next one, which is
  far more than a unit in the last place.
\<close>

lemma div_floor_rat: "0 < f \<Longrightarrow> \<lfloor>of_int a / (of_int f :: rat)\<rfloor> = a div f"
  by (rule floor_divide_of_int_eq)

lemma rep64_sep:
  assumes "0 \<le> n" and "(n + 1) * 2 ^ k \<le> 2 ^ 53" and "k \<le> 1000"
  shows "representable 53 (- 1074) (of_int (n + 1) - 1 / 2 ^ k)"
proof -
  have "of_int (n + 1) - 1 / 2 ^ k = of_int ((n + 1) * 2 ^ k - 1) * (2::rat) powi (- int k)"
    by (simp add: power_int_minus field_simps)
  moreover have "\<bar>(n + 1) * 2 ^ k - 1\<bar> < 2 ^ nat 53"
  proof -
    have "0 < (n + 1) * 2 ^ k" using assms(1) by (intro mult_pos_pos) auto
    then show ?thesis using assms(2) by simp
  qed
  moreover have "- 1074 \<le> - int k" using assms(3) by simp
  ultimately show ?thesis unfolding representable_def by blast
qed

lemma quotient_below:
  assumes "0 < f" and "f \<le> 2 ^ k"
  shows "of_int a / of_int f \<le> (of_int (a div f + 1) - 1 / 2 ^ k :: rat)"
proof -
  have "a + 1 \<le> f * (a div f + 1)"
  proof -
    have "f * (a div f) + a mod f = a" and "a mod f < f" using assms(1) by simp_all
    then show ?thesis by (simp only: distrib_left mult_1_right)
  qed
  then have "of_int (a + 1) \<le> (of_int (f * (a div f + 1)) :: rat)" by (simp only: of_int_le_iff)
  then have "of_int (a + 1) / of_int f \<le> (of_int (a div f + 1) :: rat)"
    using assms(1) by (simp add: divide_le_eq mult.commute)
  moreover have "1 / 2 ^ k \<le> (1 / of_int f :: rat)"
  proof (intro divide_left_mono)
    have "(of_int f :: rat) \<le> of_int (2 ^ k)" using assms(2) by (simp only: of_int_le_iff)
    then show "(of_int f :: rat) \<le> 2 ^ k" by simp
  qed (use assms(1) in auto)
  ultimately show ?thesis by (simp add: add_divide_distrib)
qed

lemma reload_separation:
  assumes "0 < f" and "f < 2 ^ 32"
  obtains k where "k \<le> 1000" "f \<le> 2 ^ k" "(84000000 div f + 1) * 2 ^ k \<le> (2 ^ 53 :: int)"
proof (cases "f \<le> 2 ^ 16")
  case True
  have "(84000000 :: int) div f \<le> 84000000 div 1" using assms(1) by (intro zdiv_mono2) auto
  then have "(84000000 div f + 1) * 2 ^ 16 \<le> (2 ^ 53 :: int)" by simp
  with True show ?thesis by (intro that [of 16]) auto
next
  case False
  then have "(84000000 :: int) div f \<le> 84000000 div 2 ^ 16" by (intro zdiv_mono2) auto
  then have "(84000000 div f + 1) * 2 ^ 32 \<le> (2 ^ 53 :: int)" by simp
  with assms(2) show ?thesis by (intro that [of 32]) auto
qed

lemma two_step_trunc:
  assumes n: "1 \<le> n" and k: "(n + 1) * 2 ^ k \<le> 2 ^ 53" "k \<le> 1000"
    and x: "of_int n \<le> x" "x \<le> of_int (n + 1) - 1 / 2 ^ k"
  shows "trunc (fl64 (fl64 x - 1)) = n - 1"
proof -
  have kn: "(n - 1 + 1) * 2 ^ k \<le> 2 ^ 53"
  proof -
    have "(n - 1 + 1) * 2 ^ k \<le> (n + 1) * 2 ^ k" by (intro mult_right_mono) auto
    then show ?thesis using k(1) by (rule order.trans)
  qed
  have nb: "n + 1 \<le> 2 ^ 53"
  proof -
    have "(n + 1) * 1 \<le> (n + 1) * 2 ^ k" using n by (intro mult_left_mono) auto
    then show ?thesis using k(1) by (simp only: mult_1_right)
  qed
  have repn: "representable 53 (- 1074) (of_int m)" if "0 \<le> m" "m \<le> n" for m
    by (rule of_int_representable) (use that nb in auto)
  have sep: "representable 53 (- 1074) (of_int (n + 1) - 1 / 2 ^ k)"
    by (rule rep64_sep [OF _ k]) (use n in simp)
  have sep': "representable 53 (- 1074) (of_int (n - 1 + 1) - 1 / 2 ^ k)"
    by (rule rep64_sep [OF _ kn k(2)]) (use n in simp)
  have y1: "of_int n \<le> fl64 x" by (rule b64.fl_ge [OF repn x(1)]) (use n in auto)
  have y2: "fl64 x \<le> of_int (n + 1) - 1 / 2 ^ k" by (rule b64.fl_le [OF sep x(2)])
  have pos: "(0::rat) < 1 / 2 ^ k" by simp
  have "\<lfloor>fl64 (fl64 x - 1)\<rfloor> = n - 1"
  proof (rule b64.fl_floor [OF repn _ sep'])
    show "of_int (n - 1) \<le> fl64 x - 1" using y1 by simp
    show "fl64 x - 1 \<le> of_int (n - 1 + 1) - 1 / 2 ^ k" using y2 by simp
    show "of_int (n - 1 + 1) - 1 / 2 ^ k < of_int (n - 1) + (1::rat)" using pos by simp
  qed (use n in auto)
  moreover have "0 \<le> fl64 (fl64 x - 1)"
  proof (rule rnd_nonneg)
    have "(1::rat) \<le> of_int n" using n by (metis of_int_1 of_int_le_iff)
    then show "0 \<le> fl64 x - 1" using y1 by simp
  qed
  ultimately show ?thesis by (simp only: trunc_def if_True)
qed

lemma two_step_trunc_small:
  assumes x: "2 powi (- 6) \<le> x" "x \<le> 1"
  shows "trunc (fl64 (fl64 x - 1)) = 0"
proof -
  have "representable 53 (- 1074) (- (of_int (0 + 1) - 1 / 2 ^ 6))"
    by (intro representable_minus rep64_sep) auto
  moreover have "- (of_int (0 + 1) - 1 / 2 ^ 6) = (2 powi (- 6) - 1 :: rat)"
    by (simp add: power_int_minus)
  ultimately have r: "representable 53 (- 1074) (2 powi (- 6) - 1)" by simp
  have "2 powi (- 6) \<le> fl64 x"
    by (rule b64.fl_ge [OF powi_representable x(1)]) auto
  then have "2 powi (- 6) - 1 \<le> fl64 (fl64 x - 1)" by (intro b64.fl_ge r) simp
  moreover have "- 1 < (2 powi (- 6) - 1 :: rat)" by simp
  ultimately have lo: "- 1 < fl64 (fl64 x - 1)" by linarith
  have "representable 53 (- 1074) (of_int 1)" by (rule of_int_representable) auto
  then have "fl64 x \<le> 1" using x(2) by (intro b64.fl_le) simp_all
  then have "fl64 (fl64 x - 1) \<le> 0" by (intro b64.fl_le) simp_all
  with lo show ?thesis
    by (cases "fl64 (fl64 x - 1) = 0") (simp_all add: trunc_def ceiling_eq_iff)
qed

lemma reload_trunc:
  assumes "0 < f" and "f < 2 ^ 32"
  shows "trunc (fl64 (fl64 (of_int 84000000 / of_int f) - 1)) = max 0 (84000000 div f - 1)"
proof (cases "f \<le> 84000000")
  case True
  obtain k where k: "k \<le> 1000" "f \<le> 2 ^ k" "(84000000 div f + 1) * 2 ^ k \<le> (2 ^ 53 :: int)"
    using reload_separation [OF assms] .
  have "(84000000 :: int) div 84000000 \<le> 84000000 div f" using True assms(1)
    by (intro zdiv_mono2) auto
  then have n: "1 \<le> 84000000 div f" by simp
  have "of_int (84000000 div f) \<le> (of_int 84000000 / of_int f :: rat)"
    using assms(1) by (simp only: of_int_floor_le flip: div_floor_rat)
  from two_step_trunc [OF n k(3,1) this quotient_below [OF assms(1) k(2)]]
  show ?thesis using n by simp
next
  case False
  have "(of_int f :: rat) \<le> of_int (2 ^ 32)" using assms(2) by (simp only: of_int_le_iff)
  then have "of_int 84000000 / of_int (2 ^ 32) \<le> (of_int 84000000 / of_int f :: rat)"
    using assms(1) by (intro divide_left_mono) auto
  moreover have "2 powi (- 6) \<le> (of_int 84000000 / of_int (2 ^ 32) :: rat)"
    by (simp add: power_int_minus)
  ultimately have "2 powi (- 6) \<le> (of_int 84000000 / of_int f :: rat)" by (rule order.trans [rotated])
  moreover have "(of_int 84000000 / of_int f :: rat) \<le> 1"
  proof -
    have "(of_int 84000000 :: rat) \<le> of_int f" using False by (simp only: of_int_le_iff)
    then show ?thesis using assms(1) by (simp add: divide_le_eq)
  qed
  ultimately have "trunc (fl64 (fl64 (of_int 84000000 / of_int f) - 1)) = 0"
    by (rule two_step_trunc_small)
  moreover have "84000000 div f = 0" using False assms(1) by (simp add: div_pos_pos_trivial)
  ultimately show ?thesis by simp
qed

lemma SetFrequency_eq:
  assumes "freqHz \<noteq> 0"
  shows "HAL_Motor_SetFrequency freqHz =
    (let new_arr = word_of_int (max 0 (84000000 div uint freqHz - 1))
     in Some [REG_WRITE TIM2_ARR new_arr, REG_WRITE TIM2_CCR3 ((new_arr + 1) div 2)])"
proof -
  have f: "0 < uint freqHz" "uint freqHz < 2 ^ 32"
    using assms uint_lt2p [of freqHz] by (auto simp: order.strict_iff_order uint_0_iff)
  have "84000000 div uint freqHz \<le> 84000000 div 1" using f(1) by (intro zdiv_mono2) auto
  then have "f64_to_u32 (fl64 (fl64 (of_int 84000000 / of_int (uint freqHz)) - 1)) =
      Some (word_of_int (max 0 (84000000 div uint freqHz - 1)))"
    by (simp only: f64_to_u32_def reload_trunc [OF f]) simp
  moreover have "TIM2_BASE_FREQ_HZ = of_int 84000000" by (simp add: TIM2_BASE_FREQ_HZ_def)
  ultimately show ?thesis
    using assms by (simp only: HAL_Motor_SetFrequency_def if_False Option.bind.bind_lunit Let_def)
qed

end
