(* ===== verification/Tenths.thy ===== *)
theory Tenths
  imports Float32
begin

text \<open>
  The fixed-point coding of register values: a 16-bit integer counts tenths, the firmware keeps
  the value divided by ten in single precision and multiplies by ten to read it back.
\<close>

section \<open>Dividing by ten and multiplying back\<close>

lemma rne_even:
  assumes "even n" "\<bar>x - of_int n\<bar> \<le> 1 / 2"
  shows "rne x = n"
proof (cases "\<bar>x - of_int n\<bar> < 1 / 2")
  case True
  then show ?thesis by (rule rne_eqI)
next
  case False
  with assms(2) consider "x = of_int n + 1 / 2" | "x = of_int n - 1 / 2" by linarith
  then show ?thesis
  proof cases
    case 1
    have "\<lfloor>x\<rfloor> = n" unfolding 1 by linarith
    then show ?thesis using 1 assms(1) by (simp add: rne_def Let_def)
  next
    case 2
    have "\<lfloor>x\<rfloor> = n - 1" unfolding 2 by linarith
    then show ?thesis using 2 assms(1) by (simp add: rne_def Let_def)
  qed
qed

lemma powi_neg_nat: "(2::rat) powi (- int k) = 1 / 2 ^ k"
  by (simp add: power_int_def field_simps)

lemma rnd_at:
  assumes "0 < x" "2 powi e \<le> x" "x < 2 powi (e + 1)" "- 126 \<le> e"
  shows "fl32 x = of_int (rne (x / 2 powi (e - 23))) * 2 powi (e - 23)"
proof -
  have "ilog2 x = e" by (rule ilog2_unique [OF assms(2,3)])
  then show ?thesis using assms(1,4) by (simp add: rnd_pos qexp_def)
qed

text \<open>The quotient as \<open>m / 2\<^sup>k\<close> with a 24-bit significand, and how far ten times it is off.\<close>

lemma tenth_significand:
  assumes v: "0 < v" "v < 2 ^ 16"
  obtains m k where "fl32 (of_int v / 10) = of_int m / 2 ^ k" "11 \<le> k" "k \<le> 27"
    "2 ^ 23 \<le> m" "m \<le> 2 ^ 24" "\<bar>10 * m - v * 2 ^ k\<bar> \<le> 4"
proof -
  let ?y = "of_int v / 10 :: rat"
  define e where "e = ilog2 ?y"
  have y0: "0 < ?y" using v by simp
  note b = ilog2_bounds [OF y0, folded e_def]
  have "(of_int 1 :: rat) \<le> of_int v" using v by (simp only: of_int_le_iff)
  moreover have "(2::rat) powi (- 4) = 1 / 16" by (simp add: power_int_def power_divide)
  ultimately have "2 powi (- 4) \<le> ?y" by simp
  then have e1: "- 4 \<le> e" unfolding e_def by (rule ilog2_ge)
  have "(of_int v :: rat) < of_int (2 ^ 16)" using v by (simp only: of_int_less_iff)
  then have "?y < 2 powi 13" by (simp add: powi_nat)
  then have e2: "e < 13" unfolding e_def by (rule ilog2_less [OF y0])
  define k where "k = nat (23 - e)"
  have k: "int k = 23 - e" "11 \<le> k" "k \<le> 27" using e1 e2 by (simp_all add: k_def)
  have q: "(2::rat) powi (e - 23) = 1 / 2 ^ k" using powi_neg_nat [of k] k(1) by simp
  define m where "m = rne (?y * 2 ^ k)"
  have fl: "fl32 ?y = of_int m / 2 ^ k"
    using rnd_at [OF y0 b] e1 by (simp add: q m_def)
  have p: "(2::rat) powi e * 2 ^ k = 2 ^ 23"
  proof -
    have "(2::rat) ^ k = 2 powi (23 - e)" using k(1) by (metis power_int_of_nat)
    then show ?thesis by (simp flip: powi_add2)
  qed
  have "of_int (2 ^ 23) \<le> ?y * 2 ^ k"
    using mult_right_mono [OF b(1), of "2 ^ k"] p by simp
  then have m1: "2 ^ 23 \<le> m" unfolding m_def by (rule rne_ge)
  have "?y * 2 ^ k \<le> 2 powi (e + 1) * 2 ^ k" using b(2) by (intro mult_right_mono) simp_all
  also have "\<dots> = of_int (2 ^ 24)" using p by (simp add: powi_Suc)
  finally have m2: "m \<le> 2 ^ 24" unfolding m_def by (rule rne_le)
  have "\<bar>of_int m - ?y * 2 ^ k\<bar> \<le> 1 / 2" unfolding m_def by (rule rne_err)
  moreover have "\<bar>a - w / 10\<bar> \<le> 1 / 2 \<Longrightarrow> \<bar>10 * a - w\<bar> \<le> 5" for a w :: rat by linarith
  from this [of "of_int m" "of_int v * 2 ^ k"]
  have "\<bar>of_int m - ?y * 2 ^ k\<bar> \<le> 1 / 2 \<Longrightarrow> \<bar>of_int (10 * m - v * 2 ^ k) :: rat\<bar> \<le> of_int 5"
    by simp
  ultimately have "\<bar>of_int (10 * m - v * 2 ^ k) :: rat\<bar> \<le> of_int 5" by blast
  then have five: "\<bar>10 * m - v * 2 ^ k\<bar> \<le> 5" by (simp only: of_int_abs [symmetric] of_int_le_iff)
  have "even (10 * m - v * 2 ^ k)" using k(2) by simp
  then have "\<bar>10 * m - v * 2 ^ k\<bar> \<noteq> 5" by (metis dvd_abs_iff odd_numeral)
  then have "\<bar>10 * m - v * 2 ^ k\<bar> \<le> 4" using five by linarith
  then show ?thesis using that [OF fl k(2,3) m1 m2] by blast
qed

lemma times_ten_back:
  assumes m: "2 ^ 23 \<le> m" "m \<le> 2 ^ 24" and k: "11 \<le> k" "k \<le> 27"
    and d: "\<bar>10 * m - v * 2 ^ k\<bar> \<le> 4"
  shows "fl32 (of_int m / 2 ^ k * 10) = of_int v"
proof -
  let ?z = "of_int m / 2 ^ k * 10 :: rat"
  have m': "(2 ^ 23 :: rat) \<le> of_int m" "of_int m \<le> (2 ^ 24 :: rat)"
    using m by (metis of_int_le_iff of_int_numeral of_int_power)+
  define s :: nat where "s = (if of_int m * 10 < (2 ^ 27 :: rat) then 3 else 4)"
  have s: "s = 3 \<or> s = 4" by (simp add: s_def)
  define e where "e = int s + 23 - int k"
  have pe: "(2::rat) powi e = 2 ^ s * 2 ^ 23 / 2 ^ k"
    by (simp add: e_def powi_diff2 powi_add2 powi_nat)
  have z: "?z = of_int m * 10 / 2 ^ k" by simp
  have lo: "2 powi e \<le> ?z" unfolding pe z
    by (rule divide_right_mono) (use m' in \<open>auto simp: s_def\<close>)
  have hi: "?z < 2 powi (e + 1)" unfolding powi_Suc pe z times_divide_eq_right
    by (rule divide_strict_right_mono) (use m' in \<open>auto simp: s_def\<close>)
  have z0: "0 < ?z" using lo powi_pos [of e] by linarith
  have e126: "- 126 \<le> e" using k s by (simp add: e_def)
  define n where "n = v * 2 ^ (k - s)"
  have ks: "k = s + (k - s)" "0 < k - s" using k s by auto
  have even: "even n" using ks(2) by (simp add: n_def)
  have V: "v * 2 ^ k = n * 2 ^ s" unfolding n_def by (metis ks(1) mult.assoc mult.commute power_add)
  have q: "(2::rat) powi (e - 23) = 2 ^ s / 2 ^ k" using pe by (simp add: powi_diff2 powi_nat)
  have zq: "?z / 2 powi (e - 23) = of_int (10 * m) / 2 ^ s" unfolding q by simp
  have "of_int (10 * m) / 2 ^ s - (of_int n :: rat) = of_int (10 * m - n * 2 ^ s) / 2 ^ s"
    by (simp add: field_simps)
  then have "\<bar>of_int (10 * m) / 2 ^ s - (of_int n :: rat)\<bar> = of_int \<bar>10 * m - n * 2 ^ s\<bar> / 2 ^ s"
    by (simp only: abs_divide of_int_abs) simp
  also have "\<dots> \<le> of_int 4 / 2 ^ s"
    using d unfolding V by (intro divide_right_mono) (simp_all only: of_int_le_iff zero_le_power zero_le_numeral)
  also have "\<dots> \<le> 1 / 2" using s by auto
  finally have "rne (?z / 2 powi (e - 23)) = n" unfolding zq by (rule rne_even [OF even])
  then have "fl32 ?z = of_int n * 2 powi (e - 23)" using rnd_at [OF z0 lo hi e126] by simp
  also have "\<dots> = of_int (n * 2 ^ s) / 2 ^ k" unfolding q by simp
  also have "\<dots> = of_int v" unfolding V [symmetric] by simp
  finally show ?thesis .
qed

lemma fl32_tenth_times_ten:
  assumes "0 \<le> v" "v < 2 ^ 16"
  shows "fl32 (fl32 (of_int v / 10) * 10) = of_int v"
proof (cases "v = 0")
  case False
  then have "0 < v" using assms by simp
  from tenth_significand [OF this assms(2)] obtain m k where
    "fl32 (of_int v / 10) = of_int m / 2 ^ k" "11 \<le> k" "k \<le> 27" "2 ^ 23 \<le> m" "m \<le> 2 ^ 24"
    "\<bar>10 * m - v * 2 ^ k\<bar> \<le> 4" .
  then show ?thesis by (simp only: times_ten_back)
qed simp

section \<open>The register codec\<close>

definition tenths :: "u16 \<Rightarrow> f32" where
  "tenths regValue = f32_div (f32_of_u16 regValue) (f32_lit 10)"

definition of_tenths :: "f32 \<Rightarrow> u16 option" where
  "of_tenths x = f32_to_u16 (f32_mul x (f32_lit 10))"

lemma tenths_val: "f32_val (tenths v) = fl32 (rat16 v / 10)" "f32_finite (tenths v)"
proof -
  have "fits32 (f32_val (f32_of_u16 v) / f32_val (f32_lit 10))"
    by (rule fits32_mil) (simp, rule order.trans [OF rat16_bounds(2)], simp)
  then show "f32_val (tenths v) = fl32 (rat16 v / 10)" "f32_finite (tenths v)"
    using f32_div_val [of "f32_of_u16 v" "f32_lit 10"] by (simp_all add: tenths_def)
qed

lemma of_tenths_tenths: "of_tenths (tenths v) = Some v"
proof -
  have u: "0 \<le> uint v" "uint v < 2 ^ 16"
    by (simp, rule order.strict_trans2 [OF uint_lt2p]) simp
  have val_back: "fl32 (f32_val (tenths v) * 10) = rat16 v"
    using fl32_tenth_times_ten [OF u] by (simp only: tenths_val rat16_def)
  then have f: "fits32 (f32_val (tenths v) * f32_val (f32_lit 10))"
    unfolding fits32_def f32_lits
    by (simp add: powi_nat) (rule order.strict_trans1 [OF rat16_bounds(2)], simp)
  have val: "f32_val (f32_mul (tenths v) (f32_lit 10)) = rat16 v"
    "f32_finite (f32_mul (tenths v) (f32_lit 10))"
    using f32_mul_val [OF tenths_val(2) _ f] val_back by simp_all
  have "rat16 v < 2 ^ 16" by (rule order.strict_trans1 [OF rat16_bounds(2)]) simp
  then have "f32_to_u16 (f32_mul (tenths v) (f32_lit 10)) = Some (word_of_int \<lfloor>rat16 v\<rfloor>)"
    using f32_to_u16_Some [OF val(2)] val(1) rat16_bounds(1) [of v] by simp
  moreover have "\<lfloor>rat16 v\<rfloor> = uint v" unfolding rat16_def by (rule floor_of_int)
  ultimately show ?thesis by (simp add: of_tenths_def)
qed

end
