(* ===== verification/Motor.thy ===== *)
theory Motor
  imports Hal_Motor Tenths
begin

text \<open>
  \<open>app_motor.c\<close>: the shaft profile, the start and stop commands and the kinematic tick of the
  1 ms interrupt. An operation is \<open>None\<close> where it converts a \<open>float\<close> outside the range of
  \<open>uint32_t\<close>, which C leaves undefined.
\<close>

section \<open>State\<close>

datatype motor_state = STATE_STOPPED | STATE_ACCELERATING | STATE_CRUISING | STATE_DECELERATING

fun motor_code :: "motor_state \<Rightarrow> nat" where
  "motor_code STATE_STOPPED = 0"
| "motor_code STATE_ACCELERATING = 1"
| "motor_code STATE_CRUISING = 2"
| "motor_code STATE_DECELERATING = 3"

record shaft_profile =
  sp_microsteps :: u16
  sp_gearRatio :: f32
  sp_minStartRPM :: f32
  sp_targetRPM :: f32
  sp_startFreq :: f32
  sp_targetFreq :: f32
  sp_accelStepPerMs :: f32

record motor =
  shaft :: shaft_profile
  currentState :: motor_state
  currentFreq :: f32

definition shaft0 :: shaft_profile where
  "shaft0 = \<lparr>sp_microsteps = 5000, sp_gearRatio = f32_lit 3, sp_minStartRPM = f32_lit 2,
     sp_targetRPM = f32_lit 0, sp_startFreq = f32_lit 0, sp_targetFreq = f32_lit 0,
     sp_accelStepPerMs = f32_lit 0\<rparr>"

definition motor0 :: motor where
  "motor0 = \<lparr>shaft = shaft0, currentState = STATE_STOPPED, currentFreq = f32_lit 0\<rparr>"

section \<open>Operations\<close>

definition App_Motor_Init :: "hal_call list" where
  "App_Motor_Init = HAL_Motor_Init"

definition DEFAULT_MIN_MICROSTEPS_CL86HB :: u16 where
  "DEFAULT_MIN_MICROSTEPS_CL86HB = 800"

definition App_Motor_CalculateProfile :: "f32 \<Rightarrow> f32 \<Rightarrow> u16 \<Rightarrow> motor \<Rightarrow> motor" where
  "App_Motor_CalculateProfile targetRPM accelTimeSec microsteps m =
     (let sp = shaft m;
          sp = (if DEFAULT_MIN_MICROSTEPS_CL86HB \<le> microsteps
                then sp\<lparr>sp_microsteps := microsteps\<rparr> else sp);
          targetRPM = (if f32_le targetRPM (sp_minStartRPM sp)
                       then f32_add (sp_minStartRPM sp) (f32_lit (1 / 10)) else targetRPM);
          accelTimeSec = (if f32_le accelTimeSec (f32_lit (1 / 1000))
                          then f32_lit (1 / 1000) else accelTimeSec);
          sp = (if f32_lt (f32_lit 0) targetRPM \<and> f32_lt targetRPM (f32_lit 200)
                then sp\<lparr>sp_targetRPM := targetRPM\<rparr> else sp);
          startRPS = f32_div (f32_mul (sp_minStartRPM sp) (sp_gearRatio sp)) (f32_lit 60);
          sp = sp\<lparr>sp_startFreq := f32_mul startRPS (f32_of_u16 (sp_microsteps sp))\<rparr>;
          targetRPS = f32_div (f32_mul (sp_targetRPM sp) (sp_gearRatio sp)) (f32_lit 60);
          sp = sp\<lparr>sp_targetFreq := f32_mul targetRPS (f32_of_u16 (sp_microsteps sp))\<rparr>;
          deltaFreqHz = f32_sub (sp_targetFreq sp) (sp_startFreq sp);
          totalTimeMs = f32_mul accelTimeSec (f32_lit 1000)
      in m\<lparr>shaft := sp\<lparr>sp_accelStepPerMs := f32_div deltaFreqHz totalTimeMs\<rparr>\<rparr>)"

definition App_Motor_Start :: "u8 \<Rightarrow> motor \<Rightarrow> (motor \<times> hal_call list) option" where
  "App_Motor_Start direction m =
     (if currentState m = STATE_STOPPED \<or> currentState m = STATE_DECELERATING then do {
        freqHz \<leftarrow> f32_to_u32 (sp_startFreq (shaft m));
        setf \<leftarrow> HAL_Motor_SetFrequency freqHz;
        Some (m\<lparr>currentFreq := sp_startFreq (shaft m), currentState := STATE_ACCELERATING\<rparr>,
              HAL_Motor_SetDirection direction @ HAL_Motor_Enable True @ setf
              @ HAL_Motor_StartTimer)
      } else Some (m, []))"

definition App_Motor_Stop :: "motor \<Rightarrow> motor" where
  "App_Motor_Stop m =
     (if currentState m = STATE_ACCELERATING \<or> currentState m = STATE_CRUISING
      then m\<lparr>currentState := STATE_DECELERATING\<rparr> else m)"

definition App_Motor_GetState :: "motor \<Rightarrow> motor_state" where
  "App_Motor_GetState m = currentState m"

definition App_Motor_KinematicTick_1ms :: "motor \<Rightarrow> (motor \<times> hal_call list) option" where
  "App_Motor_KinematicTick_1ms m =
     (if currentState m = STATE_ACCELERATING then
        (let m = m\<lparr>currentFreq := f32_add (currentFreq m) (sp_accelStepPerMs (shaft m))\<rparr>;
             m = (if f32_le (sp_targetFreq (shaft m)) (currentFreq m)
                  then m\<lparr>currentFreq := sp_targetFreq (shaft m), currentState := STATE_CRUISING\<rparr>
                  else m)
         in do {
           freqHz \<leftarrow> f32_to_u32 (currentFreq m);
           setf \<leftarrow> HAL_Motor_SetFrequency freqHz;
           Some (m, setf)
         })
      else if currentState m = STATE_DECELERATING then
        (let m = m\<lparr>currentFreq := f32_sub (currentFreq m) (sp_accelStepPerMs (shaft m))\<rparr>
         in if f32_le (currentFreq m) (sp_startFreq (shaft m))
            then Some (m\<lparr>currentState := STATE_STOPPED\<rparr>,
                       HAL_Motor_StopTimer @ HAL_Motor_Enable False)
            else do {
              freqHz \<leftarrow> f32_to_u32 (currentFreq m);
              setf \<leftarrow> HAL_Motor_SetFrequency freqHz;
              Some (m, setf)
            })
      else Some (m, []))"

definition App_Motor_SetMicrosteps :: "u16 \<Rightarrow> motor \<Rightarrow> motor" where
  "App_Motor_SetMicrosteps microsteps m =
     (if 0 < microsteps then m\<lparr>shaft := (shaft m)\<lparr>sp_microsteps := microsteps\<rparr>\<rparr> else m)"

section \<open>The profile\<close>

text \<open>
  What every profile computation keeps, whatever bit patterns it is given: the mechanical
  constants, a microstep setting the driver accepts, and a target speed that is either still
  unset or strictly between the start speed and the limit.
\<close>

definition profile_wf :: "shaft_profile \<Rightarrow> bool" where
  "profile_wf sp \<longleftrightarrow>
     sp_gearRatio sp = f32_lit 3 \<and> sp_minStartRPM sp = f32_lit 2 \<and> 800 \<le> sp_microsteps sp \<and>
     (sp_targetRPM sp = f32_lit 0 \<or>
      f32_finite (sp_targetRPM sp) \<and> 2 < f32_val (sp_targetRPM sp) \<and> f32_val (sp_targetRPM sp) < 200)"

text \<open>A profile whose ramp the kinematic tick can follow.\<close>

definition ramp_ok :: "shaft_profile \<Rightarrow> bool" where
  "ramp_ok sp \<longleftrightarrow>
     f32_finite (sp_startFreq sp) \<and> f32_finite (sp_targetFreq sp) \<and> f32_finite (sp_accelStepPerMs sp) \<and>
     79 \<le> f32_val (sp_startFreq sp) \<and> f32_val (sp_startFreq sp) \<le> f32_val (sp_targetFreq sp) \<and>
     f32_val (sp_targetFreq sp) \<le> 655350 \<and>
     0 \<le> f32_val (sp_accelStepPerMs sp) \<and> f32_val (sp_accelStepPerMs sp) \<le> 655350"

lemma profile_wf0: "profile_wf shaft0"
  by (simp add: profile_wf_def shaft0_def)

lemma start_nudge:
  "f32_finite (f32_add (f32_lit 2) (f32_lit (1 / 10)))"
  "2 < f32_val (f32_add (f32_lit 2) (f32_lit (1 / 10)))"
  "f32_val (f32_add (f32_lit 2) (f32_lit (1 / 10))) < 3"
proof -
  have "f32_add (f32_lit 2) (f32_lit (1 / 10)) = 0x40066666" by code_simp
  moreover have "f32_finite 0x40066666" "2 < f32_val 0x40066666" "f32_val 0x40066666 < 3"
    by code_simp+
  ultimately show "f32_finite (f32_add (f32_lit 2) (f32_lit (1 / 10)))"
    "2 < f32_val (f32_add (f32_lit 2) (f32_lit (1 / 10)))"
    "f32_val (f32_add (f32_lit 2) (f32_lit (1 / 10))) < 3" by simp_all
qed

text \<open>The effective speed request: the request itself, or just above the start speed.\<close>

definition eff_rpm :: "f32 \<Rightarrow> f32" where
  "eff_rpm r = (if f32_le r (f32_lit 2) then f32_add (f32_lit 2) (f32_lit (1 / 10)) else r)"

definition rpm_accepted :: "f32 \<Rightarrow> bool" where
  "rpm_accepted r \<longleftrightarrow> f32_lt (f32_lit 0) (eff_rpm r) \<and> f32_lt (eff_rpm r) (f32_lit 200)"

lemma f32_ltD:
  assumes "f32_lt a b" and "f32_finite b" and "f32_lt c a" and "f32_finite c"
  shows "f32_finite a"
  using assms by (auto simp: f32_lt_def f32_finite_def f32_nan_def f32_inf_def split: if_splits)

lemma eff_rpm_bounds:
  assumes "rpm_accepted r"
  shows "f32_finite (eff_rpm r)" "2 < f32_val (eff_rpm r)" "f32_val (eff_rpm r) < 200"
proof (atomize (full), cases "f32_le r (f32_lit 2)")
  case True
  then show "f32_finite (eff_rpm r) \<and> 2 < f32_val (eff_rpm r) \<and> f32_val (eff_rpm r) < 200"
    using start_nudge by (simp add: eff_rpm_def)
next
  case False
  then have e: "eff_rpm r = r" by (simp add: eff_rpm_def)
  have lt: "f32_lt r (f32_lit 200)" "f32_lt (f32_lit 0) r"
    using assms by (simp_all add: rpm_accepted_def e)
  have "f32_finite r" using lt(1) _ lt(2) by (rule f32_ltD) simp_all
  then show "f32_finite (eff_rpm r) \<and> 2 < f32_val (eff_rpm r) \<and> f32_val (eff_rpm r) < 200"
    using False lt by (simp add: e f32_le_val f32_lt_val)
qed

text \<open>The profile computation in terms of the effective request.\<close>

definition startFreq_of :: "u16 \<Rightarrow> f32" where
  "startFreq_of ms =
     f32_mul (f32_div (f32_mul (f32_lit 2) (f32_lit 3)) (f32_lit 60)) (f32_of_u16 ms)"

definition targetFreq_of :: "f32 \<Rightarrow> u16 \<Rightarrow> f32" where
  "targetFreq_of r ms = f32_mul (f32_div (f32_mul r (f32_lit 3)) (f32_lit 60)) (f32_of_u16 ms)"

definition eff_accel :: "f32 \<Rightarrow> f32" where
  "eff_accel a = (if f32_le a (f32_lit (1 / 1000)) then f32_lit (1 / 1000) else a)"

definition accelStep_of :: "f32 \<Rightarrow> f32 \<Rightarrow> f32 \<Rightarrow> f32" where
  "accelStep_of a start target =
     f32_div (f32_sub target start) (f32_mul (eff_accel a) (f32_lit 1000))"

definition profile_of :: "f32 \<Rightarrow> f32 \<Rightarrow> u16 \<Rightarrow> shaft_profile \<Rightarrow> shaft_profile" where
  "profile_of r a ms sp =
     (let ms' = (if 800 \<le> ms then ms else sp_microsteps sp);
          r' = (if rpm_accepted r then eff_rpm r else sp_targetRPM sp)
      in \<lparr>sp_microsteps = ms', sp_gearRatio = f32_lit 3, sp_minStartRPM = f32_lit 2,
          sp_targetRPM = r', sp_startFreq = startFreq_of ms', sp_targetFreq = targetFreq_of r' ms',
          sp_accelStepPerMs = accelStep_of a (startFreq_of ms') (targetFreq_of r' ms')\<rparr>)"

lemma CalculateProfile_eq:
  assumes "profile_wf (shaft m)"
  shows "App_Motor_CalculateProfile r a ms m = m\<lparr>shaft := profile_of r a ms (shaft m)\<rparr>"
proof -
  obtain ms0 t0 s0 g0 d0 where sp: "shaft m = \<lparr>sp_microsteps = ms0, sp_gearRatio = f32_lit 3,
      sp_minStartRPM = f32_lit 2, sp_targetRPM = t0, sp_startFreq = s0, sp_targetFreq = g0,
      sp_accelStepPerMs = d0\<rparr>"
    using assms by (cases "shaft m") (simp add: profile_wf_def)
  show ?thesis
    by (cases "800 \<le> ms"; cases "rpm_accepted r")
      (simp_all only: App_Motor_CalculateProfile_def Let_def sp profile_of_def
        DEFAULT_MIN_MICROSTEPS_CL86HB_def if_True if_False shaft_profile.simps
        eff_rpm_def [symmetric] eff_accel_def [symmetric] rpm_accepted_def [symmetric]
        startFreq_of_def targetFreq_of_def accelStep_of_def)
qed

lemma fl32_tenth: "fl32 (1 / 10) = 13421773 / 2 ^ 27"
proof -
  have "fits32 (1 / 10)" by (rule fits32_mil) simp
  then have "f32_val (f32_lit (1 / 10)) = fl32 (1 / 10)" by (simp only: f32_lit_def f32_round_val)
  then show ?thesis by (simp only: f32_tenth_val)
qed

lemma rps_of:
  assumes "f32_finite r" and "0 \<le> f32_val r" and "f32_val r < 200"
  shows "f32_val (f32_div (f32_mul r (f32_lit 3)) (f32_lit 60)) = fl32 (fl32 (f32_val r * 3) / 60)"
    "f32_finite (f32_div (f32_mul r (f32_lit 3)) (f32_lit 60))"
    "0 \<le> fl32 (fl32 (f32_val r * 3) / 60)" "fl32 (fl32 (f32_val r * 3) / 60) \<le> 10"
proof -
  have m: "0 \<le> fl32 (f32_val r * 3)" using assms by (intro rnd_nonneg) simp
  have "fl32 (f32_val r * 3) \<le> of_int 600" using assms by (intro fl32_numeral_le) auto
  then have m': "fl32 (f32_val r * 3) \<le> 600" by simp
  have f1: "fits32 (f32_val r * f32_val (f32_lit 3))" using assms by (intro fits32_mil) simp
  note v = f32_mul_val [OF assms(1) _ f1]
  have f2: "fits32 (fl32 (f32_val r * 3) / 60)" using m m' by (intro fits32_mil) simp
  show "f32_val (f32_div (f32_mul r (f32_lit 3)) (f32_lit 60)) = fl32 (fl32 (f32_val r * 3) / 60)"
    "f32_finite (f32_div (f32_mul r (f32_lit 3)) (f32_lit 60))"
    using v f2 by (simp_all add: f32_div_val)
  show "0 \<le> fl32 (fl32 (f32_val r * 3) / 60)" using m by (intro rnd_nonneg) simp
  have "fl32 (fl32 (f32_val r * 3) / 60) \<le> of_int 10" using m' by (intro fl32_numeral_le) auto
  then show "fl32 (fl32 (f32_val r * 3) / 60) \<le> 10" by simp
qed

lemma rat16_ge_800: "800 \<le> w \<Longrightarrow> 800 \<le> rat16 w"
proof -
  assume "800 \<le> w"
  then have "uint (800 :: u16) \<le> uint w" by (simp only: word_le_def)
  then have "of_int 800 \<le> rat16 w" unfolding rat16_def by (simp only: of_int_le_iff) simp
  then show "800 \<le> rat16 w" by simp
qed

lemma freq_of_rps:
  assumes "f32_finite x" and "0 \<le> f32_val x" and "f32_val x \<le> 10"
  shows "f32_val (f32_mul x (f32_of_u16 ms)) = fl32 (f32_val x * rat16 ms)"
    "f32_finite (f32_mul x (f32_of_u16 ms))"
    "0 \<le> fl32 (f32_val x * rat16 ms)" "fl32 (f32_val x * rat16 ms) \<le> 655350"
proof -
  have b: "0 \<le> f32_val x * rat16 ms" "f32_val x * rat16 ms \<le> 10 * 65535"
    using assms(2) mult_mono [OF assms(3) rat16_bounds(2) [of ms]] by simp_all
  then have "fits32 (f32_val x * rat16 ms)" by (intro fits32_mil) simp
  then show "f32_val (f32_mul x (f32_of_u16 ms)) = fl32 (f32_val x * rat16 ms)"
    "f32_finite (f32_mul x (f32_of_u16 ms))"
    using assms(1) by (simp_all add: f32_mul_val)
  show "0 \<le> fl32 (f32_val x * rat16 ms)" using b(1) by (rule rnd_nonneg)
  have "fl32 (f32_val x * rat16 ms) \<le> of_int 655350" using b(2) by (intro fl32_numeral_le) auto
  then show "fl32 (f32_val x * rat16 ms) \<le> 655350" by simp
qed

lemma startFreq_val:
  "f32_val (startFreq_of ms) = fl32 (fl32 (1 / 10) * rat16 ms)" "f32_finite (startFreq_of ms)"
proof -
  have "fl32 (of_int 6) = of_int 6" by (intro b32.fl_rep of_int_representable) auto
  then have six: "fl32 6 = 6" by simp
  note r = rps_of [of "f32_lit 2", simplified, unfolded six, simplified]
  show "f32_val (startFreq_of ms) = fl32 (fl32 (1 / 10) * rat16 ms)" "f32_finite (startFreq_of ms)"
    unfolding startFreq_of_def using freq_of_rps [OF r(2)] r by simp_all
qed

lemma targetFreq_val:
  assumes "f32_finite r" and "0 \<le> f32_val r" and "f32_val r < 200"
  shows "f32_val (targetFreq_of r ms) = fl32 (fl32 (fl32 (f32_val r * 3) / 60) * rat16 ms)"
    "f32_finite (targetFreq_of r ms)" "f32_val (targetFreq_of r ms) \<le> 655350"
proof -
  note r = rps_of [OF assms]
  note f = freq_of_rps [OF r(2), of ms, unfolded r(1), OF r(3,4)]
  show "f32_val (targetFreq_of r ms) = fl32 (fl32 (fl32 (f32_val r * 3) / 60) * rat16 ms)"
    "f32_finite (targetFreq_of r ms)" "f32_val (targetFreq_of r ms) \<le> 655350"
    unfolding targetFreq_of_def using f by simp_all
qed

lemma startFreq_bounds:
  assumes "800 \<le> ms"
  shows "80 \<le> f32_val (startFreq_of ms)" "f32_val (startFreq_of ms) \<le> 6554"
proof -
  have "of_int 80 \<le> fl32 (fl32 (1 / 10) * rat16 ms)"
    using rat16_ge_800 [OF assms] by (intro fl32_numeral_ge) (simp_all add: fl32_tenth)
  then show "80 \<le> f32_val (startFreq_of ms)" by (simp add: startFreq_val)
  have "fl32 (1 / 10) * rat16 ms \<le> fl32 (1 / 10) * 65535"
    by (intro mult_left_mono) (simp_all add: fl32_tenth)
  also have "fl32 (1 / 10) * 65535 \<le> of_int 6554" by (simp add: fl32_tenth)
  finally have "fl32 (fl32 (1 / 10) * rat16 ms) \<le> of_int 6554"
    by (rule fl32_numeral_le) simp
  then show "f32_val (startFreq_of ms) \<le> 6554" by (simp add: startFreq_val)
qed

lemma start_le_target:
  assumes "f32_finite r" and "2 < f32_val r" and "f32_val r < 200"
  shows "f32_val (startFreq_of ms) \<le> f32_val (targetFreq_of r ms)"
proof -
  have "of_int 6 \<le> fl32 (f32_val r * 3)" using assms by (intro fl32_numeral_ge) auto
  then have "fl32 (1 / 10) \<le> fl32 (fl32 (f32_val r * 3) / 60)" by (intro b32.fl_mono) simp
  then have "fl32 (1 / 10) * rat16 ms \<le> fl32 (fl32 (f32_val r * 3) / 60) * rat16 ms"
    by (intro mult_right_mono) simp_all
  then show ?thesis
    using assms by (simp add: startFreq_val targetFreq_val b32.fl_mono)
qed

lemma eff_accel_bounds:
  assumes "f32_finite a"
  shows "f32_finite (eff_accel a)" "8589935 / 2 ^ 33 \<le> f32_val (eff_accel a)"
    "f32_val (eff_accel a) \<le> max 1 (f32_val a)"
  using assms by (auto simp: eff_accel_def f32_le_val)

lemma total_ms:
  assumes "f32_finite a" and "f32_val a \<le> 10 ^ 20"
  shows "f32_val (f32_mul (eff_accel a) (f32_lit 1000)) = fl32 (f32_val (eff_accel a) * 1000)"
    "f32_finite (f32_mul (eff_accel a) (f32_lit 1000))"
    "1 \<le> fl32 (f32_val (eff_accel a) * 1000)"
proof -
  note e = eff_accel_bounds [OF assms(1)]
  have pos: "0 \<le> f32_val (eff_accel a)" using e(2) by (rule order.trans [rotated]) simp
  have "max 1 (f32_val a) \<le> 10 ^ 20" using assms(2) by simp
  with e(3) have le: "f32_val (eff_accel a) \<le> 10 ^ 20" by (rule order.trans)
  have "fits32 (f32_val (eff_accel a) * f32_val (f32_lit 1000))"
    using pos le by (intro fits32_mil) (simp add: abs_mult)
  then show "f32_val (f32_mul (eff_accel a) (f32_lit 1000)) = fl32 (f32_val (eff_accel a) * 1000)"
    "f32_finite (f32_mul (eff_accel a) (f32_lit 1000))"
    using e(1) by (simp_all add: f32_mul_val)
  have "of_int 1 \<le> fl32 (f32_val (eff_accel a) * 1000)"
    using e(2) by (intro fl32_numeral_ge) simp_all
  then show "1 \<le> fl32 (f32_val (eff_accel a) * 1000)" by simp
qed

lemma accelStep_val:
  assumes S: "f32_finite S" "0 \<le> f32_val S" and T: "f32_finite T" "f32_val S \<le> f32_val T"
    "f32_val T \<le> 655350" and a: "f32_finite a" "f32_val a \<le> 10 ^ 20"
  shows "f32_val (accelStep_of a S T) =
      fl32 (fl32 (f32_val T - f32_val S) / fl32 (f32_val (eff_accel a) * 1000))"
    "f32_finite (accelStep_of a S T)" "0 \<le> f32_val (accelStep_of a S T)"
    "f32_val (accelStep_of a S T) \<le> fl32 (f32_val T - f32_val S)"
    "fl32 (f32_val T - f32_val S) \<le> 655350"
proof -
  note t = total_ms [OF a]
  let ?d = "fl32 (f32_val T - f32_val S)" and ?t = "fl32 (f32_val (eff_accel a) * 1000)"
  have d0: "0 \<le> ?d" using T by (intro rnd_nonneg) simp
  have "?d \<le> of_int 655350" using S T by (intro fl32_numeral_le) auto
  then show d1: "?d \<le> 655350" by simp
  have "fits32 (f32_val T - f32_val S)" using S T by (intro fits32_mil) simp
  note dv = f32_sub_val [OF T(1) S(1) this]
  have q: "0 \<le> ?d / ?t" "?d / ?t \<le> ?d"
    using d0 t(3) by (auto simp: divide_le_eq mult_le_cancel_left1)
  then have "fits32 (?d / ?t)" using d1 by (intro fits32_mil) simp
  then have v: "f32_val (accelStep_of a S T) = fl32 (?d / ?t)" "f32_finite (accelStep_of a S T)"
    unfolding accelStep_of_def using dv t by (simp_all add: f32_div_val)
  then show "f32_val (accelStep_of a S T) = fl32 (?d / ?t)" "f32_finite (accelStep_of a S T)"
    by simp_all
  show "0 \<le> f32_val (accelStep_of a S T)" using v q(1) by (simp add: rnd_nonneg)
  show "f32_val (accelStep_of a S T) \<le> ?d"
    unfolding v(1) using q(2) by (rule b32.fl_le [OF b32.rep_fl])
qed

lemma profile_of_wf: "profile_wf sp \<Longrightarrow> profile_wf (profile_of r a ms sp)"
  using eff_rpm_bounds [of r] by (auto simp: profile_wf_def profile_of_def Let_def)

lemma chosen_rpm:
  assumes "profile_wf sp" and "rpm_accepted r \<or> sp_targetRPM sp \<noteq> f32_lit 0"
  defines "r' \<equiv> (if rpm_accepted r then eff_rpm r else sp_targetRPM sp)"
  shows "f32_finite r'" "2 < f32_val r'" "f32_val r' < 200"
proof -
  have "f32_finite r' \<and> 2 < f32_val r' \<and> f32_val r' < 200"
  proof (cases "rpm_accepted r")
    case True
    then have "r' = eff_rpm r" by (simp only: r'_def if_True)
    then show ?thesis using eff_rpm_bounds [OF True] by blast
  next
    case False
    then have "r' = sp_targetRPM sp" by (simp only: r'_def if_False)
    then show ?thesis using assms(1,2) False unfolding profile_wf_def by blast
  qed
  then show "f32_finite r'" "2 < f32_val r'" "f32_val r' < 200" by blast+
qed

lemma profile_of_ramp_ok:
  assumes wf: "profile_wf sp" and set: "rpm_accepted r \<or> sp_targetRPM sp \<noteq> f32_lit 0"
    and a: "f32_finite a" "f32_val a \<le> 10 ^ 20"
  shows "ramp_ok (profile_of r a ms sp)"
proof -
  define ms' where "ms' = (if 800 \<le> ms then ms else sp_microsteps sp)"
  define r' where "r' = (if rpm_accepted r then eff_rpm r else sp_targetRPM sp)"
  have ms: "800 \<le> ms'" using wf by (simp add: ms'_def profile_wf_def)
  have r: "f32_finite r'" "2 < f32_val r'" "f32_val r' < 200"
    unfolding r'_def by (rule chosen_rpm [OF wf set])+
  have T0: "0 \<le> f32_val r'" using r(2) by simp
  note S = startFreq_val(2) [of ms'] startFreq_bounds [OF ms]
  have S0: "0 \<le> f32_val (startFreq_of ms')" "79 \<le> f32_val (startFreq_of ms')"
    using S(2) by simp_all
  note T = targetFreq_val(2,3) [OF r(1) T0 r(3), of ms'] start_le_target [OF r, of ms']
  note st = accelStep_val [OF S(1) S0(1) T(1) T(3) T(2) a]
  have "f32_val (accelStep_of a (startFreq_of ms') (targetFreq_of r' ms')) \<le> 655350"
    using st(4,5) by (rule order.trans)
  moreover have "profile_of r a ms sp = \<lparr>sp_microsteps = ms', sp_gearRatio = f32_lit 3,
      sp_minStartRPM = f32_lit 2, sp_targetRPM = r', sp_startFreq = startFreq_of ms',
      sp_targetFreq = targetFreq_of r' ms',
      sp_accelStepPerMs = accelStep_of a (startFreq_of ms') (targetFreq_of r' ms')\<rparr>"
    by (simp only: profile_of_def Let_def ms'_def r'_def)
  ultimately show ?thesis
    unfolding ramp_ok_def using S(1) S0(2) T st(2,3) by (simp only: shaft_profile.simps simp_thms)
qed

section \<open>The kinematic tick\<close>

text \<open>What holds between ticks while a profile is being followed.\<close>

definition motor_inv :: "motor \<Rightarrow> bool" where
  "motor_inv m \<longleftrightarrow>
     ramp_ok (shaft m) \<and>
     (currentState m \<noteq> STATE_STOPPED \<longrightarrow>
        f32_finite (currentFreq m) \<and>
        f32_val (sp_startFreq (shaft m)) \<le> f32_val (currentFreq m) \<and>
        f32_val (currentFreq m) \<le> f32_val (sp_targetFreq (shaft m))) \<and>
     (currentState m = STATE_CRUISING \<longrightarrow> currentFreq m = sp_targetFreq (shaft m))"

text \<open>Calls that reprogram the pulse timer only: no pin and no channel changes.\<close>

fun is_reg_write :: "hal_call \<Rightarrow> bool" where
  "is_reg_write (REG_WRITE r v) = True"
| "is_reg_write _ = False"

definition only_regs :: "hal_call list \<Rightarrow> bool" where
  "only_regs cs \<longleftrightarrow> list_all is_reg_write cs"

lemma is_reg_write_neutral:
  "is_reg_write c \<Longrightarrow> drive_pin port pin c l = l"
  "is_reg_write c \<Longrightarrow> drive_pwm t ch c r = r"
  by (cases c; simp)+

lemma only_regs_pin [simp]: "only_regs cs \<Longrightarrow> pin_after port pin l cs = l"
  by (induction cs) (simp_all add: only_regs_def trace_Cons is_reg_write_neutral)

lemma only_regs_pwm [simp]: "only_regs cs \<Longrightarrow> pwm_after t ch r cs = r"
  by (induction cs) (simp_all add: only_regs_def trace_Cons is_reg_write_neutral)

lemma SetFrequency_total: "\<exists>cs. HAL_Motor_SetFrequency f = Some cs \<and> only_regs cs"
proof (cases "f = 0")
  case True
  then show ?thesis by (simp add: HAL_Motor_SetFrequency_def only_regs_def)
next
  case False
  then show ?thesis by (auto simp: SetFrequency_eq Let_def only_regs_def)
qed

lemma set_frequency_defined:
  assumes "f32_finite w" "0 \<le> f32_val w" "f32_val w \<le> 655350"
  obtains f cs where "f32_to_u32 w = Some f" "HAL_Motor_SetFrequency f = Some cs" "only_regs cs"
proof -
  have "f32_val w < 2 ^ 32" using assms(3) by (rule order.strict_trans1) simp
  then have "f32_to_u32 w = Some (word_of_int \<lfloor>f32_val w\<rfloor>)" using assms by (intro f32_to_u32_Some)
  with SetFrequency_total that show ?thesis by blast
qed

text \<open>The next values of the two ramps.\<close>

definition ramp_up :: "motor \<Rightarrow> rat" where
  "ramp_up m = fl32 (f32_val (currentFreq m) + f32_val (sp_accelStepPerMs (shaft m)))"

definition ramp_down :: "motor \<Rightarrow> rat" where
  "ramp_down m = fl32 (f32_val (currentFreq m) - f32_val (sp_accelStepPerMs (shaft m)))"

lemma tick_accelerating:
  assumes "motor_inv m" and "currentState m = STATE_ACCELERATING"
  obtains cs f where "App_Motor_KinematicTick_1ms m =
      Some (m\<lparr>currentFreq := f, currentState := (if f32_val (sp_targetFreq (shaft m)) \<le> ramp_up m
                then STATE_CRUISING else STATE_ACCELERATING)\<rparr>, cs)"
    "only_regs cs" "f32_finite f"
    "f32_val (sp_targetFreq (shaft m)) \<le> ramp_up m \<Longrightarrow> f = sp_targetFreq (shaft m)"
    "ramp_up m < f32_val (sp_targetFreq (shaft m)) \<Longrightarrow> f32_val f = ramp_up m"
proof -
  let ?c = "currentFreq m" and ?s = "sp_accelStepPerMs (shaft m)" and ?t = "sp_targetFreq (shaft m)"
  have r: "f32_finite ?t" "f32_finite ?s" "f32_finite ?c" "0 \<le> f32_val ?s" "f32_val ?s \<le> 655350"
    "79 \<le> f32_val ?c" "f32_val ?c \<le> 655350" "79 \<le> f32_val ?t" "f32_val ?t \<le> 655350"
    using assms by (auto simp: motor_inv_def ramp_ok_def)
  have "fits32 (f32_val ?c + f32_val ?s)" using r by (intro fits32_mil) simp
  note add = f32_add_val [OF r(3) r(2) this, folded ramp_up_def]
  have up0: "0 \<le> ramp_up m" unfolding ramp_up_def using r by (intro rnd_nonneg) simp
  show thesis
  proof (cases "f32_val ?t \<le> ramp_up m")
    case True
    obtain f cs where "f32_to_u32 ?t = Some f" "HAL_Motor_SetFrequency f = Some cs" "only_regs cs"
      by (rule set_frequency_defined [of ?t]) (use r in auto)
    with True add r assms(2) show thesis
      by (intro that [of ?t cs]) (simp_all add: App_Motor_KinematicTick_1ms_def Let_def f32_le_val)
  next
    case False
    obtain f cs where "f32_to_u32 (f32_add ?c ?s) = Some f" "HAL_Motor_SetFrequency f = Some cs"
      "only_regs cs"
      by (rule set_frequency_defined [of "f32_add ?c ?s"]) (use r add up0 False in auto)
    with False add r assms(2) show thesis
      by (intro that [of "f32_add ?c ?s" cs])
        (simp_all add: App_Motor_KinematicTick_1ms_def Let_def f32_le_val)
  qed
qed

lemma tick_decelerating:
  assumes "motor_inv m" and "currentState m = STATE_DECELERATING"
  obtains cs f where "App_Motor_KinematicTick_1ms m =
      Some (m\<lparr>currentFreq := f, currentState := (if ramp_down m \<le> f32_val (sp_startFreq (shaft m))
                then STATE_STOPPED else STATE_DECELERATING)\<rparr>, cs)"
    "f32_finite f" "f32_val f = ramp_down m"
    "ramp_down m \<le> f32_val (sp_startFreq (shaft m)) \<Longrightarrow>
       cs = HAL_Motor_StopTimer @ HAL_Motor_Enable False"
    "f32_val (sp_startFreq (shaft m)) < ramp_down m \<Longrightarrow> only_regs cs"
proof -
  let ?c = "currentFreq m" and ?s = "sp_accelStepPerMs (shaft m)" and ?b = "sp_startFreq (shaft m)"
  have r: "f32_finite ?b" "f32_finite ?s" "f32_finite ?c" "0 \<le> f32_val ?s" "f32_val ?s \<le> 655350"
    "79 \<le> f32_val ?c" "f32_val ?c \<le> 655350" "79 \<le> f32_val ?b"
    using assms by (auto simp: motor_inv_def ramp_ok_def)
  have "fits32 (f32_val ?c - f32_val ?s)" using r by (intro fits32_mil) simp
  note sub = f32_sub_val [OF r(3) r(2) this, folded ramp_down_def]
  have dn: "ramp_down m \<le> f32_val ?c" unfolding ramp_down_def using r by (intro b32.fl_sub_le) auto
  show thesis
  proof (cases "ramp_down m \<le> f32_val ?b")
    case True
    with sub r assms(2) show thesis
      by (intro that [of "f32_sub ?c ?s" "HAL_Motor_StopTimer @ HAL_Motor_Enable False"])
        (simp_all add: App_Motor_KinematicTick_1ms_def Let_def f32_le_val)
  next
    case False
    obtain f cs where "f32_to_u32 (f32_sub ?c ?s) = Some f" "HAL_Motor_SetFrequency f = Some cs"
      "only_regs cs"
      by (rule set_frequency_defined [of "f32_sub ?c ?s"]) (use r sub dn False in auto)
    with False sub r assms(2) show thesis
      by (intro that [of "f32_sub ?c ?s" cs])
        (simp_all add: App_Motor_KinematicTick_1ms_def Let_def f32_le_val)
  qed
qed

section \<open>Preservation and safety\<close>

lemma motor_inv_tick:
  assumes "motor_inv m"
  obtains m' cs where "App_Motor_KinematicTick_1ms m = Some (m', cs)" "motor_inv m'"
    "shaft m' = shaft m"
proof -
  have r: "rep32 (f32_val (currentFreq m))" "0 \<le> f32_val (sp_accelStepPerMs (shaft m))"
    using assms by (simp_all add: motor_inv_def ramp_ok_def)
  show thesis
  proof (cases "currentState m")
    case STATE_ACCELERATING
    note inv = assms [unfolded motor_inv_def] and up = b32.fl_add_ge [OF r, folded ramp_up_def]
    obtain cs f where t: "App_Motor_KinematicTick_1ms m =
        Some (m\<lparr>currentFreq := f, currentState := (if f32_val (sp_targetFreq (shaft m)) \<le> ramp_up m
                  then STATE_CRUISING else STATE_ACCELERATING)\<rparr>, cs)"
      "f32_finite f" "f32_val (sp_targetFreq (shaft m)) \<le> ramp_up m \<Longrightarrow> f = sp_targetFreq (shaft m)"
      "ramp_up m < f32_val (sp_targetFreq (shaft m)) \<Longrightarrow> f32_val f = ramp_up m"
      using tick_accelerating [OF assms STATE_ACCELERATING] by metis
    show thesis
      by (rule that [OF t(1)])
        (use inv up t STATE_ACCELERATING in \<open>auto simp: motor_inv_def ramp_ok_def\<close>)
  next
    case STATE_DECELERATING
    note inv = assms [unfolded motor_inv_def] and dn = b32.fl_sub_le [OF r, folded ramp_down_def]
    obtain cs f where t: "App_Motor_KinematicTick_1ms m =
        Some (m\<lparr>currentFreq := f, currentState := (if ramp_down m \<le> f32_val (sp_startFreq (shaft m))
                  then STATE_STOPPED else STATE_DECELERATING)\<rparr>, cs)"
      "f32_finite f" "f32_val f = ramp_down m"
      using tick_decelerating [OF assms STATE_DECELERATING] by metis
    show thesis
      by (rule that [OF t(1)])
        (use inv dn t STATE_DECELERATING in \<open>auto simp: motor_inv_def ramp_ok_def\<close>)
  qed (use that assms in \<open>auto simp: App_Motor_KinematicTick_1ms_def\<close>)
qed

lemma motor_inv_stop [inv_intros]: "motor_inv m \<Longrightarrow> motor_inv (App_Motor_Stop m)"
  by (auto simp: motor_inv_def App_Motor_Stop_def)

lemma motor_start_ok:
  assumes "ramp_ok (shaft m)" and "currentState m = STATE_STOPPED \<or> currentState m = STATE_DECELERATING"
  obtains cs where "App_Motor_Start d m =
      Some (m\<lparr>currentFreq := sp_startFreq (shaft m), currentState := STATE_ACCELERATING\<rparr>, cs)"
    "pin_after GPIOB EN_PIN l cs" "pin_after GPIOA DIR_PIN l cs = (d \<noteq> 0)"
    "pwm_after TIM2 STEP_CHANNEL r cs"
proof -
  obtain f cs where f: "f32_to_u32 (sp_startFreq (shaft m)) = Some f"
      "HAL_Motor_SetFrequency f = Some cs" "only_regs cs"
    by (rule set_frequency_defined [of "sp_startFreq (shaft m)"])
      (use assms(1) in \<open>auto simp: ramp_ok_def\<close>)
  show thesis
    by (rule that [of "HAL_Motor_SetDirection d @ HAL_Motor_Enable True @ cs @ HAL_Motor_StartTimer"])
      (use f assms(2) in \<open>simp_all add: App_Motor_Start_def hal_motor_defs hw_simps\<close>)
qed

lemma motor_inv_start:
  assumes "motor_inv m"
  shows "\<exists>m' cs. App_Motor_Start d m = Some (m', cs) \<and> motor_inv m' \<and> shaft m' = shaft m"
proof (cases "currentState m = STATE_STOPPED \<or> currentState m = STATE_DECELERATING")
  case True
  have "ramp_ok (shaft m)" using assms by (simp add: motor_inv_def)
  then obtain cs where "App_Motor_Start d m =
      Some (m\<lparr>currentFreq := sp_startFreq (shaft m), currentState := STATE_ACCELERATING\<rparr>, cs)"
    using motor_start_ok [OF _ True] by metis
  then show ?thesis using assms by (auto simp: motor_inv_def ramp_ok_def)
next
  case False
  then show ?thesis using assms by (auto simp: App_Motor_Start_def)
qed

section \<open>Runs of ticks\<close>

fun motor_run :: "nat \<Rightarrow> motor \<Rightarrow> (motor \<times> hal_call list) option" where
  "motor_run 0 m = Some (m, [])"
| "motor_run (Suc n) m = do {
     (m1, cs1) \<leftarrow> App_Motor_KinematicTick_1ms m;
     (m2, cs2) \<leftarrow> motor_run n m1;
     Some (m2, cs1 @ cs2)
   }"

definition tick_state :: "motor \<Rightarrow> motor" where
  "tick_state m = (case App_Motor_KinematicTick_1ms m of Some (m', _) \<Rightarrow> m' | None \<Rightarrow> m)"

lemma motor_inv_tick_state [inv_intros]: "motor_inv m \<Longrightarrow> motor_inv (tick_state m)"
  using motor_inv_tick [of m] by (metis (no_types, lifting) case_prod_conv option.simps(5) tick_state_def)

lemma motor_run_tick_state:
  "motor_inv m \<Longrightarrow> \<exists>cs. motor_run n m = Some ((tick_state ^^ n) m, cs)"
proof (induction n arbitrary: m)
  case 0
  then show ?case by simp
next
  case (Suc n)
  obtain m' cs where t: "App_Motor_KinematicTick_1ms m = Some (m', cs)" "motor_inv m'"
    using motor_inv_tick [OF Suc.prems] by metis
  then have "tick_state m = m'" by (simp add: tick_state_def)
  then show ?case using t Suc.IH [OF t(2)] by (auto simp: funpow_swap1)
qed

lemma fold_replicate: "fold (\<lambda>_. f) (replicate n ()) s = (f ^^ n) s"
  by (induction n arbitrary: s) (simp_all add: funpow_swap1)

section \<open>Both ramps end\<close>

text \<open>
  The step is at least one unit in the last place of the target frequency: rounding then costs
  at most half a step per tick.
\<close>

definition resolves :: "shaft_profile \<Rightarrow> bool" where
  "resolves sp \<longleftrightarrow> 2 powi (qexp 24 (- 149) (f32_val (sp_targetFreq sp))) \<le> f32_val (sp_accelStepPerMs sp)"

lemma resolves_pos: "resolves sp \<Longrightarrow> 0 < f32_val (sp_accelStepPerMs sp)"
  unfolding resolves_def by (rule order.strict_trans2 [OF powi_pos])

lemma rounding_cost:
  assumes "resolves sp" and "0 < x" and "x \<le> f32_val (sp_targetFreq sp)"
  shows "\<bar>fl32 x - x\<bar> \<le> f32_val (sp_accelStepPerMs sp) / 2"
proof -
  have "(2::rat) powi (qexp 24 (- 149) x) \<le> 2 powi (qexp 24 (- 149) (f32_val (sp_targetFreq sp)))"
    using assms(2,3) by (intro powi_mono qexp_mono)
  then have "(2::rat) powi (qexp 24 (- 149) x) / 2 \<le> f32_val (sp_accelStepPerMs sp) / 2"
    using assms(1) by (simp add: resolves_def)
  with rnd_err [OF assms(2), of 24 "- 149"] show ?thesis by (rule order.trans)
qed

text \<open>Upper bounds on the ticks each ramp still takes.\<close>

definition accel_ticks :: "motor \<Rightarrow> nat" where
  "accel_ticks m = nat \<lceil>2 * (f32_val (sp_targetFreq (shaft m)) - f32_val (currentFreq m))
                        / f32_val (sp_accelStepPerMs (shaft m))\<rceil>"

definition decel_ticks :: "motor \<Rightarrow> nat" where
  "decel_ticks m = nat \<lceil>2 * (f32_val (currentFreq m) - f32_val (sp_startFreq (shaft m)))
                        / f32_val (sp_accelStepPerMs (shaft m))\<rceil>"

lemma nat_ceiling_drop:
  assumes "0 < s" and "a' + s / 2 \<le> a" and "0 < (a :: rat)"
  shows "nat \<lceil>2 * a' / s\<rceil> < nat \<lceil>2 * a / s\<rceil>"
proof -
  have "2 * a' / s + 1 = (2 * a' + s) / s" using assms(1) by (simp add: add_divide_distrib)
  also have "\<dots> \<le> 2 * a / s" using assms by (intro divide_right_mono) auto
  finally have "2 * a' / s + 1 \<le> 2 * a / s" .
  then have "\<lceil>2 * a' / s\<rceil> + 1 \<le> \<lceil>2 * a / s\<rceil>" by linarith
  moreover have "0 < \<lceil>2 * a / s\<rceil>" using assms by simp
  ultimately show ?thesis by linarith
qed

definition accel_phase :: "motor \<Rightarrow> bool" where
  "accel_phase m \<longleftrightarrow> motor_inv m \<and> resolves (shaft m) \<and>
     (currentState m = STATE_ACCELERATING \<or> currentState m = STATE_CRUISING)"

definition decel_phase :: "motor \<Rightarrow> bool" where
  "decel_phase m \<longleftrightarrow> motor_inv m \<and> resolves (shaft m) \<and>
     (currentState m = STATE_DECELERATING \<or> currentState m = STATE_STOPPED)"

lemma tick_state_idle:
  "currentState m = STATE_CRUISING \<or> currentState m = STATE_STOPPED \<Longrightarrow> tick_state m = m"
  by (auto simp: tick_state_def App_Motor_KinematicTick_1ms_def)

lemma accel_progress:
  assumes "accel_phase m" and "currentState m = STATE_ACCELERATING"
  shows "currentState (tick_state m) = STATE_CRUISING \<or>
    currentState (tick_state m) = STATE_ACCELERATING \<and> accel_ticks (tick_state m) < accel_ticks m"
    and "shaft (tick_state m) = shaft m"
proof -
  let ?c = "f32_val (currentFreq m)" and ?s = "f32_val (sp_accelStepPerMs (shaft m))"
    and ?t = "f32_val (sp_targetFreq (shaft m))"
  have inv: "motor_inv m" and res: "resolves (shaft m)" using assms(1) by (simp_all add: accel_phase_def)
  have c: "0 < ?c" using inv assms(2) by (auto simp: motor_inv_def ramp_ok_def)
  have s: "0 < ?s" using res by (rule resolves_pos)
  obtain cs f where t: "App_Motor_KinematicTick_1ms m =
      Some (m\<lparr>currentFreq := f, currentState := (if ?t \<le> ramp_up m
                then STATE_CRUISING else STATE_ACCELERATING)\<rparr>, cs)"
    "ramp_up m < ?t \<Longrightarrow> f32_val f = ramp_up m"
    using tick_accelerating [OF inv assms(2)] by metis
  show "shaft (tick_state m) = shaft m" by (simp add: tick_state_def t(1))
  show "currentState (tick_state m) = STATE_CRUISING \<or>
    currentState (tick_state m) = STATE_ACCELERATING \<and> accel_ticks (tick_state m) < accel_ticks m"
  proof (cases "?t \<le> ramp_up m")
    case True
    then show ?thesis by (simp add: tick_state_def t(1))
  next
    case False
    have "?c + ?s < ?t"
    proof (rule ccontr)
      assume "\<not> ?thesis"
      then have "?t \<le> ramp_up m" unfolding ramp_up_def by (intro b32.fl_ge) auto
      with False show False by simp
    qed
    then have "\<bar>fl32 (?c + ?s) - (?c + ?s)\<bar> \<le> ?s / 2"
      using c s by (intro rounding_cost [OF res]) auto
    then have "?c + ?s / 2 \<le> ramp_up m" unfolding ramp_up_def by linarith
    then have "nat \<lceil>2 * (?t - ramp_up m) / ?s\<rceil> < nat \<lceil>2 * (?t - ?c) / ?s\<rceil>"
      using s \<open>?c + ?s < ?t\<close> by (intro nat_ceiling_drop) auto
    then show ?thesis using False t by (simp add: tick_state_def accel_ticks_def)
  qed
qed

lemma decel_progress:
  assumes "decel_phase m" and "currentState m = STATE_DECELERATING"
  shows "currentState (tick_state m) = STATE_STOPPED \<or>
    currentState (tick_state m) = STATE_DECELERATING \<and> decel_ticks (tick_state m) < decel_ticks m"
    and "shaft (tick_state m) = shaft m"
proof -
  let ?c = "f32_val (currentFreq m)" and ?s = "f32_val (sp_accelStepPerMs (shaft m))"
    and ?b = "f32_val (sp_startFreq (shaft m))" and ?t = "f32_val (sp_targetFreq (shaft m))"
  have inv: "motor_inv m" and res: "resolves (shaft m)" using assms(1) by (simp_all add: decel_phase_def)
  have c: "0 < ?b" "?c \<le> ?t" using inv assms(2) by (auto simp: motor_inv_def ramp_ok_def)
  have s: "0 < ?s" using res by (rule resolves_pos)
  obtain cs f where t: "App_Motor_KinematicTick_1ms m =
      Some (m\<lparr>currentFreq := f, currentState := (if ramp_down m \<le> ?b
                then STATE_STOPPED else STATE_DECELERATING)\<rparr>, cs)" "f32_val f = ramp_down m"
    using tick_decelerating [OF inv assms(2)] by metis
  show "shaft (tick_state m) = shaft m" by (simp add: tick_state_def t(1))
  show "currentState (tick_state m) = STATE_STOPPED \<or>
    currentState (tick_state m) = STATE_DECELERATING \<and> decel_ticks (tick_state m) < decel_ticks m"
  proof (cases "ramp_down m \<le> ?b")
    case True
    then show ?thesis by (simp add: tick_state_def t(1))
  next
    case False
    have b: "?b < ?c - ?s"
    proof (rule ccontr)
      assume "\<not> ?thesis"
      then have "ramp_down m \<le> ?b" unfolding ramp_down_def by (intro b32.fl_le) auto
      with False show False by simp
    qed
    then have "\<bar>fl32 (?c - ?s) - (?c - ?s)\<bar> \<le> ?s / 2"
      using c s by (intro rounding_cost [OF res]) auto
    then have "ramp_down m \<le> ?c - ?s / 2" unfolding ramp_down_def by linarith
    then have "nat \<lceil>2 * (ramp_down m - ?b) / ?s\<rceil> < nat \<lceil>2 * (?c - ?b) / ?s\<rceil>"
      using s b by (intro nat_ceiling_drop) auto
    then show ?thesis using False t by (simp add: tick_state_def decel_ticks_def)
  qed
qed

interpretation accel: progress_machine "\<lambda>_ :: unit. tick_state" "\<lambda>_. True" accel_phase
  "\<lambda>m. currentState m = STATE_CRUISING" accel_ticks
proof unfold_locales
  fix m :: motor and i :: unit
  assume "accel_phase m"
  then show "accel_phase (tick_state m)"
    using accel_progress [of m] tick_state_idle [of m] motor_inv_tick_state [of m]
    by (cases "currentState m = STATE_CRUISING") (auto simp: accel_phase_def)
qed (use accel_progress tick_state_idle in \<open>auto simp: accel_phase_def\<close>)

interpretation decel: progress_machine "\<lambda>_ :: unit. tick_state" "\<lambda>_. True" decel_phase
  "\<lambda>m. currentState m = STATE_STOPPED" decel_ticks
proof unfold_locales
  fix m :: motor and i :: unit
  assume "decel_phase m"
  then show "decel_phase (tick_state m)"
    using decel_progress [of m] tick_state_idle [of m] motor_inv_tick_state [of m]
    by (cases "currentState m = STATE_STOPPED") (auto simp: decel_phase_def)
qed (use decel_progress tick_state_idle in \<open>auto simp: decel_phase_def\<close>)

section \<open>The outputs of a stopping ramp\<close>

lemma decel_run_outputs:
  "motor_inv m \<Longrightarrow> currentState m = STATE_DECELERATING \<Longrightarrow> motor_run n m = Some (m', cs) \<Longrightarrow>
   currentState m' = STATE_STOPPED \<Longrightarrow>
   \<not> pin_after GPIOB EN_PIN l cs \<and> \<not> pwm_after TIM2 STEP_CHANNEL r cs"
proof (induction n arbitrary: m cs l r)
  case 0
  then show ?case by simp
next
  case (Suc n)
  obtain cs1 f where t: "App_Motor_KinematicTick_1ms m =
      Some (m\<lparr>currentFreq := f, currentState := (if ramp_down m \<le> f32_val (sp_startFreq (shaft m))
                then STATE_STOPPED else STATE_DECELERATING)\<rparr>, cs1)"
    "ramp_down m \<le> f32_val (sp_startFreq (shaft m)) \<Longrightarrow>
       cs1 = HAL_Motor_StopTimer @ HAL_Motor_Enable False"
    "f32_val (sp_startFreq (shaft m)) < ramp_down m \<Longrightarrow> only_regs cs1"
    using tick_decelerating [OF Suc.prems(1,2)] by metis
  obtain m1 where m1: "App_Motor_KinematicTick_1ms m = Some (m1, cs1)" "motor_inv m1"
    using motor_inv_tick [OF Suc.prems(1)] t(1) by (metis option.inject prod.inject)
  obtain cs2 where cs2: "motor_run n m1 = Some (m', cs2)" "cs = cs1 @ cs2"
    using Suc.prems(3) m1(1) by (auto split: option.splits bind_splits)
  show ?case
  proof (cases "ramp_down m \<le> f32_val (sp_startFreq (shaft m))")
    case True
    then have "currentState m1 = STATE_STOPPED" using t(1) m1(1) by auto
    moreover have "motor_run k x = Some (x, [])" if "currentState x = STATE_STOPPED" for k x
      using that by (induction k) (simp_all add: App_Motor_KinematicTick_1ms_def)
    ultimately have "cs2 = []" using cs2(1) by simp
    then show ?thesis
      using t(2) [OF True] cs2(2) by (simp add: hal_motor_defs hw_simps)
  next
    case False
    then have "currentState m1 = STATE_DECELERATING" and "only_regs cs1"
      using t m1(1) by auto
    then show ?thesis
      using Suc.IH [OF m1(2) _ cs2(1) Suc.prems(4)] cs2(2) by simp
  qed
qed

section \<open>Requests the profile does not follow\<close>

text \<open>
  A speed request of 200 RPM or more is not applied. Before any accepted request the target
  stays 0, the step is negative, and a stop issued before the first tick makes the frequency
  grow with every tick instead of falling.
\<close>

lemma runaway_tick:
  assumes "currentState m = STATE_DECELERATING" "f32_finite (currentFreq m)"
    "f32_finite (sp_startFreq (shaft m))" "f32_finite (sp_accelStepPerMs (shaft m))"
    "f32_val (sp_accelStepPerMs (shaft m)) < 0" "- (10 ^ 10) \<le> f32_val (sp_accelStepPerMs (shaft m))"
    "0 \<le> f32_val (currentFreq m)" "f32_val (currentFreq m) \<le> 10 ^ 10"
    "f32_val (sp_startFreq (shaft m)) < f32_val (currentFreq m)"
    and t: "App_Motor_KinematicTick_1ms m = Some (m', cs)"
  shows "currentState m' = STATE_DECELERATING" "shaft m' = shaft m" "f32_finite (currentFreq m')"
    "f32_val (currentFreq m) \<le> f32_val (currentFreq m')" "f32_val (currentFreq m') \<le> 10 ^ 10"
proof -
  let ?s = "sp_accelStepPerMs (shaft m)" and ?n = "f32_sub (currentFreq m) (sp_accelStepPerMs (shaft m))"
  have "fits32 (f32_val (currentFreq m) - f32_val ?s)" using assms by (intro fits32_mil) simp
  note v = f32_sub_val [OF assms(2,4) this]
  have up: "f32_val (currentFreq m) \<le> f32_val ?n"
    unfolding v(1) using assms(5) by (intro b32.fl_ge) simp_all
  then have gt: "\<not> f32_val ?n \<le> f32_val (sp_startFreq (shaft m))" using assms(9) by simp
  then have m': "m' = m\<lparr>currentFreq := ?n\<rparr>" "f32_to_u32 ?n \<noteq> None"
    using t assms(1,3) v(2)
    by (auto simp: App_Motor_KinematicTick_1ms_def Let_def f32_le_val split: bind_splits)
  then have "trunc (f32_val ?n) < 2 ^ 32" by (auto simp: f32_to_u32_def split: if_splits)
  moreover have "0 \<le> f32_val ?n" using up assms(7) by (rule order.trans [rotated])
  ultimately have "f32_val ?n < 2 ^ 32" by (simp add: trunc_def floor_less_iff)
  then have "f32_val ?n \<le> 10 ^ 10" by (rule order.strict_implies_order [OF order.strict_trans]) simp
  then show "currentState m' = STATE_DECELERATING" "shaft m' = shaft m" "f32_finite (currentFreq m')"
    "f32_val (currentFreq m) \<le> f32_val (currentFreq m')" "f32_val (currentFreq m') \<le> 10 ^ 10"
    using m'(1) v(2) up assms(1) by simp_all
qed

definition runs_away :: "motor \<Rightarrow> bool" where
  "runs_away m \<longleftrightarrow> currentState m = STATE_DECELERATING \<and> f32_finite (currentFreq m) \<and>
     f32_finite (sp_startFreq (shaft m)) \<and> f32_finite (sp_accelStepPerMs (shaft m)) \<and>
     f32_val (sp_accelStepPerMs (shaft m)) < 0 \<and> - (10 ^ 10) \<le> f32_val (sp_accelStepPerMs (shaft m)) \<and>
     0 \<le> f32_val (currentFreq m) \<and> f32_val (currentFreq m) \<le> 10 ^ 10 \<and>
     f32_val (sp_startFreq (shaft m)) < f32_val (currentFreq m)"

lemma runs_away_run:
  "runs_away m \<Longrightarrow> motor_run n m = Some (m', cs) \<Longrightarrow>
   currentState m' = STATE_DECELERATING \<and> f32_val (currentFreq m) \<le> f32_val (currentFreq m')"
proof (induction n arbitrary: m cs)
  case 0
  then show ?case by (simp add: runs_away_def)
next
  case (Suc n)
  then obtain m1 cs1 cs2 where t: "App_Motor_KinematicTick_1ms m = Some (m1, cs1)"
    "motor_run n m1 = Some (m', cs2)"
    by (auto split: bind_splits)
  from Suc.prems(1) have "runs_away m1" and le: "f32_val (currentFreq m) \<le> f32_val (currentFreq m1)"
    unfolding runs_away_def using runaway_tick [OF _ _ _ _ _ _ _ _ _ t(1)] by auto
  then show ?case using Suc.IH [OF _ t(2)] by auto
qed

end
