(* ===== verification/Motor_Props.thy ===== *)
theory Motor_Props
  imports Motor
begin

text \<open>
  The properties of the motion controller (\<open>app_motor.c\<close>, \<open>hal/hal_motor.c\<close>), each applied at a
  concrete profile: the factory settings of 8 RPM in 5 s at 5000 microsteps, just started.
\<close>

section \<open>A concrete run\<close>

definition demo_profile :: motor where
  "demo_profile = App_Motor_CalculateProfile (f32_lit 8) (f32_lit 5) 5000 motor0"

definition demo_running :: motor where
  "demo_running = (case App_Motor_Start 0 demo_profile of Some (m, _) \<Rightarrow> m | None \<Rightarrow> motor0)"

definition demo_cruising :: motor where
  "demo_cruising =
     demo_running\<lparr>currentState := STATE_CRUISING, currentFreq := sp_targetFreq (shaft demo_running)\<rparr>"

lemma demo_running_eq:
  "demo_running = \<lparr>shaft = \<lparr>sp_microsteps = 5000, sp_gearRatio = 1077936128, sp_minStartRPM = 1073741824,
      sp_targetRPM = 1090519040, sp_startFreq = 1140457472, sp_targetFreq = 1157234688,
      sp_accelStepPerMs = 1050253722\<rparr>,
    currentState = STATE_ACCELERATING, currentFreq = 1140457472\<rparr>"
  by code_simp

lemma demo_accelerating: "accel_phase demo_running" "currentState demo_running = STATE_ACCELERATING"
  unfolding demo_running_eq by code_simp+

lemma demo_ticks: "accel_ticks demo_running < 10001"
  unfolding demo_running_eq by code_simp

lemma demo_stopping:
  "decel_phase (App_Motor_Stop demo_cruising)"
  "currentState (App_Motor_Stop demo_cruising) = STATE_DECELERATING"
  "decel_ticks (App_Motor_Stop demo_cruising) < 10001"
  unfolding demo_cruising_def demo_running_eq by code_simp+

section \<open>Properties\<close>

text \<open>
  C3: The motor profile computation is safe. From a well-formed shaft profile, with any bit
  pattern as speed request and any microstep value, the computed profile is well formed again;
  if the request was accepted, or an earlier one was, and the acceleration time is a finite
  number up to 1e20 s, then the start frequency is at least 79 Hz, the target frequency lies
  between it and 655350 Hz, the step per millisecond is finite and not negative, and the state
  machine and the current frequency are untouched.
\<close>

theorem profile_safe:
  assumes "profile_wf (shaft m)"
  shows "profile_wf (shaft (App_Motor_CalculateProfile r a ms m)) \<and>
    (rpm_accepted r \<or> sp_targetRPM (shaft m) \<noteq> f32_lit 0 \<longrightarrow> f32_finite a \<longrightarrow> f32_val a \<le> 10 ^ 20 \<longrightarrow>
       ramp_ok (shaft (App_Motor_CalculateProfile r a ms m))) \<and>
    currentState (App_Motor_CalculateProfile r a ms m) = currentState m \<and>
    currentFreq (App_Motor_CalculateProfile r a ms m) = currentFreq m"
  using profile_of_wf [OF assms] profile_of_ramp_ok [OF assms]
  by (simp add: CalculateProfile_eq [OF assms])

lemma profile_safe_witness:
  "profile_wf (shaft motor0) \<and> rpm_accepted (f32_lit 8) \<and>
   ramp_ok (shaft (App_Motor_CalculateProfile (f32_lit 8) (f32_lit 5) 5000 motor0))"
proof -
  have w: "profile_wf (shaft motor0)" by (simp add: motor0_def profile_wf0)
  have r: "rpm_accepted (f32_lit 8)" "f32_finite (f32_lit 5)" "f32_val (f32_lit 5) \<le> 10 ^ 20"
    by code_simp+
  show ?thesis using w r profile_safe [OF w, of "f32_lit 8" "f32_lit 5" 5000] by blast
qed

text \<open>
  C11: The kinematic tick never leaves the profile and never performs an undefined conversion:
  from any state that follows a ramp-following profile, every number of 1 ms ticks is defined
  and the frequency stays between the start and the target frequency, at the target while
  cruising.
\<close>

theorem ticks_stay_in_profile:
  assumes "motor_inv m"
  shows "\<exists>m' cs. motor_run n m = Some (m', cs) \<and> motor_inv m'"
proof -
  have "motor_inv ((tick_state ^^ n) m)"
    by (induction n) (simp_all add: assms motor_inv_tick_state)
  then show ?thesis using motor_run_tick_state [OF assms, of n] by blast
qed

lemma ticks_stay_in_profile_witness:
  "motor_inv demo_running \<and> (\<exists>m' cs. motor_run 400 demo_running = Some (m', cs) \<and> motor_inv m')"
proof -
  have i: "motor_inv demo_running" using demo_accelerating by (simp add: accel_phase_def)
  show ?thesis using i ticks_stay_in_profile [OF i, of 400] by blast
qed

text \<open>
  C12: Acceleration ends. If the step per millisecond is at least one unit in the last place of
  the target frequency, the motor reaches the cruising state at exactly the target frequency
  after at most twice the ideal number of ticks, although every addition rounds.
\<close>

theorem acceleration_reaches_cruise:
  assumes "motor_inv m" and "currentState m = STATE_ACCELERATING" and "resolves (shaft m)"
    and "accel_ticks m < n"
  shows "\<exists>m' cs. motor_run n m = Some (m', cs) \<and> currentState m' = STATE_CRUISING \<and>
    currentFreq m' = sp_targetFreq (shaft m')"
proof -
  have ph: "accel_phase m" using assms by (simp add: accel_phase_def)
  have all: "list_all (\<lambda>_ :: unit. True) (replicate n ())" by (simp add: list_all_length)
  have "currentState ((tick_state ^^ n) m) = STATE_CRUISING"
    using accel.run_reaches_goal [OF ph all] assms(4) by (simp add: fold_replicate)
  moreover have "accel_phase ((tick_state ^^ n) m)"
    using accel.run_inv [OF ph all] by (simp add: fold_replicate)
  ultimately show ?thesis
    using motor_run_tick_state [OF assms(1), of n] by (auto simp: accel_phase_def motor_inv_def)
qed

lemma acceleration_reaches_cruise_witness:
  "\<exists>m' cs. motor_run 10001 demo_running = Some (m', cs) \<and> currentState m' = STATE_CRUISING \<and>
    currentFreq m' = sp_targetFreq (shaft m')"
  by (rule acceleration_reaches_cruise)
    (use demo_accelerating demo_ticks in \<open>simp_all add: accel_phase_def\<close>)

text \<open>
  C13: A graceful stop completes and shuts the drive down. If a decelerating motor has a profile the
  interrupt can follow, its frequency is inside that profile (\<open>motor_inv\<close>), and the step is at least
  the spacing of the floats at the target frequency (\<open>resolves\<close>), then after at most twice the
  ideal number of ticks the state is STOPPED, the driver enable pin is low and the step pulse channel
  is off, whatever they were. A motor outside these conditions may decelerate for ever.
\<close>

theorem deceleration_stops:
  assumes "motor_inv m" and "currentState m = STATE_DECELERATING" and "resolves (shaft m)"
    and "decel_ticks m < n"
  shows "\<exists>m' cs. motor_run n m = Some (m', cs) \<and> currentState m' = STATE_STOPPED \<and>
    \<not> pin_after GPIOB EN_PIN l cs \<and> \<not> pwm_after TIM2 STEP_CHANNEL r cs"
proof -
  have ph: "decel_phase m" using assms by (simp add: decel_phase_def)
  have all: "list_all (\<lambda>_ :: unit. True) (replicate n ())" by (simp add: list_all_length)
  have st: "currentState ((tick_state ^^ n) m) = STATE_STOPPED"
    using decel.run_reaches_goal [OF ph all] assms(4) by (simp add: fold_replicate)
  obtain cs where run: "motor_run n m = Some ((tick_state ^^ n) m, cs)"
    using motor_run_tick_state [OF assms(1)] by blast
  show ?thesis using run st decel_run_outputs [OF assms(1,2) run st] by blast
qed

lemma deceleration_stops_witness:
  "\<exists>m' cs. motor_run 10001 (App_Motor_Stop demo_cruising) = Some (m', cs) \<and>
    currentState m' = STATE_STOPPED \<and>
    \<not> pin_after GPIOB EN_PIN True cs \<and> \<not> pwm_after TIM2 STEP_CHANNEL True cs"
  by (rule deceleration_stops)
    (use demo_stopping in \<open>simp_all add: decel_phase_def\<close>)

text \<open>
  Starting the motor. From STOPPED or DECELERATING with a followable profile the start
  command is defined, enters ACCELERATING at the start frequency, and leaves the enable pin
  high, the direction pin at the requested direction and the pulse channel running; in the
  other two states it does nothing.
\<close>

theorem start_command:
  assumes "ramp_ok (shaft m)"
  shows "if currentState m = STATE_STOPPED \<or> currentState m = STATE_DECELERATING
    then \<exists>cs. App_Motor_Start d m =
           Some (m\<lparr>currentFreq := sp_startFreq (shaft m), currentState := STATE_ACCELERATING\<rparr>, cs) \<and>
         pin_after GPIOB EN_PIN l cs \<and> pin_after GPIOA DIR_PIN l cs = (d \<noteq> 0) \<and>
         pwm_after TIM2 STEP_CHANNEL r cs
    else App_Motor_Start d m = Some (m, [])"
proof (cases "currentState m = STATE_STOPPED \<or> currentState m = STATE_DECELERATING")
  case True
  obtain cs where cs: "App_Motor_Start d m =
      Some (m\<lparr>currentFreq := sp_startFreq (shaft m), currentState := STATE_ACCELERATING\<rparr>, cs)"
    "pin_after GPIOB EN_PIN l cs" "pin_after GPIOA DIR_PIN l cs = (d \<noteq> 0)"
    "pwm_after TIM2 STEP_CHANNEL r cs"
    by (rule motor_start_ok [OF assms True])
  show ?thesis unfolding if_P [OF True] by (intro exI [of _ cs] conjI cs)
next
  case False
  then show ?thesis unfolding if_not_P [OF False] by (simp add: App_Motor_Start_def)
qed

lemma start_command_witness:
  "ramp_ok (shaft demo_profile) \<and> currentState demo_profile = STATE_STOPPED \<and>
   (\<exists>cs. App_Motor_Start 1 demo_profile = Some (demo_profile\<lparr>currentFreq :=
        sp_startFreq (shaft demo_profile), currentState := STATE_ACCELERATING\<rparr>, cs) \<and>
      pin_after GPIOB EN_PIN False cs \<and> pin_after GPIOA DIR_PIN False cs = ((1 :: u8) \<noteq> 0) \<and>
      pwm_after TIM2 STEP_CHANNEL False cs)"
proof -
  have "demo_running = demo_profile\<lparr>currentFreq := sp_startFreq (shaft demo_profile),
      currentState := STATE_ACCELERATING\<rparr>" by code_simp
  then have "shaft demo_running = shaft (demo_profile\<lparr>currentFreq :=
      sp_startFreq (shaft demo_profile), currentState := STATE_ACCELERATING\<rparr>)"
    by (rule arg_cong [where f = shaft])
  then have "shaft demo_profile = shaft demo_running" by simp
  then have r: "ramp_ok (shaft demo_profile)"
    using demo_accelerating by (simp add: accel_phase_def motor_inv_def)
  have s: "currentState demo_profile = STATE_STOPPED" by code_simp
  show ?thesis using r s start_command [OF r, of 1 False False]
    unfolding if_P [OF disjI1 [OF s]] by blast
qed

text \<open>
  C23: The timer reload value is exact. For every nonzero frequency the two rounded \<open>double\<close>
  operations and the truncation give the integer quotient \<open>84000000 div freqHz - 1\<close> (0 beyond
  84 MHz), the conversion is defined, and the compare value is half of the period, rounded down.
\<close>

theorem reload_exact:
  "HAL_Motor_SetFrequency freqHz =
    (if freqHz = 0 then Some []
     else let new_arr = word_of_int (max 0 (84000000 div uint freqHz - 1))
          in Some [REG_WRITE TIM2_ARR new_arr, REG_WRITE TIM2_CCR3 ((new_arr + 1) div 2)])"
  by (cases "freqHz = 0") (simp_all add: SetFrequency_eq, simp add: HAL_Motor_SetFrequency_def)

text \<open>
  C24: Slow ramps stall. With 2.1 RPM at 800 microsteps and an acceleration time of 6553.5 s, all
  in register range, the step is positive but is absorbed by rounding: after the start the tick
  returns the very same state, so the motor stays ACCELERATING at the start frequency for ever.
\<close>

theorem slow_ramp_stalls:
  "\<exists>m cs. App_Motor_Start 0 (App_Motor_CalculateProfile (tenths 21) (tenths 65535) 800 motor0) =
      Some (m, cs) \<and>
    currentState m = STATE_ACCELERATING \<and> 0 < f32_val (sp_accelStepPerMs (shaft m)) \<and>
    (\<forall>n. \<exists>cs'. motor_run n m = Some (m, cs'))"
proof -
  let ?m = "\<lparr>shaft = \<lparr>sp_microsteps = 800, sp_gearRatio = 1077936128, sp_minStartRPM = 1073741824,
      sp_targetRPM = 1074161254, sp_startFreq = 1117782016, sp_targetFreq = 1118306304,
      sp_accelStepPerMs = 891541422\<rparr>, currentState = STATE_ACCELERATING, currentFreq = 1117782016\<rparr>"
  have start: "map_option fst (App_Motor_Start 0
      (App_Motor_CalculateProfile (tenths 21) (tenths 65535) 800 motor0)) = Some ?m" by code_simp
  have tick: "map_option fst (App_Motor_KinematicTick_1ms ?m) = Some ?m" by code_simp
  then obtain c where "App_Motor_KinematicTick_1ms ?m = Some (?m, c)" by (auto split: option.splits)
  then have "\<exists>cs'. motor_run n ?m = Some (?m, cs')" for n
    by (induction n) auto
  moreover have "0 < f32_val (sp_accelStepPerMs (shaft ?m))" by code_simp
  ultimately show ?thesis using start by auto
qed

text \<open>
  C25: A rejected speed request can make a stop speed the motor up. If the first request since
  boot is 250 RPM (rejected, the limit is 200) and the stop comes before the first tick, then
  after any number of ticks that are defined the motor is still DECELERATING and its frequency
  is above the start frequency and has not fallen.
\<close>

theorem rejected_request_runaway:
  "\<exists>m cs. App_Motor_Start 0 (App_Motor_CalculateProfile (tenths 2500) (tenths 50) 5000 motor0) =
      Some (m, cs) \<and>
    (\<exists>m1 cs1. motor_run 1 (App_Motor_Stop m) = Some (m1, cs1) \<and>
      f32_val (currentFreq m) < f32_val (currentFreq m1) \<and>
      (\<forall>n. case motor_run n m1 of None \<Rightarrow> True
        | Some (m', cs') \<Rightarrow> currentState m' = STATE_DECELERATING \<and>
            f32_val (currentFreq m1) \<le> f32_val (currentFreq m')))"
proof -
  let ?s = "\<lparr>sp_microsteps = 5000, sp_gearRatio = 1077936128, sp_minStartRPM = 1073741824,
      sp_targetRPM = 0, sp_startFreq = 1140457472, sp_targetFreq = 0, sp_accelStepPerMs = 3184315597\<rparr>"
  let ?m = "\<lparr>shaft = ?s, currentState = STATE_ACCELERATING, currentFreq = 1140457472\<rparr>"
  let ?m1 = "\<lparr>shaft = ?s, currentState = STATE_DECELERATING, currentFreq = 1140460749\<rparr>"
  have start: "map_option fst (App_Motor_Start 0
      (App_Motor_CalculateProfile (tenths 2500) (tenths 50) 5000 motor0)) = Some ?m" by code_simp
  have tick: "map_option fst (motor_run 1 (App_Motor_Stop ?m)) = Some ?m1" by code_simp
  have up: "f32_val (currentFreq ?m) < f32_val (currentFreq ?m1)" by code_simp
  have run: "runs_away ?m1" by code_simp
  show ?thesis using start tick up runs_away_run [OF run]
    by (auto simp del: motor_run.simps split: option.splits)
qed

end
