(* ===== verification/Switch.thy ===== *)
theory Switch
  imports Hal
begin

text \<open>
  \<open>hal/hal_switch.c\<close> and \<open>app_switch.c\<close>: the run switch, read active-low from a pin every
  millisecond and debounced. The pin level the hardware delivers is the input of each step.
\<close>

section \<open>Hardware layer\<close>

definition SWITCH_PIN :: u16 where "SWITCH_PIN = GPIO_PIN 4"

definition HAL_Switch_Init :: "hal_call list" where
  "HAL_Switch_Init =
     [RCC_CLK_ENABLE (CLK_GPIO GPIOE),
      HAL_GPIO_Init GPIOE (gpio_init0\<lparr>gi_Pin := SWITCH_PIN, gi_Mode := MODE_INPUT,
        gi_Pull := GPIO_PULLUP\<rparr>)]"

text \<open>The level read by \<open>HAL_GPIO_ReadPin\<close>, \<open>False\<close> for \<open>GPIO_PIN_RESET\<close>.\<close>

definition HAL_Switch_GetRawState :: "bool \<Rightarrow> bool" where
  "HAL_Switch_GetRawState level = (if level = False then True else False)"

section \<open>Debouncing\<close>

record switch =
  switchStableState :: bool
  switchLastRawState :: bool
  debounceCounter :: u16

definition DEBOUNCE_TIME_MS :: u16 where "DEBOUNCE_TIME_MS = 50"

definition switch0 :: switch where
  "switch0 = \<lparr>switchStableState = False, switchLastRawState = False, debounceCounter = 0\<rparr>"

definition App_Switch_Init :: "bool \<Rightarrow> switch \<Rightarrow> switch \<times> hal_call list" where
  "App_Switch_Init level s =
     (let s = s\<lparr>switchStableState := HAL_Switch_GetRawState level\<rparr>;
          s = s\<lparr>switchLastRawState := switchStableState s\<rparr>
      in (s, HAL_Switch_Init))"

definition App_Switch_Tick_1ms :: "bool \<Rightarrow> switch \<Rightarrow> switch" where
  "App_Switch_Tick_1ms level s =
     (let rawState = HAL_Switch_GetRawState level
      in if rawState \<noteq> switchLastRawState s
         then s\<lparr>debounceCounter := 0, switchLastRawState := rawState\<rparr>
         else if debounceCounter s < DEBOUNCE_TIME_MS
         then (let s = s\<lparr>debounceCounter := debounceCounter s + 1\<rparr>
               in if debounceCounter s = DEBOUNCE_TIME_MS
                  then s\<lparr>switchStableState := rawState\<rparr> else s)
         else s)"

definition App_Switch_GetState :: "switch \<Rightarrow> bool" where
  "App_Switch_GetState s = switchStableState s"

section \<open>Reference: a state decided by the history of samples\<close>

text \<open>
  The newest sample first. The state follows a sample once it and the 50 samples before it
  agree; otherwise it stays what it was.
\<close>

fun debounced :: "bool list \<Rightarrow> bool" where
  "debounced [] = False"
| "debounced [r] = r"
| "debounced (r # h) =
     (if 50 \<le> length h \<and> (\<forall>x \<in> set (take 50 h). x = r) then r else debounced h)"

text \<open>The length of the run of equal samples that ends a history.\<close>

definition run_length :: "bool list \<Rightarrow> nat" where
  "run_length h = length (takeWhile (\<lambda>x. x = hd h) h)"

lemma run_length_Cons:
  "h \<noteq> [] \<Longrightarrow> run_length (r # h) = (if r = hd h then Suc (run_length h) else 1)"
  by (cases h) (auto simp: run_length_def)

lemma takeWhile_all: "n \<le> length (takeWhile P h) \<longleftrightarrow> n \<le> length h \<and> (\<forall>x \<in> set (take n h). P x)"
proof (induction h arbitrary: n)
  case Nil
  then show ?case by simp
next
  case (Cons a h)
  then show ?case by (cases n) auto
qed

lemma debounced_unfold:
  assumes "h \<noteq> []"
  shows "debounced (r # h) =
    (if 50 \<le> length h \<and> (\<forall>x \<in> set (take 50 h). x = r) then r else debounced h)"
proof -
  obtain a t where "h = a # t" using assms by (cases h) simp_all
  then show ?thesis by (simp only: debounced.simps)
qed

lemma debounced_Cons:
  assumes "h \<noteq> []"
  shows "debounced (r # h) = (if 51 \<le> run_length (r # h) then r else debounced h)"
proof -
  have "51 \<le> run_length (r # h) \<longleftrightarrow> 50 \<le> length (takeWhile (\<lambda>x. x = r) h)"
    by (simp add: run_length_def)
  then show ?thesis
    unfolding debounced_unfold [OF assms] takeWhile_all [of 50 "\<lambda>x. x = r" h] by (simp only:)
qed

text \<open>The code's three variables summarise the history.\<close>

definition summarises :: "switch \<Rightarrow> bool list \<Rightarrow> bool" where
  "summarises s h \<longleftrightarrow> h \<noteq> [] \<and> switchLastRawState s = hd h \<and> switchStableState s = debounced h \<and>
     unat (debounceCounter s) = min 50 (run_length h - 1)"

lemma run_length_pos: "h \<noteq> [] \<Longrightarrow> 1 \<le> run_length h"
  by (cases h) (auto simp: run_length_def)

lemma debounced_settled:
  "51 \<le> run_length h \<Longrightarrow> debounced h = hd h"
proof (cases h)
  case (Cons r t)
  assume "51 \<le> run_length h"
  then show ?thesis using Cons debounced_Cons [of t r] by (cases t) auto
qed (simp add: run_length_def)

lemma debounced_all: "h \<noteq> [] \<Longrightarrow> \<forall>x \<in> set h. x = r \<Longrightarrow> debounced h = r"
proof (induction h)
  case (Cons a h)
  then show ?case by (cases "h = []") (simp_all add: debounced_unfold)
qed simp

lemma tick_summarises:
  assumes "summarises s h"
  shows "summarises (App_Switch_Tick_1ms level s) (HAL_Switch_GetRawState level # h)"
proof -
  let ?r = "HAL_Switch_GetRawState level"
  have h: "h \<noteq> []" and last: "switchLastRawState s = hd h" and st: "switchStableState s = debounced h"
    and cnt: "unat (debounceCounter s) = min 50 (run_length h - 1)"
    using assms by (auto simp: summarises_def)
  have pos: "1 \<le> run_length h" using h by (rule run_length_pos)
  show ?thesis
  proof (cases "?r = hd h")
    case False
    then have "run_length (?r # h) = 1" using h by (simp add: run_length_Cons)
    then show ?thesis using False h st last
      by (simp add: summarises_def App_Switch_Tick_1ms_def Let_def debounced_Cons)
  next
    case True
    then have rl: "run_length (?r # h) = Suc (run_length h)" using h by (simp add: run_length_Cons)
    show ?thesis
    proof (cases "debounceCounter s < 50")
      case lt: True
      then have ult: "unat (debounceCounter s) < 50" by (simp add: word_less_nat_alt)
      then have "unat (debounceCounter s + 1) = Suc (unat (debounceCounter s))"
        by (simp add: unat_word_ariths)
      moreover have "debounceCounter s + 1 = 50 \<longleftrightarrow> unat (debounceCounter s + 1) = 50"
        by (simp add: word_unat_eq_iff)
      ultimately show ?thesis using True lt ult h st last cnt pos rl
        by (auto simp: summarises_def App_Switch_Tick_1ms_def Let_def debounced_Cons DEBOUNCE_TIME_MS_def)
    next
      case False
      then have "\<not> unat (debounceCounter s) < 50" by (simp add: word_less_nat_alt)
      then have "51 \<le> run_length h" using cnt by simp
      then show ?thesis using True False h st last cnt rl debounced_settled [of h]
        by (auto simp: summarises_def App_Switch_Tick_1ms_def Let_def debounced_Cons DEBOUNCE_TIME_MS_def)
    qed
  qed
qed

section \<open>Properties\<close>

lemma boot_summarises:
  "summarises (fst (App_Switch_Init level switch0)) [HAL_Switch_GetRawState level]"
  by (simp add: summarises_def App_Switch_Init_def switch0_def run_length_def)

lemma run_summarises:
  "summarises s h \<Longrightarrow>
   summarises (fold App_Switch_Tick_1ms ls s) (rev (map HAL_Switch_GetRawState ls) @ h)"
  by (induction ls arbitrary: s h) (auto dest: tick_summarises [where level = "_ :: bool"])

text \<open>
  The initialisation does not reset the counter. After ticks before it, the counter may be ahead
  until a sample differs, which the state does not show: until then all samples agree with it.
\<close>

definition tracks :: "switch \<Rightarrow> bool list \<Rightarrow> bool" where
  "tracks s h \<longleftrightarrow> summarises s h \<or>
     h \<noteq> [] \<and> (\<forall>x \<in> set h. x = switchStableState s) \<and> switchLastRawState s = switchStableState s"

lemma tick_tracks:
  assumes "tracks s h"
  shows "tracks (App_Switch_Tick_1ms level s) (HAL_Switch_GetRawState level # h)"
proof (cases "summarises s h")
  case True
  then show ?thesis by (simp add: tracks_def tick_summarises)
next
  case False
  then have h: "h \<noteq> []" "\<forall>x \<in> set h. x = switchStableState s" "switchLastRawState s = switchStableState s"
    using assms by (simp_all add: tracks_def)
  let ?r = "HAL_Switch_GetRawState level"
  show ?thesis
  proof (cases "?r = switchStableState s")
    case True
    then show ?thesis using h by (auto simp: tracks_def App_Switch_Tick_1ms_def Let_def)
  next
    case False
    have hd: "hd h = switchStableState s" using h(1,2) by simp
    have "run_length (?r # h) = 1" using h(1) hd False by (simp add: run_length_Cons)
    then have "summarises (App_Switch_Tick_1ms level s) (?r # h)"
      using False h hd debounced_all [OF h(1,2)]
      by (simp add: summarises_def App_Switch_Tick_1ms_def Let_def debounced_Cons)
    then show ?thesis by (simp add: tracks_def)
  qed
qed

lemma init_tracks: "tracks (fst (App_Switch_Init level s)) [HAL_Switch_GetRawState level]"
  by (simp add: tracks_def App_Switch_Init_def)

lemma run_tracks:
  "tracks s h \<Longrightarrow> tracks (fold App_Switch_Tick_1ms ls s) (rev (map HAL_Switch_GetRawState ls) @ h)"
  by (induction ls arbitrary: s h) (auto dest: tick_tracks [where level = "_ :: bool"])

text \<open>So the decision on the samples holds whatever the state before the initialisation.\<close>

lemma state_after_init:
  "App_Switch_GetState (fold App_Switch_Tick_1ms ls (fst (App_Switch_Init level s))) =
     debounced (rev (map HAL_Switch_GetRawState (level # ls)))"
proof -
  have state: "switchStableState t = debounced h" if "tracks t h" for t h
    using that debounced_all [of h "switchStableState t"] by (auto simp: tracks_def summarises_def)
  show ?thesis
    using state [OF run_tracks [OF init_tracks]] by (simp add: App_Switch_GetState_def)
qed

lemma debounced_steady:
  assumes "51 \<le> length h" "\<forall>x \<in> set (take 51 h). x = r"
  shows "debounced h = r"
proof -
  obtain a t where h: "h = a # t" using assms(1) by (cases h) simp_all
  then have "a = r" "50 \<le> length t" "\<forall>x \<in> set (take 50 t). x = r" using assms by simp_all
  moreover from this have "t \<noteq> []" by auto
  ultimately show ?thesis unfolding h by (simp add: debounced_unfold)
qed

text \<open>The samples taken since the start, newest first.\<close>

definition sampled :: "bool \<Rightarrow> bool list \<Rightarrow> bool list" where
  "sampled l0 ls = rev (map HAL_Switch_GetRawState (l0 # ls))"

definition switch_run :: "bool \<Rightarrow> bool list \<Rightarrow> switch" where
  "switch_run l0 ls = fold App_Switch_Tick_1ms ls (fst (App_Switch_Init l0 switch0))"

lemma switch_run_summarises: "summarises (switch_run l0 ls) (sampled l0 ls)"
  using run_summarises [OF boot_summarises] by (simp add: switch_run_def sampled_def)

text \<open>
  C26: the debouncer implements its specification: whatever levels the pin delivers, the state the
  application reads after start-up and any number of ticks is the one decided by the history of
  samples, and the counter never passes the debounce time.
\<close>

theorem debounce_refines:
  "App_Switch_GetState (fold App_Switch_Tick_1ms ls (fst (App_Switch_Init l0 switch0)))
     = debounced (rev (map HAL_Switch_GetRawState (l0 # ls)))
   \<and> debounceCounter (fold App_Switch_Tick_1ms ls (fst (App_Switch_Init l0 switch0)))
     \<le> DEBOUNCE_TIME_MS"
  using switch_run_summarises [of l0 ls]
  by (simp add: summarises_def switch_run_def sampled_def App_Switch_GetState_def
      DEBOUNCE_TIME_MS_def word_le_nat_alt)

text \<open>
  The state changes only on a tick at which the last 51 samples agree on the new state, so no
  glitch or bounce shorter than the debounce time is ever seen by the motor control.
\<close>

theorem no_glitch_passes:
  assumes change: "App_Switch_GetState (switch_run l0 (ls @ [l]))
      \<noteq> App_Switch_GetState (switch_run l0 ls)"
  shows "App_Switch_GetState (switch_run l0 (ls @ [l])) = HAL_Switch_GetRawState l
    \<and> 50 \<le> length (l0 # ls)
    \<and> list_all (\<lambda>x. x = HAL_Switch_GetRawState l) (take 50 (sampled l0 ls))"
proof -
  let ?r = "HAL_Switch_GetRawState l" and ?h = "sampled l0 ls"
  have ne: "?h \<noteq> []" by (simp add: sampled_def)
  have old: "App_Switch_GetState (switch_run l0 ls) = debounced ?h"
    using switch_run_summarises [of l0 ls] by (simp add: summarises_def App_Switch_GetState_def)
  have "sampled l0 (ls @ [l]) = ?r # ?h" by (simp add: sampled_def)
  then have new: "App_Switch_GetState (switch_run l0 (ls @ [l])) = debounced (?r # ?h)"
    using switch_run_summarises [of l0 "ls @ [l]"]
    by (simp only: summarises_def App_Switch_GetState_def)
  have len: "length ?h = length (l0 # ls)" by (simp add: sampled_def)
  show ?thesis
    using change unfolding old new debounced_unfold [OF ne] list_all_iff len
    by (simp split: if_splits)
qed

theorem no_glitch_passes_witness:
  "App_Switch_GetState (switch_run True (replicate 50 False @ [False])) = True
   \<and> list_all (\<lambda>x. x = True) (take 50 (sampled True (replicate 50 False)))"
proof -
  have change: "App_Switch_GetState (switch_run True (replicate 50 False @ [False]))
      \<noteq> App_Switch_GetState (switch_run True (replicate 50 False))"
    by code_simp
  show ?thesis using no_glitch_passes [OF change] by (simp add: HAL_Switch_GetRawState_def)
qed

end
