(* ===== verification/Lamp.thy ===== *)
theory Lamp
  imports Hal
begin

text \<open>
  \<open>hal/hal_lamp.c\<close> and \<open>app_lamp.c\<close>: the indicator lamps, off, on, or blinking without blocking.
\<close>

section \<open>Hardware layer\<close>

definition NUM_LAMPS :: u8 where "NUM_LAMPS = 2"

text \<open>The configuration table: both lamps name the same pin.\<close>

definition LampMap :: "(gpio_port \<times> u16) list" where
  "LampMap = [(GPIOE, GPIO_PIN 5), (GPIOE, GPIO_PIN 5)]"

definition HAL_Lamp_Init :: "hal_call list" where
  "HAL_Lamp_Init = RCC_CLK_ENABLE (CLK_GPIO GPIOE) #
     concat (map (\<lambda>i. [HAL_GPIO_Init (fst (LampMap ! i))
                          (gpio_init0\<lparr>gi_Mode := MODE_OUTPUT_PP, gi_Pull := GPIO_NOPULL,
                             gi_Speed := SPEED_LOW, gi_Pin := snd (LampMap ! i)\<rparr>),
                        HAL_GPIO_WritePin (fst (LampMap ! i)) (snd (LampMap ! i)) False])
       [0..<unat NUM_LAMPS])"

definition HAL_Lamp_SetState :: "u8 \<Rightarrow> bool \<Rightarrow> hal_call list" where
  "HAL_Lamp_SetState lampIndex st =
     (if NUM_LAMPS \<le> lampIndex then []
      else if st
      then [HAL_GPIO_WritePin (fst (LampMap ! unat lampIndex)) (snd (LampMap ! unat lampIndex)) True]
      else [HAL_GPIO_WritePin (fst (LampMap ! unat lampIndex)) (snd (LampMap ! unat lampIndex)) False])"

definition HAL_Lamp_Toggle :: "u8 \<Rightarrow> hal_call list" where
  "HAL_Lamp_Toggle lampIndex =
     (if NUM_LAMPS \<le> lampIndex then []
      else [HAL_GPIO_TogglePin (fst (LampMap ! unat lampIndex)) (snd (LampMap ! unat lampIndex))])"

lemma each_lamp: "[0..<unat NUM_LAMPS] = [0, 1]"
  by (simp add: NUM_LAMPS_def upt_conv_Cons)

section \<open>Modes\<close>

datatype lamp_mode = LAMP_MODE_OFF | LAMP_MODE_ON | LAMP_MODE_BLINK_SLOW | LAMP_MODE_BLINK_FAST

definition BLINK_SLOW_INTERVAL_MS :: u16 where "BLINK_SLOW_INTERVAL_MS = 500"
definition BLINK_FAST_INTERVAL_MS :: u16 where "BLINK_FAST_INTERVAL_MS = 100"

record lamps =
  currentModes :: "lamp_mode list"
  timeCounters :: "u16 list"

text \<open>Static storage starts at zero.\<close>

definition lamps0 :: lamps where
  "lamps0 = \<lparr>currentModes = [LAMP_MODE_OFF, LAMP_MODE_OFF], timeCounters = [0, 0]\<rparr>"

definition set_mode_cell :: "nat \<Rightarrow> lamp_mode \<Rightarrow> lamps \<Rightarrow> lamps" where
  "set_mode_cell i m s = s\<lparr>currentModes := (currentModes s)[i := m], timeCounters := (timeCounters s)[i := 0]\<rparr>"

definition App_Lamp_Init :: "lamps \<Rightarrow> lamps \<times> hal_call list" where
  "App_Lamp_Init s =
     (fold (\<lambda>i. set_mode_cell i LAMP_MODE_OFF) [0..<unat NUM_LAMPS] s, HAL_Lamp_Init)"

definition App_Lamp_SetMode :: "u8 \<Rightarrow> lamp_mode \<Rightarrow> lamps \<Rightarrow> lamps \<times> hal_call list" where
  "App_Lamp_SetMode lampIndex mode s =
     (if NUM_LAMPS \<le> lampIndex then (s, [])
      else if currentModes s ! unat lampIndex \<noteq> mode
      then (set_mode_cell (unat lampIndex) mode s,
            if mode = LAMP_MODE_OFF then HAL_Lamp_SetState lampIndex False
            else if mode = LAMP_MODE_ON then HAL_Lamp_SetState lampIndex True
            else [])
      else (s, []))"

text \<open>One pass of the loop body, for the lamp \<open>i\<close>.\<close>

definition count_lamp :: "u16 \<Rightarrow> nat \<Rightarrow> lamps \<Rightarrow> lamps \<times> hal_call list" where
  "count_lamp interval i s =
     (let s = s\<lparr>timeCounters := (timeCounters s)[i := timeCounters s ! i + 1]\<rparr>
      in if interval \<le> timeCounters s ! i
         then (s\<lparr>timeCounters := (timeCounters s)[i := 0]\<rparr>, HAL_Lamp_Toggle (of_nat i))
         else (s, []))"

definition tick_lamp :: "nat \<Rightarrow> lamps \<Rightarrow> lamps \<times> hal_call list" where
  "tick_lamp i s =
     (if currentModes s ! i = LAMP_MODE_BLINK_SLOW then count_lamp BLINK_SLOW_INTERVAL_MS i s
      else if currentModes s ! i = LAMP_MODE_BLINK_FAST then count_lamp BLINK_FAST_INTERVAL_MS i s
      else (s, []))"

text \<open>The loop over the lamps, the trace in order.\<close>

fun for_lamps :: "nat list \<Rightarrow> lamps \<Rightarrow> lamps \<times> hal_call list" where
  "for_lamps [] s = (s, [])"
| "for_lamps (i # is) s =
     (let (s, cs) = tick_lamp i s; (s, ds) = for_lamps is s in (s, cs @ ds))"

definition App_Lamp_Tick_1ms :: "lamps \<Rightarrow> lamps \<times> hal_call list" where
  "App_Lamp_Tick_1ms s = for_lamps [0..<unat NUM_LAMPS] s"

section \<open>Invariant\<close>

text \<open>A counter stays below the interval its mode counts to, and is 0 in a static mode.\<close>

fun interval_of :: "lamp_mode \<Rightarrow> nat" where
  "interval_of LAMP_MODE_BLINK_SLOW = 500"
| "interval_of LAMP_MODE_BLINK_FAST = 100"
| "interval_of _ = 1"

definition lamps_inv :: "lamps \<Rightarrow> bool" where
  "lamps_inv s \<longleftrightarrow> length (currentModes s) = 2 \<and> length (timeCounters s) = 2 \<and>
     unat (timeCounters s ! 0) < interval_of (currentModes s ! 0) \<and>
     unat (timeCounters s ! 1) < interval_of (currentModes s ! 1)"

text \<open>What one tick does to one lamp, over naturals.\<close>

definition blinks :: "lamp_mode \<Rightarrow> bool" where
  "blinks m \<longleftrightarrow> m = LAMP_MODE_BLINK_SLOW \<or> m = LAMP_MODE_BLINK_FAST"

definition next_count :: "lamp_mode \<Rightarrow> nat \<Rightarrow> nat" where
  "next_count m c = (if blinks m then Suc c mod interval_of m else c)"

definition lamp_toggle :: "lamp_mode \<Rightarrow> nat \<Rightarrow> nat \<Rightarrow> hal_call list" where
  "lamp_toggle m c i =
     (if blinks m \<and> Suc c = interval_of m then HAL_Lamp_Toggle (of_nat i) else [])"

lemma count_lamp_eq:
  assumes "i < length (timeCounters s)" "unat (timeCounters s ! i) < unat n"
  shows "count_lamp n i s =
     (s\<lparr>timeCounters := (timeCounters s)[i := of_nat (Suc (unat (timeCounters s ! i)) mod unat n)]\<rparr>,
      if Suc (unat (timeCounters s ! i)) = unat n then HAL_Lamp_Toggle (of_nat i) else [])"
proof -
  let ?c = "timeCounters s ! i"
  have lt: "Suc (unat ?c) < 2 ^ 16"
    using assms(2) unsigned_less [where w = n and 'a = nat] by simp
  then have suc: "unat (?c + 1) = Suc (unat ?c)" by (simp add: unat_word_ariths)
  then have "?c + 1 = of_nat (Suc (unat ?c))" by (simp add: add.commute)
  moreover have "n \<le> ?c + 1 \<longleftrightarrow> Suc (unat ?c) = unat n"
    using assms(2) suc by (simp add: word_le_nat_alt) linarith
  ultimately show ?thesis using assms
    by (simp add: count_lamp_def Let_def add.commute mod_less)
qed

text \<open>The counters as naturals, and storing one.\<close>

definition count_of :: "nat \<Rightarrow> lamps \<Rightarrow> nat" where
  "count_of i s = unat (timeCounters s ! i)"

definition mode_of :: "nat \<Rightarrow> lamps \<Rightarrow> lamp_mode" where
  "mode_of i s = currentModes s ! i"

definition put_count :: "nat \<Rightarrow> nat \<Rightarrow> lamps \<Rightarrow> lamps" where
  "put_count i c s = s\<lparr>timeCounters := (timeCounters s)[i := of_nat c]\<rparr>"

lemma lamps_inv_alt:
  "lamps_inv s \<longleftrightarrow> length (currentModes s) = 2 \<and> length (timeCounters s) = 2 \<and>
     count_of 0 s < interval_of (mode_of 0 s) \<and> count_of 1 s < interval_of (mode_of 1 s)"
  by (simp only: lamps_inv_def count_of_def mode_of_def)

lemma put_count_simps [simp]:
  "mode_of j (put_count i c s) = mode_of j s"
  "i < length (timeCounters s) \<Longrightarrow> c < 65536 \<Longrightarrow> count_of i (put_count i c s) = c"
  "i \<noteq> j \<Longrightarrow> count_of j (put_count i c s) = count_of j s"
  "length (timeCounters (put_count i c s)) = length (timeCounters s)"
  "length (currentModes (put_count i c s)) = length (currentModes s)"
  by (simp_all add: put_count_def mode_of_def count_of_def unat_of_nat)

lemma put_count_same: "put_count i (count_of i s) s = s"
  by (simp add: put_count_def count_of_def)

lemma interval_bound: "interval_of m \<le> 500"
  by (cases m) simp_all

lemma next_count_less: "c < interval_of m \<Longrightarrow> next_count m c < interval_of m"
  by (cases m) (simp_all add: next_count_def blinks_def)

lemma next_count_fits: "c < interval_of m \<Longrightarrow> next_count m c < 65536"
  using next_count_less [of c m] interval_bound [of m] by linarith

lemma tick_lamp_eq:
  assumes len: "i < length (timeCounters s)" and lt: "count_of i s < interval_of (mode_of i s)"
  shows "tick_lamp i s = (put_count i (next_count (mode_of i s) (count_of i s)) s,
      lamp_toggle (mode_of i s) (count_of i s) i)"
proof (cases "blinks (mode_of i s)")
  case False
  then show ?thesis using put_count_same [of i s]
    by (simp add: tick_lamp_def blinks_def mode_of_def next_count_def lamp_toggle_def)
next
  case True
  then consider "currentModes s ! i = LAMP_MODE_BLINK_SLOW" | "currentModes s ! i = LAMP_MODE_BLINK_FAST"
    by (auto simp: blinks_def mode_of_def)
  then show ?thesis
    by cases (use lt in \<open>simp_all add: tick_lamp_def count_lamp_eq [OF len] BLINK_SLOW_INTERVAL_MS_def
        BLINK_FAST_INTERVAL_MS_def next_count_def lamp_toggle_def blinks_def put_count_def
        mode_of_def count_of_def\<close>)
qed

lemma App_Lamp_Tick_1ms_eq:
  assumes inv: "lamps_inv s"
  shows "App_Lamp_Tick_1ms s =
     (put_count 1 (next_count (mode_of 1 s) (count_of 1 s))
        (put_count 0 (next_count (mode_of 0 s) (count_of 0 s)) s),
      lamp_toggle (mode_of 0 s) (count_of 0 s) 0 @ lamp_toggle (mode_of 1 s) (count_of 1 s) 1)"
proof -
  let ?s1 = "put_count 0 (next_count (mode_of 0 s) (count_of 0 s)) s"
  have "tick_lamp 0 s = (?s1, lamp_toggle (mode_of 0 s) (count_of 0 s) 0)"
    by (rule tick_lamp_eq) (use inv in \<open>simp_all add: lamps_inv_alt\<close>)
  moreover have "tick_lamp 1 ?s1 = (put_count 1 (next_count (mode_of 1 ?s1) (count_of 1 ?s1)) ?s1,
      lamp_toggle (mode_of 1 ?s1) (count_of 1 ?s1) 1)"
    by (rule tick_lamp_eq) (use inv in \<open>simp_all add: lamps_inv_alt\<close>)
  ultimately show ?thesis
    by (simp only: App_Lamp_Tick_1ms_def each_lamp for_lamps.simps Let_def prod.case
        put_count_simps zero_neq_one not_False_eq_True append_Nil2)
qed

lemma lamps_inv_Tick: "lamps_inv s \<Longrightarrow> lamps_inv (fst (App_Lamp_Tick_1ms s))"
  by (simp add: App_Lamp_Tick_1ms_eq) (simp add: lamps_inv_alt next_count_fits next_count_less)

lemma Tick_counts:
  assumes inv: "lamps_inv s"
  shows "mode_of i (fst (App_Lamp_Tick_1ms s)) = mode_of i s"
    and "count_of 0 (fst (App_Lamp_Tick_1ms s)) = next_count (mode_of 0 s) (count_of 0 s)"
    and "count_of 1 (fst (App_Lamp_Tick_1ms s)) = next_count (mode_of 1 s) (count_of 1 s)"
  using inv by (simp_all add: App_Lamp_Tick_1ms_eq lamps_inv_alt next_count_fits)

lemma lamps_inv_SetMode: "lamps_inv s \<Longrightarrow> lamps_inv (fst (App_Lamp_SetMode i m s))"
proof -
  assume inv: "lamps_inv s"
  have pos: "0 < interval_of m" by (cases m) simp_all
  show ?thesis
  proof (cases "i < NUM_LAMPS")
    case True
    then have "unat i < 2" by (simp add: word_less_nat_alt NUM_LAMPS_def)
    then have "unat i = 0 \<or> unat i = 1" by linarith
    then show ?thesis using inv pos
      by (auto simp: App_Lamp_SetMode_def set_mode_cell_def lamps_inv_def)
  qed (use inv in \<open>simp add: App_Lamp_SetMode_def not_less\<close>)
qed

datatype lamp_event = Tick | Set_mode u8 lamp_mode

fun lamp_step :: "lamp_event \<Rightarrow> lamps \<Rightarrow> lamps" where
  "lamp_step Tick s = fst (App_Lamp_Tick_1ms s)"
| "lamp_step (Set_mode i m) s = fst (App_Lamp_SetMode i m s)"

interpretation lamps: invariant_machine lamp_step "\<lambda>_. True" lamps_inv
proof
  fix s e
  assume "lamps_inv s"
  then show "lamps_inv (lamp_step e s)"
    by (cases e) (simp_all add: lamps_inv_Tick lamps_inv_SetMode)
qed

definition lamp_run :: "lamp_event list \<Rightarrow> lamps" where
  "lamp_run es = fold lamp_step es (fst (App_Lamp_Init lamps0))"

lemma lamps_inv_reachable: "lamps_inv (fold lamp_step es (fst (App_Lamp_Init lamps0)))"
proof (rule lamps.run_inv)
  show "lamps_inv (fst (App_Lamp_Init lamps0))"
    by (simp add: App_Lamp_Init_def lamps0_def lamps_inv_def each_lamp set_mode_cell_def)
qed (simp add: list_all_iff)

section \<open>Properties\<close>

text \<open>Any number of ticks, the trace in order.\<close>

fun lamp_ticks :: "nat \<Rightarrow> lamps \<Rightarrow> lamps \<times> hal_call list" where
  "lamp_ticks 0 s = (s, [])"
| "lamp_ticks (Suc n) s =
     (let (s, cs) = lamp_ticks n s; (s, ds) = App_Lamp_Tick_1ms s in (s, cs @ ds))"

text \<open>How often a lamp toggles in \<open>n\<close> ticks from the count \<open>c\<close>.\<close>

definition toggles :: "lamp_mode \<Rightarrow> nat \<Rightarrow> nat \<Rightarrow> nat" where
  "toggles m c n = (if blinks m then (c + n) div interval_of m else 0)"

definition count_after :: "lamp_mode \<Rightarrow> nat \<Rightarrow> nat \<Rightarrow> nat" where
  "count_after m c n = (if blinks m then (c + n) mod interval_of m else c)"

lemma count_after_Suc: "next_count m (count_after m c n) = count_after m c (Suc n)"
  by (simp add: next_count_def count_after_def mod_Suc_eq)

lemma toggles_Suc:
  "toggles m c (Suc n) = toggles m c n +
     (if blinks m \<and> Suc (count_after m c n) = interval_of m then 1 else 0)"
  by (auto simp: toggles_def count_after_def div_Suc mod_Suc split: if_splits)

lemma odd_toggles_Suc:
  "odd (toggles m c (Suc n)) =
     (odd (toggles m c n) \<noteq> (blinks m \<and> Suc (count_after m c n) = interval_of m))"
  by (simp add: toggles_Suc)

lemma pin_lamp_toggle:
  "i < 2 \<Longrightarrow> pin_after GPIOE (GPIO_PIN 5) l (lamp_toggle m c i) =
     (l \<noteq> (blinks m \<and> Suc c = interval_of m))"
  by (auto simp: lamp_toggle_def HAL_Lamp_Toggle_def NUM_LAMPS_def LampMap_def hw_simps
      less_2_cases_iff word_le_nat_alt)

lemma lamp_ticks_run:
  assumes inv: "lamps_inv s"
  shows "lamps_inv (fst (lamp_ticks n s)) \<and> mode_of 0 (fst (lamp_ticks n s)) = mode_of 0 s \<and>
    mode_of 1 (fst (lamp_ticks n s)) = mode_of 1 s \<and>
    count_of 0 (fst (lamp_ticks n s)) = count_after (mode_of 0 s) (count_of 0 s) n \<and>
    count_of 1 (fst (lamp_ticks n s)) = count_after (mode_of 1 s) (count_of 1 s) n \<and>
    pin_after GPIOE (GPIO_PIN 5) l (snd (lamp_ticks n s)) =
      (l \<noteq> (odd (toggles (mode_of 0 s) (count_of 0 s) n) \<noteq> odd (toggles (mode_of 1 s) (count_of 1 s) n)))"
proof (induction n)
  case 0
  have "count_of 0 s < interval_of (mode_of 0 s)" "count_of 1 s < interval_of (mode_of 1 s)"
    using inv by (simp_all add: lamps_inv_def count_of_def mode_of_def)
  then show ?case using inv by (simp add: toggles_def count_after_def)
next
  case (Suc n)
  let ?t = "fst (lamp_ticks n s)"
  have i: "lamps_inv ?t" using Suc by simp
  have split: "lamp_ticks (Suc n) s =
      (fst (App_Lamp_Tick_1ms ?t), snd (lamp_ticks n s) @ snd (App_Lamp_Tick_1ms ?t))"
    by (simp add: Let_def case_prod_beta)
  show ?case unfolding split
    using Suc Tick_counts [OF i] lamps_inv_Tick [OF i]
    unfolding odd_toggles_Suc App_Lamp_Tick_1ms_eq [OF i]
    by (simp add: count_after_Suc pin_lamp_toggle) argo
qed

text \<open>
  Blinking. From any state the lamp module can reach by mode changes and ticks, \<open>n\<close> further
  ticks leave the modes alone, keep every counter below its interval, and toggle each blinking
  lamp once per 500 (slow) or 100 (fast) ticks, counting on from its counter; a static lamp is
  never toggled. The level of the lamp pin follows from both lamps, since both drive it.
\<close>

theorem blink_period:
  "mode_of 0 (fst (lamp_ticks n (lamp_run es))) = mode_of 0 (lamp_run es)
   \<and> mode_of 1 (fst (lamp_ticks n (lamp_run es))) = mode_of 1 (lamp_run es)
   \<and> count_of 0 (fst (lamp_ticks n (lamp_run es))) < interval_of (mode_of 0 (lamp_run es))
   \<and> count_of 1 (fst (lamp_ticks n (lamp_run es))) < interval_of (mode_of 1 (lamp_run es))
   \<and> pin_after GPIOE (GPIO_PIN 5) l (snd (lamp_ticks n (lamp_run es))) =
       (l \<noteq> (odd (toggles (mode_of 0 (lamp_run es)) (count_of 0 (lamp_run es)) n)
            \<noteq> odd (toggles (mode_of 1 (lamp_run es)) (count_of 1 (lamp_run es)) n)))"
proof -
  have "lamps_inv (lamp_run es)" unfolding lamp_run_def by (rule lamps_inv_reachable)
  from lamp_ticks_run [OF this, of n l] show ?thesis unfolding lamps_inv_alt
    by (elim conjE, intro conjI) (simp_all only:)
qed

text \<open>
  A mode request takes effect once. Requesting a valid lamp's current mode again, or any mode
  for an index outside the table, changes nothing and touches no pin; a new mode restarts that
  lamp's blink period, leaves the other lamp's mode and counter alone, and drives the pin exactly
  for the two static modes.
\<close>

theorem mode_request:
  "App_Lamp_SetMode i m (lamp_run es) =
     (if unat i < 2 \<and> mode_of (unat i) (lamp_run es) \<noteq> m
      then (set_mode_cell (unat i) m (lamp_run es),
            if blinks m then [] else [HAL_GPIO_WritePin GPIOE (GPIO_PIN 5) (m = LAMP_MODE_ON)])
      else (lamp_run es, []))
   \<and> App_Lamp_SetMode i m (fst (App_Lamp_SetMode i m (lamp_run es)))
       = (fst (App_Lamp_SetMode i m (lamp_run es)), [])"
proof (cases "unat i < 2")
  case True
  then have i: "unat i = 0 \<or> unat i = 1" by linarith
  have len: "length (currentModes (lamp_run es)) = 2"
    using lamps_inv_reachable [of es] by (simp add: lamp_run_def lamps_inv_def)
  show ?thesis
    using i len
    by (cases m) (auto simp: App_Lamp_SetMode_def NUM_LAMPS_def word_le_nat_alt mode_of_def
        HAL_Lamp_SetState_def LampMap_def blinks_def set_mode_cell_def)
qed (simp add: App_Lamp_SetMode_def NUM_LAMPS_def word_le_nat_alt)

end
