(* ===== verification/Crc8.thy ===== *)
theory Crc8
  imports Prelude
begin

text \<open>
  The checksum of \<open>crc8.c\<close> (CRC-8/ATM, polynomial \<open>0x07\<close>, initial value 0): the bitwise
  routine as written, its linearity, its meaning as a polynomial remainder over GF(2), and the
  errors it detects.
\<close>

section \<open>The routine\<close>

text \<open>One pass of the inner loop: shift left, and reduce when the top bit was set.\<close>

definition crc8_bit :: "u8 \<Rightarrow> u8" where
  "crc8_bit crc = (if crc AND 0x80 \<noteq> 0 then push_bit 1 crc XOR 0x07 else push_bit 1 crc)"

text \<open>The body of the outer loop: XOR the next data byte, then eight passes.\<close>

definition crc8_byte :: "u8 \<Rightarrow> u8 \<Rightarrow> u8" where
  "crc8_byte crc d = (crc8_bit ^^ 8) (crc XOR d)"

text \<open>The outer loop over the indices \<open>0 \<le> i < len\<close>.\<close>

definition crc8_atm :: "u8 list \<Rightarrow> u8 \<Rightarrow> u8" where
  "crc8_atm data len = foldl (\<lambda>crc i. crc8_byte crc (data ! i)) 0 [0 ..< unat len]"

text \<open>The checksum of a whole byte string, independent of the 8-bit length argument.\<close>

definition crc8 :: "u8 list \<Rightarrow> u8" where
  "crc8 ds = foldl crc8_byte 0 ds"

lemma crc8_atm_take:
  assumes "unat len \<le> length data"
  shows "crc8_atm data len = crc8 (take (unat len) data)"
proof -
  have "foldl f c (take n data) = foldl (\<lambda>c i. f c (data ! i)) c [0 ..< n]"
    if "n \<le> length data" for n f and c :: u8
    using that by (induction n) (simp_all add: take_Suc_conv_app_nth)
  then show ?thesis using assms by (simp add: crc8_atm_def crc8_def)
qed

section \<open>Linearity and injectivity\<close>

lemma crc8_bit_alt: "crc8_bit c = push_bit 1 c XOR (if bit c 7 then 0x07 else 0)"
proof -
  have "(c AND 0x80 \<noteq> 0) = bit c 7"
    by (simp add: bit_iff_and_push_bit_not_eq_0)
  then show ?thesis by (simp add: crc8_bit_def)
qed

lemma crc8_bit_xor: "crc8_bit (a XOR b) = crc8_bit a XOR crc8_bit b"
  by (auto simp: crc8_bit_alt bit_xor_iff push_bit_xor ac_simps)

lemma crc8_bit_0 [simp]: "crc8_bit 0 = 0"
  by (simp add: crc8_bit_def)

lemma crc8_bit_eq_0: "crc8_bit c = 0 \<longleftrightarrow> c = 0"
proof
  assume eq: "crc8_bit c = 0"
  have "bit (crc8_bit c) 0 = bit c 7"
    by (simp only: crc8_bit_alt bit_xor_iff bit_push_bit_iff) (simp add: bit_0)
  with eq have top: "\<not> bit c 7" by simp
  with eq have "push_bit 1 c = 0" by (simp add: crc8_bit_alt)
  have "\<not> bit c n" for n
  proof (cases "n < 7")
    case True
    then have "bit (push_bit 1 c) (Suc n) = bit c n"
      by (simp only: bit_push_bit_iff) simp
    then show ?thesis using \<open>push_bit 1 c = 0\<close> by simp
  next
    case False
    then show ?thesis using top by (cases "n = 7") (auto dest: bit_imp_le_length)
  qed
  then show "c = 0" by (auto intro: bit_word_eqI)
qed simp

lemma funpow_xor:
  fixes f :: "u8 \<Rightarrow> u8"
  assumes "\<And>a b. f (a XOR b) = f a XOR f b"
  shows "(f ^^ n) (a XOR b) = (f ^^ n) a XOR (f ^^ n) b"
  by (induction n) (simp_all add: assms)

lemma crc8_bits_eq_0: "(crc8_bit ^^ n) c = 0 \<longleftrightarrow> c = 0"
  by (induction n) (simp_all add: crc8_bit_eq_0)

lemma crc8_byte_xor: "crc8_byte (c XOR c') (d XOR d') = crc8_byte c d XOR crc8_byte c' d'"
  by (simp add: crc8_byte_def funpow_xor crc8_bit_xor ac_simps)

lemma xor_eq_0: "a XOR b = 0 \<longleftrightarrow> a = (b :: u8)"
  by (metis xor.right_neutral xor.assoc xor_self_eq)

lemma crc8_byte_inj: "crc8_byte c d = crc8_byte c' d' \<longleftrightarrow> c XOR d = c' XOR d'"
proof -
  have "(crc8_bit ^^ 8) x = (crc8_bit ^^ 8) y \<longleftrightarrow> x = y" for x y
    using crc8_bits_eq_0 [of 8 "x XOR y"] funpow_xor [of crc8_bit 8 x y, OF crc8_bit_xor]
    by (simp only: xor_eq_0)
  then show ?thesis by (simp add: crc8_byte_def)
qed

lemma crc8_snoc [simp]: "crc8 (ds @ [d]) = crc8_byte (crc8 ds) d"
  by (simp add: crc8_def)

lemma crc8_Nil [simp]: "crc8 [] = 0"
  by (simp add: crc8_def)

section \<open>The checksum as a polynomial remainder\<close>

text \<open>
  Polynomials over GF(2) as natural numbers, bit \<open>i\<close> the coefficient of \<open>x ^ i\<close>. The
  multiples of the generator \<open>x ^ 8 + x ^ 2 + x + 1\<close> are given by a quotient, and two
  polynomials are congruent when they differ by such a multiple.
\<close>

fun gf2_multiple :: "nat \<Rightarrow> nat" where
  "gf2_multiple q =
     (if q = 0 then 0
      else (if odd q then 0x107 else 0) XOR push_bit 1 (gf2_multiple (q div 2)))"

declare gf2_multiple.simps [simp del]

definition gf2_cong :: "nat \<Rightarrow> nat \<Rightarrow> bool" where
  "gf2_cong a b \<longleftrightarrow> (\<exists>q. a XOR b = gf2_multiple q)"

definition msg_poly :: "u8 list \<Rightarrow> nat" where
  "msg_poly ds = foldl (\<lambda>m d. push_bit 8 m XOR unat d) 0 ds"

lemma gf2_multiple_0 [simp]: "gf2_multiple 0 = 0"
  by (simp add: gf2_multiple.simps)

lemma gf2_multiple_rec:
  "gf2_multiple q = (if odd q then 0x107 else 0) XOR push_bit 1 (gf2_multiple (q div 2))"
  by (cases "q = 0") (simp_all add: gf2_multiple.simps [of q])

lemma gf2_multiple_double: "gf2_multiple (2 * q) = push_bit 1 (gf2_multiple q)"
  by (simp add: gf2_multiple_rec [of "2 * q"])

lemma gf2_multiple_1 [simp]: "gf2_multiple 1 = 0x107"
  by (simp add: gf2_multiple.simps)

lemma gf2_multiple_Suc_0 [simp]: "gf2_multiple (Suc 0) = 0x107"
  using gf2_multiple_1 by simp

lemma gf2_multiple_xor: "gf2_multiple (a XOR b) = gf2_multiple a XOR gf2_multiple b"
proof (induction a arbitrary: b rule: less_induct)
  case (less a)
  show ?case
  proof (cases "a = 0")
    case True
    then show ?thesis by simp
  next
    case False
    have odd_xor: "odd (a XOR b) \<longleftrightarrow> odd a \<noteq> odd b"
      by (simp add: even_xor_iff)
    have half: "(a XOR b) div 2 = (a div 2) XOR (b div 2)"
      using drop_bit_xor [of 1 a b] by (simp only: drop_bit_eq_div power_one_right)
    have "a div 2 < a" using False by simp
    note IH = less.IH [OF this, of "b div 2"]
    show ?thesis
      by (simp only: gf2_multiple_rec [of "a XOR b"] gf2_multiple_rec [of a]
            gf2_multiple_rec [of b] half IH push_bit_xor odd_xor)
        (auto simp: ac_simps)
  qed
qed

lemma gf2_multiple_ge: "0 < q \<Longrightarrow> 256 \<le> gf2_multiple q"
proof (induction q rule: less_induct)
  case (less q)
  show ?case
  proof (cases "q = 1")
    case True
    then show ?thesis by (simp only: gf2_multiple_1)
  next
    case False
    then have pos: "0 < q div 2" and smaller: "q div 2 < q" using less.prems by auto
    let ?h = "gf2_multiple (q div 2)"
    have ge: "256 \<le> ?h" using less.IH [OF smaller pos] .
    have "drop_bit 9 (gf2_multiple q) = drop_bit 9 (push_bit 1 ?h)"
      by (subst gf2_multiple_rec) (simp add: drop_bit_xor)
    also have "drop_bit 9 (push_bit 1 ?h) = drop_bit 8 ?h"
      by (simp add: drop_bit_eq_div push_bit_eq_mult)
    also have "drop_bit 8 ?h \<noteq> 0"
      using ge by (simp add: drop_bit_eq_div div_eq_0_iff)
    finally have "512 \<le> gf2_multiple q"
      by (simp add: drop_bit_eq_div div_eq_0_iff)
    then show ?thesis by simp
  qed
qed

lemma gf2_cong_refl [simp, intro]: "gf2_cong a a"
  unfolding gf2_cong_def by (intro exI [of _ 0]) simp

lemma gf2_cong_sym: "gf2_cong a b \<Longrightarrow> gf2_cong b a"
  by (simp add: gf2_cong_def xor.commute)

lemma gf2_cong_xor:
  assumes "gf2_cong a b" and "gf2_cong c d"
  shows "gf2_cong (a XOR c) (b XOR d)"
proof -
  obtain q r where "a XOR b = gf2_multiple q" and "c XOR d = gf2_multiple r"
    using assms by (auto simp: gf2_cong_def)
  moreover have "(a XOR c) XOR (b XOR d) = (a XOR b) XOR (c XOR d)"
    by (simp only: ac_simps)
  ultimately have "(a XOR c) XOR (b XOR d) = gf2_multiple (q XOR r)"
    by (simp only: gf2_multiple_xor)
  then show ?thesis unfolding gf2_cong_def by blast
qed

lemma gf2_cong_trans [trans]:
  assumes "gf2_cong a b" and "gf2_cong b c"
  shows "gf2_cong a c"
proof -
  have "gf2_cong (a XOR b) (b XOR c)" using gf2_cong_xor [OF assms] .
  then have "\<exists>q. (a XOR b) XOR (b XOR c) = gf2_multiple q" by (simp only: gf2_cong_def)
  moreover have "(a XOR b) XOR (b XOR c) = a XOR c"
    by (simp flip: xor.assoc add: xor.assoc [of a b b])
  ultimately show ?thesis by (simp only: gf2_cong_def)
qed

lemma gf2_cong_shift: "gf2_cong a b \<Longrightarrow> gf2_cong (push_bit n a) (push_bit n b)"
proof (induction n)
  case 0
  then show ?case by simp
next
  case (Suc n)
  then obtain q where "push_bit n a XOR push_bit n b = gf2_multiple q"
    by (auto simp: gf2_cong_def)
  then have "push_bit 1 (push_bit n a XOR push_bit n b) = gf2_multiple (2 * q)"
    by (simp only: gf2_multiple_double)
  then have "push_bit (Suc n) a XOR push_bit (Suc n) b = gf2_multiple (2 * q)"
    by (simp add: push_bit_xor)
  then show ?case unfolding gf2_cong_def by blast
qed

lemma gf2_cong_bounded: "gf2_cong a b \<Longrightarrow> a < 256 \<Longrightarrow> b < 256 \<Longrightarrow> a = b"
proof -
  assume "gf2_cong a b" and bounds: "a < 256" "b < 256"
  then obtain q where q: "a XOR b = gf2_multiple q" by (auto simp: gf2_cong_def)
  have "drop_bit 8 (a XOR b) = 0"
    using bounds by (simp add: drop_bit_xor) (simp add: drop_bit_eq_div)
  then have "a XOR b < 256" by (simp add: drop_bit_eq_div div_eq_0_iff)
  with q gf2_multiple_ge [of q] have "q = 0" by (cases "q = 0") auto
  with q have "a XOR b = 0" by simp
  moreover have "a = (a XOR b) XOR b" by (simp add: xor.assoc)
  ultimately show "a = b" by simp
qed

text \<open>One pass of the inner loop multiplies by \<open>x\<close>, modulo the generator.\<close>

lemma crc8_bit_cong: "gf2_cong (push_bit 1 (unat c)) (unat (crc8_bit c))"
proof -
  have shift: "unat (push_bit 1 c) = take_bit 8 (push_bit 1 (unat c))"
    by (simp only: unsigned_push_bit_eq) simp
  have split8: "x = take_bit 8 x XOR (if bit x 8 then 0x100 else 0)" if "x < 512" for x :: nat
  proof (rule bit_eqI)
    fix n
    have "bit (0x100 :: nat) n \<longleftrightarrow> n = 8"
      using bit_exp_iff [where 'a = nat, of 8 n] by simp
    moreover have "\<not> bit x n" if "8 < n"
    proof -
      have "(2::nat) ^ 9 \<le> 2 ^ n" using that by (intro power_increasing) auto
      with \<open>x < 512\<close> have "x < 2 ^ n" by simp
      then show ?thesis by (simp add: bit_iff_odd)
    qed
    ultimately show "bit x n = bit (take_bit 8 x XOR (if bit x 8 then 0x100 else 0)) n"
      by (cases n "8::nat" rule: linorder_cases) (auto simp: bit_simps)
  qed
  have "push_bit 1 (unat c) < 512"
    using unsigned_less [where ?'a = nat, of c] by (simp add: push_bit_eq_mult)
  note split = split8 [OF this]
  have top: "bit (push_bit 1 (unat c)) 8 = bit c 7"
    by (simp only: bit_push_bit_iff bit_unsigned_iff) simp
  have "unat (crc8_bit c) = take_bit 8 (push_bit 1 (unat c)) XOR (if bit c 7 then 7 else 0)"
    by (simp only: crc8_bit_alt unsigned_xor_eq shift) simp
  then have "push_bit 1 (unat c) XOR unat (crc8_bit c) =
      (if bit c 7 then 0x100 XOR 7 else 0)"
    by (subst split, subst top) (simp add: ac_simps)
  then have "push_bit 1 (unat c) XOR unat (crc8_bit c) = gf2_multiple (if bit c 7 then 1 else 0)"
    by simp
  then show ?thesis unfolding gf2_cong_def by blast
qed

lemma crc8_bits_cong: "gf2_cong (push_bit n (unat c)) (unat ((crc8_bit ^^ n) c))"
proof (induction n)
  case 0
  then show ?case by simp
next
  case (Suc n)
  have "push_bit (Suc n) (unat c) = push_bit 1 (push_bit n (unat c))" by simp
  also have "gf2_cong \<dots> (push_bit 1 (unat ((crc8_bit ^^ n) c)))"
    using gf2_cong_shift [OF Suc.IH] .
  also have "gf2_cong \<dots> (unat (crc8_bit ((crc8_bit ^^ n) c)))"
    by (rule crc8_bit_cong)
  finally show ?case by simp
qed

lemma msg_poly_Nil [simp]: "msg_poly [] = 0"
  by (simp add: msg_poly_def)

lemma msg_poly_snoc: "msg_poly (ds @ [d]) = push_bit 8 (msg_poly ds) XOR unat d"
  by (simp add: msg_poly_def)

lemma crc8_cong: "gf2_cong (push_bit 8 (msg_poly ds)) (unat (crc8 ds))"
proof (induction ds rule: rev_induct)
  case Nil
  then show ?case by simp
next
  case (snoc d ds)
  have "gf2_cong (push_bit 8 (msg_poly ds) XOR unat d) (unat (crc8 ds) XOR unat d)"
    by (intro gf2_cong_xor snoc.IH gf2_cong_refl)
  then have "gf2_cong (push_bit 8 (msg_poly (ds @ [d]))) (push_bit 8 (unat (crc8 ds XOR d)))"
    by (simp only: msg_poly_snoc unsigned_xor_eq gf2_cong_shift)
  also have "gf2_cong \<dots> (unat ((crc8_bit ^^ 8) (crc8 ds XOR d)))"
    by (rule crc8_bits_cong)
  finally show ?case by (simp add: crc8_byte_def)
qed

lemma unat_u8_less: "unat (c :: u8) < 256"
  using unsigned_less [where ?'a = nat, of c] by simp

section \<open>Errors the checksum detects\<close>

text \<open>The number of set bits of a byte, and of a byte string.\<close>

definition weight8 :: "u8 \<Rightarrow> nat" where
  "weight8 w = (\<Sum>i<8. of_bool (bit w i))"

definition weight :: "u8 list \<Rightarrow> nat" where
  "weight ds = sum_list (map weight8 ds)"

lemma weight8_0 [simp]: "weight8 0 = 0"
  by (simp add: weight8_def del: sum_of_bool_eq)

lemma weight8_xor: "odd (weight8 (a XOR b)) \<longleftrightarrow> odd (weight8 a) \<noteq> odd (weight8 b)"
proof -
  have "odd (\<Sum>i<n. of_bool (bit (a XOR b) i) :: nat) \<longleftrightarrow>
      odd (\<Sum>i<n. of_bool (bit a i) :: nat) \<noteq> odd (\<Sum>i<n. of_bool (bit b i) :: nat)" for n
    by (induction n) (auto simp: bit_xor_iff)
  then show ?thesis by (simp add: weight8_def)
qed

lemma weight8_crc8_bit: "odd (weight8 (crc8_bit c)) \<longleftrightarrow> odd (weight8 c)"
proof -
  have sum8: "(\<Sum>i<8. f i) = (\<Sum>i<7. f i) + f 7" for f :: "nat \<Rightarrow> nat"
    using sum.lessThan_Suc [of f 7] by simp
  have "(\<Sum>i<8. of_bool (bit (push_bit 1 c) i) :: nat) = (\<Sum>i<7. of_bool (bit c i))"
    using sum.lessThan_Suc_shift [of "\<lambda>i. of_bool (bit (push_bit 1 c) i) :: nat" 7]
    by (simp only: bit_push_bit_iff) (simp add: numeral_eq_Suc)
  then have "weight8 (push_bit 1 c) = (\<Sum>i<7. of_bool (bit c i))"
    by (simp only: weight8_def)
  moreover have "weight8 7 = 3"
    by (simp add: weight8_def numeral_eq_Suc)
  ultimately show ?thesis
    by (simp only: crc8_bit_alt weight8_xor)
      (simp add: weight8_def [of c] sum8 del: sum_of_bool_eq push_bit_of_1)
qed

lemma weight8_crc8_bits: "odd (weight8 ((crc8_bit ^^ n) c)) \<longleftrightarrow> odd (weight8 c)"
  by (induction n) (simp_all add: weight8_crc8_bit)

lemma weight8_crc8: "odd (weight8 (crc8 ds)) \<longleftrightarrow> odd (weight ds)"
proof (induction ds rule: rev_induct)
  case Nil
  then show ?case by (simp add: weight_def)
next
  case (snoc d ds)
  then show ?case
    by (simp add: crc8_byte_def weight8_crc8_bits weight8_xor weight_def)
qed

lemma crc8_xor:
  "length xs = length ys \<Longrightarrow> crc8 (map2 (XOR) xs ys) = crc8 xs XOR crc8 ys"
proof (induction xs arbitrary: ys rule: rev_induct)
  case Nil
  then show ?case by simp
next
  case (snoc x xs)
  then obtain y ys' where "ys = ys' @ [y]" and "length xs = length ys'"
    by (cases ys rule: rev_cases) auto
  then show ?case using snoc.IH [of ys'] by (simp add: crc8_byte_xor)
qed

text \<open>What a receiver relies on, whatever the checksum behind it.\<close>

locale frame_check =
  fixes chk :: "u8 list \<Rightarrow> u8"
  assumes chk_snoc: "chk (ds @ [c]) = 0 \<longleftrightarrow> c = chk ds"
    and chk_xor: "length xs = length ys \<Longrightarrow> chk (map2 (XOR) xs ys) = chk xs XOR chk ys"
    and chk_burst: "b \<noteq> 0 \<Longrightarrow> msg_poly es = push_bit n (unat (b :: u8)) \<Longrightarrow> chk es \<noteq> 0"
    and chk_odd: "odd (weight es) \<Longrightarrow> chk es \<noteq> 0"
begin

lemma intact_iff: "f \<noteq> [] \<Longrightarrow> last f = chk (butlast f) \<longleftrightarrow> chk f = 0"
  using chk_snoc [of "butlast f" "last f"] by simp

lemma corruption_detected:
  assumes "f \<noteq> []" and "last f = chk (butlast f)" and "length es = length f"
    and "(\<exists>(b :: u8) n. b \<noteq> 0 \<and> msg_poly es = push_bit n (unat b)) \<or> odd (weight es)"
  shows "last (map2 (XOR) f es) \<noteq> chk (butlast (map2 (XOR) f es))"
proof -
  let ?g = "map2 (XOR) f es"
  have "chk f = 0" using assms(1,2) intact_iff by blast
  moreover have "chk es \<noteq> 0" using assms(4) chk_burst chk_odd by blast
  ultimately have "chk ?g \<noteq> 0" using assms(3) by (simp add: chk_xor)
  moreover have "?g \<noteq> []" using assms(1,3) by (cases f; cases es) auto
  ultimately show ?thesis using intact_iff by blast
qed

end

lemma crc8_byte_eq_0 [simp]: "crc8_byte c d = 0 \<longleftrightarrow> d = c"
  by (auto simp: crc8_byte_def crc8_bits_eq_0 xor_eq_0)

lemma crc8_burst:
  assumes "b \<noteq> 0" and "msg_poly es = push_bit n (unat (b :: u8))"
  shows "crc8 es \<noteq> 0"
proof
  assume "crc8 es = 0"
  then have "gf2_cong (push_bit 8 (push_bit n (unat b))) 0"
    using crc8_cong [of es] assms(2) by simp
  then have "gf2_cong (push_bit (8 + n) (unat b)) 0" by (simp only: push_bit_push_bit)
  from gf2_cong_trans [OF gf2_cong_sym [OF crc8_bits_cong] this]
  have "unat ((crc8_bit ^^ (8 + n)) b) = 0"
    by (rule gf2_cong_bounded) (simp_all add: unat_u8_less)
  then have "(crc8_bit ^^ (8 + n)) b = 0" by (simp add: unat_eq_0)
  with \<open>b \<noteq> 0\<close> show False by (simp only: crc8_bits_eq_0)
qed

interpretation crc8_frame: frame_check crc8
proof unfold_locales
  show "odd (weight es) \<Longrightarrow> crc8 es \<noteq> 0" for es
    using weight8_crc8 [of es] by auto
qed (simp_all add: crc8_xor crc8_burst)

section \<open>Property\<close>

text \<open>
  C10: \<open>crc8_atm\<close> computes the cyclic redundancy check it is named after: for a length within
  the buffer the result is the one and only byte congruent, modulo \<open>x\<^sup>8 + x\<^sup>2 + x + 1\<close>, to the
  polynomial of the first \<open>len\<close> bytes times \<open>x\<^sup>8\<close>.
\<close>

theorem crc8_atm_remainder:
  assumes "unat len \<le> length data"
  shows "gf2_cong (push_bit 8 (msg_poly (take (unat len) data))) (unat c) \<longleftrightarrow> c = crc8_atm data len"
proof
  assume c: "gf2_cong (push_bit 8 (msg_poly (take (unat len) data))) (unat c)"
  have "gf2_cong (unat c) (unat (crc8 (take (unat len) data)))"
    by (rule gf2_cong_trans [OF gf2_cong_sym [OF c] crc8_cong])
  then have "unat c = unat (crc8 (take (unat len) data))"
    by (rule gf2_cong_bounded) (rule unat_u8_less)+
  then show "c = crc8_atm data len" by (simp add: crc8_atm_take [OF assms] word_unat_eq_iff)
qed (simp add: crc8_atm_take [OF assms] crc8_cong)

theorem crc8_atm_remainder_witness:
  "gf2_cong (push_bit 8 (msg_poly (take 2 [0x38, 0x3F, 0]))) (unat (crc8_atm [0x38, 0x3F, 0] 2))"
proof -
  have "unat (2 :: u8) \<le> length [0x38, 0x3F, 0 :: u8]" by simp
  from crc8_atm_remainder [OF this, of "crc8_atm [0x38, 0x3F, 0] 2"] show ?thesis by simp
qed

end
