(* ===== verification/Encoder.thy ===== *)
theory Encoder
  imports Hal Float32
begin

text \<open>
  \<open>hal/hal_encoder.c\<close> and \<open>app_encoder.c\<close>: the quadrature counter TIM4, the zero-pulse and step
  interrupts, and the revolution time measured with the free-running microsecond counter TIM5.
  Register values the code reads back are arguments.
\<close>

section \<open>Hardware layer\<close>

definition ENCODER_PPR :: nat where "ENCODER_PPR = 3600"
definition ENCODER_X4_RESOLUTION :: nat where "ENCODER_X4_RESOLUTION = ENCODER_PPR * 4"
definition ENCODER_MAX_COUNT :: u32 where "ENCODER_MAX_COUNT = of_nat (ENCODER_X4_RESOLUTION - 1)"
definition ENCODER_OUT_A_PIN :: u16 where "ENCODER_OUT_A_PIN = GPIO_PIN 6"
definition ENCODER_OUT_B_PIN :: u16 where "ENCODER_OUT_B_PIN = GPIO_PIN 7"
definition ENCODER_ZERO_PIN :: u16 where "ENCODER_ZERO_PIN = GPIO_PIN 2"

text \<open>Register fields of the microcontroller.\<close>

abbreviation SYSCFG_EXTICR2_EXTI6 :: u32 where "SYSCFG_EXTICR2_EXTI6 \<equiv> 0x0F00"
abbreviation SYSCFG_EXTICR2_EXTI7 :: u32 where "SYSCFG_EXTICR2_EXTI7 \<equiv> 0xF000"
abbreviation SYSCFG_EXTICR2_EXTI6_PB :: u32 where "SYSCFG_EXTICR2_EXTI6_PB \<equiv> 0x0100"
abbreviation SYSCFG_EXTICR2_EXTI7_PB :: u32 where "SYSCFG_EXTICR2_EXTI7_PB \<equiv> 0x1000"
abbreviation EXTI_IMR_MR6 :: u32 where "EXTI_IMR_MR6 \<equiv> 0x40"
abbreviation EXTI_IMR_MR7 :: u32 where "EXTI_IMR_MR7 \<equiv> 0x80"
abbreviation TIM_CCER_CC1P :: u32 where "TIM_CCER_CC1P \<equiv> 0x2"

text \<open>
  The callback pointers only ever hold one function each; the state records whether it is set.
\<close>

record encoder_hal =
  activeZeroCallback :: bool
  activeStepCallback :: bool
  lastSentPos :: u16

definition encoder_hal0 :: encoder_hal where
  "encoder_hal0 = \<lparr>activeZeroCallback = False, activeStepCallback = False, lastSentPos = 0xFFFF\<rparr>"

text \<open>The counter of TIM5 is the argument.\<close>

definition HAL_Encoder_GetHiresTimeUs :: "u32 \<Rightarrow> u32" where
  "HAL_Encoder_GetHiresTimeUs tim5_cnt = tim5_cnt"

definition HAL_Encoder_TimerHires_Init :: "hal_call list" where
  "HAL_Encoder_TimerHires_Init =
     (let i = \<lparr>ti_Prescaler = 84 - 1, ti_Period = 0xFFFFFFFF, ti_AutoReloadPreload = False\<rparr>
      in [RCC_CLK_ENABLE CLK_TIM5, HAL_TIM_Base_Init TIM5 i, HAL_TIM_Base_Start TIM5])"

definition HAL_Encoder_Init :: "u32 \<Rightarrow> hal_call list" where
  "HAL_Encoder_Init exticr1 =
     (let g = gpio_init0\<lparr>gi_Pin := ENCODER_OUT_A_PIN OR ENCODER_OUT_B_PIN, gi_Mode := MODE_AF_PP,
                gi_Pull := GPIO_NOPULL, gi_Speed := SPEED_HIGH, gi_Alternate := 2\<rparr>;
          cleared = exticr1 AND NOT (SYSCFG_EXTICR2_EXTI6 OR SYSCFG_EXTICR2_EXTI7);
          i = \<lparr>ti_Prescaler = 0, ti_Period = ENCODER_MAX_COUNT, ti_AutoReloadPreload = False\<rparr>
      in [RCC_CLK_ENABLE CLK_TIM4, RCC_CLK_ENABLE (CLK_GPIO GPIOB), HAL_GPIO_Init GPIOB g,
          RCC_CLK_ENABLE CLK_SYSCFG,
          REG_WRITE SYSCFG_EXTICR1 cleared,
          REG_WRITE SYSCFG_EXTICR1 (cleared OR (SYSCFG_EXTICR2_EXTI6_PB OR SYSCFG_EXTICR2_EXTI7_PB)),
          HAL_NVIC_SetPriority EXTI9_5_IRQn 1 0, HAL_NVIC_EnableIRQ EXTI9_5_IRQn,
          HAL_TIM_Encoder_Init TIM4 i 15, HAL_TIM_Encoder_Start TIM4])"

definition HAL_Encoder_Init_ZeroInput :: "bool \<Rightarrow> encoder_hal \<Rightarrow> encoder_hal \<times> hal_call list" where
  "HAL_Encoder_Init_ZeroInput callback s =
     (if \<not> callback then (s, [])
      else (s\<lparr>activeZeroCallback := callback\<rparr>,
        [RCC_CLK_ENABLE (CLK_GPIO GPIOE),
         HAL_GPIO_Init GPIOE (gpio_init0\<lparr>gi_Pin := ENCODER_ZERO_PIN, gi_Mode := MODE_IT_RISING,
           gi_Pull := GPIO_PULLDOWN\<rparr>),
         HAL_NVIC_SetPriority EXTI2_IRQn 2 0, HAL_NVIC_EnableIRQ EXTI2_IRQn]))"

definition HAL_Encoder_Init_StepCallback :: "bool \<Rightarrow> encoder_hal \<Rightarrow> encoder_hal" where
  "HAL_Encoder_Init_StepCallback callback s = s\<lparr>activeStepCallback := callback\<rparr>"

definition HAL_Encoder_SetCountDirection :: "bool \<Rightarrow> u32 \<Rightarrow> hal_call list" where
  "HAL_Encoder_SetCountDirection direction ccer =
     (if direction then [REG_WRITE TIM4_CCER (ccer AND NOT TIM_CCER_CC1P)]
      else [REG_WRITE TIM4_CCER (ccer OR TIM_CCER_CC1P)])"

text \<open>An \<open>int32_t\<close> with the bits of the counter.\<close>

definition HAL_Encoder_GetRawCount :: "u32 \<Rightarrow> 32 word" where
  "HAL_Encoder_GetRawCount cnt = cnt"

definition HAL_Encoder_EnableInterrupts :: "u32 \<Rightarrow> u32 \<Rightarrow> u32 \<Rightarrow> hal_call list" where
  "HAL_Encoder_EnableInterrupts imr rtsr ftsr =
     [REG_WRITE EXTI_IMR (imr OR (EXTI_IMR_MR6 OR EXTI_IMR_MR7)),
      REG_WRITE EXTI_RTSR (rtsr OR (EXTI_IMR_MR6 OR EXTI_IMR_MR7)),
      REG_WRITE EXTI_FTSR (ftsr OR (EXTI_IMR_MR6 OR EXTI_IMR_MR7))]"

definition HAL_Encoder_DisableInterrupts :: "u32 \<Rightarrow> hal_call list" where
  "HAL_Encoder_DisableInterrupts imr =
     [REG_WRITE EXTI_IMR (imr AND NOT (EXTI_IMR_MR6 OR EXTI_IMR_MR7))]"

definition HAL_Encoder_Reset :: "hal_call list" where
  "HAL_Encoder_Reset = [REG_WRITE TIM4_CNT 0]"

text \<open>
  The step interrupt: the pending flag and the counter are what the hardware shows; the position
  handed to the subscriber, if any, is the last component.
\<close>

definition EXTI9_5_IRQHandler ::
  "bool \<Rightarrow> u32 \<Rightarrow> encoder_hal \<Rightarrow> encoder_hal \<times> hal_call list \<times> u16 option" where
  "EXTI9_5_IRQHandler pending cnt s =
     (if pending
      then (let cs = [GPIO_EXTI_CLEAR_IT (GPIO_PIN 6 OR GPIO_PIN 7)]
            in if activeStepCallback s
               then (let currentPos = (ucast cnt :: u16)
                     in if currentPos \<noteq> lastSentPos s
                        then (s\<lparr>lastSentPos := currentPos\<rparr>, cs, Some currentPos)
                        else (s, cs, None))
               else (s, cs, None))
      else (s, [], None))"

text \<open>The zero-pulse interrupt; the last component says whether the callback is run.\<close>

definition EXTI2_IRQHandler :: "bool \<Rightarrow> encoder_hal \<Rightarrow> hal_call list \<times> bool" where
  "EXTI2_IRQHandler pending s =
     (if pending then ([GPIO_EXTI_CLEAR_IT ENCODER_ZERO_PIN], activeZeroCallback s) else ([], False))"

section \<open>Application layer\<close>

record encoder =
  lastZPulseTick :: u32
  lastRevolutionTimeMs :: u16
  isFirstPulse :: bool
  lastZPulseCaptureUs :: u32
  lastRevolutionTimeUs :: u32
  cycleCounter :: u16

definition encoder0 :: encoder where
  "encoder0 = \<lparr>lastZPulseTick = 0, lastRevolutionTimeMs = 0, isFirstPulse = True,
     lastZPulseCaptureUs = 0, lastRevolutionTimeUs = 0, cycleCounter = 0\<rparr>"

text \<open>Conversions between \<open>float\<close> and \<open>int32_t\<close>; the first is undefined out of range.\<close>

definition f32_to_i32 :: "f32 \<Rightarrow> int option" where
  "f32_to_i32 w =
     (if f32_finite w \<and> - (2 ^ 31) \<le> trunc (f32_val w) \<and> trunc (f32_val w) < 2 ^ 31
      then Some (trunc (f32_val w)) else None)"

definition f32_of_i32 :: "int \<Rightarrow> f32" where
  "f32_of_i32 i = f32_round False (of_int i)"

definition DEBUG_PrintZPulseTiming :: "u32 \<Rightarrow> encoder \<Rightarrow> (encoder \<times> hal_call list) option" where
  "DEBUG_PrintZPulseTiming currentTick s =
     (if \<not> isFirstPulse s
      then (let duration = currentTick - lastZPulseTick s
            in if 0 < duration
               then do {
                 let s = s\<lparr>lastRevolutionTimeMs := (if 65535 < duration then 65535 else ucast duration)\<rparr>;
                 let s = s\<lparr>lastZPulseTick := currentTick\<rparr>;
                 let realRPM = f32_div (f32_lit 60000) (f32_of_u32 duration);
                 rpm_int \<leftarrow> f32_to_i32 realRPM;
                 rpm_frac \<leftarrow> f32_to_i32 (f32_mul (f32_sub realRPM (f32_of_i32 rpm_int)) (f32_lit 100));
                 Some (s\<lparr>lastZPulseTick := currentTick\<rparr>,
                       [SEGGER_RTT ''Cycle Time: %u ms | Measured Speed: %d.%02d RPM''
                          [uint duration, rpm_int, rpm_frac]])
               }
               else Some (s\<lparr>lastZPulseTick := currentTick\<rparr>, []))
      else Some (s\<lparr>isFirstPulse := False, lastZPulseTick := currentTick\<rparr>, []))"

definition App_Encoder_GetCycleTime :: "encoder \<Rightarrow> u16" where
  "App_Encoder_GetCycleTime s =
     (let timeMs = lastRevolutionTimeUs s div 1000
      in if 65535 < timeMs then 65535 else ucast timeMs)"

text \<open>The callback of the zero pulse: the capture and the millisecond tick are arguments.\<close>

definition App_Encoder_OnZeroPulse :: "u32 \<Rightarrow> u32 \<Rightarrow> encoder \<Rightarrow> (encoder \<times> hal_call list) option" where
  "App_Encoder_OnZeroPulse tim5_cnt tick s =
     (let currentCaptureUs = HAL_Encoder_GetHiresTimeUs tim5_cnt;
          s = (if \<not> isFirstPulse s
               then (let durationUs = currentCaptureUs - lastZPulseCaptureUs s
                     in s\<lparr>lastRevolutionTimeUs := durationUs, cycleCounter := cycleCounter s + 1\<rparr>)
               else s\<lparr>isFirstPulse := False\<rparr>);
          s = s\<lparr>lastZPulseCaptureUs := currentCaptureUs\<rparr>
      in do {
        (s', cs) \<leftarrow> DEBUG_PrintZPulseTiming tick s;
        Some (s', HAL_Encoder_Reset @
          [SEGGER_RTT ''Encoder Z-Pulse Detected!'' [],
           SEGGER_RTT ''Cycle Time: %u us '' [uint (lastRevolutionTimeUs s)]] @ cs)
      })"

definition App_Encoder_Init :: "u32 \<Rightarrow> encoder_hal \<Rightarrow> encoder_hal \<times> hal_call list" where
  "App_Encoder_Init exticr1 h =
     (let (h, cs) = HAL_Encoder_Init_ZeroInput True h
      in (h, HAL_Encoder_Init exticr1 @ cs @ HAL_Encoder_TimerHires_Init))"

definition App_Encoder_GetPosition :: "u32 \<Rightarrow> u16" where
  "App_Encoder_GetPosition cnt = ucast (HAL_Encoder_GetRawCount cnt)"

definition App_Encoder_SetDirection :: "bool \<Rightarrow> u32 \<Rightarrow> hal_call list" where
  "App_Encoder_SetDirection reversed ccer =
     HAL_Encoder_SetCountDirection (\<not> reversed) ccer @
     (if reversed then [SEGGER_RTT ''Encoder Direction changed to: REVERSED'' []]
      else [SEGGER_RTT ''Encoder Direction changed to: NORMAL'' []])"

definition App_Encoder_ResetCycleTime :: "encoder \<Rightarrow> encoder" where
  "App_Encoder_ResetCycleTime s = s"

definition App_Encoder_GetCycleCounter :: "encoder \<Rightarrow> u16" where
  "App_Encoder_GetCycleCounter s = cycleCounter s"

section \<open>The diagnostic message is always defined\<close>

lemma f32_of_u32_pos:
  assumes "0 < d"
  shows "f32_finite (f32_of_u32 d)" and "1 \<le> f32_val (f32_of_u32 d)"
proof -
  have "uint d < 2 ^ 32" by (rule order.strict_trans2 [OF uint_lt2p]) simp
  then have "(of_int (uint d) :: rat) \<le> of_int (2 ^ 32)" by (simp only: of_int_le_iff)
  also have "\<dots> \<le> 10 ^ 30" by simp
  finally have f: "fits32 (of_int (uint d))"
    by (intro fits32_mil) (simp only: abs_of_nonneg of_int_0_le_iff uint_ge_0)
  then show "f32_finite (f32_of_u32 d)" by (simp add: f32_of_u32_def f32_round_val)
  have "1 \<le> uint d" using assms uint_ge_0 [of d] by (simp add: word_less_def)
  then have "of_int 1 \<le> (of_int (uint d) :: rat)" by (simp only: of_int_le_iff)
  then have "of_int 1 \<le> fl32 (of_int (uint d))" by (rule fl32_numeral_ge) simp
  then show "1 \<le> f32_val (f32_of_u32 d)" using f by (simp add: f32_of_u32_def f32_round_val)
qed

lemma f32_of_i32_val:
  assumes "0 \<le> i" "i \<le> 60000"
  shows "f32_val (f32_of_i32 i) = of_int i" and "f32_finite (f32_of_i32 i)"
proof -
  have "\<bar>i\<bar> \<le> 2 ^ 24" using assms by simp
  from f32_small_lit [OF this] show "f32_val (f32_of_i32 i) = of_int i" "f32_finite (f32_of_i32 i)"
    by (simp_all add: f32_of_i32_def f32_lit_def)
qed

lemma f32_to_i32_Some:
  assumes "f32_finite w" "0 \<le> f32_val w" "f32_val w \<le> 60000"
  shows "f32_to_i32 w = Some \<lfloor>f32_val w\<rfloor>" and "0 \<le> \<lfloor>f32_val w\<rfloor>" and "\<lfloor>f32_val w\<rfloor> \<le> 60000"
proof -
  show a: "0 \<le> \<lfloor>f32_val w\<rfloor>" and b: "\<lfloor>f32_val w\<rfloor> \<le> 60000" using assms by (simp_all add: floor_le_iff)
  show "f32_to_i32 w = Some \<lfloor>f32_val w\<rfloor>" using assms(1,2) a b by (simp add: f32_to_i32_def trunc_def)
qed

lemma fits32_small: "0 \<le> x \<Longrightarrow> x \<le> 60000 \<Longrightarrow> fits32 x"
  by (rule fits32_mil) simp

lemma speed_defined:
  assumes "0 < d"
  obtains k f where "f32_to_i32 (f32_div (f32_lit 60000) (f32_of_u32 d)) = Some k"
    and "f32_to_i32 (f32_mul (f32_sub (f32_div (f32_lit 60000) (f32_of_u32 d)) (f32_of_i32 k))
           (f32_lit 100)) = Some f"
    and "0 \<le> k" "k \<le> 60000" "0 \<le> f" "f \<le> 100"
proof -
  let ?r = "f32_div (f32_lit 60000) (f32_of_u32 d)"
  note d = f32_of_u32_pos [OF assms]
  have l: "f32_val (f32_lit 60000) = 60000" "f32_finite (f32_lit 60000)"
    using f32_small_lit [of 60000] by simp_all
  have q: "0 \<le> 60000 / f32_val (f32_of_u32 d)" "60000 / f32_val (f32_of_u32 d) \<le> 60000"
    using d(2) by (simp_all add: divide_le_eq)
  have fq: "fits32 (f32_val (f32_lit 60000) / f32_val (f32_of_u32 d))"
    unfolding l by (rule fits32_small [OF q])
  have ne: "f32_val (f32_of_u32 d) \<noteq> 0" using d(2) by simp
  note rv = f32_div_val [OF l(2) d(1) ne fq, unfolded l]
  have r0: "0 \<le> f32_val ?r" unfolding rv(1) by (rule rnd_nonneg [OF q(1)])
  have r1: "f32_val ?r \<le> 60000"
    using fl32_numeral_le [of "60000 / f32_val (f32_of_u32 d)" 60000] q(2) unfolding rv(1) by simp
  define k where "k = \<lfloor>f32_val ?r\<rfloor>"
  note k = f32_to_i32_Some [OF rv(2) r0 r1, folded k_def]
  note kv = f32_of_i32_val [OF k(2,3)]
  have s: "0 \<le> f32_val ?r - of_int k" "f32_val ?r - of_int k \<le> 1"
    unfolding k_def by (simp, linarith)
  have fs: "fits32 (f32_val ?r - f32_val (f32_of_i32 k))"
    unfolding kv by (rule fits32_small) (use s in linarith)+
  note sv = f32_sub_val [OF rv(2) kv(2) fs, unfolded kv]
  let ?s = "f32_sub ?r (f32_of_i32 k)"
  have s0: "0 \<le> f32_val ?s" unfolding sv(1) by (rule rnd_nonneg [OF s(1)])
  have s1: "f32_val ?s \<le> 1"
    using fl32_numeral_le [of "f32_val ?r - of_int k" 1] s(2) unfolding sv(1) by simp
  have m: "0 \<le> f32_val ?s * 100" "f32_val ?s * 100 \<le> 100" using s0 s1 by linarith+
  have fm: "fits32 (f32_val ?s * f32_val (f32_lit 100))"
    unfolding f32_lits by (rule fits32_small) (use m in linarith)+
  have h: "f32_finite (f32_lit 100)" by simp
  note mv = f32_mul_val [OF sv(2) h fm, unfolded f32_lits]
  let ?m = "f32_mul ?s (f32_lit 100)"
  have m0: "0 \<le> f32_val ?m" unfolding mv(1) by (rule rnd_nonneg [OF m(1)])
  have m1: "f32_val ?m \<le> 100"
    using fl32_numeral_le [of "f32_val ?s * 100" 100] m(2) unfolding mv(1) by simp
  then have m1': "f32_val ?m \<le> 60000" by linarith
  note f = f32_to_i32_Some [OF mv(2) m0 m1']
  have "\<lfloor>f32_val ?m\<rfloor> \<le> 100" using m1 by (simp add: floor_le_iff)
  then show ?thesis using that [OF k(1) f(1) k(2,3) f(2)] by simp
qed

lemma DEBUG_fields:
  "\<exists>s' cs. DEBUG_PrintZPulseTiming tick s = Some (s', cs) \<and> isFirstPulse s' = False \<and>
     lastZPulseTick s' = tick \<and> lastZPulseCaptureUs s' = lastZPulseCaptureUs s \<and>
     lastRevolutionTimeUs s' = lastRevolutionTimeUs s \<and> cycleCounter s' = cycleCounter s"
proof -
  consider "isFirstPulse s" | "\<not> isFirstPulse s" "tick = lastZPulseTick s"
    | "\<not> isFirstPulse s" "0 < tick - lastZPulseTick s"
    by (metis right_minus_eq word_gt_0)
  then show ?thesis
  proof cases
    case 3
    from speed_defined [OF 3(2)] obtain k f
      where "f32_to_i32 (f32_div (f32_lit 60000) (f32_of_u32 (tick - lastZPulseTick s))) = Some k"
      and "f32_to_i32 (f32_mul (f32_sub (f32_div (f32_lit 60000)
             (f32_of_u32 (tick - lastZPulseTick s))) (f32_of_i32 k)) (f32_lit 100)) = Some f"
      by blast
    with 3 show ?thesis by (simp add: DEBUG_PrintZPulseTiming_def Let_def)
  qed (simp_all add: DEBUG_PrintZPulseTiming_def Let_def)
qed

lemma OnZeroPulse_fields:
  "\<exists>s' cs. App_Encoder_OnZeroPulse c tick s = Some (s', cs) \<and> isFirstPulse s' = False \<and>
     lastZPulseCaptureUs s' = c \<and>
     lastRevolutionTimeUs s' = (if isFirstPulse s then lastRevolutionTimeUs s
                                else c - lastZPulseCaptureUs s) \<and>
     cycleCounter s' = (if isFirstPulse s then cycleCounter s else cycleCounter s + 1)"
  using DEBUG_fields [of tick "(if \<not> isFirstPulse s
      then s\<lparr>lastRevolutionTimeUs := c - lastZPulseCaptureUs s, cycleCounter := cycleCounter s + 1\<rparr>
      else s\<lparr>isFirstPulse := False\<rparr>)\<lparr>lastZPulseCaptureUs := c\<rparr>"]
  by (auto simp: App_Encoder_OnZeroPulse_def HAL_Encoder_GetHiresTimeUs_def Let_def)

section \<open>Revolution time\<close>

text \<open>
  Zero pulses at absolute times in microseconds, which the 32-bit counter shows modulo its range,
  each with the millisecond tick read in its handler.
\<close>

fun zero_pulses :: "(nat \<times> u32) list \<Rightarrow> encoder \<Rightarrow> encoder option" where
  "zero_pulses [] s = Some s"
| "zero_pulses ((t, k) # ps) s =
     do { (s, cs) \<leftarrow> App_Encoder_OnZeroPulse (of_nat t) k s; zero_pulses ps s }"

lemma zero_pulses_append:
  "zero_pulses (ps @ qs) s = do { s \<leftarrow> zero_pulses ps s; zero_pulses qs s }"
  by (induction ps s rule: zero_pulses.induct) (auto simp: bind_assoc split: Option.bind_splits)

lemma zero_pulses_run:
  "\<exists>s. zero_pulses (ps @ [(t, k)]) encoder0 = Some s \<and> isFirstPulse s = False \<and>
     lastZPulseCaptureUs s = of_nat t \<and> cycleCounter s = of_nat (length ps) \<and>
     (\<forall>u j qs. ps = qs @ [(u, j)] \<longrightarrow> lastRevolutionTimeUs s = of_nat t - of_nat u)"
proof (induction ps arbitrary: t k rule: rev_induct)
  case Nil
  show ?case using OnZeroPulse_fields [of "of_nat t" k encoder0]
    by (auto simp: encoder0_def)
next
  case (snoc p ps)
  obtain u j where p: "p = (u, j)" by (cases p)
  from snoc.IH [of u j] obtain s where s: "zero_pulses (ps @ [(u, j)]) encoder0 = Some s"
    and f: "isFirstPulse s = False" and c: "lastZPulseCaptureUs s = of_nat u"
    and n: "cycleCounter s = of_nat (length ps)"
    by blast
  from OnZeroPulse_fields [of "of_nat t" k s] f c n
  show ?case unfolding p zero_pulses_append [of "ps @ [(u, j)]"] s
    by (auto simp: add.commute)
qed

text \<open>
  The revolution time is right across wrap-around of the microsecond counter. After two or
  more zero pulses, the last two less than \<open>2\<^sup>3\<^sup>2\<close> microseconds apart, the handlers have all
  returned, the stored duration is the true time between those two pulses, the register value is
  it in milliseconds, saturated at 65535, and the heartbeat counts the completed revolutions
  modulo \<open>2\<^sup>1\<^sup>6\<close>.
\<close>

theorem revolution_timing:
  assumes "t1 \<le> t2" "t2 - t1 < 2 ^ 32"
  shows "\<exists>s. zero_pulses (ps @ [(t1, k1), (t2, k2)]) encoder0 = Some s
    \<and> unat (lastRevolutionTimeUs s) = t2 - t1
    \<and> unat (App_Encoder_GetCycleTime s) = min ((t2 - t1) div 1000) 65535
    \<and> unat (App_Encoder_GetCycleCounter s) = Suc (length ps) mod 2 ^ 16"
proof -
  from zero_pulses_run [of "ps @ [(t1, k1)]" t2 k2] obtain s
    where s: "zero_pulses (ps @ [(t1, k1), (t2, k2)]) encoder0 = Some s"
      and n: "cycleCounter s = of_nat (Suc (length ps))"
      and d: "lastRevolutionTimeUs s = of_nat t2 - of_nat t1"
    by auto
  have "lastRevolutionTimeUs s = of_nat (t2 - t1)" using d assms(1) by (simp add: of_nat_diff)
  then have u: "unat (lastRevolutionTimeUs s) = t2 - t1"
    using assms(2) by (simp add: unat_of_nat)
  have q: "unat (lastRevolutionTimeUs s div 1000) = (t2 - t1) div 1000"
    using u by (simp add: unat_div)
  have "unat (App_Encoder_GetCycleTime s) = min ((t2 - t1) div 1000) 65535"
  proof (cases "65535 < lastRevolutionTimeUs s div 1000")
    case True
    then have "65535 < (t2 - t1) div 1000" using q by (simp add: word_less_nat_alt)
    then show ?thesis using True by (simp add: App_Encoder_GetCycleTime_def Let_def)
  next
    case False
    then have "(t2 - t1) div 1000 \<le> 65535" using q by (simp add: word_less_nat_alt)
    then show ?thesis using False q
      by (simp add: App_Encoder_GetCycleTime_def Let_def unsigned_ucast_eq take_bit_nat_eq_self)
  qed
  moreover have "unat (cycleCounter s) = Suc (length ps) mod 2 ^ 16"
    unfolding n by (simp only: unat_of_nat) simp
  ultimately show ?thesis using s u
    by (simp only: App_Encoder_GetCycleCounter_def) simp
qed

theorem revolution_timing_witness:
  "\<exists>s. zero_pulses ([(0, 7)] @ [(4294967000, 4294967), (4295967295, 4295967)]) encoder0 = Some s
    \<and> unat (App_Encoder_GetCycleTime s) = 1000"
proof -
  have "(4294967000::nat) \<le> 4295967295" "(4295967295::nat) - 4294967000 < 2 ^ 32" by simp_all
  from revolution_timing [OF this, of "[(0, 7)]" 4294967 4295967] show ?thesis by auto
qed

section \<open>Step events\<close>

text \<open>Step interrupts in order, with what the hardware shows at each; the delivered positions.\<close>

fun step_irqs :: "(bool \<times> u32) list \<Rightarrow> encoder_hal \<Rightarrow> encoder_hal \<times> u16 list" where
  "step_irqs [] s = (s, [])"
| "step_irqs ((pending, cnt) # es) s =
     (let (s, cs, delivered) = EXTI9_5_IRQHandler pending cnt s;
          (s, ds) = step_irqs es s
      in (s, (case delivered of None \<Rightarrow> ds | Some d \<Rightarrow> d # ds)))"

lemma step_irqs_remdups:
  "activeStepCallback s \<Longrightarrow>
   lastSentPos s # snd (step_irqs es s) =
     remdups_adj (lastSentPos s # map (\<lambda>e. ucast (snd e)) (filter fst es))"
proof (induction es arbitrary: s)
  case Nil
  then show ?case by simp
next
  case (Cons e es)
  obtain pending cnt where e: "e = (pending, cnt)" by (cases e)
  show ?case
  proof (cases "pending \<and> (ucast cnt :: u16) \<noteq> lastSentPos s")
    case True
    from Cons.IH [of "s\<lparr>lastSentPos := ucast cnt\<rparr>"] True Cons.prems show ?thesis
      by (auto simp: e EXTI9_5_IRQHandler_def Let_def case_prod_beta)
  next
    case False
    from Cons.IH [of s] False Cons.prems show ?thesis
      by (auto simp: e EXTI9_5_IRQHandler_def Let_def case_prod_beta)
  qed
qed

text \<open>
  The step filter. Once the stream has subscribed, the positions handed to it are exactly the
  counter readings of the pending step interrupts with adjacent repetitions removed, the reserved
  value \<open>0xFFFF\<close> standing before the first: every change of position is delivered once, and
  an interrupt without a change is delivered never.
\<close>

theorem step_filter:
  "0xFFFF # snd (step_irqs es (HAL_Encoder_Init_StepCallback True encoder_hal0)) =
     remdups_adj (0xFFFF # map (\<lambda>e. ucast (snd e)) (filter fst es))"
  using step_irqs_remdups [of "HAL_Encoder_Init_StepCallback True encoder_hal0" es]
  by (simp add: HAL_Encoder_Init_StepCallback_def encoder_hal0_def)

section \<open>Registers\<close>

text \<open>What the three register operations leave in the register they write.\<close>

lemma register_values:
  "reg_after TIM4_CCER ccer (App_Encoder_SetDirection reversed ccer) =
     (if reversed then ccer OR TIM_CCER_CC1P else ccer AND NOT TIM_CCER_CC1P)"
  "reg_after EXTI_IMR imr (HAL_Encoder_EnableInterrupts imr rtsr ftsr) =
     imr OR (EXTI_IMR_MR6 OR EXTI_IMR_MR7)"
  "reg_after EXTI_IMR imr (HAL_Encoder_DisableInterrupts imr) =
     imr AND NOT (EXTI_IMR_MR6 OR EXTI_IMR_MR7)"
  by (simp_all add: App_Encoder_SetDirection_def HAL_Encoder_SetCountDirection_def
      HAL_Encoder_EnableInterrupts_def HAL_Encoder_DisableInterrupts_def hw_simps)

lemma bit_masks:
  "bit TIM_CCER_CC1P n \<longleftrightarrow> n = 1" "bit EXTI_IMR_MR6 n \<longleftrightarrow> n = 6" "bit EXTI_IMR_MR7 n \<longleftrightarrow> n = 7"
proof -
  have p: "bit (2 ^ k :: u32) n \<longleftrightarrow> n = k" if "k < 32" for k
    using that by (auto simp: bit_exp_iff)
  show "bit TIM_CCER_CC1P n \<longleftrightarrow> n = 1" "bit EXTI_IMR_MR6 n \<longleftrightarrow> n = 6"
    "bit EXTI_IMR_MR7 n \<longleftrightarrow> n = 7"
    using p [of 1] p [of 6] p [of 7] by simp_all
qed

text \<open>
  Shared registers. Setting the counting direction puts the polarity bit of channel 1 to
  \<open>reversed\<close> and keeps every other bit of \<open>CCER\<close>; enabling the step interrupts unmasks lines
  6 and 7 and disabling them masks these two again, both keeping every other line.
\<close>

theorem encoder_registers:
  "bit (reg_after TIM4_CCER ccer (App_Encoder_SetDirection reversed ccer)) n =
     (if n = 1 then reversed else bit ccer n)
   \<and> bit (reg_after EXTI_IMR imr (HAL_Encoder_EnableInterrupts imr rtsr ftsr)) n =
     (n = 6 \<or> n = 7 \<or> bit imr n)
   \<and> bit (reg_after EXTI_IMR imr (HAL_Encoder_DisableInterrupts imr)) n =
     (bit imr n \<and> n \<noteq> 6 \<and> n \<noteq> 7)"
proof -
  have "n < 32" if "bit imr n \<or> bit ccer n" using that by (auto dest: bit_imp_le_length)
  then show ?thesis
    unfolding register_values
    by (cases reversed; simp only: bit_and_iff bit_or_iff bit_not_iff bit_masks possible_bit_word
        if_True if_False; auto)
qed

text \<open>
  The first zero pulse already writes the millisecond copy of the revolution time: the handler
  clears the first-pulse flag before the diagnostic routine tests it, so that routine measures from
  the power-on value 0 of its time stamp instead of waiting for a second pulse, while the
  microsecond duration and the heartbeat do wait.
\<close>

theorem first_pulse_diagnostic:
  "\<exists>s cs. App_Encoder_OnZeroPulse c tick encoder0 = Some (s, cs)
    \<and> unat (lastRevolutionTimeMs s) = min (unat tick) 65535
    \<and> lastRevolutionTimeUs s = 0 \<and> cycleCounter s = 0"
proof -
  consider "tick = 0" | "0 < tick" using word_gt_0 by blast
  then show ?thesis
  proof cases
    case 1
    then show ?thesis
      by (simp add: App_Encoder_OnZeroPulse_def HAL_Encoder_GetHiresTimeUs_def
          DEBUG_PrintZPulseTiming_def encoder0_def Let_def)
  next
    case 2
    from speed_defined [OF this] obtain k f
      where kf: "f32_to_i32 (f32_div (f32_lit 60000) (f32_of_u32 tick)) = Some k"
        "f32_to_i32 (f32_mul (f32_sub (f32_div (f32_lit 60000) (f32_of_u32 tick))
           (f32_of_i32 k)) (f32_lit 100)) = Some f"
      by blast
    have "unat (if 65535 < tick then 65535 else ucast tick :: u16) = min (unat tick) 65535"
      by (auto simp: word_less_nat_alt unsigned_ucast_eq take_bit_nat_eq_self)
    then show ?thesis using 2 kf
      by (simp add: App_Encoder_OnZeroPulse_def HAL_Encoder_GetHiresTimeUs_def
          DEBUG_PrintZPulseTiming_def encoder0_def Let_def)
  qed
qed

end
