(* ===== verification/Telemetry.thy ===== *)
theory Telemetry
  imports Crc8 Motor Encoder
begin

text \<open>
  \<open>hal/hal_telemtry.c\<close> and \<open>app_telemetry.c\<close>: the serial port USART6 with DMA transmission, the
  byte-wise request parser, the position response and the position stream.
\<close>

section \<open>Hardware layer\<close>

definition TX_BUFFER_SIZE :: nat where "TX_BUFFER_SIZE = 64"

text \<open>
  The configured baud rate of the handle, the callback pointer (set or not) and the transmit
  buffer. The state of the UART driver (ready or not, for each direction) is an argument.
\<close>

record uart =
  active_rx_callback :: bool
  BaudRate :: u32
  tx_buffer :: "u8 list"

definition uart0 :: uart where
  "uart0 = \<lparr>active_rx_callback = False, BaudRate = 0, tx_buffer = replicate TX_BUFFER_SIZE 0\<rparr>"

definition HAL_Telemetry_Init :: "u32 \<Rightarrow> bool \<Rightarrow> uart \<Rightarrow> uart \<times> hal_call list" where
  "HAL_Telemetry_Init baud callback s =
     (s\<lparr>active_rx_callback := callback, BaudRate := baud\<rparr>,
      [RCC_CLK_ENABLE CLK_USART6, RCC_CLK_ENABLE (CLK_GPIO GPIOC), RCC_CLK_ENABLE CLK_DMA2,
       HAL_GPIO_Init GPIOC (gpio_init0\<lparr>gi_Pin := GPIO_PIN 6 OR GPIO_PIN 7, gi_Mode := MODE_AF_PP,
         gi_Pull := GPIO_NOPULL, gi_Speed := SPEED_VERY_HIGH, gi_Alternate := 8\<rparr>),
       HAL_UART_Init baud, HAL_DMA_Init, HAL_LINKDMA,
       HAL_NVIC_SetPriority USART6_IRQn 2 0, HAL_NVIC_EnableIRQ USART6_IRQn,
       HAL_NVIC_SetPriority DMA2_Stream6_IRQn 1 0, HAL_NVIC_EnableIRQ DMA2_Stream6_IRQn,
       HAL_UART_Receive_IT])"

text \<open>
  \<open>UART_BRR_SAMPLING16\<close> belongs to the vendor library: the argument \<open>brr\<close>.
\<close>

definition HAL_Telemetry_SetBaudRate ::
  "(u32 \<Rightarrow> u32 \<Rightarrow> u32) \<Rightarrow> u32 \<Rightarrow> bool \<Rightarrow> bool \<Rightarrow> u32 \<Rightarrow> uart \<Rightarrow> uart \<times> hal_call list" where
  "HAL_Telemetry_SetBaudRate brr pclk2 gReady rxReady newBaudRate s =
     (s\<lparr>BaudRate := newBaudRate\<rparr>,
      [HAL_NVIC_DisableIRQ USART6_IRQn] @
      (if \<not> gReady \<or> \<not> rxReady then [HAL_UART_Abort] else []) @
      [HAL_UART_DISABLE, REG_WRITE USART6_BRR (brr pclk2 newBaudRate), HAL_UART_ENABLE,
       HAL_UART_Receive_IT, HAL_NVIC_EnableIRQ USART6_IRQn])"

text \<open>
  The driver state and the status of the DMA call are arguments; \<open>memcpy\<close> overwrites the first
  \<open>length\<close> bytes of the buffer, and the DMA sends them.
\<close>

definition HAL_Telemetry_WriteBuffer ::
  "bool \<Rightarrow> hal_status \<Rightarrow> u8 list \<Rightarrow> nat \<Rightarrow> uart \<Rightarrow> uart \<times> hal_call list \<times> bool" where
  "HAL_Telemetry_WriteBuffer gReady dma buffer len s =
     (if TX_BUFFER_SIZE < len then (s, [], False)
      else if \<not> gReady then (s, [], False)
      else (let s = s\<lparr>tx_buffer := take len buffer @ drop len (tx_buffer s)\<rparr>;
                cs = [HAL_UART_Transmit_DMA (take len (tx_buffer s))]
            in if dma = HAL_OK then (s, cs, True) else (s, cs, False)))"

text \<open>
  The callbacks of the vendor's interrupt dispatcher for this port. On a received byte the
  application callback runs, if set, and the receiver is armed again.
\<close>

definition HAL_UART_RxCpltCallback ::
  "bool \<Rightarrow> (u8 \<Rightarrow> 's \<Rightarrow> 's \<times> hal_call list) \<Rightarrow> u8 \<Rightarrow> bool \<Rightarrow> 's \<Rightarrow> 's \<times> hal_call list" where
  "HAL_UART_RxCpltCallback isUSART6 callback rx_byte active s =
     (if isUSART6
      then (let (s, cs) = (if active then callback rx_byte s else (s, []))
            in (s, cs @ [HAL_UART_Receive_IT]))
      else (s, []))"

definition HAL_UART_ErrorCallback :: "bool \<Rightarrow> hal_call list" where
  "HAL_UART_ErrorCallback isUSART6 =
     (if isUSART6 then [HAL_UART_AbortReceive, HAL_UART_CLEAR_FLAGS, HAL_UART_Receive_IT] else [])"

definition HAL_UART_TxCpltCallback :: "bool \<Rightarrow> hal_call list" where
  "HAL_UART_TxCpltCallback isUSART6 = (if isUSART6 then [] else [])"

section \<open>Application layer\<close>

definition SYNC_BYTE :: u8 where "SYNC_BYTE = 0x55"

text \<open>The character \<open>'P'\<close>.\<close>

definition REQ_POSITION :: u8 where "REQ_POSITION = 0x50"

datatype rx_state = WAIT_SYNC | WAIT_CMD | WAIT_CRC

record response_packet =
  rp_sync :: u8
  rp_rawPosition :: u16
  rp_motorState :: u8
  rp_crc :: u8

record fast_stream_packet =
  fp_sync :: u8
  fp_rawPosition :: u16
  fp_crc :: u8

text \<open>Packed structures in memory, the machine being little-endian.\<close>

definition mem16 :: "u16 \<Rightarrow> u8 list" where
  "mem16 v = [lo8 v, hi8 v]"

definition response_bytes :: "response_packet \<Rightarrow> u8 list" where
  "response_bytes r = rp_sync r # mem16 (rp_rawPosition r) @ [rp_motorState r, rp_crc r]"

definition stream_bytes :: "fast_stream_packet \<Rightarrow> u8 list" where
  "stream_bytes p = fp_sync p # mem16 (fp_rawPosition p) @ [fp_crc p]"

definition bswap16 :: "u16 \<Rightarrow> u16" where
  "bswap16 v = be16 (lo8 v) (hi8 v)"

record telemetry =
  currentState :: rx_state
  rxCmd :: u8
  streamPacket :: fast_stream_packet
  response :: response_packet
  port :: uart

definition telemetry0 :: telemetry where
  "telemetry0 = \<lparr>currentState = WAIT_SYNC, rxCmd = 0,
     streamPacket = \<lparr>fp_sync = 0, fp_rawPosition = 0, fp_crc = 0\<rparr>,
     response = \<lparr>rp_sync = 0, rp_rawPosition = 0, rp_motorState = 0, rp_crc = 0\<rparr>, port = uart0\<rparr>"

text \<open>What the receive callback finds around it: the counter, the motor, the UART driver.\<close>

record rx_env =
  env_cnt :: u32
  env_motor :: motor
  env_gReady :: bool
  env_dma :: hal_status

definition App_Telemetry_OnByteReceived ::
  "rx_env \<Rightarrow> u8 \<Rightarrow> telemetry \<Rightarrow> telemetry \<times> hal_call list" where
  "App_Telemetry_OnByteReceived env incomingByte s =
     (case currentState s of
        WAIT_SYNC \<Rightarrow>
          (if incomingByte = SYNC_BYTE then (s\<lparr>currentState := WAIT_CMD\<rparr>, []) else (s, []))
      | WAIT_CMD \<Rightarrow> (s\<lparr>rxCmd := incomingByte, currentState := WAIT_CRC\<rparr>, [])
      | WAIT_CRC \<Rightarrow>
          (let (s, cs) =
             (if crc8_atm [rxCmd s] 1 = incomingByte \<and> rxCmd s = REQ_POSITION
              then (let r = (response s)\<lparr>rp_sync := SYNC_BYTE\<rparr>;
                        rawPos = App_Encoder_GetPosition (env_cnt env);
                        rawPos = bswap16 rawPos;
                        r = r\<lparr>rp_rawPosition := rawPos\<rparr>;
                        r = r\<lparr>rp_motorState := of_nat (motor_code (App_Motor_GetState (env_motor env)))\<rparr>;
                        r = r\<lparr>rp_crc := crc8_atm (drop 1 (response_bytes r)) 3\<rparr>;
                        s = s\<lparr>response := r\<rparr>;
                        (u, ds, ok) = HAL_Telemetry_WriteBuffer (env_gReady env) (env_dma env)
                          (response_bytes r) 5 (port s)
                    in (s\<lparr>port := u\<rparr>,
                        SEGGER_RTT ''TX -> [SYNC: 0x%02X] [POS: %u] [STATE: %u] [CRC: 0x%02X]''
                          [uint (rp_sync r), uint (bswap16 rawPos), uint (rp_motorState r),
                           uint (rp_crc r)] # ds))
              else (s, []))
           in (s\<lparr>currentState := WAIT_SYNC\<rparr>, cs)))"

definition App_Telemetry_Init ::
  "u32 \<Rightarrow> telemetry \<Rightarrow> encoder_hal \<Rightarrow> telemetry \<times> encoder_hal \<times> hal_call list" where
  "App_Telemetry_Init baud s h =
     (let (u, cs) = HAL_Telemetry_Init baud True (port s)
      in (s\<lparr>port := u, currentState := WAIT_SYNC\<rparr>, HAL_Encoder_Init_StepCallback True h, cs))"

definition App_Telemetry_StartStream :: "u32 \<Rightarrow> u32 \<Rightarrow> u32 \<Rightarrow> hal_call list" where
  "App_Telemetry_StartStream imr rtsr ftsr =
     HAL_Encoder_EnableInterrupts imr rtsr ftsr @ [SEGGER_RTT ''Fast Telemetry Stream STARTED.'' []]"

definition App_Telemetry_StopStream :: "u32 \<Rightarrow> hal_call list" where
  "App_Telemetry_StopStream imr =
     HAL_Encoder_DisableInterrupts imr @ [SEGGER_RTT ''Fast Telemetry Stream STOPPED.'' []]"

definition App_Telemetry_OnEncoderStep ::
  "bool \<Rightarrow> hal_status \<Rightarrow> u16 \<Rightarrow> telemetry \<Rightarrow> telemetry \<times> hal_call list" where
  "App_Telemetry_OnEncoderStep gReady dma currentPosition s =
     (let p = (streamPacket s)\<lparr>fp_sync := SYNC_BYTE\<rparr>;
          p = p\<lparr>fp_rawPosition := bswap16 currentPosition\<rparr>;
          p = p\<lparr>fp_crc := crc8_atm (drop 1 (stream_bytes p)) 2\<rparr>;
          s = s\<lparr>streamPacket := p\<rparr>;
          (u, ds, ok) = HAL_Telemetry_WriteBuffer gReady dma (stream_bytes p) 4 (port s)
      in (s\<lparr>port := u\<rparr>, ds))"

definition App_Telemetry_SetBaudRate ::
  "(u32 \<Rightarrow> u32 \<Rightarrow> u32) \<Rightarrow> u32 \<Rightarrow> bool \<Rightarrow> bool \<Rightarrow> u32 \<Rightarrow> telemetry \<Rightarrow> telemetry \<times> hal_call list" where
  "App_Telemetry_SetBaudRate brr pclk2 gReady rxReady newBaudRate s =
     (let (u, cs) = HAL_Telemetry_SetBaudRate brr pclk2 gReady rxReady newBaudRate (port s)
      in (s\<lparr>port := u\<rparr>, cs))"

section \<open>Frames on the wire\<close>

definition position_frame :: "u16 \<Rightarrow> u8 \<Rightarrow> u8 list" where
  "position_frame p m = [SYNC_BYTE, hi8 p, lo8 p, m, crc8 [hi8 p, lo8 p, m]]"

definition stream_frame :: "u16 \<Rightarrow> u8 list" where
  "stream_frame p = [SYNC_BYTE, hi8 p, lo8 p, crc8 [hi8 p, lo8 p]]"

lemma bswap16_simps [simp]: "hi8 (bswap16 v) = lo8 v" "lo8 (bswap16 v) = hi8 v" "bswap16 (bswap16 v) = v"
  by (simp_all add: bswap16_def)

lemma WriteBuffer_sends:
  assumes "length buffer \<le> 64"
  shows "HAL_Telemetry_WriteBuffer gReady dma buffer (length buffer) s =
     (if gReady then (s\<lparr>tx_buffer := buffer @ drop (length buffer) (tx_buffer s)\<rparr>,
        [HAL_UART_Transmit_DMA buffer], dma = HAL_OK) else (s, [], False))"
  using assms by (auto simp: HAL_Telemetry_WriteBuffer_def TX_BUFFER_SIZE_def Let_def)

lemma WriteBuffer_trace:
  "length buffer = n \<Longrightarrow> n \<le> 64 \<Longrightarrow>
   fst (snd (HAL_Telemetry_WriteBuffer gReady dma buffer n u)) =
     (if gReady then [HAL_UART_Transmit_DMA buffer] else [])"
  using WriteBuffer_sends [of buffer gReady dma u] by simp

lemma crc8_atm_small:
  "crc8_atm [a] 1 = crc8 [a]" "crc8_atm [a, b] 2 = crc8 [a, b]" "crc8_atm [a, b, c] 3 = crc8 [a, b, c]"
  "crc8_atm [a, b, x] 2 = crc8 [a, b]" "crc8_atm [a, b, c, x] 3 = crc8 [a, b, c]"
  by (simp_all add: crc8_atm_take)

lemma step_sends:
  "snd (App_Telemetry_OnEncoderStep gReady dma p s) =
     (if gReady then [HAL_UART_Transmit_DMA (stream_frame p)] else [])"
  by (simp add: App_Telemetry_OnEncoderStep_def Let_def stream_bytes_def mem16_def stream_frame_def
      crc8_atm_small WriteBuffer_trace case_prod_beta)

section \<open>Requests\<close>

text \<open>The reply to a complete frame: a command byte and the check byte that closed it.\<close>

definition answer :: "rx_env \<times> u8 \<times> u8 \<Rightarrow> hal_call list" where
  "answer q =
     (case q of (env, c, k) \<Rightarrow>
        if k = crc8 [c] \<and> c = REQ_POSITION
        then (let p = App_Encoder_GetPosition (env_cnt env);
                  m = of_nat (motor_code (App_Motor_GetState (env_motor env)))
              in SEGGER_RTT ''TX -> [SYNC: 0x%02X] [POS: %u] [STATE: %u] [CRC: 0x%02X]''
                   [uint SYNC_BYTE, uint p, uint m, uint (crc8 [hi8 p, lo8 p, m])] #
                 (if env_gReady env then [HAL_UART_Transmit_DMA (position_frame p m)] else []))
        else [])"

text \<open>The complete frames of a byte stream: a sync byte and the two bytes after it.\<close>

fun frames :: "(rx_env \<times> u8) list \<Rightarrow> (rx_env \<times> u8 \<times> u8) list" where
  "frames (e # c # k # es) =
     (if snd e = SYNC_BYTE then (fst k, snd c, snd k) # frames es else frames (c # k # es))"
| "frames _ = []"

fun rx_run :: "(rx_env \<times> u8) list \<Rightarrow> telemetry \<Rightarrow> telemetry \<times> hal_call list" where
  "rx_run [] s = (s, [])"
| "rx_run (e # es) s =
     (let (s, cs) = App_Telemetry_OnByteReceived (fst e) (snd e) s; (s, ds) = rx_run es s
      in (s, cs @ ds))"

lemma OnByte_sync:
  "currentState s = WAIT_SYNC \<Longrightarrow> App_Telemetry_OnByteReceived env b s =
     (if b = SYNC_BYTE then s\<lparr>currentState := WAIT_CMD\<rparr> else s, [])"
  by (simp add: App_Telemetry_OnByteReceived_def)

lemma OnByte_cmd:
  "currentState s = WAIT_CMD \<Longrightarrow> App_Telemetry_OnByteReceived env b s =
     (s\<lparr>rxCmd := b, currentState := WAIT_CRC\<rparr>, [])"
  by (simp add: App_Telemetry_OnByteReceived_def)

lemma OnByte_crc:
  assumes "currentState s = WAIT_CRC"
  shows "snd (App_Telemetry_OnByteReceived env b s) = answer (env, rxCmd s, b)"
    and "currentState (fst (App_Telemetry_OnByteReceived env b s)) = WAIT_SYNC"
  using assms
  by (auto simp: App_Telemetry_OnByteReceived_def Let_def response_bytes_def mem16_def
      answer_def position_frame_def crc8_atm_small WriteBuffer_trace case_prod_beta)

lemma rx_run_Cons:
  "snd (rx_run (e # es) s) = snd (App_Telemetry_OnByteReceived (fst e) (snd e) s) @
     snd (rx_run es (fst (App_Telemetry_OnByteReceived (fst e) (snd e) s)))"
  by (simp add: Let_def case_prod_beta)

lemma rx_run_short:
  "currentState s = WAIT_SYNC \<Longrightarrow> snd (rx_run [] s) = []"
  "currentState s = WAIT_SYNC \<Longrightarrow> snd (rx_run [e] s) = []"
  "currentState s = WAIT_SYNC \<Longrightarrow> snd (rx_run [e, c] s) = []"
  by (simp_all add: OnByte_sync OnByte_cmd)

lemma rx_run_frames:
  "currentState s = WAIT_SYNC \<Longrightarrow> snd (rx_run es s) = concat (map answer (frames es))"
proof (induction es arbitrary: s rule: frames.induct)
  case (1 e c k es)
  show ?case
  proof (cases "snd e = SYNC_BYTE")
    case True
    let ?s = "s\<lparr>rxCmd := snd c, currentState := WAIT_CRC\<rparr>"
    have crc: "currentState ?s = WAIT_CRC" by simp
    have "snd (rx_run (e # c # k # es) s) = answer (fst k, snd c, snd k) @
        snd (rx_run es (fst (App_Telemetry_OnByteReceived (fst k) (snd k) ?s)))"
      using True 1(3) OnByte_crc(1) [OF crc, of "fst k" "snd k"]
      by (simp add: OnByte_sync OnByte_cmd Let_def case_prod_beta)
    also have "snd (rx_run es (fst (App_Telemetry_OnByteReceived (fst k) (snd k) ?s))) =
        concat (map answer (frames es))"
      by (rule 1(1) [OF True OnByte_crc(2) [OF crc]])
    finally show ?thesis using True by simp
  next
    case False
    then have "snd (rx_run (e # c # k # es) s) = snd (rx_run (c # k # es) s)"
      using 1(3) unfolding rx_run_Cons [of e] by (simp add: OnByte_sync)
    also have "\<dots> = concat (map answer (frames (c # k # es)))" by (rule 1(2) [OF False 1(3)])
    finally show ?thesis using False by simp
  qed
qed (simp_all only: rx_run_short frames.simps list.map concat.simps)

text \<open>
  C6: the request parser implements the frame grammar. Whatever bytes arrive after start-up, in
  whatever circumstances each finds the motor, the counter and the transmitter, the port sends
  exactly the replies to the complete frames of the stream, in order: a frame whose check byte is
  the checksum of its command, the command being a position request, is answered with the current
  position and motor state, if the transmitter is free; every other frame and every byte outside a
  frame is ignored.
\<close>

theorem parser_refines_frames:
  "snd (rx_run es (fst (App_Telemetry_Init baud s h))) = concat (map answer (frames es))"
  by (rule rx_run_frames) (simp add: App_Telemetry_Init_def Let_def case_prod_beta)

text \<open>
  Resynchronisation. From any state of the parser, two bytes that are not the sync byte are
  enough to make the next request heard: a valid position request after them is answered with a
  position frame if the transmitter is free.
\<close>

theorem parser_resynchronises:
  assumes "b1 \<noteq> SYNC_BYTE" "b2 \<noteq> SYNC_BYTE" "env_gReady e5"
  shows "HAL_UART_Transmit_DMA (position_frame (App_Encoder_GetPosition (env_cnt e5))
      (of_nat (motor_code (App_Motor_GetState (env_motor e5)))))
    \<in> set (snd (rx_run [(e1, b1), (e2, b2), (e3, SYNC_BYTE), (e4, REQ_POSITION),
        (e5, crc8 [REQ_POSITION])] s))"
proof -
  define t where "t = fst (rx_run [(e1, b1), (e2, b2)] s)"
  have sync: "currentState t = WAIT_SYNC"
  proof (cases "currentState s")
    case WAIT_SYNC
    then show ?thesis using assms by (simp add: t_def OnByte_sync)
  next
    case WAIT_CMD
    then show ?thesis using OnByte_crc(2) [of "s\<lparr>rxCmd := b1, currentState := WAIT_CRC\<rparr>" e2 b2]
      by (simp add: t_def OnByte_cmd Let_def case_prod_beta)
  next
    case WAIT_CRC
    then show ?thesis using OnByte_crc(2) [OF WAIT_CRC, of e1 b1] assms
      by (simp add: t_def OnByte_sync Let_def case_prod_beta)
  qed
  have "snd (rx_run [(e1, b1), (e2, b2), (e3, SYNC_BYTE), (e4, REQ_POSITION),
      (e5, crc8 [REQ_POSITION])] s) =
    snd (rx_run [(e1, b1), (e2, b2)] s) @
    snd (rx_run [(e3, SYNC_BYTE), (e4, REQ_POSITION), (e5, crc8 [REQ_POSITION])] t)"
    by (simp add: t_def Let_def case_prod_beta)
  moreover have "snd (rx_run [(e3, SYNC_BYTE), (e4, REQ_POSITION), (e5, crc8 [REQ_POSITION])] t)
      = answer (e5, REQ_POSITION, crc8 [REQ_POSITION])"
    using rx_run_frames [OF sync] by (simp del: rx_run.simps)
  ultimately show ?thesis using assms(3) by (simp add: answer_def Let_def)
qed

definition idle_env :: rx_env where
  "idle_env = \<lparr>env_cnt = 14399, env_motor = motor0, env_gReady = True, env_dma = HAL_OK\<rparr>"

theorem parser_resynchronises_witness:
  "HAL_UART_Transmit_DMA (position_frame (App_Encoder_GetPosition (env_cnt idle_env))
      (of_nat (motor_code (App_Motor_GetState (env_motor idle_env)))))
    \<in> set (snd (rx_run [(idle_env, 0), (idle_env, 1), (idle_env, SYNC_BYTE),
        (idle_env, REQ_POSITION), (idle_env, crc8 [REQ_POSITION])] telemetry0))"
proof -
  have "(0 :: u8) \<noteq> SYNC_BYTE" "(1 :: u8) \<noteq> SYNC_BYTE" "env_gReady idle_env"
    by (simp_all add: SYNC_BYTE_def idle_env_def)
  from parser_resynchronises [OF this] show ?thesis .
qed

section \<open>Corruption\<close>

text \<open>
  What a receiver of the stream can rely on. The packet for a position starts with the sync
  byte and carries the position in network byte order; if its other three bytes arrive changed by
  an error pattern that spans at most eight bits, or flips an odd number of bits, the check byte
  no longer fits them.
\<close>

theorem stream_packet_protected:
  assumes "length es = 3"
    and "(\<exists>(b :: u8) n. b \<noteq> 0 \<and> msg_poly es = push_bit n (unat b)) \<or> odd (weight es)"
    and "snd (App_Telemetry_OnEncoderStep gReady dma p s) = [HAL_UART_Transmit_DMA pkt]"
  shows "hd pkt = SYNC_BYTE \<and> be16 (pkt ! 1) (pkt ! 2) = p \<and> length pkt = 4
    \<and> last (tl pkt) = crc8 (butlast (tl pkt))
    \<and> last (map2 (XOR) (tl pkt) es) \<noteq> crc8 (butlast (map2 (XOR) (tl pkt) es))"
proof -
  have pkt: "pkt = stream_frame p" using assms(3) by (simp add: step_sends split: if_splits)
  have "last (map2 (XOR) (tl pkt) es) \<noteq> crc8 (butlast (map2 (XOR) (tl pkt) es))"
    by (rule crc8_frame.corruption_detected)
      (use assms(1,2) in \<open>simp_all add: pkt stream_frame_def\<close>)
  then show ?thesis by (simp add: pkt stream_frame_def)
qed

theorem stream_packet_protected_witness:
  "last (map2 (XOR) (tl (stream_frame 14399)) [0, 0x81, 0]) \<noteq>
     crc8 (butlast (map2 (XOR) (tl (stream_frame 14399)) [0, 0x81, 0]))"
proof -
  have l: "length [0, 0x81, 0 :: u8] = 3" by simp
  have "msg_poly [0, 0x81, 0] = push_bit 8 (unat (0x81 :: u8))"
    by (simp add: msg_poly_def)
  then have e: "(\<exists>(b :: u8) n. b \<noteq> 0 \<and> msg_poly [0, 0x81, 0] = push_bit n (unat b)) \<or>
      odd (weight [0, 0x81, 0])"
    by (intro disjI1 exI [of _ "0x81"] exI [of _ 8] conjI) simp_all
  have "snd (App_Telemetry_OnEncoderStep True HAL_OK 14399 telemetry0) =
      [HAL_UART_Transmit_DMA (stream_frame 14399)]"
    by (simp only: step_sends if_True)
  from stream_packet_protected [OF l e this] show ?thesis by blast
qed

section \<open>The port\<close>

text \<open>
  The transmit buffer. A request longer than the buffer, or made while the transmitter is
  busy, is refused and leaves buffer and hardware alone, so a running transmission is never
  overwritten; otherwise exactly the caller's bytes are handed to the DMA, the buffer keeps its
  64 bytes, and the result says whether the DMA accepted them.
\<close>

theorem write_buffer_contract:
  assumes "len \<le> length buffer" "length (tx_buffer s) = TX_BUFFER_SIZE"
  shows "HAL_Telemetry_WriteBuffer gReady dma buffer len s =
     (if len \<le> 64 \<and> gReady
      then (s\<lparr>tx_buffer := take len buffer @ drop len (tx_buffer s)\<rparr>,
        [HAL_UART_Transmit_DMA (take len buffer)], dma = HAL_OK)
      else (s, [], False))
    \<and> length (tx_buffer (fst (HAL_Telemetry_WriteBuffer gReady dma buffer len s))) = TX_BUFFER_SIZE"
  using assms by (auto simp: HAL_Telemetry_WriteBuffer_def TX_BUFFER_SIZE_def Let_def min_def)

theorem write_buffer_contract_witness:
  "snd (HAL_Telemetry_WriteBuffer True HAL_BUSY [1, 2, 3] 2 uart0) =
     ([HAL_UART_Transmit_DMA [1, 2]], False)"
proof -
  have "2 \<le> length [1 :: u8, 2, 3]" "length (tx_buffer uart0) = TX_BUFFER_SIZE"
    by (simp_all add: uart0_def)
  from write_buffer_contract [OF this, of True HAL_BUSY] show ?thesis by simp
qed

text \<open>
  The state of the receiver a trace leaves behind: the interrupt unmasked, the peripheral enabled,
  a reception armed; and whether the baud rate was only ever changed with the interrupt masked and
  the peripheral disabled.
\<close>

record port_state =
  irq_on :: bool
  uart_on :: bool
  rx_armed :: bool
  brr_safe :: bool

fun port_step :: "hal_call \<Rightarrow> port_state \<Rightarrow> port_state" where
  "port_step (HAL_NVIC_DisableIRQ i) p = (if i = USART6_IRQn then p\<lparr>irq_on := False\<rparr> else p)"
| "port_step (HAL_NVIC_EnableIRQ i) p = (if i = USART6_IRQn then p\<lparr>irq_on := True\<rparr> else p)"
| "port_step (HAL_UART_Init b) p = p\<lparr>uart_on := True\<rparr>"
| "port_step HAL_UART_DISABLE p = p\<lparr>uart_on := False\<rparr>"
| "port_step HAL_UART_ENABLE p = p\<lparr>uart_on := True\<rparr>"
| "port_step HAL_UART_Abort p = p\<lparr>rx_armed := False\<rparr>"
| "port_step HAL_UART_AbortReceive p = p\<lparr>rx_armed := False\<rparr>"
| "port_step HAL_UART_Receive_IT p = p\<lparr>rx_armed := True\<rparr>"
| "port_step (REG_WRITE r v) p =
     (if r = USART6_BRR then p\<lparr>brr_safe := brr_safe p \<and> \<not> irq_on p \<and> \<not> uart_on p\<rparr> else p)"
| "port_step _ p = p"

definition port_after :: "hal_call list \<Rightarrow> port_state \<Rightarrow> port_state" where
  "port_after cs p = fold port_step cs p"

definition listening :: "port_state \<Rightarrow> bool" where
  "listening p \<longleftrightarrow> irq_on p \<and> uart_on p \<and> rx_armed p \<and> brr_safe p"

text \<open>Reception consumes the armed byte before the callback runs.\<close>

definition byte_taken :: "port_state \<Rightarrow> port_state" where
  "byte_taken p = p\<lparr>rx_armed := False\<rparr>"

text \<open>
  The port never goes deaf. Start-up leaves it listening; and a port that listens still does
  after a change of the baud rate in any driver state (made with its interrupt masked and the
  peripheral off), after an error callback, and after a received byte was handed to the parser.
\<close>

theorem port_keeps_listening:
  "listening (port_after (snd (HAL_Telemetry_Init baud cb u)) p0) = brr_safe p0
   \<and> listening (port_after (snd (HAL_Telemetry_SetBaudRate brr pclk2 gReady rxReady new u))
        \<lparr>irq_on = True, uart_on = True, rx_armed = armed, brr_safe = True\<rparr>)
   \<and> listening (port_after (HAL_UART_ErrorCallback True)
        \<lparr>irq_on = True, uart_on = True, rx_armed = armed, brr_safe = True\<rparr>)
   \<and> listening (port_after (snd (HAL_UART_RxCpltCallback True (App_Telemetry_OnByteReceived env) b
        active s)) (byte_taken \<lparr>irq_on = True, uart_on = True, rx_armed = armed, brr_safe = True\<rparr>))"
proof -
  have quiet: "port_after (answer q) p = p" for q p
    by (simp add: answer_def port_after_def Let_def split: prod.split)
  have rx: "port_after (snd (App_Telemetry_OnByteReceived env b s)) p = p" for p
  proof (cases "currentState s")
    case WAIT_CRC
    then show ?thesis by (simp add: OnByte_crc quiet)
  qed (simp_all add: OnByte_sync OnByte_cmd port_after_def)
  have app: "port_after (cs @ ds) p = port_after ds (port_after cs p)" for cs ds p
    by (simp add: port_after_def)
  show ?thesis
    by (cases active)
      (simp_all add: HAL_UART_RxCpltCallback_def Let_def case_prod_beta app rx
        HAL_Telemetry_Init_def HAL_Telemetry_SetBaudRate_def HAL_UART_ErrorCallback_def
        rx [unfolded port_after_def] port_after_def listening_def byte_taken_def)
qed

end
