(* ===== verification/Settings.thy ===== *)
theory Settings
  imports Hal Float32
begin

text \<open>
  \<open>app_settings.c\<close>: the settings record kept in a flash sector, guarded by a magic word and a
  checksum. The flash driver and the checksum unit belong to the vendor library and are
  arguments; \<open>flash_ok\<close> states what the code relies on.
\<close>

section \<open>The record and its memory image\<close>

type_synonym octets4 = "u8 \<times> u8 \<times> u8 \<times> u8"

record system_settings =
  magicWord :: u32
  targetRPM :: f32
  accelTimeSec :: f32
  motorDirection :: u32
  encoderReversed :: u32
  uartBaudRate :: u32
  autoStartStream :: u32
  microsteps :: u32
  ipAddress :: octets4
  netmask :: octets4
  gateway :: octets4
  crc32 :: u32

definition FLASH_SETTINGS_ADDR :: u32 where "FLASH_SETTINGS_ADDR = 0x080E0000"
definition SETTINGS_MAGIC_WORD :: u32 where "SETTINGS_MAGIC_WORD = 0xAA55AA55"

definition defaultSettings :: system_settings where
  "defaultSettings = \<lparr>magicWord = SETTINGS_MAGIC_WORD, targetRPM = f32_lit 8, accelTimeSec = f32_lit 5,
     motorDirection = 0, encoderReversed = 0, uartBaudRate = 230400, autoStartStream = 0,
     microsteps = 5000, ipAddress = (192, 168, 1, 151), netmask = (255, 255, 255, 0),
     gateway = (192, 168, 1, 1), crc32 = 0\<rparr>"

text \<open>Four bytes as the little-endian word the pointer casts of the code see, and back.\<close>

definition le32 :: "octets4 \<Rightarrow> u32" where
  "le32 q = (case q of (a, b, c, d) \<Rightarrow>
     ucast a OR push_bit 8 (ucast b) OR push_bit 16 (ucast c) OR push_bit 24 (ucast d))"

definition octets_of :: "u32 \<Rightarrow> octets4" where
  "octets_of w = (ucast w, ucast (drop_bit 8 w), ucast (drop_bit 16 w), ucast (drop_bit 24 w))"

definition settings_words :: "system_settings \<Rightarrow> u32 list" where
  "settings_words s = [magicWord s, targetRPM s, accelTimeSec s, motorDirection s, encoderReversed s,
     uartBaudRate s, autoStartStream s, microsteps s, le32 (ipAddress s), le32 (netmask s),
     le32 (gateway s), crc32 s]"

definition settings_of_words :: "u32 list \<Rightarrow> system_settings" where
  "settings_of_words w = \<lparr>magicWord = w ! 0, targetRPM = w ! 1, accelTimeSec = w ! 2,
     motorDirection = w ! 3, encoderReversed = w ! 4, uartBaudRate = w ! 5, autoStartStream = w ! 6,
     microsteps = w ! 7, ipAddress = octets_of (w ! 8), netmask = octets_of (w ! 9),
     gateway = octets_of (w ! 10), crc32 = w ! 11\<rparr>"

section \<open>The flash driver\<close>

record 'f flash_driver =
  HAL_FLASH_Unlock :: "'f \<Rightarrow> 'f"
  HAL_FLASH_Lock :: "'f \<Rightarrow> 'f"
  HAL_FLASHEx_Erase :: "'f \<Rightarrow> 'f \<times> hal_status"
  HAL_FLASH_Program :: "u32 \<Rightarrow> u32 \<Rightarrow> 'f \<Rightarrow> 'f \<times> hal_status"
  flash_read :: "'f \<Rightarrow> u32 \<Rightarrow> u32"
  flash_locked :: "'f \<Rightarrow> bool"

text \<open>The words of the sector start at the settings address, four bytes apart.\<close>

definition word_addr :: "nat \<Rightarrow> u32" where
  "word_addr i = FLASH_SETTINGS_ADDR + of_nat i * 4"

text \<open>
  The documented behaviour: an erase that reports success leaves every word of the sector erased;
  programming an erased word, when it reports success, stores the value and leaves the other words
  alone; locking and unlocking change no contents.
\<close>

definition flash_ok :: "'f flash_driver \<Rightarrow> bool" where
  "flash_ok d \<longleftrightarrow>
     (\<forall>f. flash_locked d (HAL_FLASH_Lock d f)) \<and>
     (\<forall>f a. flash_read d (HAL_FLASH_Lock d f) a = flash_read d f a) \<and>
     (\<forall>f a. flash_read d (HAL_FLASH_Unlock d f) a = flash_read d f a) \<and>
     (\<forall>f f'. HAL_FLASHEx_Erase d f = (f', HAL_OK) \<longrightarrow>
        (\<forall>i < 32768. flash_read d f' (word_addr i) = 0xFFFFFFFF)) \<and>
     (\<forall>f f' i w. HAL_FLASH_Program d (word_addr i) w f = (f', HAL_OK) \<longrightarrow> i < 32768 \<longrightarrow>
        flash_read d f (word_addr i) = 0xFFFFFFFF \<longrightarrow>
        flash_read d f' (word_addr i) = w \<and>
        (\<forall>j < 32768. j \<noteq> i \<longrightarrow> flash_read d f' (word_addr j) = flash_read d f (word_addr j)))"

section \<open>Operations\<close>

record 'f settings_state =
  flash :: 'f
  activeSettings :: system_settings

definition InitHardwareCRC :: "hal_status \<Rightarrow> hal_call list" where
  "InitHardwareCRC st =
     RCC_CLK_ENABLE CLK_CRC #
     (if st \<noteq> HAL_OK then [SEGGER_RTT ''Hardware CRC Init Failed!'' []] else [])"

text \<open>
  The unit is reset before each use, so its result is a function \<open>crc\<close> of the words given.
\<close>

definition CalculateSettingsCRC :: "(u32 list \<Rightarrow> u32) \<Rightarrow> system_settings \<Rightarrow> u32" where
  "CalculateSettingsCRC crc settings =
     (let payloadLengthWords = (48 - 4) div 4 in crc (take payloadLengthWords (settings_words settings)))"

text \<open>The loop over the words to write, which stops at the first failure.\<close>

fun write_words :: "'f flash_driver \<Rightarrow> nat \<Rightarrow> u32 list \<Rightarrow> 'f \<Rightarrow> 'f \<times> bool" where
  "write_words d i [] f = (f, True)"
| "write_words d i (w # ws) f =
     (let (f, status) = HAL_FLASH_Program d (word_addr i) w f
      in if status \<noteq> HAL_OK then (f, False) else write_words d (Suc i) ws f)"

definition App_Settings_Save ::
  "'f flash_driver \<Rightarrow> (u32 list \<Rightarrow> u32) \<Rightarrow> system_settings \<Rightarrow> 'f settings_state \<Rightarrow>
   'f settings_state \<times> hal_call list \<times> bool" where
  "App_Settings_Save d crc newSettings s =
     (let dataToWrite = newSettings\<lparr>magicWord := SETTINGS_MAGIC_WORD\<rparr>;
          dataToWrite = dataToWrite\<lparr>crc32 := CalculateSettingsCRC crc dataToWrite\<rparr>;
          cs = [SEGGER_RTT ''Erasing Flash Sector 11...'' []];
          f = HAL_FLASH_Unlock d (flash s);
          (f, status) = HAL_FLASHEx_Erase d f
      in if status \<noteq> HAL_OK
         then (s\<lparr>flash := HAL_FLASH_Lock d f\<rparr>, cs @ [SEGGER_RTT ''Flash erase FAILED!'' []], False)
         else
           (let cs = cs @ [SEGGER_RTT ''Writing new settings with CRC32...0x%08X'' [uint (crc32 dataToWrite)]];
                (f, ok) = write_words d 0 (settings_words dataToWrite) f
            in if \<not> ok
               then (s\<lparr>flash := HAL_FLASH_Lock d f\<rparr>, cs @ [SEGGER_RTT ''Flash write FAILED!'' []], False)
               else (s\<lparr>flash := HAL_FLASH_Lock d f, activeSettings := dataToWrite\<rparr>,
                     cs @ [SEGGER_RTT ''Settings saved successfully.'' []], True)))"

text \<open>The settings record the code sees at the flash address.\<close>

definition flashMemory :: "'f flash_driver \<Rightarrow> 'f \<Rightarrow> system_settings" where
  "flashMemory d f = settings_of_words (map (\<lambda>i. flash_read d f (word_addr i)) [0..<12])"

definition App_Settings_Init ::
  "'f flash_driver \<Rightarrow> (u32 list \<Rightarrow> u32) \<Rightarrow> hal_status \<Rightarrow> 'f settings_state \<Rightarrow>
   'f settings_state \<times> hal_call list" where
  "App_Settings_Init d crc crc_init s =
     (let cs = InitHardwareCRC crc_init;
          m = flashMemory d (flash s);
          default = (\<lambda>cs. let s = s\<lparr>activeSettings := defaultSettings\<rparr>;
              (s, ds, ok) = App_Settings_Save d crc (activeSettings s) s
            in (s, cs @ [SEGGER_RTT ''Loaded factory default settings.'' []] @ ds))
      in if magicWord m = SETTINGS_MAGIC_WORD
         then (if CalculateSettingsCRC crc m = crc32 m
               then (s\<lparr>activeSettings := m\<rparr>,
                     cs @ [SEGGER_RTT ''Settings loaded and CRC32 verified successfully.'' []])
               else default (cs @ [SEGGER_RTT ''Settings CRC32 MISMATCH! Flash data is corrupted.'' []]))
         else default (cs @ [SEGGER_RTT ''No valid settings found in Flash (Empty or Invalid).'' []]))"

definition App_Settings_Get :: "'f settings_state \<Rightarrow> system_settings" where
  "App_Settings_Get s = activeSettings s"

section \<open>The memory image is faithful\<close>

lemma octets_of_le32 [simp]: "octets_of (le32 q) = q"
proof -
  obtain a b c d where q: "q = (a, b, c, d)" by (cases q)
  show ?thesis unfolding q octets_of_def le32_def prod.case prod.inject
    by (intro conjI; rule bit_word_eqI) (auto simp: bit_simps dest: bit_imp_le_length)
qed

lemma le32_octets_of [simp]: "le32 (octets_of w) = w"
proof (rule bit_word_eqI)
  fix n
  show "bit (le32 (octets_of w)) n = bit w n" if "n < LENGTH(32)"
    using that by (cases "24 \<le> n"; cases "16 \<le> n") (auto simp: octets_of_def le32_def bit_simps)
qed

lemma settings_image [simp]: "settings_of_words (settings_words s) = s"
  by (simp add: settings_of_words_def settings_words_def)

lemma length_settings_words [simp]: "length (settings_words s) = 12"
  by (simp add: settings_words_def)

lemma settings_words_magic: "settings_words s = settings_words t \<longleftrightarrow> s = t"
  by (metis settings_image)

section \<open>Writing and reading back\<close>

lemma flash_okD:
  assumes "flash_ok d"
  shows "flash_locked d (HAL_FLASH_Lock d f)"
    and "flash_read d (HAL_FLASH_Lock d f) a = flash_read d f a"
    and "flash_read d (HAL_FLASH_Unlock d f) a = flash_read d f a"
    and "HAL_FLASHEx_Erase d f = (f', HAL_OK) \<Longrightarrow> i < 32768 \<Longrightarrow>
      flash_read d f' (word_addr i) = 0xFFFFFFFF"
    and "HAL_FLASH_Program d (word_addr i) w f = (f', HAL_OK) \<Longrightarrow> i < 32768 \<Longrightarrow>
      flash_read d f (word_addr i) = 0xFFFFFFFF \<Longrightarrow> flash_read d f' (word_addr i) = w"
    and "HAL_FLASH_Program d (word_addr i) w f = (f', HAL_OK) \<Longrightarrow> i < 32768 \<Longrightarrow>
      flash_read d f (word_addr i) = 0xFFFFFFFF \<Longrightarrow> j < 32768 \<Longrightarrow> j \<noteq> i \<Longrightarrow>
      flash_read d f' (word_addr j) = flash_read d f (word_addr j)"
  using assms unfolding flash_ok_def by blast+

lemma write_words_read:
  assumes d: "flash_ok d"
  shows "write_words d i ws f = (f', True) \<Longrightarrow> i + length ws \<le> 32768 \<Longrightarrow>
    (\<And>j. i \<le> j \<Longrightarrow> j < i + length ws \<Longrightarrow> flash_read d f (word_addr j) = 0xFFFFFFFF) \<Longrightarrow>
    (\<forall>k < length ws. flash_read d f' (word_addr (i + k)) = ws ! k) \<and>
    (\<forall>j < i. flash_read d f' (word_addr j) = flash_read d f (word_addr j))"
proof (induction ws arbitrary: i f)
  case Nil
  then show ?case by simp
next
  case (Cons w ws)
  obtain g where p: "HAL_FLASH_Program d (word_addr i) w f = (g, HAL_OK)"
    and rest: "write_words d (Suc i) ws g = (f', True)"
    using Cons.prems(1) by (auto simp: Let_def split: prod.splits if_splits)
  have i: "i < 32768" and e: "flash_read d f (word_addr i) = 0xFFFFFFFF"
    using Cons.prems(2,3) by auto
  note g = flash_okD(5,6) [OF d p i e]
  have "flash_read d g (word_addr j) = 0xFFFFFFFF" if "Suc i \<le> j" "j < Suc i + length ws" for j
    using g(2) [of j] Cons.prems(2,3) that by auto
  from Cons.IH [OF rest _ this] Cons.prems(2)
  have IH: "\<forall>k < length ws. flash_read d f' (word_addr (Suc i + k)) = ws ! k"
    "\<forall>j < Suc i. flash_read d f' (word_addr j) = flash_read d g (word_addr j)"
    by auto
  have "flash_read d f' (word_addr (i + k)) = (w # ws) ! k" if "k < length (w # ws)" for k
  proof (cases k)
    case 0
    then show ?thesis using IH(2) g(1) by simp
  next
    case (Suc m)
    then show ?thesis using IH(1) that by simp
  qed
  moreover have "flash_read d f' (word_addr j) = flash_read d f (word_addr j)" if "j < i" for j
    using IH(2) g(2) [of j] that i by simp
  ultimately show ?case by blast
qed

text \<open>The record a successful save puts in force.\<close>

definition sealed :: "(u32 list \<Rightarrow> u32) \<Rightarrow> system_settings \<Rightarrow> system_settings" where
  "sealed crc s =
     (let t = s\<lparr>magicWord := SETTINGS_MAGIC_WORD\<rparr> in t\<lparr>crc32 := CalculateSettingsCRC crc t\<rparr>)"

lemma CalculateSettingsCRC_crc32 [simp]:
  "CalculateSettingsCRC crc (s\<lparr>crc32 := c\<rparr>) = CalculateSettingsCRC crc s"
  by (simp add: CalculateSettingsCRC_def settings_words_def)

lemma sealed_valid:
  "magicWord (sealed crc s) = SETTINGS_MAGIC_WORD"
  "CalculateSettingsCRC crc (sealed crc s) = crc32 (sealed crc s)"
  by (simp_all add: sealed_def Let_def)

lemma Save_True:
  assumes d: "flash_ok d" and r: "App_Settings_Save d crc n s = (s', cs, True)"
  shows "flashMemory d (flash s') = sealed crc n" and "activeSettings s' = sealed crc n"
    and "flash_locked d (flash s')"
proof -
  let ?w = "settings_words (sealed crc n)"
  obtain f g where e: "HAL_FLASHEx_Erase d (HAL_FLASH_Unlock d (flash s)) = (f, HAL_OK)"
    and w: "write_words d 0 ?w f = (g, True)"
    and s': "s' = s\<lparr>flash := HAL_FLASH_Lock d g, activeSettings := sealed crc n\<rparr>"
    using r by (auto simp: App_Settings_Save_def sealed_def Let_def split: prod.splits if_splits)
  have "flash_read d f (word_addr j) = 0xFFFFFFFF" if "j < 0 + length ?w" for j
    by (rule flash_okD(4) [OF d e]) (use that in simp)
  with write_words_read [OF d w] have "\<forall>k < 12. flash_read d g (word_addr k) = ?w ! k" by simp
  then have "map (\<lambda>i. flash_read d g (word_addr i)) [0..<12] = ?w"
    by (intro nth_equalityI) auto
  then show "flashMemory d (flash s') = sealed crc n"
    by (simp add: s' flashMemory_def flash_okD(2) [OF d])
  show "activeSettings s' = sealed crc n" by (simp add: s')
  show "flash_locked d (flash s')" by (simp add: s' flash_okD(1) [OF d])
qed

lemma Save_False:
  assumes "flash_ok d" "App_Settings_Save d crc n s = (s', cs, False)"
  shows "activeSettings s' = activeSettings s" and "flash_locked d (flash s')"
  using assms(2) flash_okD(1) [OF assms(1)]
  by (auto simp: App_Settings_Save_def Let_def split: prod.splits if_splits)

lemma Init_cases:
  "App_Settings_Init d crc st s =
     (let m = flashMemory d (flash s)
      in if magicWord m = SETTINGS_MAGIC_WORD \<and> CalculateSettingsCRC crc m = crc32 m
         then (s\<lparr>activeSettings := m\<rparr>, InitHardwareCRC st @
                 [SEGGER_RTT ''Settings loaded and CRC32 verified successfully.'' []])
         else (fst (App_Settings_Save d crc defaultSettings (s\<lparr>activeSettings := defaultSettings\<rparr>)),
               snd (App_Settings_Init d crc st s)))"
  by (auto simp: App_Settings_Init_def Let_def split: prod.splits)

section \<open>A driver that behaves as documented\<close>

record nor_flash =
  cells :: "u32 \<Rightarrow> u32"
  nor_lock :: bool

text \<open>NOR flash: erasing sets all bits of the sector, programming can only clear bits.\<close>

definition nor_driver :: "nor_flash flash_driver" where
  "nor_driver =
     \<lparr>HAL_FLASH_Unlock = (\<lambda>f. f\<lparr>nor_lock := False\<rparr>),
      HAL_FLASH_Lock = (\<lambda>f. f\<lparr>nor_lock := True\<rparr>),
      HAL_FLASHEx_Erase = (\<lambda>f. if nor_lock f then (f, HAL_ERROR)
         else (f\<lparr>cells := (\<lambda>a. 0xFFFFFFFF)\<rparr>, HAL_OK)),
      HAL_FLASH_Program = (\<lambda>a w f. if nor_lock f then (f, HAL_ERROR)
         else (f\<lparr>cells := (cells f)(a := cells f a AND w)\<rparr>, HAL_OK)),
      flash_read = (\<lambda>f a. cells f a),
      flash_locked = nor_lock\<rparr>"

lemma word_addr_inj:
  assumes "i < 32768" "j < 32768"
  shows "word_addr i = word_addr j \<longleftrightarrow> i = j"
proof
  assume "word_addr i = word_addr j"
  then have "(of_nat (i * 4) :: u32) = of_nat (j * 4)" by (simp add: word_addr_def)
  then have "unat (of_nat (i * 4) :: u32) = unat (of_nat (j * 4) :: u32)" by (simp only:)
  then have "i * 4 mod 2 ^ LENGTH(32) = j * 4 mod 2 ^ LENGTH(32)" by (simp only: unat_of_nat)
  then show "i = j" using assms by simp
qed simp

lemma nor_driver_ok: "flash_ok nor_driver"
  unfolding flash_ok_def
proof (intro conjI allI impI)
  fix f f' i w
  assume p: "HAL_FLASH_Program nor_driver (word_addr i) w f = (f', HAL_OK)" and i: "i < 32768"
    and e: "flash_read nor_driver f (word_addr i) = 0xFFFFFFFF"
  have c: "cells f' = (cells f)(word_addr i := cells f (word_addr i) AND w)"
    using p by (auto simp: nor_driver_def split: if_splits)
  have "(0xFFFFFFFF :: u32) = - 1" by simp
  then have "(0xFFFFFFFF :: u32) AND w = w" by (simp only: and.left_neutral)
  then show "flash_read nor_driver f' (word_addr i) = w" using e by (simp add: nor_driver_def c)
  fix j
  assume "j < 32768" "j \<noteq> i"
  then show "flash_read nor_driver f' (word_addr j) = flash_read nor_driver f (word_addr j)"
    using i by (simp add: nor_driver_def c word_addr_inj)
qed (auto simp: nor_driver_def split: if_splits)

section \<open>Properties\<close>

text \<open>
  C19: settings survive a power cycle. When a save reports success, the next start loads exactly
  the record that was given to it, the magic word and checksum filled in, without touching the
  flash, whatever the memory held before.
\<close>

theorem saved_settings_survive:
  assumes "flash_ok d" "App_Settings_Save d crc n s = (s', cs, True)"
  shows "activeSettings (fst (App_Settings_Init d crc st \<lparr>flash = flash s', activeSettings = ram\<rparr>)) =
      n\<lparr>magicWord := SETTINGS_MAGIC_WORD,
        crc32 := CalculateSettingsCRC crc (n\<lparr>magicWord := SETTINGS_MAGIC_WORD\<rparr>)\<rparr>
    \<and> flash (fst (App_Settings_Init d crc st \<lparr>flash = flash s', activeSettings = ram\<rparr>)) = flash s'"
  using Save_True(1) [OF assms] sealed_valid [of crc n]
  by (simp add: Init_cases Let_def) (simp add: sealed_def Let_def)

text \<open>
  A save is all or nothing for the running system. Whatever the driver reports, the flash is
  locked again; on success the record in force, and the one in flash, is the new one with a valid
  checksum; on failure the record in force is the old one.
\<close>

theorem save_outcome:
  assumes "flash_ok d"
  shows "case App_Settings_Save d crc n s of (s', cs, ok) \<Rightarrow>
      flash_locked d (flash s') \<and>
      (if ok then App_Settings_Get s' = flashMemory d (flash s')
               \<and> CalculateSettingsCRC crc (App_Settings_Get s') = crc32 (App_Settings_Get s')
               \<and> settings_words (App_Settings_Get s') = SETTINGS_MAGIC_WORD #
                   butlast (tl (settings_words n)) @ [crc32 (App_Settings_Get s')]
       else App_Settings_Get s' = App_Settings_Get s)"
proof -
  obtain s' cs ok where r: "App_Settings_Save d crc n s = (s', cs, ok)"
    by (cases "App_Settings_Save d crc n s")
  show ?thesis
  proof (cases ok)
    case True
    have "App_Settings_Save d crc n s = (s', cs, True)" using r True by simp
    note t = Save_True [OF assms this] and v = sealed_valid [of crc n]
    have "settings_words (sealed crc n) = SETTINGS_MAGIC_WORD #
        butlast (tl (settings_words n)) @ [crc32 (sealed crc n)]"
      by (simp add: settings_words_def sealed_def Let_def)
    then show ?thesis using r True t v by (simp add: App_Settings_Get_def)
  next
    case False
    then have "App_Settings_Save d crc n s = (s', cs, False)" using r by simp
    from Save_False [OF assms this] show ?thesis using r False
      by (simp add: App_Settings_Get_def)
  qed
qed

text \<open>
  Start-up never runs on a damaged record. After it the record in force carries the magic word
  and is either a record whose checksum fits and that is the one in flash, or the factory defaults
  (when the flash held no valid record and could not be rewritten); in the first case a second
  start-up loads the same record again.
\<close>

theorem boot_settings_sound:
  assumes "flash_ok d"
  shows "let b = fst (App_Settings_Init d crc st s); a = activeSettings b
    in magicWord a = SETTINGS_MAGIC_WORD \<and>
       (a = defaultSettings \<or>
        (a = flashMemory d (flash b) \<and> CalculateSettingsCRC crc a = crc32 a \<and>
         activeSettings (fst (App_Settings_Init d crc st b)) = a))"
proof (cases "magicWord (flashMemory d (flash s)) = SETTINGS_MAGIC_WORD \<and>
    CalculateSettingsCRC crc (flashMemory d (flash s)) = crc32 (flashMemory d (flash s))")
  case True
  then show ?thesis by (simp add: Init_cases Let_def)
next
  case False
  obtain b cs ok where r: "App_Settings_Save d crc defaultSettings
      (s\<lparr>activeSettings := defaultSettings\<rparr>) = (b, cs, ok)"
    by (cases "App_Settings_Save d crc defaultSettings (s\<lparr>activeSettings := defaultSettings\<rparr>)")
  have b: "fst (App_Settings_Init d crc st s) = b"
    by (subst Init_cases) (simp only: Let_def False if_False r fst_conv)
  show ?thesis
  proof (cases ok)
    case True
    then have "App_Settings_Save d crc defaultSettings
      (s\<lparr>activeSettings := defaultSettings\<rparr>) = (b, cs, True)" using r by simp
    note t = Save_True [OF assms this] and v = sealed_valid [of crc defaultSettings]
    have "activeSettings (fst (App_Settings_Init d crc st b)) = sealed crc defaultSettings"
      using t v by (simp add: Init_cases [of d crc st b] Let_def)
    then show ?thesis using t v by (simp add: b Let_def)
  next
    case False
    then have "App_Settings_Save d crc defaultSettings
      (s\<lparr>activeSettings := defaultSettings\<rparr>) = (b, cs, False)" using r by simp
    from Save_False(1) [OF assms this] show ?thesis
      by (simp add: b Let_def) (simp add: defaultSettings_def)
  qed
qed

section \<open>Witnesses\<close>

text \<open>An erased, locked flash, and a stand-in for the checksum unit.\<close>

definition blank :: "nor_flash settings_state" where
  "blank = \<lparr>flash = \<lparr>cells = (\<lambda>a. 0xFFFFFFFF), nor_lock = True\<rparr>, activeSettings = defaultSettings\<rparr>"

definition xor_crc :: "u32 list \<Rightarrow> u32" where
  "xor_crc ws = foldl (XOR) 0xFFFFFFFF ws"

lemma nor_save_ok: "snd (snd (App_Settings_Save nor_driver xor_crc n blank)) = True"
proof -
  have w: "snd (write_words nor_driver i ws f)" if "\<not> nor_lock f" for i ws f
    using that by (induction ws arbitrary: i f) (simp_all add: nor_driver_def Let_def)
  let ?f = "\<lparr>cells = (\<lambda>a. 0xFFFFFFFF), nor_lock = False\<rparr>"
  have e: "HAL_FLASHEx_Erase nor_driver (HAL_FLASH_Unlock nor_driver (flash blank)) = (?f, HAL_OK)"
    by (simp add: nor_driver_def blank_def)
  have "snd (write_words nor_driver 0 ws ?f) = True" for ws using w [of ?f] by simp
  then show ?thesis
    unfolding App_Settings_Save_def Let_def e prod.case by (simp add: case_prod_beta)
qed

theorem saved_settings_survive_witness:
  "targetRPM (activeSettings (fst (App_Settings_Init nor_driver xor_crc HAL_OK
     \<lparr>flash = flash (fst (App_Settings_Save nor_driver xor_crc
         (defaultSettings\<lparr>targetRPM := f32_lit 15\<rparr>) blank)),
      activeSettings = defaultSettings\<rparr>))) = f32_lit 15"
proof -
  let ?n = "defaultSettings\<lparr>targetRPM := f32_lit 15\<rparr>"
  obtain s' cs ok where r: "App_Settings_Save nor_driver xor_crc ?n blank = (s', cs, ok)"
    by (cases "App_Settings_Save nor_driver xor_crc ?n blank")
  then have "App_Settings_Save nor_driver xor_crc ?n blank = (s', cs, True)"
    using nor_save_ok [of ?n] by simp
  from saved_settings_survive [OF nor_driver_ok this, of HAL_OK defaultSettings] r
  show ?thesis by simp
qed

theorem save_outcome_witness:
  "case App_Settings_Save nor_driver xor_crc defaultSettings blank of (s', cs, ok) \<Rightarrow> ok
     \<and> App_Settings_Get s' = flashMemory nor_driver (flash s')"
  using save_outcome [OF nor_driver_ok, of xor_crc defaultSettings blank]
    nor_save_ok [of defaultSettings]
  by (simp add: case_prod_beta)

theorem boot_settings_sound_witness:
  "magicWord (activeSettings (fst (App_Settings_Init nor_driver xor_crc HAL_OK blank))) =
     SETTINGS_MAGIC_WORD"
  using boot_settings_sound [OF nor_driver_ok, of xor_crc HAL_OK blank]
  by (simp only: Let_def)

end
