(* ===== verification/Modbus.thy ===== *)
theory Modbus
  imports Settings Motor Encoder
begin

text \<open>
  \<open>app_modbus.c\<close>: the Modbus/TCP server, its register map and the record of parameters and
  pending commands it shares with the main loop. The calls into the TCP stack are a trace.
\<close>

section \<open>Shared record\<close>

record modbus_config =
  pendingMotorStart :: bool
  pendingMotorStop :: bool
  pendingStreamStart :: bool
  pendingStreamStop :: bool
  pendingEncoderDir :: bool
  pendingBaudChange :: bool
  pendingSaveCmd :: bool
  pendingRebootCmd :: bool
  mb_encoderReversed :: bool
  streamActive :: bool
  mb_autoStartStream :: bool
  mb_motorDirection :: u8
  mb_microsteps :: u16
  mb_uartBaudRate :: u32
  mb_ipAddress :: octets4
  mb_netmask :: octets4
  mb_gateway :: octets4
  mb_targetRPM :: f32
  mb_accelTimeSec :: f32

definition ModbusCfg0 :: modbus_config where
  "ModbusCfg0 = \<lparr>pendingMotorStart = False, pendingMotorStop = False, pendingStreamStart = False,
     pendingStreamStop = False, pendingEncoderDir = False, pendingBaudChange = False,
     pendingSaveCmd = False, pendingRebootCmd = False, mb_encoderReversed = False,
     streamActive = False, mb_autoStartStream = False, mb_motorDirection = 0,
     mb_microsteps = 5000, mb_uartBaudRate = 230400, mb_ipAddress = (192, 168, 1, 151),
     mb_netmask = (255, 255, 255, 0), mb_gateway = (192, 168, 1, 1),
     mb_targetRPM = f32_lit 10, mb_accelTimeSec = f32_lit 2\<rparr>"

section \<open>Register map\<close>

abbreviation REG_ENCODER_POS :: u16 where "REG_ENCODER_POS \<equiv> 100"
abbreviation REG_MOTOR_STATE :: u16 where "REG_MOTOR_STATE \<equiv> 101"
abbreviation REG_CYCLE_TIME :: u16 where "REG_CYCLE_TIME \<equiv> 102"
abbreviation REG_CYCLE_COUNTER :: u16 where "REG_CYCLE_COUNTER \<equiv> 103"
abbreviation REG_MOTOR_CTRL :: u16 where "REG_MOTOR_CTRL \<equiv> 200"
abbreviation REG_MOTOR_DIR :: u16 where "REG_MOTOR_DIR \<equiv> 201"
abbreviation REG_MOTOR_RPM :: u16 where "REG_MOTOR_RPM \<equiv> 202"
abbreviation REG_MOTOR_ACCEL :: u16 where "REG_MOTOR_ACCEL \<equiv> 203"
abbreviation REG_MOTOR_MICROSTEPS :: u16 where "REG_MOTOR_MICROSTEPS \<equiv> 204"
abbreviation REG_STREAM_CTRL :: u16 where "REG_STREAM_CTRL \<equiv> 300"
abbreviation REG_ENCODER_DIR :: u16 where "REG_ENCODER_DIR \<equiv> 301"
abbreviation REG_UART_BAUD :: u16 where "REG_UART_BAUD \<equiv> 302"
abbreviation REG_AUTO_STREAM :: u16 where "REG_AUTO_STREAM \<equiv> 303"
abbreviation REG_IP_HIGH :: u16 where "REG_IP_HIGH \<equiv> 310"
abbreviation REG_IP_LOW :: u16 where "REG_IP_LOW \<equiv> 311"
abbreviation REG_NETMASK_HIGH :: u16 where "REG_NETMASK_HIGH \<equiv> 312"
abbreviation REG_NETMASK_LOW :: u16 where "REG_NETMASK_LOW \<equiv> 313"
abbreviation REG_GATEWAY_HIGH :: u16 where "REG_GATEWAY_HIGH \<equiv> 314"
abbreviation REG_GATEWAY_LOW :: u16 where "REG_GATEWAY_LOW \<equiv> 315"
abbreviation REG_SAVE_SETTINGS :: u16 where "REG_SAVE_SETTINGS \<equiv> 400"
abbreviation REG_SYSTEM_REBOOT :: u16 where "REG_SYSTEM_REBOOT \<equiv> 401"

text \<open>What a read finds around the record: counter, encoder, motor, settings in force.\<close>

record modbus_env =
  me_cnt :: u32
  me_encoder :: encoder
  me_motor :: motor
  me_settings :: system_settings

fun octets_high :: "octets4 \<Rightarrow> u16" where "octets_high (a, b, c, d) = be16 a b"
fun octets_low :: "octets4 \<Rightarrow> u16" where "octets_low (a, b, c, d) = be16 c d"

text \<open>
  The value of a holding register; undefined when a scaled \<open>float\<close> does not fit 16 bits.
\<close>

definition read_register :: "modbus_env \<Rightarrow> modbus_config \<Rightarrow> u16 \<Rightarrow> u16 option" where
  "read_register env cfg addr =
     (if addr = REG_ENCODER_POS then Some (App_Encoder_GetPosition (me_cnt env))
      else if addr = REG_MOTOR_STATE then Some (of_nat (motor_code (App_Motor_GetState (me_motor env))))
      else if addr = REG_MOTOR_CTRL
        then Some (if App_Motor_GetState (me_motor env) = STATE_STOPPED then 0 else 1)
      else if addr = REG_CYCLE_TIME then Some (App_Encoder_GetCycleTime (me_encoder env))
      else if addr = REG_CYCLE_COUNTER then Some (App_Encoder_GetCycleCounter (me_encoder env))
      else if addr = REG_MOTOR_DIR then Some (ucast (mb_motorDirection cfg))
      else if addr = REG_MOTOR_RPM then f32_to_u16 (f32_mul (mb_targetRPM cfg) (f32_lit 10))
      else if addr = REG_MOTOR_ACCEL then f32_to_u16 (f32_mul (mb_accelTimeSec cfg) (f32_lit 10))
      else if addr = REG_MOTOR_MICROSTEPS then Some (mb_microsteps cfg)
      else if addr = REG_STREAM_CTRL then Some (if streamActive cfg then 1 else 0)
      else if addr = REG_ENCODER_DIR then Some (if mb_encoderReversed cfg then 1 else 0)
      else if addr = REG_UART_BAUD then Some (ucast (mb_uartBaudRate cfg div 100))
      else if addr = REG_AUTO_STREAM then Some (if mb_autoStartStream cfg then 1 else 0)
      else if addr = REG_IP_HIGH then Some (octets_high (ipAddress (me_settings env)))
      else if addr = REG_IP_LOW then Some (octets_low (ipAddress (me_settings env)))
      else if addr = REG_NETMASK_HIGH then Some (octets_high (netmask (me_settings env)))
      else if addr = REG_NETMASK_LOW then Some (octets_low (netmask (me_settings env)))
      else if addr = REG_GATEWAY_HIGH then Some (octets_high (gateway (me_settings env)))
      else if addr = REG_GATEWAY_LOW then Some (octets_low (gateway (me_settings env)))
      else Some 0)"

fun set_high :: "u16 \<Rightarrow> octets4 \<Rightarrow> octets4" where
  "set_high v (a, b, c, d) = (hi8 v, lo8 v, c, d)"
fun set_low :: "u16 \<Rightarrow> octets4 \<Rightarrow> octets4" where
  "set_low v (a, b, c, d) = (a, b, hi8 v, lo8 v)"

definition write_register :: "u16 \<Rightarrow> u16 \<Rightarrow> modbus_config \<Rightarrow> modbus_config" where
  "write_register regAddress regValue cfg =
     (if regAddress = REG_MOTOR_CTRL
        then (if regValue = 1 then cfg\<lparr>pendingMotorStart := True\<rparr> else cfg\<lparr>pendingMotorStop := True\<rparr>)
      else if regAddress = REG_MOTOR_DIR
        then cfg\<lparr>mb_motorDirection := (if 0 < regValue then 1 else 0)\<rparr>
      else if regAddress = REG_MOTOR_RPM
        then cfg\<lparr>mb_targetRPM := f32_div (f32_of_u16 regValue) (f32_lit 10)\<rparr>
      else if regAddress = REG_MOTOR_ACCEL
        then cfg\<lparr>mb_accelTimeSec := f32_div (f32_of_u16 regValue) (f32_lit 10)\<rparr>
      else if regAddress = REG_MOTOR_MICROSTEPS then cfg\<lparr>mb_microsteps := regValue\<rparr>
      else if regAddress = REG_STREAM_CTRL
        then (if regValue = 1 then cfg\<lparr>pendingStreamStart := True\<rparr> else cfg\<lparr>pendingStreamStop := True\<rparr>)
      else if regAddress = REG_ENCODER_DIR
        then cfg\<lparr>mb_encoderReversed := (if 0 < regValue then True else False), pendingEncoderDir := True\<rparr>
      else if regAddress = REG_UART_BAUD
        then cfg\<lparr>mb_uartBaudRate := ucast regValue * 100, pendingBaudChange := True\<rparr>
      else if regAddress = REG_AUTO_STREAM
        then cfg\<lparr>mb_autoStartStream := (if 0 < regValue then True else False)\<rparr>
      else if regAddress = REG_SAVE_SETTINGS
        then (if regValue = 1 then cfg\<lparr>pendingSaveCmd := True\<rparr> else cfg)
      else if regAddress = REG_IP_HIGH then cfg\<lparr>mb_ipAddress := set_high regValue (mb_ipAddress cfg)\<rparr>
      else if regAddress = REG_IP_LOW then cfg\<lparr>mb_ipAddress := set_low regValue (mb_ipAddress cfg)\<rparr>
      else if regAddress = REG_SYSTEM_REBOOT
        then (if regValue = 1 then cfg\<lparr>pendingRebootCmd := True\<rparr> else cfg)
      else cfg)"

section \<open>Request handling\<close>

abbreviation MBAP_HEADER_SIZE :: u16 where "MBAP_HEADER_SIZE \<equiv> 7"
abbreviation FC_READ_HOLDING_REGS :: u8 where "FC_READ_HOLDING_REGS \<equiv> 3"
abbreviation FC_WRITE_SINGLE_REG :: u8 where "FC_WRITE_SINGLE_REG \<equiv> 6"
abbreviation MODBUS_PORT :: u16 where "MODBUS_PORT \<equiv> 502"

text \<open>
  A received buffer: the memory from its payload pointer on, the length of its first segment and
  of the whole chain. Nothing bounds the reads of the code but the memory itself.
\<close>

record pbuf =
  payload :: "nat \<Rightarrow> u8"
  pb_len :: u16
  tot_len :: u16

datatype tcp_call =
    Tcp_new | Tcp_bind u16 | Tcp_listen | Tcp_accept | Tcp_close
  | Tcp_recv bool | Tcp_err bool | Tcp_arg_null | Tcp_sent_null | Keepalive
  | Tcp_recved u16 | Tcp_write "u8 list" | Tcp_output | Pbuf_free

abbreviation ERR_OK :: int where "ERR_OK \<equiv> 0"

text \<open>A store into the response buffer; out of bounds it is undefined.\<close>

definition put :: "nat \<Rightarrow> u8 \<Rightarrow> u8 list \<Rightarrow> u8 list option" where
  "put i b res = (if i < length res then Some (res[i := b]) else None)"

fun put_regs :: "modbus_env \<Rightarrow> modbus_config \<Rightarrow> u16 \<Rightarrow> nat list \<Rightarrow> u8 list \<Rightarrow> u8 list option" where
  "put_regs env cfg startAddress [] res = Some res"
| "put_regs env cfg startAddress (i # is) res =
     do {
       val \<leftarrow> read_register env cfg (startAddress + of_nat i);
       res \<leftarrow> put (9 + i * 2) (hi8 val) res;
       res \<leftarrow> put (10 + i * 2) (lo8 val) res;
       put_regs env cfg startAddress is res
     }"

text \<open>
  Function 3: \<open>garbage\<close> is what the 64 bytes of the uninitialised buffer hold.
\<close>

definition read_holding_regs ::
  "modbus_env \<Rightarrow> u8 list \<Rightarrow> (nat \<Rightarrow> u8) \<Rightarrow> modbus_config \<Rightarrow> tcp_call list option" where
  "read_holding_regs env garbage data cfg =
     (let startAddress = be16 (data 8) (data 9);
          quantity = be16 (data 10) (data 11)
      in if 0 < quantity \<and> quantity \<le> 20
         then (let byteCount = (ucast (quantity * 2) :: u8);
                   res = map data [0..<6] @ drop 6 garbage;
                   len = 3 + (ucast byteCount :: u16)
               in do {
                 res \<leftarrow> put 4 (hi8 len) res;
                 res \<leftarrow> put 5 (lo8 len) res;
                 res \<leftarrow> put 6 (data 6) res;
                 res \<leftarrow> put 7 FC_READ_HOLDING_REGS res;
                 res \<leftarrow> put 8 byteCount res;
                 res \<leftarrow> put_regs env cfg startAddress [0..<unat quantity] res;
                 Some [Tcp_write (take (9 + unat byteCount) res)]
               })
         else Some [])"

definition modbus_close_conn :: "tcp_call list" where
  "modbus_close_conn = [Tcp_arg_null, Tcp_sent_null, Tcp_recv False, Tcp_close]"

definition modbus_recv_cb ::
  "modbus_env \<Rightarrow> u8 list \<Rightarrow> pbuf option \<Rightarrow> int \<Rightarrow> modbus_config \<Rightarrow>
   (modbus_config \<times> tcp_call list \<times> int) option" where
  "modbus_recv_cb env garbage pb err cfg =
     (case pb of
        None \<Rightarrow> Some (cfg, modbus_close_conn, ERR_OK)
      | Some p \<Rightarrow>
          if err \<noteq> ERR_OK then Some (cfg, [Pbuf_free], err)
          else if MBAP_HEADER_SIZE \<le> pb_len p
          then (let data = payload p; functionCode = data 7
                in if functionCode = FC_READ_HOLDING_REGS
                   then do {
                     cs \<leftarrow> read_holding_regs env garbage data cfg;
                     Some (cfg, [Tcp_recved (tot_len p)] @ cs @ [Tcp_output, Pbuf_free], ERR_OK)
                   }
                   else if functionCode = FC_WRITE_SINGLE_REG
                   then Some (write_register (be16 (data 8) (data 9)) (be16 (data 10) (data 11)) cfg,
                     [Tcp_recved (tot_len p), Tcp_write (map data [0..<12]), Tcp_output, Pbuf_free],
                     ERR_OK)
                   else Some (cfg, [Tcp_recved (tot_len p), Tcp_output, Pbuf_free], ERR_OK))
          else Some (cfg, [Tcp_recved (tot_len p), Pbuf_free], ERR_OK))"

text \<open>How many bytes of a buffer this reads: behind a frame that is too short, the memory there.\<close>

definition bytes_read :: "pbuf option \<Rightarrow> int \<Rightarrow> nat" where
  "bytes_read pb err =
     (case pb of
        None \<Rightarrow> 0
      | Some p \<Rightarrow>
          if err \<noteq> ERR_OK \<or> pb_len p < MBAP_HEADER_SIZE then 0
          else if payload p 7 = FC_READ_HOLDING_REGS \<or> payload p 7 = FC_WRITE_SINGLE_REG then 12
          else 8)"

lemma reads_no_further:
  assumes "\<And>i. i < bytes_read (Some p) err \<Longrightarrow> d i = payload p i"
  shows "modbus_recv_cb env garbage (Some (p\<lparr>payload := d\<rparr>)) err cfg = modbus_recv_cb env garbage (Some p) err cfg"
proof (cases "err \<noteq> ERR_OK \<or> pb_len p < MBAP_HEADER_SIZE")
  case False
  then have "8 \<le> bytes_read (Some p) err" by (simp add: bytes_read_def)
  then have d7: "d 7 = payload p 7" by (intro assms) simp
  show ?thesis
  proof (cases "payload p 7 = FC_READ_HOLDING_REGS \<or> payload p 7 = FC_WRITE_SINGLE_REG")
    case True
    then have "bytes_read (Some p) err = 12" using False by (simp add: bytes_read_def)
    then have d: "d i = payload p i" if "i < 12" for i using assms that by simp
    then have m: "map d [0..<12] = map (payload p) [0..<12]" "map d [0..<6] = map (payload p) [0..<6]" by simp_all
    have b: "d 6 = payload p 6" "d 8 = payload p 8" "d 9 = payload p 9" "d 10 = payload p 10" "d 11 = payload p 11"
      by (rule d, simp)+
    have rd: "read_holding_regs env garbage d cfg = read_holding_regs env garbage (payload p) cfg"
      unfolding read_holding_regs_def Let_def m b ..
    have "payload (p\<lparr>payload := d\<rparr>) = d" "pb_len (p\<lparr>payload := d\<rparr>) = pb_len p" "tot_len (p\<lparr>payload := d\<rparr>) = tot_len p"
      by simp_all
    then show ?thesis unfolding modbus_recv_cb_def by (simp only: option.case Let_def d7 rd m b)
  qed (use False d7 in \<open>simp add: modbus_recv_cb_def Let_def\<close>)
qed (auto simp: modbus_recv_cb_def not_le)

definition modbus_accept_cb :: "tcp_call list \<times> int" where
  "modbus_accept_cb = ([Tcp_recv True, Tcp_err True, Keepalive], ERR_OK)"

definition modbus_err_cb :: "int \<Rightarrow> modbus_config \<Rightarrow> modbus_config" where
  "modbus_err_cb err cfg = cfg"

text \<open>Whether a control block was available, and the status of the bind, are arguments.\<close>

definition App_Modbus_Init :: "bool \<Rightarrow> int \<Rightarrow> tcp_call list" where
  "App_Modbus_Init pcb_ok bind_err =
     Tcp_new #
     (if pcb_ok
      then Tcp_bind MODBUS_PORT #
        (if bind_err = ERR_OK then [Tcp_listen, Tcp_accept] else [Tcp_close])
      else [])"

definition App_Modbus_GetConfig :: "modbus_config \<Rightarrow> modbus_config" where
  "App_Modbus_GetConfig cfg = cfg"

section \<open>The response buffer\<close>

text \<open>The scaled parameters fit their registers.\<close>

definition scaled_ok :: "modbus_config \<Rightarrow> bool" where
  "scaled_ok cfg \<longleftrightarrow> of_tenths (mb_targetRPM cfg) \<noteq> None \<and> of_tenths (mb_accelTimeSec cfg) \<noteq> None"

definition reg_value :: "modbus_env \<Rightarrow> modbus_config \<Rightarrow> u16 \<Rightarrow> u16" where
  "reg_value env cfg a = the (read_register env cfg a)"

lemma read_register_defined:
  "scaled_ok cfg \<Longrightarrow> read_register env cfg a = Some (reg_value env cfg a)"
  by (auto simp: reg_value_def read_register_def scaled_ok_def of_tenths_def)

definition reg_bytes :: "modbus_env \<Rightarrow> modbus_config \<Rightarrow> u16 \<Rightarrow> nat list \<Rightarrow> u8 list" where
  "reg_bytes env cfg start is =
     concat (map (\<lambda>i. [hi8 (reg_value env cfg (start + of_nat i)), lo8 (reg_value env cfg (start + of_nat i))]) is)"

lemma length_reg_bytes [simp]: "length (reg_bytes env cfg start is) = 2 * length is"
  by (induction "is") (simp_all add: reg_bytes_def)

lemma put_two:
  assumes "Suc k < length res"
  shows "take (Suc (Suc k)) (res[k := a, Suc k := b]) = take k res @ [a, b]"
    and "drop (Suc (Suc k)) (res[k := a, Suc k := b]) = drop (Suc (Suc k)) res"
  using assms by (auto intro!: nth_equalityI simp: nth_append nth_list_update less_Suc_eq)

lemma put_regs_eq:
  assumes "scaled_ok cfg"
  shows "9 + 2 * (k + n) \<le> length res \<Longrightarrow>
    put_regs env cfg start [k..<k + n] res =
      Some (take (9 + 2 * k) res @ reg_bytes env cfg start [k..<k + n] @ drop (9 + 2 * (k + n)) res)"
proof (induction n arbitrary: k res)
  case 0
  then show ?case by (simp add: reg_bytes_def)
next
  case (Suc n)
  let ?v = "reg_value env cfg (start + of_nat k)"
  let ?r = "res[9 + 2 * k := hi8 ?v, Suc (9 + 2 * k) := lo8 ?v]"
  have upt: "[k..<k + Suc n] = k # [Suc k..<Suc k + n]" by (simp add: upt_rec [of k])
  have len: "Suc (9 + 2 * k) < length res" using Suc.prems by simp
  have bytes: "reg_bytes env cfg start [k..<k + Suc n] =
      [hi8 ?v, lo8 ?v] @ reg_bytes env cfg start [Suc k..<Suc k + n]"
    unfolding upt by (simp add: reg_bytes_def)
  have "put_regs env cfg start [k..<k + Suc n] res = put_regs env cfg start [Suc k..<Suc k + n] ?r"
    unfolding upt using len
    by (simp add: read_register_defined [OF assms] put_def mult.commute)
  also have "\<dots> = Some (take (9 + 2 * Suc k) ?r @ reg_bytes env cfg start [Suc k..<Suc k + n] @
      drop (9 + 2 * (Suc k + n)) ?r)"
    by (rule Suc.IH) (use Suc.prems in simp)
  also have "take (9 + 2 * Suc k) ?r = take (9 + 2 * k) res @ [hi8 ?v, lo8 ?v]"
    using put_two(1) [OF len] by simp
  also have "drop (9 + 2 * (Suc k + n)) ?r = drop (9 + 2 * (k + Suc n)) res"
    by simp
  finally show ?case unfolding bytes by simp
qed

text \<open>The response to a read, header and payload.\<close>

definition read_response :: "modbus_env \<Rightarrow> modbus_config \<Rightarrow> (nat \<Rightarrow> u8) \<Rightarrow> u8 list" where
  "read_response env cfg data =
     (let q = unat (be16 (data 10) (data 11))
      in map data [0..<4] @ [0, of_nat (3 + 2 * q), data 6, FC_READ_HOLDING_REGS, of_nat (2 * q)] @
         reg_bytes env cfg (be16 (data 8) (data 9)) [0..<q])"

lemma small_length:
  assumes "q \<le> (20 :: u16)"
  shows "unat (ucast (q * 2) :: u8) = 2 * unat q"
    and "ucast (q * 2) = (of_nat (2 * unat q) :: u8)"
    and "hi8 (3 + ucast (ucast (q * 2) :: u8)) = 0"
    and "lo8 (3 + ucast (ucast (q * 2) :: u8)) = of_nat (3 + 2 * unat q)"
proof -
  have le: "unat q \<le> 20" using assms by (simp add: word_le_nat_alt)
  have "of_nat (unat q) = q" by simp
  moreover have "unat q \<in> set [0..<21]" using le by simp
  ultimately have q: "q \<in> set (map of_nat [0..<21 :: nat])" by (metis image_eqI set_map)
  have "list_all (\<lambda>q :: u16. unat (ucast (q * 2) :: u8) = 2 * unat q \<and>
      ucast (q * 2) = (of_nat (2 * unat q) :: u8) \<and>
      hi8 (3 + ucast (ucast (q * 2) :: u8)) = 0 \<and>
      lo8 (3 + ucast (ucast (q * 2) :: u8)) = of_nat (3 + 2 * unat q)) (map of_nat [0..<21 :: nat])"
    by code_simp
  then show "unat (ucast (q * 2) :: u8) = 2 * unat q"
    "ucast (q * 2) = (of_nat (2 * unat q) :: u8)"
    "hi8 (3 + ucast (ucast (q * 2) :: u8)) = 0"
    "lo8 (3 + ucast (ucast (q * 2) :: u8)) = of_nat (3 + 2 * unat q)"
    using q unfolding list_all_iff by blast+
qed

lemma read_holding_regs_eq:
  assumes cfg: "scaled_ok cfg" and g: "length garbage = 64"
    and q: "0 < be16 (data 10) (data 11)" "be16 (data 10) (data 11) \<le> 20"
  shows "read_holding_regs env garbage data cfg = Some [Tcp_write (read_response env cfg data)]"
proof -
  let ?q = "be16 (data 10) (data 11)" and ?start = "be16 (data 8) (data 9)"
  have le: "unat ?q \<le> 20" using q(2) by (simp add: word_le_nat_alt)
  note small = small_length [OF q(2)]
  define hd9 where "hd9 = map data [0..<4] @ [0, of_nat (3 + 2 * unat ?q), data 6,
      FC_READ_HOLDING_REGS, of_nat (2 * unat ?q)]"
  have l9: "length hd9 = 9" by (simp add: hd9_def)
  have mem: "map data [0..<6] @ drop 6 garbage =
      map data [0..<4] @ [data 4, data 5, garbage ! 6, garbage ! 7, garbage ! 8] @ drop 9 garbage"
    using g by (simp add: upt_conv_Cons Cons_nth_drop_Suc numeral_eq_Suc)
  have puts: "put 4 a (map data [0..<4] @ b # c # d # e # f # r) =
      Some (map data [0..<4] @ a # c # d # e # f # r)"
    "put 5 a (map data [0..<4] @ b # c # d # e # f # r) =
      Some (map data [0..<4] @ b # a # d # e # f # r)"
    "put 6 a (map data [0..<4] @ b # c # d # e # f # r) =
      Some (map data [0..<4] @ b # c # a # e # f # r)"
    "put 7 a (map data [0..<4] @ b # c # d # e # f # r) =
      Some (map data [0..<4] @ b # c # d # a # f # r)"
    "put 8 a (map data [0..<4] @ b # c # d # e # f # r) =
      Some (map data [0..<4] @ b # c # d # e # a # r)" for a b c d e f r
    by (simp_all add: put_def list_update_append)
  have "put_regs env cfg ?start [0..<unat ?q] (hd9 @ drop 9 garbage) =
      Some (hd9 @ reg_bytes env cfg ?start [0..<unat ?q] @ drop (9 + 2 * unat ?q) garbage)"
    using put_regs_eq [OF cfg, of 0 "unat ?q" "hd9 @ drop 9 garbage" env ?start] le g
    by (simp add: l9 add.commute)
  then have regs: "put_regs env cfg ?start [0..<unat ?q] (map data [0..<4] @
      0 # of_nat (3 + 2 * unat ?q) # data 6 # FC_READ_HOLDING_REGS # of_nat (2 * unat ?q) # drop 9 garbage) =
      Some (hd9 @ reg_bytes env cfg ?start [0..<unat ?q] @ drop (9 + 2 * unat ?q) garbage)"
    by (simp only: hd9_def append_assoc append_Cons append_Nil)
  have rr: "read_response env cfg data = hd9 @ reg_bytes env cfg ?start [0..<unat ?q]"
    by (simp only: read_response_def Let_def hd9_def append_assoc)
  have "take (9 + 2 * unat ?q) (hd9 @ reg_bytes env cfg ?start [0..<unat ?q] @
      drop (9 + 2 * unat ?q) garbage) = read_response env cfg data"
    using l9 unfolding rr by simp
  then show ?thesis
    unfolding read_holding_regs_def Let_def mem small(1,3,4) if_P [OF conjI [OF q]]
    unfolding small(2)
    by (simp only: append_assoc append_Cons append_Nil puts Option.bind.bind_lunit regs)
qed

lemma length_read_response:
  "length (read_response env cfg data) = 9 + 2 * unat (be16 (data 10) (data 11))"
  by (simp add: read_response_def Let_def)

section \<open>Properties\<close>

lemma scaled_ok_write: "scaled_ok cfg \<Longrightarrow> scaled_ok (write_register a v cfg)"
  using of_tenths_tenths [of v]
  by (simp add: write_register_def scaled_ok_def tenths_def)

lemma scaled_ok_ModbusCfg0: "scaled_ok ModbusCfg0"
  by code_simp

lemma modbus_recv_defined:
  assumes "scaled_ok cfg" "length garbage = 64"
  shows "\<exists>cfg' cs e. modbus_recv_cb env garbage pb err cfg = Some (cfg', cs, e) \<and> scaled_ok cfg'"
proof -
  have "\<exists>cs. read_holding_regs env garbage d cfg = Some cs" for d
  proof (cases "0 < be16 (d 10) (d 11) \<and> be16 (d 10) (d 11) \<le> 20")
    case True
    then show ?thesis using read_holding_regs_eq [OF assms] by blast
  next
    case False
    then show ?thesis by (auto simp: read_holding_regs_def Let_def)
  qed
  then obtain r where "read_holding_regs env garbage d cfg = Some (r d)" for d by metis
  then show ?thesis using assms scaled_ok_write
    by (auto simp: modbus_recv_cb_def Let_def split: option.split)
qed

text \<open>One event of the server: what surrounds it, the uninitialised bytes, the buffer, the status.\<close>

type_synonym modbus_event = "modbus_env \<times> u8 list \<times> pbuf option \<times> int"

definition modbus_step :: "modbus_event \<Rightarrow> modbus_config option \<Rightarrow> modbus_config option" where
  "modbus_step e c =
     (case e of (env, garbage, pb, err) \<Rightarrow>
        do { cfg \<leftarrow> c; (cfg, cs, r) \<leftarrow> modbus_recv_cb env garbage pb err cfg; Some cfg })"

interpretation modbus: invariant_machine modbus_step
  "\<lambda>(env, garbage, pb, err). length garbage = 64" "\<lambda>c. \<exists>cfg. c = Some cfg \<and> scaled_ok cfg"
proof
  fix c :: "modbus_config option" and e :: modbus_event
  assume c: "\<exists>cfg. c = Some cfg \<and> scaled_ok cfg"
    and e: "case e of (env, garbage, pb, err) \<Rightarrow> length garbage = 64"
  obtain env garbage pb err where x: "e = (env, garbage, pb, err)" by (cases e) auto
  obtain cfg where cfg: "c = Some cfg" "scaled_ok cfg" using c by blast
  have "length garbage = 64" using e x by simp
  from modbus_recv_defined [OF cfg(2) this, of env pb err]
  show "\<exists>cfg. modbus_step e c = Some cfg \<and> scaled_ok cfg"
    by (auto simp: modbus_step_def x cfg(1))
qed

text \<open>
  C4: the receive callback cannot go wrong. From a record whose speed and ramp time fit their
  registers, any sequence of buffers and statuses whatever, with any bytes in them, is handled
  without a store outside the 64-byte response buffer and without an undefined conversion, and the
  record still has that property afterwards.
\<close>

theorem server_never_fails:
  assumes "scaled_ok cfg" "list_all (\<lambda>(env, garbage, pb, err). length garbage = 64) es"
  shows "\<exists>cfg'. fold modbus_step es (Some cfg) = Some cfg' \<and> scaled_ok cfg'"
  using modbus.run_inv [of "Some cfg" es] assms by blast

definition probe_env :: modbus_env where
  "probe_env = \<lparr>me_cnt = 7200, me_encoder = encoder0, me_motor = motor0, me_settings = defaultSettings\<rparr>"

text \<open>A request to write 155 to the speed register, and one to read it back.\<close>

definition wire :: "u8 list \<Rightarrow> pbuf" where
  "wire bs = \<lparr>payload = (\<lambda>i. if i < length bs then bs ! i else 0), pb_len = of_nat (length bs),
     tot_len = of_nat (length bs)\<rparr>"

definition write_rpm_request :: pbuf where
  "write_rpm_request = wire [0, 1, 0, 0, 0, 6, 1, 6, 0, 202, 0, 155]"

definition read_rpm_request :: pbuf where
  "read_rpm_request = wire [0, 2, 0, 0, 0, 6, 1, 3, 0, 202, 0, 1]"

theorem server_never_fails_witness:
  "\<exists>cfg'. fold modbus_step [(probe_env, replicate 64 0, Some write_rpm_request, 0),
      (probe_env, replicate 64 0xAA, Some read_rpm_request, 0), (probe_env, replicate 64 1, None, 0)]
      (Some ModbusCfg0) = Some cfg' \<and> scaled_ok cfg'"
  by (rule server_never_fails [OF scaled_ok_ModbusCfg0]) simp

text \<open>
  C36: reading registers. A request for one to twenty registers is acknowledged, answered with one
  frame and released: the frame repeats the transaction and protocol identifiers and the unit,
  gives the right lengths, and carries the value of each register of the range in order, high byte
  first, addresses wrapping at 16 bits; nothing of the buffer's former contents leaks, the frame has at
  most 49 bytes, and no parameter changes.
\<close>

theorem read_request_answered:
  assumes "scaled_ok cfg" "length garbage = 64" "7 \<le> pb_len p" "payload p 7 = 3"
    and "0 < be16 (payload p 10) (payload p 11)" "be16 (payload p 10) (payload p 11) \<le> 20"
  shows "modbus_recv_cb env garbage (Some p) 0 cfg =
      Some (cfg, [Tcp_recved (tot_len p),
        Tcp_write (map (payload p) [0..<4] @
          [0, of_nat (3 + 2 * unat (be16 (payload p 10) (payload p 11))), payload p 6, 3,
           of_nat (2 * unat (be16 (payload p 10) (payload p 11)))] @
          concat (map (\<lambda>i. case read_register env cfg (be16 (payload p 8) (payload p 9) + of_nat i)
              of Some v \<Rightarrow> [hi8 v, lo8 v])
            [0..<unat (be16 (payload p 10) (payload p 11))])),
        Tcp_output, Pbuf_free], 0)
    \<and> 9 + 2 * unat (be16 (payload p 10) (payload p 11)) \<le> 49"
proof -
  have b: "reg_bytes env cfg s is = concat (map (\<lambda>i. case read_register env cfg (s + of_nat i)
      of Some v \<Rightarrow> [hi8 v, lo8 v]) is)" for s "is"
    by (simp add: reg_bytes_def read_register_defined [OF assms(1)])
  have le: "unat (be16 (payload p 10) (payload p 11)) \<le> 20" using assms(6) by (simp add: word_le_nat_alt)
  show ?thesis
    using assms(3,4) le read_holding_regs_eq [OF assms(1,2,5,6), of env]
    by (simp add: modbus_recv_cb_def Let_def read_response_def b)
qed

theorem read_request_answered_witness:
  "\<exists>cfg cs. modbus_recv_cb probe_env (replicate 64 0xAA) (Some read_rpm_request) 0 ModbusCfg0 =
     Some (cfg, cs, 0)"
proof -
  have "7 \<le> pb_len read_rpm_request" "payload read_rpm_request 7 = 3"
    "0 < be16 (payload read_rpm_request 10) (payload read_rpm_request 11)"
    "be16 (payload read_rpm_request 10) (payload read_rpm_request 11) \<le> 20"
    by code_simp+
  from read_request_answered [OF scaled_ok_ModbusCfg0 _ this, of "replicate 64 0xAA" probe_env]
  show ?thesis by auto
qed

lemma write_fields:
  "mb_targetRPM (write_register a v cfg) =
     (if a = REG_MOTOR_RPM then tenths v else mb_targetRPM cfg)"
  "mb_accelTimeSec (write_register a v cfg) =
     (if a = REG_MOTOR_ACCEL then tenths v else mb_accelTimeSec cfg)"
  "mb_microsteps (write_register a v cfg) =
     (if a = REG_MOTOR_MICROSTEPS then v else mb_microsteps cfg)"
  "mb_motorDirection (write_register a v cfg) =
     (if a = REG_MOTOR_DIR then of_bool (v \<noteq> 0) else mb_motorDirection cfg)"
  "streamActive (write_register a v cfg) = streamActive cfg"
  "mb_encoderReversed (write_register a v cfg) =
     (if a = REG_ENCODER_DIR then v \<noteq> 0 else mb_encoderReversed cfg)"
  "mb_uartBaudRate (write_register a v cfg) =
     (if a = REG_UART_BAUD then ucast v * 100 else mb_uartBaudRate cfg)"
  "mb_autoStartStream (write_register a v cfg) =
     (if a = REG_AUTO_STREAM then v \<noteq> 0 else mb_autoStartStream cfg)"
  by (simp_all add: write_register_def tenths_def word_gt_0)

lemma read_depends:
  assumes "b = REG_MOTOR_RPM \<Longrightarrow> mb_targetRPM c = mb_targetRPM c'"
    "b = REG_MOTOR_ACCEL \<Longrightarrow> mb_accelTimeSec c = mb_accelTimeSec c'"
    "b = REG_MOTOR_MICROSTEPS \<Longrightarrow> mb_microsteps c = mb_microsteps c'"
    "b = REG_MOTOR_DIR \<Longrightarrow> mb_motorDirection c = mb_motorDirection c'"
    "b = REG_STREAM_CTRL \<Longrightarrow> streamActive c = streamActive c'"
    "b = REG_ENCODER_DIR \<Longrightarrow> mb_encoderReversed c = mb_encoderReversed c'"
    "b = REG_UART_BAUD \<Longrightarrow> mb_uartBaudRate c = mb_uartBaudRate c'"
    "b = REG_AUTO_STREAM \<Longrightarrow> mb_autoStartStream c = mb_autoStartStream c'"
  shows "read_register env c b = read_register env c' b"
  unfolding read_register_def by (intro if_cong refl) (simp_all add: assms)

lemma write_elsewhere:
  "a \<noteq> b \<Longrightarrow> read_register env (write_register a v cfg) b = read_register env cfg b"
  by (rule read_depends) (simp_all add: write_fields)

text \<open>
  Parameters written over the network read back. Speed and ramp time survive the division by
  ten and the multiplication back exactly, for every one of the 65536 codes, as does the baud rate
  its factor of a hundred; switches read back as 0 or 1; and the four encodings sit side by side:
  a write never disturbs what any other register reads.
\<close>

theorem write_read_roundtrip:
  "read_register env (write_register REG_MOTOR_RPM v cfg) REG_MOTOR_RPM = Some v
   \<and> read_register env (write_register REG_MOTOR_ACCEL v cfg) REG_MOTOR_ACCEL = Some v
   \<and> read_register env (write_register REG_MOTOR_MICROSTEPS v cfg) REG_MOTOR_MICROSTEPS = Some v
   \<and> read_register env (write_register REG_UART_BAUD v cfg) REG_UART_BAUD = Some v
   \<and> read_register env (write_register REG_MOTOR_DIR v cfg) REG_MOTOR_DIR = Some (of_bool (v \<noteq> 0))
   \<and> read_register env (write_register REG_ENCODER_DIR v cfg) REG_ENCODER_DIR = Some (of_bool (v \<noteq> 0))
   \<and> read_register env (write_register REG_AUTO_STREAM v cfg) REG_AUTO_STREAM = Some (of_bool (v \<noteq> 0))
   \<and> (if a = b then True else read_register env (write_register a v cfg) b = read_register env cfg b)"
proof -
  have baud: "ucast ((ucast v * 100 :: u32) div 100) = v"
  proof -
    have "unat v < 65536" using unsigned_less [where w = v and 'a = nat] by simp
    then have "unat (ucast v * 100 :: u32) = unat v * 100"
      by (simp add: unat_word_ariths unsigned_ucast_eq take_bit_nat_eq_self)
    then have "unat ((ucast v * 100 :: u32) div 100) = unat v" by (simp add: unat_div)
    then have "unat (ucast ((ucast v * 100 :: u32) div 100) :: u16) = unat v"
      using \<open>unat v < 65536\<close> by (simp add: unsigned_ucast_eq take_bit_nat_eq_self)
    then show ?thesis by (simp add: word_unat_eq_iff)
  qed
  show ?thesis
    using of_tenths_tenths [of v] baud write_elsewhere [of a b env v cfg]
    by (simp add: read_register_def write_fields of_tenths_def)
qed

text \<open>
  Every event is handled to the end. When the callback returns: a closed connection is detached
  and closed and nothing is released; a received buffer is released exactly once, as the last
  action; a buffer that came with an error is neither acknowledged nor answered and changes no
  parameter; and at most one frame is sent, of at most 49 bytes.
\<close>

theorem buffer_discipline:
  assumes "length garbage = 64" "scaled_ok cfg"
    and "modbus_recv_cb env garbage pb err cfg = Some (cfg', cs, r)"
  shows "(if pb = None then cs = [Tcp_arg_null, Tcp_sent_null, Tcp_recv False, Tcp_close] \<and> cfg' = cfg
      else last cs = Pbuf_free \<and> count_list cs Pbuf_free = 1
        \<and> (if err \<noteq> 0 then cs = [Pbuf_free] \<and> cfg' = cfg \<and> r = err else r = 0))
    \<and> length (filter (\<lambda>c. case c of Tcp_write bs \<Rightarrow> True | _ \<Rightarrow> False) cs) \<le> 1
    \<and> list_all (\<lambda>c. case c of Tcp_write bs \<Rightarrow> length bs \<le> 49 | _ \<Rightarrow> True) cs"
proof -
  have rd: "ds = [] \<or> (\<exists>bs. ds = [Tcp_write bs] \<and> length bs \<le> 49)"
    if r: "read_holding_regs env garbage d cfg = Some ds" for d ds
  proof (cases "0 < be16 (d 10) (d 11) \<and> be16 (d 10) (d 11) \<le> 20")
    case True
    then have "ds = [Tcp_write (read_response env cfg d)]"
      using read_holding_regs_eq [OF assms(2,1)] r by auto
    moreover have "length (read_response env cfg d) \<le> 49"
      using True by (simp add: length_read_response word_le_nat_alt)
    ultimately show ?thesis by blast
  next
    case False
    then show ?thesis using r by (auto simp: read_holding_regs_def Let_def)
  qed
  show ?thesis
  proof (cases pb)
    case None
    then show ?thesis using assms(3) by (auto simp: modbus_recv_cb_def modbus_close_conn_def)
  next
    case (Some p)
    consider (error) "err \<noteq> 0" | (short) "err = 0" "pb_len p < 7"
      | (read) "err = 0" "7 \<le> pb_len p" "payload p 7 = 3"
      | (other) "err = 0" "7 \<le> pb_len p" "payload p 7 \<noteq> 3"
      by (metis linorder_not_less)
    then show ?thesis
    proof cases
      case read
      obtain ds where ds: "read_holding_regs env garbage (payload p) cfg = Some ds"
        and e: "cfg' = cfg" "cs = Tcp_recved (tot_len p) # ds @ [Tcp_output, Pbuf_free]" "r = 0"
        using assms(3) read by (auto simp: modbus_recv_cb_def Some Let_def bind_eq_Some_conv)
      show ?thesis using rd [OF ds] read by (auto simp: Some e)
    qed (use assms(3) in \<open>auto simp: modbus_recv_cb_def Some Let_def upt_rec not_le [symmetric]
        split: if_splits\<close>)
  qed
qed

theorem buffer_discipline_witness:
  "\<exists>cfg' cs r. modbus_recv_cb probe_env (replicate 64 0) (Some read_rpm_request) 0 ModbusCfg0
     = Some (cfg', cs, r) \<and> last cs = Pbuf_free"
proof -
  obtain cfg' cs r where m: "modbus_recv_cb probe_env (replicate 64 0) (Some read_rpm_request) 0
      ModbusCfg0 = Some (cfg', cs, r)"
    using modbus_recv_defined [OF scaled_ok_ModbusCfg0, of "replicate 64 0"] by fastforce
  have "length (replicate 64 (0 :: u8)) = 64" by simp
  from buffer_discipline [OF this scaled_ok_ModbusCfg0 m] m show ?thesis by auto
qed

text \<open>
  C37: the length check covers the header only. A frame of seven received bytes followed in memory
  by the function code 6 executes the write that the memory behind the frame happens to spell,
  and sends those five foreign bytes back.
\<close>

theorem short_frame_overread:
  "modbus_recv_cb env garbage (Some \<lparr>payload = mem(7 := 6), pb_len = 7, tot_len = 7\<rparr>) 0 cfg =
     Some (write_register (be16 (mem 8) (mem 9)) (be16 (mem 10) (mem 11)) cfg,
       [Tcp_recved 7,
        Tcp_write [mem 0, mem 1, mem 2, mem 3, mem 4, mem 5, mem 6, 6, mem 8, mem 9, mem 10, mem 11],
        Tcp_output, Pbuf_free], 0)"
  by (simp add: modbus_recv_cb_def Let_def upt_rec) (simp add: numeral_eq_Suc)

text \<open>
  The network registers. The two address registers set the address that a later save will
  store, byte for byte, while reading them keeps returning the settings in force; the registers of
  the mask and the gateway accept a write, which changes nothing.
\<close>

theorem network_registers:
  "mb_ipAddress (write_register REG_IP_LOW w (write_register REG_IP_HIGH v cfg)) =
     (hi8 v, lo8 v, hi8 w, lo8 w)
   \<and> read_register env (write_register REG_IP_HIGH v cfg) REG_IP_HIGH =
       Some (octets_high (ipAddress (me_settings env)))
   \<and> write_register REG_NETMASK_HIGH v cfg = cfg \<and> write_register REG_NETMASK_LOW v cfg = cfg
   \<and> write_register REG_GATEWAY_HIGH v cfg = cfg \<and> write_register REG_GATEWAY_LOW v cfg = cfg"
  by (cases "mb_ipAddress cfg") (simp add: write_register_def read_register_def)

end
