(* ===== verification/Ethernetif.thy ===== *)
theory Ethernetif
  imports Hal
begin

text \<open>
  \<open>ethernetif.c\<close>: the glue between the TCP/IP stack and the Ethernet driver. The driver, the PHY
  driver and the stack are a trace of calls with their results as arguments; the buffers the code
  chains and counts are modelled in a store.
\<close>

section \<open>Calls out\<close>

datatype eth_call =
    HAL_ETH_Init | HAL_ETH_Start | HAL_ETH_Stop | HAL_ETH_GetMACConfig
  | HAL_ETH_SetMACConfig bool bool
  | HAL_ETH_Transmit "(nat \<times> u16) list" u16
  | HAL_ETH_SetMDIOClockRange
  | LAN8742_RegisterBusIO | LAN8742_Init
  | Netif_set_up | Netif_set_down | Netif_set_link_up | Netif_set_link_down
  | Netif_input nat | Pbuf_free nat | Error_Handler
  | Eth_hw hal_call | Eth_clk_disable | HAL_GPIO_DeInit gpio_port u16

text \<open>\<open>HAL_ETH_SetMACConfig\<close> takes full duplex and 100 megabits as booleans.\<close>

section \<open>Link state\<close>

text \<open>
  The states the PHY driver reports are numbers of its own; the code compares them with five names.
\<close>

record phy_codes =
  LINK_DOWN :: int
  FULL_100 :: int
  HALF_100 :: int
  FULL_10 :: int
  HALF_10 :: int

definition phy_codes_ok :: "phy_codes \<Rightarrow> bool" where
  "phy_codes_ok c \<longleftrightarrow> distinct [FULL_100 c, HALF_100 c, FULL_10 c, HALF_10 c] \<and>
     list_all (\<lambda>x. LINK_DOWN c < x) [FULL_100 c, HALF_100 c, FULL_10 c, HALF_10 c]"

text \<open>The flags of the interface, and what was last set up in the controller.\<close>

record netif =
  netif_is_up :: bool
  netif_is_link_up :: bool
  name :: "string"
  hwaddr :: "u8 list"
  mtu :: nat

definition ethernet_link_check_state :: "phy_codes \<Rightarrow> int \<Rightarrow> netif \<Rightarrow> netif \<times> eth_call list" where
  "ethernet_link_check_state c PHYLinkState n =
     (if netif_is_link_up n \<and> PHYLinkState \<le> LINK_DOWN c
      then (n\<lparr>netif_is_up := False, netif_is_link_up := False\<rparr>,
            [HAL_ETH_Stop, Netif_set_down, Netif_set_link_down])
      else if \<not> netif_is_link_up n \<and> LINK_DOWN c < PHYLinkState
      then (let mode =
              (if PHYLinkState = FULL_100 c then Some (True, True)
               else if PHYLinkState = HALF_100 c then Some (False, True)
               else if PHYLinkState = FULL_10 c then Some (True, False)
               else if PHYLinkState = HALF_10 c then Some (False, False)
               else None)
            in case mode of
                 None \<Rightarrow> (n, [])
               | Some (duplex, speed) \<Rightarrow>
                   (n\<lparr>netif_is_up := True, netif_is_link_up := True\<rparr>,
                    [HAL_ETH_GetMACConfig, HAL_ETH_SetMACConfig duplex speed, HAL_ETH_Start,
                     Netif_set_up, Netif_set_link_up]))
      else (n, []))"

section \<open>Initialisation\<close>

definition MACAddr :: "u8 list" where "MACAddr = [0x00, 0x80, 0xE1, 0x00, 0x00, 0x00]"

text \<open>
  The status of the controller and of the PHY driver, and the first link state, are arguments.
\<close>

definition low_level_init ::
  "hal_status \<Rightarrow> bool \<Rightarrow> phy_codes \<Rightarrow> int \<Rightarrow> netif \<Rightarrow> netif \<times> eth_call list" where
  "low_level_init hal_eth_init_status phy_ok c phy n =
     (let n = n\<lparr>hwaddr := MACAddr, mtu := 1500\<rparr>;
          cs = [HAL_ETH_Init, LAN8742_RegisterBusIO, LAN8742_Init]
      in if \<not> phy_ok
         then (n\<lparr>netif_is_link_up := False, netif_is_up := False\<rparr>,
               cs @ [Netif_set_link_down, Netif_set_down])
         else if hal_eth_init_status = HAL_OK
         then (let (n, ds) = ethernet_link_check_state c phy n in (n, cs @ ds))
         else (n, cs @ [Error_Handler]))"

definition ethernetif_init ::
  "hal_status \<Rightarrow> bool \<Rightarrow> phy_codes \<Rightarrow> int \<Rightarrow> netif \<Rightarrow> netif \<times> eth_call list" where
  "ethernetif_init st phy_ok c phy n = low_level_init st phy_ok c phy (n\<lparr>name := ''st''\<rparr>)"

definition HAL_ETH_MspInit :: "bool \<Rightarrow> eth_call list" where
  "HAL_ETH_MspInit isETH =
     (if isETH
      then (let g = gpio_init0\<lparr>gi_Mode := MODE_AF_PP, gi_Pull := GPIO_NOPULL,
                 gi_Speed := SPEED_VERY_HIGH, gi_Alternate := 11\<rparr>
            in map Eth_hw
                [RCC_CLK_ENABLE CLK_ETH, RCC_CLK_ENABLE (CLK_GPIO GPIOC),
                 RCC_CLK_ENABLE (CLK_GPIO GPIOA), RCC_CLK_ENABLE (CLK_GPIO GPIOG),
                 HAL_GPIO_Init GPIOC (g\<lparr>gi_Pin := GPIO_PIN 1 OR GPIO_PIN 4 OR GPIO_PIN 5\<rparr>),
                 HAL_GPIO_Init GPIOA (g\<lparr>gi_Pin := GPIO_PIN 1 OR GPIO_PIN 2 OR GPIO_PIN 7\<rparr>),
                 HAL_GPIO_Init GPIOG (g\<lparr>gi_Pin := GPIO_PIN 11 OR GPIO_PIN 13 OR GPIO_PIN 14\<rparr>)])
      else [])"

definition HAL_ETH_MspDeInit :: "bool \<Rightarrow> eth_call list" where
  "HAL_ETH_MspDeInit isETH =
     (if isETH
      then [Eth_clk_disable,
            HAL_GPIO_DeInit GPIOC (GPIO_PIN 1 OR GPIO_PIN 4 OR GPIO_PIN 5),
            HAL_GPIO_DeInit GPIOA (GPIO_PIN 1 OR GPIO_PIN 2 OR GPIO_PIN 7),
            HAL_GPIO_DeInit GPIOG (GPIO_PIN 11 OR GPIO_PIN 13 OR GPIO_PIN 14)]
      else [])"

text \<open>The bus functions handed to the PHY driver.\<close>

definition ETH_PHY_IO_Init :: "eth_call list \<times> int" where
  "ETH_PHY_IO_Init = ([HAL_ETH_SetMDIOClockRange], 0)"

definition ETH_PHY_IO_DeInit :: "eth_call list \<times> int" where
  "ETH_PHY_IO_DeInit = ([], 0)"

text \<open>The driver's read yields a status and a value, which is stored either way.\<close>

definition ETH_PHY_IO_ReadReg :: "hal_status \<times> u32 \<Rightarrow> u32 \<times> int" where
  "ETH_PHY_IO_ReadReg r = (if fst r \<noteq> HAL_OK then (snd r, - 1) else (snd r, 0))"

definition ETH_PHY_IO_WriteReg :: "hal_status \<Rightarrow> int" where
  "ETH_PHY_IO_WriteReg st = (if st \<noteq> HAL_OK then - 1 else 0)"

definition ETH_PHY_IO_GetTick :: "u32 \<Rightarrow> 32 word" where
  "ETH_PHY_IO_GetTick tick = tick"

definition sys_now :: "u32 \<Rightarrow> u32" where
  "sys_now tick = tick"

section \<open>Transmission\<close>

text \<open>
  A packet is a chain of segments, each with the address of its data and its length. The
  descriptor table has \<open>ETH_TX_DESC_CNT\<close> entries, a number of the vendor library.
\<close>

record tx_buffer =
  tb_buffer :: nat
  tb_len :: u16
  tb_next :: "nat option"

definition tx_buffer0 :: tx_buffer where
  "tx_buffer0 = \<lparr>tb_buffer = 0, tb_len = 0, tb_next = None\<rparr>"

text \<open>The loop over the chain, from index \<open>i\<close>; \<open>None\<close> is the early return \<open>ERR_IF\<close>.\<close>

fun fill_tx :: "nat \<Rightarrow> nat \<Rightarrow> (nat \<times> u16) list \<Rightarrow> tx_buffer list \<Rightarrow> tx_buffer list option" where
  "fill_tx cnt i [] tb = Some tb"
| "fill_tx cnt i ((d, l) # qs) tb =
     (if cnt \<le> i then None
      else (let tb = tb[i := (tb ! i)\<lparr>tb_buffer := d, tb_len := l\<rparr>];
                tb = (if 0 < i then tb[i - 1 := (tb ! (i - 1))\<lparr>tb_next := Some i\<rparr>] else tb);
                tb = (if qs = [] then tb[i := (tb ! i)\<lparr>tb_next := None\<rparr>] else tb)
            in fill_tx cnt (Suc i) qs tb))"

text \<open>The segments the driver sees, following the links from entry 0.\<close>

fun tx_segments :: "nat \<Rightarrow> nat \<Rightarrow> tx_buffer list \<Rightarrow> (nat \<times> u16) list" where
  "tx_segments 0 i tb = []"
| "tx_segments (Suc fuel) i tb =
     (tb_buffer (tb ! i), tb_len (tb ! i)) #
     (case tb_next (tb ! i) of None \<Rightarrow> [] | Some j \<Rightarrow> tx_segments fuel j tb)"

datatype eth_err = ERR_OK | ERR_IF

definition low_level_output :: "nat \<Rightarrow> (nat \<times> u16) list \<Rightarrow> u16 \<Rightarrow> eth_err \<times> eth_call list" where
  "low_level_output cnt chain tot =
     (case fill_tx cnt 0 chain (replicate cnt tx_buffer0) of
        None \<Rightarrow> (ERR_IF, [])
      | Some tb \<Rightarrow> (ERR_OK, [HAL_ETH_Transmit (tx_segments cnt 0 tb) tot]))"

definition HAL_ETH_TxFreeCallback :: "nat \<Rightarrow> eth_call list" where
  "HAL_ETH_TxFreeCallback b = [Pbuf_free b]"

section \<open>Receive buffers\<close>

text \<open>
  The pool of receive buffers, by number: the free ones in the order the pool hands them out. The
  allocation status is \<open>True\<close> for \<open>RX_ALLOC_ERROR\<close>.
\<close>

definition ETH_RX_BUFFER_CNT :: nat where "ETH_RX_BUFFER_CNT = 12"

record rx_pool =
  rx_free :: "nat list"
  RxAllocStatus_error :: bool

definition rx_pool0 :: rx_pool where
  "rx_pool0 = \<lparr>rx_free = [0..<ETH_RX_BUFFER_CNT], RxAllocStatus_error = False\<rparr>"

text \<open>The buffer handed to the driver, \<open>None\<close> for \<open>NULL\<close>.\<close>

definition HAL_ETH_RxAllocateCallback :: "rx_pool \<Rightarrow> rx_pool \<times> nat option" where
  "HAL_ETH_RxAllocateCallback s =
     (case rx_free s of
        p # ps \<Rightarrow> (s\<lparr>rx_free := ps\<rparr>, Some p)
      | [] \<Rightarrow> (s\<lparr>RxAllocStatus_error := True\<rparr>, None))"

definition pbuf_free_custom :: "nat \<Rightarrow> rx_pool \<Rightarrow> rx_pool" where
  "pbuf_free_custom p s =
     (let s = s\<lparr>rx_free := p # rx_free s\<rparr>
      in if RxAllocStatus_error s then s\<lparr>RxAllocStatus_error := False\<rparr> else s)"

text \<open>
  Reading: the packet the driver would deliver is the argument; nothing is read while the pool is
  known to be exhausted.
\<close>

definition low_level_input :: "rx_pool \<Rightarrow> nat option \<Rightarrow> nat option" where
  "low_level_input s ready = (if \<not> RxAllocStatus_error s then ready else None)"

text \<open>
  The receive loop, as a run over what the driver delivers in turn: for each packet its number,
  the verdict of the stack (\<open>True\<close> for \<open>ERR_OK\<close>) and the state of the pool before the next read.
  The driver has nothing more when the list ends.
\<close>

fun ethernetif_input :: "rx_pool \<Rightarrow> (nat \<times> bool \<times> rx_pool) list \<Rightarrow> eth_call list" where
  "ethernetif_input s [] = []"
| "ethernetif_input s ((p, ok, s') # rest) =
     (case low_level_input s (Some p) of
        None \<Rightarrow> []
      | Some q \<Rightarrow> Netif_input q # (if \<not> ok then [Pbuf_free q] else []) @ ethernetif_input s' rest)"

section \<open>Chaining received buffers\<close>

text \<open>A store of packet buffers.\<close>

record rx_pbuf =
  rb_next :: "nat option"
  rb_len :: u16
  rb_tot :: u16

type_synonym rx_store = "nat \<Rightarrow> rx_pbuf"

text \<open>
  The walk that adds the length to every buffer of the chain. A chain that loops would never end;
  \<open>fuel\<close> bounds the walk and \<open>None\<close> is running out of it.
\<close>

fun add_length :: "nat \<Rightarrow> u16 \<Rightarrow> nat option \<Rightarrow> rx_store \<Rightarrow> rx_store option" where
  "add_length fuel l None m = Some m"
| "add_length 0 l (Some p) m = None"
| "add_length (Suc fuel) l (Some p) m =
     (let m = m(p := (m p)\<lparr>rb_tot := rb_tot (m p) + l\<rparr>) in add_length fuel l (rb_next (m p)) m)"

definition HAL_ETH_RxLinkCallback ::
  "nat \<Rightarrow> nat option \<times> nat option \<Rightarrow> nat \<Rightarrow> u16 \<Rightarrow> rx_store \<Rightarrow>
   ((nat option \<times> nat option) \<times> rx_store) option" where
  "HAL_ETH_RxLinkCallback fuel se p len m =
     (let (start, end') = se;
          m = m(p := (m p)\<lparr>rb_next := None, rb_tot := 0, rb_len := len\<rparr>);
          (start, m) =
            (case start of
               None \<Rightarrow> (Some p, m)
             | Some s \<Rightarrow> (start, m(the end' := (m (the end'))\<lparr>rb_next := Some p\<rparr>)));
          end' = Some p
      in do { m \<leftarrow> add_length fuel len start m; Some ((start, end'), m) })"

section \<open>Link state: properties\<close>

definition phy_up :: "phy_codes \<Rightarrow> int \<Rightarrow> bool" where
  "phy_up c phy \<longleftrightarrow> phy \<in> {FULL_100 c, HALF_100 c, FULL_10 c, HALF_10 c}"

text \<open>
  The interface follows the cable. When the PHY reports no link or an error the link goes down;
  when it reports one of the four modes it comes up; other reports change nothing. The driver is
  called exactly when the link changes: it is stopped when the link is lost, and given the
  reported duplex and speed before it is started when the link returns. Asking again with the same
  report does nothing.
\<close>

theorem link_follows_phy:
  assumes "phy_codes_ok c"
  shows "netif_is_link_up (fst (ethernet_link_check_state c phy n)) =
      (if phy \<le> LINK_DOWN c then False else if phy_up c phy then True else netif_is_link_up n)
    \<and> snd (ethernet_link_check_state c phy n) =
      (if netif_is_link_up (fst (ethernet_link_check_state c phy n)) = netif_is_link_up n then []
       else if netif_is_link_up n then [HAL_ETH_Stop, Netif_set_down, Netif_set_link_down]
       else [HAL_ETH_GetMACConfig,
             HAL_ETH_SetMACConfig (phy \<in> {FULL_100 c, FULL_10 c}) (phy \<in> {FULL_100 c, HALF_100 c}),
             HAL_ETH_Start, Netif_set_up, Netif_set_link_up])
    \<and> ethernet_link_check_state c phy (fst (ethernet_link_check_state c phy n)) =
        (fst (ethernet_link_check_state c phy n), [])"
proof (cases "netif_is_link_up n")
  case True
  then show ?thesis using assms by (auto simp: ethernet_link_check_state_def phy_up_def)
next
  case False
  consider "phy \<le> LINK_DOWN c" | "phy = FULL_100 c" | "phy = HALF_100 c" | "phy = FULL_10 c"
    | "phy = HALF_10 c" | "LINK_DOWN c < phy" "\<not> phy_up c phy"
    by (cases "phy \<le> LINK_DOWN c") (auto simp: phy_up_def not_le)
  then show ?thesis using assms False
    by cases (auto simp: ethernet_link_check_state_def phy_codes_ok_def phy_up_def)
qed

text \<open>The codes of the vendor's PHY driver.\<close>

definition lan8742 :: phy_codes where
  "lan8742 = \<lparr>LINK_DOWN = 1, FULL_100 = 2, HALF_100 = 3, FULL_10 = 4, HALF_10 = 5\<rparr>"

definition netif0 :: netif where
  "netif0 = \<lparr>netif_is_up = True, netif_is_link_up = False, name = [], hwaddr = [], mtu = 0\<rparr>"

theorem link_follows_phy_witness:
  "snd (ethernet_link_check_state lan8742 3 netif0) =
     [HAL_ETH_GetMACConfig, HAL_ETH_SetMACConfig False True, HAL_ETH_Start, Netif_set_up,
      Netif_set_link_up]"
proof -
  have "phy_codes_ok lan8742" by (simp add: phy_codes_ok_def lan8742_def)
  from link_follows_phy [OF this, of 3 netif0] show ?thesis
    by (simp add: lan8742_def netif0_def phy_up_def)
qed

section \<open>Transmission: properties\<close>

text \<open>The table for a packet: one entry per segment, each linked to the next.\<close>

definition enc_tx :: "(nat \<times> u16) list \<Rightarrow> tx_buffer list" where
  "enc_tx xs = map (\<lambda>k. \<lparr>tb_buffer = fst (xs ! k), tb_len = snd (xs ! k),
     tb_next = (if Suc k < length xs then Some (Suc k) else None)\<rparr>) [0..<length xs]"

lemma length_enc_tx [simp]: "length (enc_tx xs) = length xs"
  by (simp add: enc_tx_def)

text \<open>All entries but the last, which are linked.\<close>

definition link_tx :: "(nat \<times> u16) list \<Rightarrow> tx_buffer list" where
  "link_tx xs = map (\<lambda>k. \<lparr>tb_buffer = fst (xs ! k), tb_len = snd (xs ! k),
     tb_next = Some (Suc k)\<rparr>) [0..<length xs]"

lemma length_link_tx [simp]: "length (link_tx xs) = length xs"
  by (simp add: link_tx_def)

lemma enc_tx_last:
  "enc_tx [] = []"
  "enc_tx (xs @ [x]) = link_tx xs @ [\<lparr>tb_buffer = fst x, tb_len = snd x, tb_next = None\<rparr>]"
  by (auto simp: enc_tx_def link_tx_def nth_append intro!: map_cong)

lemma link_tx_last:
  "link_tx (xs @ [x]) = link_tx xs @ [\<lparr>tb_buffer = fst x, tb_len = snd x, tb_next = Some (Suc (length xs))\<rparr>]"
  by (auto simp: link_tx_def nth_append intro!: map_cong)

lemma enc_tx_snoc:
  "(let tb = (enc_tx xs @ replicate (Suc r) tx_buffer0)
          [length xs := ((enc_tx xs @ replicate (Suc r) tx_buffer0) ! length xs)\<lparr>tb_buffer := d, tb_len := l\<rparr>];
        tb = (if 0 < length xs
              then tb[length xs - 1 := (tb ! (length xs - 1))\<lparr>tb_next := Some (length xs)\<rparr>] else tb);
        tb = (if qs = [] then tb[length xs := (tb ! length xs)\<lparr>tb_next := None\<rparr>] else tb)
    in tb) = enc_tx (xs @ [(d, l)]) @ replicate r tx_buffer0"
proof (cases xs rule: rev_cases)
  case Nil
  then show ?thesis using enc_tx_last(2) [of "[]" "(d, l)"]
    by (simp add: enc_tx_last(1) tx_buffer0_def link_tx_def Let_def)
next
  case (snoc ys y)
  have e: "enc_tx (ys @ [y, (d, l)]) = link_tx (ys @ [y]) @ [\<lparr>tb_buffer = d, tb_len = l, tb_next = None\<rparr>]"
    using enc_tx_last(2) [of "ys @ [y]" "(d, l)"] by simp
  show ?thesis
    by (simp add: snoc e enc_tx_last link_tx_last tx_buffer0_def Let_def nth_append list_update_append)
qed

lemma fill_tx_eq:
  "i = length xs \<Longrightarrow> i \<le> cnt \<Longrightarrow> fill_tx cnt i qs (enc_tx xs @ replicate (cnt - i) tx_buffer0) =
     (if i + length qs \<le> cnt
      then Some (enc_tx (xs @ qs) @ replicate (cnt - i - length qs) tx_buffer0) else None)"
proof (induction qs arbitrary: i xs)
  case Nil
  then show ?case by simp
next
  case (Cons q qs)
  obtain d l where q: "q = (d, l)" by (cases q)
  show ?case
  proof (cases "i < cnt")
    case True
    then have r: "cnt - i = Suc (cnt - Suc i)" by simp
    have F: "(cnt \<le> i) = False" using True by simp
    have "fill_tx cnt i (q # qs) (enc_tx xs @ replicate (cnt - i) tx_buffer0) =
        fill_tx cnt (Suc i) qs (enc_tx (xs @ [(d, l)]) @ replicate (cnt - Suc i) tx_buffer0)"
      unfolding q r fill_tx.simps F if_False
      unfolding Cons.prems(1) enc_tx_snoc [where xs = xs and r = "cnt - Suc (length xs)" and d = d and l = l and qs = qs, symmetric]
      by (simp only: Let_def)
    then show ?thesis using Cons.IH [of "Suc i" "xs @ [(d, l)]"] Cons.prems True by (simp add: q)
  next
    case False
    then show ?thesis by (simp add: q)
  qed
qed

lemma tx_segments_enc:
  "k < length xs \<Longrightarrow> length xs - k \<le> fuel \<Longrightarrow> tx_segments fuel k (enc_tx xs @ rest) = drop k xs"
proof (induction fuel arbitrary: k)
  case 0
  then show ?case by simp
next
  case (Suc fuel)
  have e: "(enc_tx xs @ rest) ! k = \<lparr>tb_buffer = fst (xs ! k), tb_len = snd (xs ! k),
      tb_next = (if Suc k < length xs then Some (Suc k) else None)\<rparr>"
    using Suc.prems(1) by (simp add: nth_append enc_tx_def)
  show ?case
  proof (cases "Suc k < length xs")
    case True
    then show ?thesis using Suc.IH [of "Suc k"] Suc.prems by (simp add: e Cons_nth_drop_Suc)
  next
    case False
    then have "drop k xs = [xs ! k]" using Suc.prems(1) by (simp add: Cons_nth_drop_Suc [symmetric])
    then show ?thesis using False by (simp add: e)
  qed
qed

text \<open>
  Transmission is all or nothing. A packet whose chain fits the descriptor table is handed to
  the driver once, the linked table spelling exactly its segments in order; a longer chain is
  refused with an error before the driver is called, and no store falls outside the table.
\<close>

theorem output_segments:
  assumes "chain \<noteq> []"
  shows "low_level_output cnt chain tot =
    (if length chain \<le> cnt then (ERR_OK, [HAL_ETH_Transmit chain tot]) else (ERR_IF, []))"
proof -
  have "fill_tx cnt 0 chain (replicate cnt tx_buffer0) =
      (if length chain \<le> cnt then Some (enc_tx chain @ replicate (cnt - length chain) tx_buffer0)
       else None)"
    using fill_tx_eq [of 0 "[]" cnt chain] by (simp add: enc_tx_def)
  then show ?thesis using tx_segments_enc [of 0 chain cnt] assms
    by (simp add: low_level_output_def)
qed

theorem output_segments_witness:
  "low_level_output 4 [(100, 14), (200, 40), (300, 512)] 566 =
     (ERR_OK, [HAL_ETH_Transmit [(100, 14), (200, 40), (300, 512)] 566])"
  using output_segments [of "[(100, 14), (200, 40), (300, 512)]" 4 566] by simp

section \<open>Receive pool: properties\<close>

text \<open>The pool together with the set of buffers that are in use outside it.\<close>

inductive rx_reach :: "rx_pool \<Rightarrow> nat set \<Rightarrow> bool" where
  start: "rx_reach rx_pool0 {}"
| alloc: "rx_reach s u \<Longrightarrow> HAL_ETH_RxAllocateCallback s = (s', Some p) \<Longrightarrow> rx_reach s' (insert p u)"
| exhausted: "rx_reach s u \<Longrightarrow> HAL_ETH_RxAllocateCallback s = (s', None) \<Longrightarrow> rx_reach s' u"
| release: "rx_reach s u \<Longrightarrow> p \<in> u \<Longrightarrow> rx_reach (pbuf_free_custom p s) (u - {p})"

lemma rx_reach_inv:
  "rx_reach s u \<Longrightarrow> distinct (rx_free s) \<and> set (rx_free s) \<inter> u = {} \<and>
     set (rx_free s) \<union> u = {..<12} \<and> (RxAllocStatus_error s \<longrightarrow> rx_free s = [])"
proof (induction rule: rx_reach.induct)
  case start
  then show ?case by (simp add: rx_pool0_def ETH_RX_BUFFER_CNT_def lessThan_atLeast0)
next
  case (alloc s u s' p)
  from alloc.hyps(2) obtain ps where ps: "rx_free s = p # ps" and s': "s' = s\<lparr>rx_free := ps\<rparr>"
    by (cases "rx_free s") (simp_all add: HAL_ETH_RxAllocateCallback_def)
  then show ?case using alloc.IH by simp
next
  case (exhausted s u s')
  from exhausted.hyps(2) have e: "rx_free s = []" and s': "s' = s\<lparr>RxAllocStatus_error := True\<rparr>"
    by (cases "rx_free s"; simp add: HAL_ETH_RxAllocateCallback_def)+
  then show ?case using exhausted.IH by simp
next
  case (release s u p)
  have "p \<notin> set (rx_free s)" using release by blast
  moreover have "set (rx_free s) \<union> u = insert p (set (rx_free s) \<union> (u - {p}))"
    using release.hyps(2) by blast
  moreover have "set (rx_free s) \<inter> (u - {p}) = {}" using release.IH by blast
  ultimately show ?case using release.IH by (simp add: pbuf_free_custom_def Let_def)
qed

text \<open>
  C20: receive buffers are neither lost nor shared. However allocations and releases interleave, the
  free buffers and those in use partition the twelve of the pool, so an allocation hands out a
  buffer nobody uses; reading is only suspended when all twelve are in use, and the next release
  resumes it.
\<close>

theorem rx_pool_safe:
  assumes "rx_reach s u"
  shows "distinct (rx_free s) \<and> set (rx_free s) \<inter> u = {} \<and> set (rx_free s) \<union> u = {..<12}
    \<and> (case HAL_ETH_RxAllocateCallback s of
         (s', Some p) \<Rightarrow> p < 12 \<and> p \<notin> u \<and> \<not> RxAllocStatus_error s'
       | (s', None) \<Rightarrow> u = {..<12})
    \<and> (if RxAllocStatus_error s then u = {..<12} else True)
    \<and> low_level_input (pbuf_free_custom q s) ready = ready"
proof -
  have r: "low_level_input (pbuf_free_custom q s) ready = ready"
    by (simp add: low_level_input_def pbuf_free_custom_def Let_def)
  note i = rx_reach_inv [OF assms]
  show ?thesis
  proof (cases "rx_free s")
    case Nil
    then show ?thesis using i r by (simp add: HAL_ETH_RxAllocateCallback_def)
  next
    case (Cons p ps)
    then have "p \<in> {..<12}" "p \<notin> u" "\<not> RxAllocStatus_error s" using i by auto
    then show ?thesis using i r Cons by (simp add: HAL_ETH_RxAllocateCallback_def)
  qed
qed

theorem rx_pool_safe_witness:
  "fst (HAL_ETH_RxAllocateCallback (rx_pool0\<lparr>rx_free := [1..<12]\<rparr>)) = rx_pool0\<lparr>rx_free := [2..<12]\<rparr>
   \<and> set (rx_free (rx_pool0\<lparr>rx_free := [1..<12]\<rparr>)) \<inter> {0} = {}"
proof -
  have "HAL_ETH_RxAllocateCallback rx_pool0 = (rx_pool0\<lparr>rx_free := [1..<12]\<rparr>, Some 0)"
    by (simp add: HAL_ETH_RxAllocateCallback_def rx_pool0_def ETH_RX_BUFFER_CNT_def upt_conv_Cons)
  from rx_reach.alloc [OF rx_reach.start this]
  have r: "rx_reach (rx_pool0\<lparr>rx_free := [1..<12]\<rparr>) {0}" .
  have "HAL_ETH_RxAllocateCallback (rx_pool0\<lparr>rx_free := [1..<12]\<rparr>) =
      (rx_pool0\<lparr>rx_free := [2..<12]\<rparr>, Some 1)"
    by (simp add: HAL_ETH_RxAllocateCallback_def upt_conv_Cons)
  then show ?thesis using conjunct1 [OF conjunct2 [OF rx_pool_safe [OF r]]] by simp
qed

section \<open>Chaining: properties\<close>

text \<open>A chain in the store spells a list of buffers.\<close>

fun chain :: "rx_store \<Rightarrow> nat option \<Rightarrow> nat list \<Rightarrow> bool" where
  "chain m None [] = True"
| "chain m (Some p) (q # qs) = (p = q \<and> chain m (rb_next (m p)) qs)"
| "chain m _ _ = False"

lemma chain_cong: "(\<And>p. p \<in> set ps \<Longrightarrow> rb_next (m p) = rb_next (m' p)) \<Longrightarrow> chain m s ps = chain m' s ps"
  by (induction m s ps rule: chain.induct) auto

lemma chain_snoc:
  "chain m s ps \<Longrightarrow> ps \<noteq> [] \<Longrightarrow> distinct (ps @ [p]) \<Longrightarrow> rb_next (m p) = None \<Longrightarrow>
   chain (m(last ps := (m (last ps))\<lparr>rb_next := Some p\<rparr>)) s (ps @ [p])"
proof (induction m s ps rule: chain.induct)
  case (2 m q r qs)
  show ?case
  proof (cases "qs = []")
    case True
    then show ?thesis using 2 by auto
  next
    case False
    then have "last qs \<in> set qs" by simp
    then have ne: "q \<noteq> last qs" using 2(2,4) by auto
    have qr: "q = r" and c: "chain m (rb_next (m q)) qs" using 2(2) by auto
    have "chain (m(last qs := (m (last qs))\<lparr>rb_next := Some p\<rparr>)) (rb_next (m q)) (qs @ [p])"
      by (rule 2(1) [OF c False]) (use 2(4,5) in simp_all)
    then show ?thesis using ne False by (simp add: qr fun_upd_def)
  qed
qed simp_all

lemma add_length_chain:
  "chain m s ps \<Longrightarrow> distinct ps \<Longrightarrow> length ps \<le> fuel \<Longrightarrow>
   add_length fuel l s m =
     Some (\<lambda>p. if p \<in> set ps then (m p)\<lparr>rb_tot := rb_tot (m p) + l\<rparr> else m p)"
proof (induction ps arbitrary: fuel s m)
  case Nil
  then show ?case by (cases s) auto
next
  case (Cons q qs)
  then obtain f where f: "fuel = Suc f" by (cases fuel) auto
  have s: "s = Some q" and c: "chain m (rb_next (m q)) qs" using Cons.prems(1) by (cases s; simp)+
  let ?m = "m(q := (m q)\<lparr>rb_tot := rb_tot (m q) + l\<rparr>)"
  have "chain ?m (rb_next (m q)) qs"
    using c by (subst chain_cong [where m' = m]) auto
  from Cons.IH [OF this, of f] Cons.prems(2,3)
  have IH: "add_length f l (rb_next (m q)) ?m =
      Some (\<lambda>p. if p \<in> set qs then (?m p)\<lparr>rb_tot := rb_tot (?m p) + l\<rparr> else ?m p)"
    by (simp add: f del: fun_upd_apply)
  have "add_length fuel l s m = add_length f l (rb_next (m q)) ?m" by (simp add: s f Let_def)
  also note IH
  also have "(\<lambda>p. if p \<in> set qs then (?m p)\<lparr>rb_tot := rb_tot (?m p) + l\<rparr> else ?m p) =
      (\<lambda>p. if p \<in> set (q # qs) then (m p)\<lparr>rb_tot := rb_tot (m p) + l\<rparr> else m p)"
    using Cons.prems(2) by (auto simp: fun_eq_iff)
  finally show ?case .
qed

text \<open>The buffers of one packet, in order of arrival, each linked with its length.\<close>

fun link_all ::
  "nat \<Rightarrow> (nat \<times> u16) list \<Rightarrow> (nat option \<times> nat option) \<times> rx_store \<Rightarrow>
   ((nat option \<times> nat option) \<times> rx_store) option" where
  "link_all fuel [] st = Some st"
| "link_all fuel ((p, l) # bs) (se, m) =
     do { st \<leftarrow> HAL_ETH_RxLinkCallback fuel se p l m; link_all fuel bs st }"

text \<open>Each buffer's own length plus those of the buffers behind it.\<close>

fun suffix_sums :: "u16 list \<Rightarrow> u16 list" where
  "suffix_sums [] = []"
| "suffix_sums (l # ls) = (l + sum_list ls) # suffix_sums ls"

lemma suffix_sums_snoc: "suffix_sums (ls @ [l]) = map (\<lambda>t. t + l) (suffix_sums ls) @ [l]"
  by (induction ls) (simp_all add: algebra_simps)

definition packet :: "rx_store \<Rightarrow> nat option \<times> nat option \<Rightarrow> (nat \<times> u16) list \<Rightarrow> bool" where
  "packet m se bs \<longleftrightarrow> chain m (fst se) (map fst bs) \<and>
     snd se = (if bs = [] then None else Some (fst (last bs))) \<and>
     map (\<lambda>b. rb_len (m (fst b))) bs = map snd bs \<and>
     map (\<lambda>b. rb_tot (m (fst b))) bs = suffix_sums (map snd bs)"

lemma chain_Nil: "chain m s [] \<longleftrightarrow> s = None"
  by (cases s) simp_all

lemma RxLink_packet:
  assumes pk: "packet m se bs" and d: "distinct (map fst (bs @ [(p, l)]))" and f: "length bs < fuel"
  shows "\<exists>se' m'. HAL_ETH_RxLinkCallback fuel se p l m = Some (se', m') \<and> packet m' se' (bs @ [(p, l)])
    \<and> (\<forall>q. q \<notin> fst ` set (bs @ [(p, l)]) \<longrightarrow> m' q = m q)"
proof -
  let ?m1 = "m(p := (m p)\<lparr>rb_next := None, rb_tot := 0, rb_len := l\<rparr>)"
  let ?ps = "map fst bs @ [p]"
  have p: "p \<notin> set (map fst bs)" using d by simp
  have c1: "chain ?m1 (fst se) (map fst bs)"
    using pk p by (subst chain_cong [where m' = m]) (auto simp: packet_def)
  define m2 where "m2 = (if bs = [] then ?m1
      else ?m1(fst (last bs) := (?m1 (fst (last bs)))\<lparr>rb_next := Some p\<rparr>))"
  define s2 where "s2 = (if bs = [] then Some p else fst se)"
  have c2: "chain m2 s2 ?ps"
  proof (cases "bs = []")
    case True
    then show ?thesis by (simp add: m2_def s2_def)
  next
    case False
    have "chain (?m1(last (map fst bs) := (?m1 (last (map fst bs)))\<lparr>rb_next := Some p\<rparr>)) (fst se) ?ps"
      by (rule chain_snoc [OF c1]) (use False d in simp_all)
    then show ?thesis using False by (simp add: m2_def s2_def last_map)
  qed
  have dist: "distinct ?ps" using d by simp
  define m3 where "m3 = (\<lambda>q. if q \<in> set ?ps then (m2 q)\<lparr>rb_tot := rb_tot (m2 q) + l\<rparr> else m2 q)"
  have walk: "add_length fuel l s2 m2 = Some m3"
    unfolding m3_def by (rule add_length_chain [OF c2 dist]) (use f in simp)
  have same: "rb_len (m2 q) = rb_len (?m1 q)" "rb_tot (m2 q) = rb_tot (?m1 q)" for q
    by (simp_all add: m2_def)
  have run: "HAL_ETH_RxLinkCallback fuel se p l m = Some ((s2, Some p), m3)"
  proof (cases "bs = []")
    case True
    then have "fst se = None" using pk by (simp add: packet_def chain_Nil)
    then show ?thesis using walk True
      by (cases se) (simp add: HAL_ETH_RxLinkCallback_def Let_def m2_def s2_def)
  next
    case False
    then obtain a where a: "fst se = Some a" using pk by (cases "fst se"; cases bs) (auto simp: packet_def)
    have "snd se = Some (fst (last bs))" using pk False by (simp add: packet_def)
    moreover have "fst (last bs) \<noteq> p" using False p by (metis image_eqI last_in_set set_map)
    ultimately show ?thesis using walk a False
      by (cases se) (simp add: HAL_ETH_RxLinkCallback_def Let_def m2_def s2_def)
  qed
  have "chain m3 s2 ?ps"
    using c2 by (subst chain_cong [where m' = m2]) (auto simp: m3_def)
  moreover have "map (\<lambda>b. rb_len (m3 (fst b))) bs = map snd bs"
  proof -
    have "map (\<lambda>b. rb_len (m3 (fst b))) bs = map (\<lambda>b. rb_len (m (fst b))) bs"
      using p by (intro map_cong refl) (auto simp: m3_def same)
    then show ?thesis using pk by (simp add: packet_def)
  qed
  moreover have "map (\<lambda>b. rb_tot (m3 (fst b))) bs = map (\<lambda>t. t + l) (suffix_sums (map snd bs))"
  proof -
    have "map (\<lambda>b. rb_tot (m3 (fst b))) bs = map (\<lambda>b. rb_tot (m (fst b)) + l) bs"
      using p by (intro map_cong refl) (auto simp: m3_def same)
    also have "\<dots> = map (\<lambda>t. t + l) (map (\<lambda>b. rb_tot (m (fst b))) bs)" by simp
    also have "map (\<lambda>b. rb_tot (m (fst b))) bs = suffix_sums (map snd bs)"
      using pk by (simp only: packet_def)
    finally show ?thesis .
  qed
  moreover have "rb_len (m3 p) = l" "rb_tot (m3 p) = l" by (simp_all add: m3_def same)
  ultimately have "packet m3 (s2, Some p) (bs @ [(p, l)])"
    by (simp add: packet_def suffix_sums_snoc)
  moreover have "m3 q = m q" if "q \<notin> fst ` set (bs @ [(p, l)])" for q
  proof -
    have "q \<noteq> fst (last bs)" if "bs \<noteq> []" using that \<open>q \<notin> _\<close> by (auto simp: image_iff)
    then show ?thesis using that by (auto simp: m3_def m2_def)
  qed
  ultimately show ?thesis using run by blast
qed

lemma link_all_packet:
  "packet m se as \<Longrightarrow> distinct (map fst (as @ bs)) \<Longrightarrow> length (as @ bs) \<le> fuel \<Longrightarrow>
   \<exists>se' m'. link_all fuel bs (se, m) = Some (se', m') \<and> packet m' se' (as @ bs) \<and>
     (\<forall>q. q \<notin> fst ` set (as @ bs) \<longrightarrow> m' q = m q)"
proof (induction bs arbitrary: as m se)
  case Nil
  then show ?case by simp
next
  case (Cons b bs)
  obtain p l where b: "b = (p, l)" by (cases b)
  have "distinct (map fst (as @ [(p, l)]))" "length as < fuel" using Cons.prems(2,3) by (auto simp: b)
  from RxLink_packet [OF Cons.prems(1) this] obtain se1 m1
    where 1: "HAL_ETH_RxLinkCallback fuel se p l m = Some (se1, m1)" "packet m1 se1 (as @ [(p, l)])"
      and same: "\<forall>q. q \<notin> fst ` set (as @ [(p, l)]) \<longrightarrow> m1 q = m q"
    by blast
  have "distinct (map fst ((as @ [(p, l)]) @ bs))" "length ((as @ [(p, l)]) @ bs) \<le> fuel"
    using Cons.prems(2,3) by (auto simp: b)
  from Cons.IH [OF 1(2) this] obtain se' m' where "link_all fuel bs (se1, m1) = Some (se', m')"
    "packet m' se' ((as @ [(p, l)]) @ bs)" "\<forall>q. q \<notin> fst ` set ((as @ [(p, l)]) @ bs) \<longrightarrow> m' q = m1 q"
    by blast
  moreover from this(3) same have "\<forall>q. q \<notin> fst ` set (as @ (p, l) # bs) \<longrightarrow> m' q = m q" by auto
  ultimately show ?case using 1(1) by (intro exI [of _ se'] exI [of _ m']) (simp add: b)
qed

text \<open>
  A received packet is chained as the stack expects. Linking distinct buffers one after the
  other, starting from nothing, ends each time; the result starts at the first buffer and ends at
  the last, follows the order of arrival, gives every buffer its own length and as total the sum
  of its length and those behind it, and leaves every other buffer alone.
\<close>

theorem rx_link_packet:
  assumes "distinct (map fst bs)" "length bs \<le> fuel" "bs \<noteq> []"
  shows "\<exists>start end' m'. link_all fuel bs ((None, None), m) = Some ((start, end'), m')
    \<and> chain m' start (map fst bs) \<and> end' = Some (fst (last bs))
    \<and> map (\<lambda>b. rb_len (m' (fst b))) bs = map snd bs
    \<and> map (\<lambda>b. rb_tot (m' (fst b))) bs = suffix_sums (map snd bs)
    \<and> {q. m' q \<noteq> m q} \<subseteq> fst ` set bs"
proof -
  have "packet m (None, None) []" by (simp add: packet_def)
  from link_all_packet [OF this, of bs fuel] assms show ?thesis
    by (auto simp: packet_def) blast
qed

theorem rx_link_packet_witness:
  "\<exists>start end' m'. link_all 2 [(4, 1536), (7, 100)]
      ((None, None), (\<lambda>_. \<lparr>rb_next = None, rb_len = 0, rb_tot = 0\<rparr>)) = Some ((start, end'), m')
    \<and> end' = Some 7"
  using rx_link_packet [of "[(4, 1536), (7, 100)]" 2 "\<lambda>_. \<lparr>rb_next = None, rb_len = 0, rb_tot = 0\<rparr>"]
  by auto

end
