(* ===== verification/Netconf.thy ===== *)
theory Netconf
  imports Settings Ethernetif
begin

text \<open>
  \<open>lwip.c\<close>: the choice of the network addresses at start-up, the polling of the stack, and the
  periodic link check.
\<close>

section \<open>Addresses\<close>

record net_state =
  IP_ADDRESS :: octets4
  NETMASK_ADDRESS :: octets4
  GATEWAY_ADDRESS :: octets4
  EthernetLinkTimer :: u32
  gnetif :: netif

text \<open>
  \<open>IP4_ADDR\<close> builds the address in network byte order: on this machine the word whose bytes in
  memory are the four octets.
\<close>

definition IP4_ADDR :: "octets4 \<Rightarrow> u32" where
  "IP4_ADDR q = le32 q"

datatype lwip_call = Lwip_init | Netif_add u32 u32 u32 | Netif_set_default | Netif_up
  | Netif_set_link_callback | Sys_check_timeouts | Lwip_eth eth_call

text \<open>
  The status of the controller and the PHY and the first link report are arguments, as for the
  interface initialisation that adding the interface runs.
\<close>

definition MX_LWIP_Init ::
  "system_settings \<Rightarrow> hal_status \<Rightarrow> bool \<Rightarrow> phy_codes \<Rightarrow> int \<Rightarrow> net_state \<Rightarrow> net_state \<times> lwip_call list" where
  "MX_LWIP_Init sysCfg st phy_ok c phy s =
     (let s = s\<lparr>IP_ADDRESS := (192, 168, 1, 151), NETMASK_ADDRESS := (255, 255, 255, 0),
                GATEWAY_ADDRESS := (192, 168, 1, 1)\<rparr>;
          isNetworkValid = (if fst (ipAddress sysCfg) = 0 \<or> fst (ipAddress sysCfg) = 255
                            then False else True);
          s = (if isNetworkValid
               then s\<lparr>IP_ADDRESS := ipAddress sysCfg, NETMASK_ADDRESS := netmask sysCfg,
                      GATEWAY_ADDRESS := gateway sysCfg\<rparr>
               else s\<lparr>IP_ADDRESS := (192, 168, 1, 151), NETMASK_ADDRESS := (255, 255, 255, 0),
                      GATEWAY_ADDRESS := (192, 168, 1, 1)\<rparr>);
          (n, cs) = ethernetif_init st phy_ok c phy (gnetif s)
      in (s\<lparr>gnetif := n\<lparr>netif_is_up := True\<rparr>\<rparr>,
          [Lwip_init, Netif_add (IP4_ADDR (IP_ADDRESS s)) (IP4_ADDR (NETMASK_ADDRESS s))
             (IP4_ADDR (GATEWAY_ADDRESS s))] @ map Lwip_eth cs @
          [Netif_set_default, Netif_up, Netif_set_link_callback]))"

section \<open>Polling\<close>

text \<open>Both branches of the callback are empty.\<close>

definition ethernet_link_status_updated :: "netif \<Rightarrow> lwip_call list" where
  "ethernet_link_status_updated n = (if netif_is_up n then [] else [])"

text \<open>The two readings of the tick, the report of the PHY.\<close>

definition Ethernet_Link_Periodic_Handle ::
  "u32 \<Rightarrow> u32 \<Rightarrow> phy_codes \<Rightarrow> int \<Rightarrow> net_state \<Rightarrow> net_state \<times> lwip_call list" where
  "Ethernet_Link_Periodic_Handle tick1 tick2 c phy s =
     (if 100 \<le> tick1 - EthernetLinkTimer s
      then (let s = s\<lparr>EthernetLinkTimer := tick2\<rparr>;
                (n, cs) = ethernet_link_check_state c phy (gnetif s)
            in (s\<lparr>gnetif := n\<rparr>, map Lwip_eth cs))
      else (s, []))"

definition MX_LWIP_Process ::
  "rx_pool \<Rightarrow> (nat \<times> bool \<times> rx_pool) list \<Rightarrow> u32 \<Rightarrow> u32 \<Rightarrow> phy_codes \<Rightarrow> int \<Rightarrow> net_state \<Rightarrow>
   net_state \<times> lwip_call list" where
  "MX_LWIP_Process pool rx tick1 tick2 c phy s =
     (let cs = map Lwip_eth (ethernetif_input pool rx);
          (s, ds) = Ethernet_Link_Periodic_Handle tick1 tick2 c phy s
      in (s, cs @ [Sys_check_timeouts] @ ds))"

section \<open>Properties\<close>

text \<open>
  No lockout by a bad address. The interface is added with the three addresses of the settings,
  or, when the first octet of the host address is 0 or 255, with all three factory addresses; the
  two are never mixed, the host address in use never starts with 0 or 255, and each word given to
  the stack has the octets in network order.
\<close>

theorem network_fallback:
  "case MX_LWIP_Init sysCfg st phy_ok c phy s of (s', cs) \<Rightarrow>
     (IP_ADDRESS s', NETMASK_ADDRESS s', GATEWAY_ADDRESS s') =
       (if fst (ipAddress sysCfg) \<in> {0, 255}
        then ((192, 168, 1, 151), (255, 255, 255, 0), (192, 168, 1, 1))
        else (ipAddress sysCfg, netmask sysCfg, gateway sysCfg))
     \<and> fst (IP_ADDRESS s') \<notin> {0, 255}
     \<and> (case cs ! 1 of Netif_add a m g \<Rightarrow>
          (octets_of a, octets_of m, octets_of g) = (IP_ADDRESS s', NETMASK_ADDRESS s', GATEWAY_ADDRESS s')
        | _ \<Rightarrow> False)"
  by (cases "ethernetif_init st phy_ok c phy (gnetif s)")
    (simp add: MX_LWIP_Init_def Let_def IP4_ADDR_def)

text \<open>
  The link is checked once per 100 ms. Whatever the millisecond counter shows (it wraps), a
  poll at true time \<open>t\<close>, the last check having been made at \<open>t0\<close> less than \<open>2\<^sup>3\<^sup>2\<close> ms ago,
  checks the link exactly if 100 ms have passed, and then remembers \<open>t\<close>; else it does nothing.
\<close>

theorem link_check_period:
  assumes "t0 \<le> t" "t - t0 < 2 ^ 32" "EthernetLinkTimer s = of_nat t0"
  shows "Ethernet_Link_Periodic_Handle (of_nat t) (of_nat t) c phy s =
    (if t0 + 100 \<le> t
     then (s\<lparr>EthernetLinkTimer := of_nat t, gnetif := fst (ethernet_link_check_state c phy (gnetif s))\<rparr>,
       map Lwip_eth (snd (ethernet_link_check_state c phy (gnetif s))))
     else (s, []))"
proof -
  have "(of_nat t - of_nat t0 :: u32) = of_nat (t - t0)" using assms(1) by (simp add: of_nat_diff)
  then have "unat (of_nat t - of_nat t0 :: u32) = t - t0"
    using assms(2) by (simp add: unat_of_nat)
  then have "100 \<le> (of_nat t - of_nat t0 :: u32) \<longleftrightarrow> t0 + 100 \<le> t"
    using assms(1) by (simp add: word_le_nat_alt) linarith
  then show ?thesis using assms(3)
    by (simp add: Ethernet_Link_Periodic_Handle_def Let_def case_prod_beta)
qed

definition net0 :: net_state where
  "net0 = \<lparr>IP_ADDRESS = (0, 0, 0, 0), NETMASK_ADDRESS = (0, 0, 0, 0), GATEWAY_ADDRESS = (0, 0, 0, 0),
     EthernetLinkTimer = 0, gnetif = netif0\<rparr>"

theorem link_check_period_witness:
  "snd (Ethernet_Link_Periodic_Handle 50 50 lan8742 2 (net0\<lparr>EthernetLinkTimer := 4294967295\<rparr>)) = []
   \<and> EthernetLinkTimer (fst (Ethernet_Link_Periodic_Handle 99 99 lan8742 2
        (net0\<lparr>EthernetLinkTimer := 4294967295\<rparr>))) = 99"
proof -
  let ?s = "net0\<lparr>EthernetLinkTimer := 4294967295\<rparr>"
  have l: "EthernetLinkTimer ?s = of_nat 4294967295" by simp
  have w: "(of_nat 4294967346 :: u32) = 50" "(of_nat 4294967395 :: u32) = 99" by simp_all
  have "snd (Ethernet_Link_Periodic_Handle (of_nat 4294967346) (of_nat 4294967346) lan8742 2 ?s) = []"
    by (subst link_check_period [OF _ _ l]) simp_all
  moreover have "EthernetLinkTimer (fst (Ethernet_Link_Periodic_Handle (of_nat 4294967395)
      (of_nat 4294967395) lan8742 2 ?s)) = 99"
    by (subst link_check_period [OF _ _ l]) simp_all
  ultimately show ?thesis by (simp only: w)
qed

end
