(* ===== verification/Firmware.thy ===== *)
theory Firmware
  imports Switch Lamp Telemetry Modbus Netconf
begin

text \<open>
  \<open>main.c\<close> up to its endless loop: clocks, pins, the state of the whole firmware, its interrupt
  handlers, and the start-up sequence with the interrupts that are taken on the way.
\<close>

section \<open>Calls out\<close>

record osc_config =
  PLLM :: nat
  PLLN :: nat
  PLLP :: nat
  PLLQ :: nat

record clk_config =
  AHBCLKDivider :: nat
  APB1CLKDivider :: nat
  APB2CLKDivider :: nat
  FLASH_LATENCY :: nat

datatype sys_call =
    Hw hal_call | Net lwip_call | Tcp tcp_call
  | HAL_Init | RTT_Init | VoltageScaling1
  | RCC_OscConfig osc_config | RCC_ClockConfig clk_config
  | Error_Handler | HAL_IncTick | Eth_IRQ

section \<open>Clocks and pins\<close>

definition osc0 :: osc_config where
  "osc0 = \<lparr>PLLM = 12, PLLN = 336, PLLP = 2, PLLQ = 7\<rparr>"

definition clk0 :: clk_config where
  "clk0 = \<lparr>AHBCLKDivider = 1, APB1CLKDivider = 4, APB2CLKDivider = 2, FLASH_LATENCY = 5\<rparr>"

text \<open>
  The statuses of the two configuration calls are arguments. The error handler never returns:
  the boolean says whether the function does.
\<close>

definition SystemClock_Config :: "hal_status \<Rightarrow> hal_status \<Rightarrow> sys_call list \<times> bool" where
  "SystemClock_Config osc_st clk_st =
     (let cs = [Hw (RCC_CLK_ENABLE CLK_PWR), VoltageScaling1, RCC_OscConfig osc0]
      in if osc_st \<noteq> HAL_OK then (cs @ [Error_Handler], False)
         else if clk_st \<noteq> HAL_OK then (cs @ [RCC_ClockConfig clk0, Error_Handler], False)
         else (cs @ [RCC_ClockConfig clk0], True))"

definition ETH_RST_Pin :: u16 where "ETH_RST_Pin = GPIO_PIN 6"
definition STARTUP_DELAY_MS :: u32 where "STARTUP_DELAY_MS = 5000"

definition MX_GPIO_Init :: "hal_call list" where
  "MX_GPIO_Init =
     [RCC_CLK_ENABLE (CLK_GPIO GPIOH), RCC_CLK_ENABLE (CLK_GPIO GPIOC),
      RCC_CLK_ENABLE (CLK_GPIO GPIOA), RCC_CLK_ENABLE (CLK_GPIO GPIOG),
      HAL_GPIO_WritePin GPIOG ETH_RST_Pin False,
      HAL_GPIO_Init GPIOG (gpio_init0\<lparr>gi_Pin := ETH_RST_Pin, gi_Mode := MODE_OUTPUT_PP,
        gi_Pull := GPIO_NOPULL, gi_Speed := SPEED_LOW\<rparr>)]"

definition PHY_Hardware_Reset :: "hal_call list" where
  "PHY_Hardware_Reset =
     [HAL_GPIO_WritePin GPIOG (GPIO_PIN 6) False, HAL_Delay 25,
      HAL_GPIO_WritePin GPIOG (GPIO_PIN 6) True, HAL_Delay 50]"

definition App_NVIC_Reconfigure :: "hal_call list" where
  "App_NVIC_Reconfigure =
     [HAL_NVIC_SetPriority EXTI2_IRQn 0 0, HAL_NVIC_SetPriority EXTI9_5_IRQn 2 0,
      HAL_NVIC_SetPriority USART6_IRQn 5 0, HAL_NVIC_SetPriority ETH_IRQn 15 0,
      HAL_NVIC_SetPriority SysTick_IRQn 14 0]"

text \<open>\<open>stm32f4xx_hal_msp.c\<close>.\<close>

definition HAL_MspInit :: "hal_call list" where
  "HAL_MspInit = [RCC_CLK_ENABLE CLK_SYSCFG, RCC_CLK_ENABLE CLK_PWR]"

section \<open>State\<close>

text \<open>The components' states and the static variables of the main program.\<close>

record 'f firmware =
  settings :: "'f settings_state"
  fw_motor :: motor
  encoder_hal :: encoder_hal
  fw_encoder :: encoder
  fw_switch :: switch
  fw_lamps :: lamps
  fw_telemetry :: telemetry
  mb :: modbus_config
  net :: net_state
  lastSwitchState :: bool
  sysMotorRunRequest :: bool
  currentSwitchState :: bool
  bStreamingState :: bool
  motorState :: motor_state
  newCfg :: system_settings

text \<open>The parts of the platform the code is linked with: flash driver, checksum, baud divider, PHY codes.\<close>

record 'f platform =
  pf_flash :: "'f flash_driver"
  pf_crc :: "u32 list \<Rightarrow> u32"
  pf_brr :: "u32 \<Rightarrow> u32 \<Rightarrow> u32"
  pf_phy :: phy_codes

text \<open>What one pass through the loop reads from the hardware.\<close>

record hw_env =
  hw_imr :: u32
  hw_rtsr :: u32
  hw_ftsr :: u32
  hw_ccer :: u32
  hw_pclk2 :: u32
  hw_gReady :: bool
  hw_rxReady :: bool

section \<open>Interrupt handlers\<close>

definition SysTick_Handler :: "bool \<Rightarrow> 'f firmware \<Rightarrow> ('f firmware \<times> sys_call list) option" where
  "SysTick_Handler level w = do {
     (m, cs) \<leftarrow> App_Motor_KinematicTick_1ms (fw_motor w);
     let s = App_Switch_Tick_1ms level (fw_switch w);
     let (l, ds) = App_Lamp_Tick_1ms (fw_lamps w);
     Some (w\<lparr>fw_motor := m, fw_switch := s, fw_lamps := l\<rparr>, HAL_IncTick # map Hw (cs @ ds))
   }"

definition ETH_IRQHandler :: "sys_call list" where
  "ETH_IRQHandler = [Eth_IRQ]"

text \<open>The zero pulse and the step interrupt with the application callbacks they are bound to.\<close>

definition zero_pulse_irq :: "bool \<Rightarrow> u32 \<Rightarrow> u32 \<Rightarrow> 'f firmware \<Rightarrow> ('f firmware \<times> hal_call list) option" where
  "zero_pulse_irq pending tim5_cnt tick w =
     (let (cs, run) = EXTI2_IRQHandler pending (encoder_hal w)
      in if run
         then do {
           (s, ds) \<leftarrow> App_Encoder_OnZeroPulse tim5_cnt tick (fw_encoder w);
           Some (w\<lparr>fw_encoder := s\<rparr>, cs @ ds)
         }
         else Some (w, cs))"

definition step_irq :: "bool \<Rightarrow> u32 \<Rightarrow> bool \<Rightarrow> hal_status \<Rightarrow> 'f firmware \<Rightarrow> 'f firmware \<times> hal_call list" where
  "step_irq pending cnt gReady dma w =
     (let (h, cs, p) = EXTI9_5_IRQHandler pending cnt (encoder_hal w); w = w\<lparr>encoder_hal := h\<rparr>
      in case p of
           None \<Rightarrow> (w, cs)
         | Some pos \<Rightarrow>
             (let (t, ds) = App_Telemetry_OnEncoderStep gReady dma pos (fw_telemetry w)
              in (w\<lparr>fw_telemetry := t\<rparr>, cs @ ds)))"

definition uart_rx_irq :: "u8 \<Rightarrow> u32 \<Rightarrow> bool \<Rightarrow> hal_status \<Rightarrow> 'f firmware \<Rightarrow> 'f firmware \<times> hal_call list" where
  "uart_rx_irq b cnt gReady dma w =
     (let env = \<lparr>env_cnt = cnt, env_motor = fw_motor w, env_gReady = gReady, env_dma = dma\<rparr>;
          (t, cs) = HAL_UART_RxCpltCallback True (App_Telemetry_OnByteReceived env) b
            (active_rx_callback (port (fw_telemetry w))) (fw_telemetry w)
      in (w\<lparr>fw_telemetry := t\<rparr>, cs))"

text \<open>An interrupt, with what its handler finds in the hardware.\<close>

datatype interrupt =
    SysTick bool
  | ZeroPulse bool u32 u32
  | StepIrq bool u32 bool hal_status
  | UartRx u8 u32 bool hal_status
  | UartError
  | EthIrq

fun irq_step :: "interrupt \<Rightarrow> 'f firmware \<Rightarrow> ('f firmware \<times> sys_call list) option" where
  "irq_step (SysTick level) w = SysTick_Handler level w"
| "irq_step (ZeroPulse pending cnt tick) w =
     map_option (\<lambda>(w, cs). (w, map Hw cs)) (zero_pulse_irq pending cnt tick w)"
| "irq_step (StepIrq pending cnt gReady dma) w =
     (let (w, cs) = step_irq pending cnt gReady dma w in Some (w, map Hw cs))"
| "irq_step (UartRx b cnt gReady dma) w =
     (let (w, cs) = uart_rx_irq b cnt gReady dma w in Some (w, map Hw cs))"
| "irq_step UartError w = Some (w, map Hw (HAL_UART_ErrorCallback True))"
| "irq_step EthIrq w = Some (w, ETH_IRQHandler)"

fun irqs :: "interrupt list \<Rightarrow> 'f firmware \<Rightarrow> ('f firmware \<times> sys_call list) option" where
  "irqs [] w = Some (w, [])"
| "irqs (i # is) w = do { (w, cs) \<leftarrow> irq_step i w; (w, ds) \<leftarrow> irqs is w; Some (w, cs @ ds) }"

text \<open>The levels of the switch pin at the ticks among them.\<close>

fun levels :: "interrupt list \<Rightarrow> bool list" where
  "levels [] = []"
| "levels (SysTick level # is) = level # levels is"
| "levels (_ # is) = levels is"

section \<open>Start-up\<close>

text \<open>
  The boot-time inputs: statuses, levels and registers read on the way, and the interrupts taken
  before and after the switch is initialised, during the start-up delay, during the delays of the
  PHY reset and from there to the loop. The initialisers between two of these points act on
  disjoint parts of the state, so that only the order of interrupts and the switch, the lamps and
  the delays matters.
\<close>

record boot_env =
  be_osc :: hal_status
  be_clk :: hal_status
  be_crc :: hal_status
  be_exticr1 :: u32
  be_ccer :: u32
  be_switch :: bool
  be_eth :: hal_status
  be_phy_ok :: bool
  be_phy :: int
  be_pcb :: bool
  be_bind :: int
  be_sysclk :: u32
  be_early :: "interrupt list"
  be_mid :: "interrupt list"
  be_wait :: "interrupt list"
  be_reset :: "interrupt list"
  be_late :: "interrupt list"

definition firmware0 :: "'f \<Rightarrow> 'f firmware" where
  "firmware0 f =
     \<lparr>settings = \<lparr>flash = f, activeSettings = settings_of_words (replicate 12 0)\<rparr>, fw_motor = motor0,
      encoder_hal = encoder_hal0, fw_encoder = encoder0, fw_switch = switch0, fw_lamps = lamps0,
      fw_telemetry = telemetry0, mb = ModbusCfg0, net = net0, lastSwitchState = False,
      sysMotorRunRequest = False, currentSwitchState = False, bStreamingState = False,
      motorState = STATE_STOPPED, newCfg = settings_of_words (replicate 12 0)\<rparr>"

definition sync_modbus :: "system_settings \<Rightarrow> modbus_config \<Rightarrow> modbus_config" where
  "sync_modbus s m =
     (let m = m\<lparr>mb_targetRPM := targetRPM s, mb_accelTimeSec := accelTimeSec s,
                mb_motorDirection := ucast (motorDirection s),
                mb_encoderReversed := encoderReversed s \<noteq> 0, mb_uartBaudRate := uartBaudRate s\<rparr>;
          m = m\<lparr>mb_autoStartStream := 0 < autoStartStream s\<rparr>;
          m = m\<lparr>pendingStreamStart := mb_autoStartStream m\<rparr>
      in m\<lparr>mb_microsteps := ucast (microsteps s), mb_ipAddress := ipAddress s,
           mb_netmask := netmask s, mb_gateway := gateway s\<rparr>)"

text \<open>The screen is cleared and the clock in MHz, which the clock configuration stored, is printed.\<close>

definition boot_messages :: "u32 \<Rightarrow> hal_call list" where
  "boot_messages SystemCoreClock =
     [SEGGER_RTT (CHR 0x1B # ''[2J'' @ CHR 0x1B # ''[H'') [],
      SEGGER_RTT ''=== STM32F407 BARE METAL SYSTEM BOOT ==='' [],
      SEGGER_RTT ''System Clock: %u MHz'' [uint (SystemCoreClock div 1000000)]]"

text \<open>
  \<open>HAL_Delay\<close> counts the ticks and does not return before as many milliseconds have passed. A
  start-up that does not come to the loop is \<open>None\<close>; so is one in which the serial port is
  initialised with baud rate 0, by which its divider is computed.
\<close>

definition boot :: "'f platform \<Rightarrow> boot_env \<Rightarrow> 'f firmware \<Rightarrow> ('f firmware \<times> sys_call list) option" where
  "boot pf e w =
     (let (clk, ok) = SystemClock_Config (be_osc e) (be_clk e)
      in if \<not> ok then None
         else do {
           (w, d1) \<leftarrow> irqs (be_early e) w;
           let (st, c1) = App_Settings_Init (pf_flash pf) (pf_crc pf) (be_crc e) (settings w);
           let mySettings = App_Settings_Get st;
           let (eh, c2) = App_Encoder_Init (be_exticr1 e) (encoder_hal w);
           let c3 = App_Encoder_SetDirection (encoderReversed mySettings \<noteq> 0) (be_ccer e);
           let (sw, c4) = App_Switch_Init (be_switch e) (fw_switch w);
           (w, d2) \<leftarrow> irqs (be_mid e) (w\<lparr>settings := st, encoder_hal := eh, fw_switch := sw\<rparr>);
           if uartBaudRate mySettings = 0 then None
           else do {
             let (lm, c5) = App_Lamp_Init (fw_lamps w);
             let (te, eh, c6) = App_Telemetry_Init (uartBaudRate mySettings) (fw_telemetry w) (encoder_hal w);
             (w, d3) \<leftarrow> irqs (be_wait e) (w\<lparr>fw_lamps := lm, fw_telemetry := te, encoder_hal := eh\<rparr>);
             (w, d4) \<leftarrow> irqs (be_reset e) w;
             if length (levels (be_wait e)) < unat STARTUP_DELAY_MS \<or> length (levels (be_reset e)) < 25 + 50
             then None
             else do {
               let (ne, c7) = MX_LWIP_Init mySettings (be_eth e) (be_phy_ok e) (pf_phy pf) (be_phy e) (net w);
               let c8 = App_Modbus_Init (be_pcb e) (be_bind e);
               (w, d5) \<leftarrow> irqs (be_late e) (w\<lparr>net := ne, mb := sync_modbus mySettings (mb w)\<rparr>);
               Some (w, [HAL_Init] @ clk @ [RTT_Init] @ map Hw (boot_messages (be_sysclk e)) @ d1 @
                 map Hw (c1 @ App_Motor_Init @ c2 @ c3 @ c4) @ d2 @
                 map Hw (c5 @ c6 @ MX_GPIO_Init @ [HAL_Delay STARTUP_DELAY_MS]) @ d3 @
                 map Hw PHY_Hardware_Reset @ d4 @ map Net c7 @ map Tcp c8 @ map Hw App_NVIC_Reconfigure @ d5)
             }
           }
         })"

end
