(* ===== verification/Main_Loop.thy ===== *)
theory Main_Loop
  imports Firmware
begin

text \<open>
  The endless loop of \<open>main.c\<close> and what runs between its steps. The loop is
  cut into phases with a program counter; within a phase the code is sequential, interrupts and
  calls of the network stack are taken between phases. Undefined behaviour is \<open>None\<close>.
\<close>

section \<open>Peripheral registers seen by one pass\<close>

text \<open>The registers a call changes are those the next call of the same pass reads.\<close>

definition settle :: "hal_call list \<Rightarrow> hw_env \<Rightarrow> hw_env" where
  "settle cs e = e\<lparr>hw_imr := reg_after EXTI_IMR (hw_imr e) cs,
     hw_rtsr := reg_after EXTI_RTSR (hw_rtsr e) cs, hw_ftsr := reg_after EXTI_FTSR (hw_ftsr e) cs,
     hw_ccer := reg_after TIM4_CCER (hw_ccer e) cs\<rparr>"

type_synonym 'f action = "hw_env \<Rightarrow> 'f firmware \<Rightarrow> 'f firmware \<times> hal_call list"

definition and_then :: "'f action \<Rightarrow> 'f action \<Rightarrow> 'f action" where
  "and_then f g e w =
     (let (w, cs) = f e w; (w, ds) = g (settle cs e) w in (w, cs @ ds))"

section \<open>The phases of one pass\<close>

definition read_inputs :: "'f firmware \<Rightarrow> 'f firmware" where
  "read_inputs w =
     (let w = w\<lparr>currentSwitchState := App_Switch_GetState (fw_switch w)\<rparr>
      in w\<lparr>motorState := App_Motor_GetState (fw_motor w)\<rparr>)"

definition config_of :: "modbus_config \<Rightarrow> system_settings \<Rightarrow> system_settings" where
  "config_of m n = n\<lparr>magicWord := SETTINGS_MAGIC_WORD, targetRPM := mb_targetRPM m,
     accelTimeSec := mb_accelTimeSec m, motorDirection := ucast (mb_motorDirection m),
     encoderReversed := of_bool (mb_encoderReversed m), uartBaudRate := mb_uartBaudRate m,
     autoStartStream := (if mb_autoStartStream m then 1 else 0),
     microsteps := ucast (mb_microsteps m),
     ipAddress := mb_ipAddress m, netmask := mb_netmask m, gateway := mb_gateway m\<rparr>"

definition process_save :: "'f platform \<Rightarrow> 'f firmware \<Rightarrow> 'f firmware \<times> hal_call list" where
  "process_save pf w =
     (if pendingSaveCmd (mb w)
      then (let w = w\<lparr>mb := (mb w)\<lparr>pendingSaveCmd := False\<rparr>\<rparr>;
                w = w\<lparr>newCfg := config_of (mb w) (newCfg w)\<rparr>;
                (st, cs, ok) = App_Settings_Save (pf_flash pf) (pf_crc pf) (newCfg w) (settings w)
            in (w\<lparr>settings := st\<rparr>, cs))
      else (w, []))"

definition switch_edge :: "'f action" where
  "switch_edge e w =
     (if currentSwitchState w \<noteq> lastSwitchState w
      then (let w = w\<lparr>lastSwitchState := currentSwitchState w\<rparr>;
                w = w\<lparr>sysMotorRunRequest := currentSwitchState w\<rparr>
            in (w, [SEGGER_RTT (if sysMotorRunRequest w then ''Hardware Switch: Motor START Requested''
                                else ''Hardware Switch: Motor STOP Requested'') []]))
      else (w, []))"

definition motor_commands :: "'f action" where
  "motor_commands e w =
     (let (w, cs) = (if pendingMotorStart (mb w)
            then (w\<lparr>mb := (mb w)\<lparr>pendingMotorStart := False\<rparr>, sysMotorRunRequest := True\<rparr>,
                  [SEGGER_RTT ''Modbus: Motor START Requested'' []])
            else (w, []));
          (w, ds) = (if pendingMotorStop (mb w)
            then (w\<lparr>mb := (mb w)\<lparr>pendingMotorStop := False\<rparr>, sysMotorRunRequest := False\<rparr>,
                  [SEGGER_RTT ''Modbus: Motor STOP Requested'' []])
            else (w, []))
      in (w, cs @ ds))"

definition stream_start :: "'f action" where
  "stream_start e w =
     (if pendingStreamStart (mb w)
      then (let w = w\<lparr>mb := (mb w)\<lparr>pendingStreamStart := False\<rparr>\<rparr>
            in if \<not> streamActive (mb w)
               then (w\<lparr>mb := (mb w)\<lparr>streamActive := True\<rparr>\<rparr>,
                     App_Telemetry_StartStream (hw_imr e) (hw_rtsr e) (hw_ftsr e))
               else (w, []))
      else (w, []))"

definition stream_stop :: "'f action" where
  "stream_stop e w =
     (if pendingStreamStop (mb w)
      then (let w = w\<lparr>mb := (mb w)\<lparr>pendingStreamStop := False\<rparr>\<rparr>
            in if streamActive (mb w)
               then (w\<lparr>mb := (mb w)\<lparr>streamActive := False\<rparr>\<rparr>, App_Telemetry_StopStream (hw_imr e))
               else (w, []))
      else (w, []))"

definition baud_pause :: "'f action" where
  "baud_pause e w =
     (let w = w\<lparr>mb := (mb w)\<lparr>pendingBaudChange := False\<rparr>\<rparr>;
          w = w\<lparr>bStreamingState := streamActive (mb w)\<rparr>
      in (w, if bStreamingState w then App_Telemetry_StopStream (hw_imr e) else []))"

definition baud_set :: "'f platform \<Rightarrow> 'f action" where
  "baud_set pf e w =
     (let (t, cs) = App_Telemetry_SetBaudRate (pf_brr pf) (hw_pclk2 e) (hw_gReady e) (hw_rxReady e)
            (mb_uartBaudRate (mb w)) (fw_telemetry w)
      in (w\<lparr>fw_telemetry := t\<rparr>,
          cs @ [SEGGER_RTT ''[SYSTEM] Telemetry UART Baud Rate updated to: %u bps''
                  [uint (mb_uartBaudRate (mb w))]]))"

definition baud_resume :: "'f action" where
  "baud_resume e w =
     (w, if bStreamingState w then App_Telemetry_StartStream (hw_imr e) (hw_rtsr e) (hw_ftsr e) else [])"

definition baud_command :: "'f platform \<Rightarrow> 'f action" where
  "baud_command pf e w =
     (if pendingBaudChange (mb w)
      then and_then baud_pause (and_then (baud_set pf) baud_resume) e w
      else (w, []))"

definition encoder_command :: "'f action" where
  "encoder_command e w =
     (if pendingEncoderDir (mb w)
      then (let w = w\<lparr>mb := (mb w)\<lparr>pendingEncoderDir := False\<rparr>\<rparr>
            in (w, App_Encoder_SetDirection (mb_encoderReversed (mb w)) (hw_ccer e)))
      else (w, []))"

text \<open>The last component says that the processor has been reset: the code after it does not run.\<close>

definition reboot_command :: "'f firmware \<Rightarrow> 'f firmware \<times> hal_call list \<times> bool" where
  "reboot_command w =
     (if pendingRebootCmd (mb w)
      then (w\<lparr>mb := (mb w)\<lparr>pendingRebootCmd := False\<rparr>\<rparr>,
            [SEGGER_RTT ''[SYSTEM] Reboot command received!'' [],
             SEGGER_RTT ''[SYSTEM] Flushing network buffers and restarting in 500ms...'' [],
             HAL_Delay 1000, NVIC_SystemReset], True)
      else (w, [], False))"

definition arbitrate :: "'f platform \<Rightarrow> 'f action" where
  "arbitrate pf =
     and_then switch_edge (and_then motor_commands (and_then stream_start
       (and_then stream_stop (and_then (baud_command pf) encoder_command))))"

definition motor_machine :: "'f firmware \<Rightarrow> ('f firmware \<times> hal_call list) option" where
  "motor_machine w =
     (case motorState w of
        STATE_STOPPED \<Rightarrow>
          (let (l, cs) = App_Lamp_SetMode 0 LAMP_MODE_OFF (fw_lamps w); w = w\<lparr>fw_lamps := l\<rparr>
           in if sysMotorRunRequest w
              then (let m = App_Motor_CalculateProfile (mb_targetRPM (mb w)) (mb_accelTimeSec (mb w))
                              (mb_microsteps (mb w)) (fw_motor w)
                    in do {
                      (m, ds) \<leftarrow> App_Motor_Start (mb_motorDirection (mb w)) m;
                      Some (w\<lparr>fw_motor := m\<rparr>, cs @ ds)
                    })
              else Some (w, cs))
      | STATE_ACCELERATING \<Rightarrow>
          (let (l, cs) = App_Lamp_SetMode 0 LAMP_MODE_BLINK_FAST (fw_lamps w); w = w\<lparr>fw_lamps := l\<rparr>
           in Some (if \<not> sysMotorRunRequest w then w\<lparr>fw_motor := App_Motor_Stop (fw_motor w)\<rparr> else w, cs))
      | STATE_CRUISING \<Rightarrow>
          (let (l, cs) = App_Lamp_SetMode 0 LAMP_MODE_ON (fw_lamps w); w = w\<lparr>fw_lamps := l\<rparr>
           in Some (if \<not> sysMotorRunRequest w then w\<lparr>fw_motor := App_Motor_Stop (fw_motor w)\<rparr> else w, cs))
      | STATE_DECELERATING \<Rightarrow>
          (let (l, cs) = App_Lamp_SetMode 0 LAMP_MODE_BLINK_FAST (fw_lamps w)
           in Some (w\<lparr>fw_lamps := l\<rparr>, cs)))"

section \<open>The machine\<close>

datatype pc = NETWORK | SAVE | COMMANDS | MOTOR | RESET

text \<open>What the network driver shows to one poll.\<close>

record poll_in =
  pi_pool :: rx_pool
  pi_rx :: "(nat \<times> bool \<times> rx_pool) list"
  pi_tick1 :: u32
  pi_tick2 :: u32
  pi_phy :: int

text \<open>
  What happens next: the main program goes on to its next phase, the stack calls the server from
  within the poll, or an interrupt is taken.
\<close>

datatype event =
    Main hw_env poll_in
  | Server u32 "u8 list" nat "pbuf option" int
  | Irq interrupt

text \<open>
  The bytes of a received buffer that the server reads, whatever its length says, must be in the
  memory that the buffer lies in: \<open>room\<close> is what there is of it from the payload pointer on.
\<close>

definition server_call :: "u32 \<Rightarrow> u8 list \<Rightarrow> nat \<Rightarrow> pbuf option \<Rightarrow> int \<Rightarrow> 'f firmware \<Rightarrow>
    ('f firmware \<times> sys_call list) option" where
  "server_call cnt garbage room pb err w =
     (let env = \<lparr>me_cnt = cnt, me_encoder = fw_encoder w, me_motor = fw_motor w,
                 me_settings = App_Settings_Get (settings w)\<rparr>
      in if room < bytes_read pb err then None
         else do {
           (cfg, cs, r) \<leftarrow> modbus_recv_cb env garbage pb err (mb w);
           Some (w\<lparr>mb := cfg\<rparr>, map Tcp cs)
         })"

text \<open>The divider of a new baud rate is a quotient by it: with rate 0 the code divides by zero.\<close>

definition baud_zero :: "'f firmware \<Rightarrow> bool" where
  "baud_zero w \<longleftrightarrow> pendingBaudChange (mb w) \<and> mb_uartBaudRate (mb w) = 0"

text \<open>One phase of the loop. The pass ends with the motor state machine and starts again.\<close>

fun main_phase :: "'f platform \<Rightarrow> hw_env \<Rightarrow> poll_in \<Rightarrow> pc \<Rightarrow> 'f firmware \<Rightarrow>
    (pc \<times> 'f firmware \<times> sys_call list) option" where
  "main_phase pf e i NETWORK w =
     (let (n, cs) = MX_LWIP_Process (pi_pool i) (pi_rx i) (pi_tick1 i) (pi_tick2 i) (pf_phy pf) (pi_phy i) (net w)
      in Some (SAVE, read_inputs (w\<lparr>net := n\<rparr>), map Net cs))"
| "main_phase pf e i SAVE w =
     (let (w, cs) = process_save pf w in Some (COMMANDS, w, map Hw cs))"
| "main_phase pf e i COMMANDS w =
     (if baud_zero w then None
      else (let (w, cs) = arbitrate pf e w; (w, ds, reset) = reboot_command w
            in Some (if reset then RESET else MOTOR, w, map Hw (cs @ ds))))"
| "main_phase pf e i MOTOR w =
     do { (w, cs) \<leftarrow> motor_machine w; Some (NETWORK, w, map Hw cs) }"
| "main_phase pf e i RESET w = Some (RESET, w, [])"

text \<open>After a reset nothing of this run happens any more; the server runs only inside the poll.\<close>

fun fw_step :: "'f platform \<Rightarrow> event \<Rightarrow> pc \<times> 'f firmware \<Rightarrow> (pc \<times> 'f firmware \<times> sys_call list) option" where
  "fw_step pf _ (RESET, w) = Some (RESET, w, [])"
| "fw_step pf (Main e i) (c, w) = main_phase pf e i c w"
| "fw_step pf (Server cnt garbage room pb err) (c, w) =
     (if c = NETWORK then map_option (Pair c) (server_call cnt garbage room pb err w) else Some (c, w, []))"
| "fw_step pf (Irq i) (c, w) = map_option (Pair c) (irq_step i w)"

end
