(* ===== verification/Main_Invariant.thy ===== *)
theory Main_Invariant
  imports Main_Loop
begin

text \<open>
  The invariant of the whole firmware: which parameters the network may set, how far the motor
  state the loop remembers can lag behind the one the interrupt advances, and that every phase,
  every server call and every interrupt keeps it and is defined.
\<close>

section \<open>Parameters\<close>

definition params_ok :: "modbus_config \<Rightarrow> bool" where
  "params_ok m \<longleftrightarrow> scaled_ok m \<and> rpm_accepted (mb_targetRPM m) \<and>
     f32_finite (mb_accelTimeSec m) \<and> f32_val (mb_accelTimeSec m) \<le> 10 ^ 20"

text \<open>A speed below 200 RPM, in tenths, and a baud rate, in hundreds, that is not zero.\<close>

definition code_ok :: "u16 \<Rightarrow> u16 \<Rightarrow> bool" where
  "code_ok a v \<longleftrightarrow> (a = REG_MOTOR_RPM \<longrightarrow> v < 2000) \<and> (a = REG_UART_BAUD \<longrightarrow> v \<noteq> 0)"

lemma rat16_less: "v < 2000 \<Longrightarrow> rat16 v \<le> 1999"
proof -
  assume "v < 2000"
  then have "uint v < uint (2000 :: u16)" by (simp only: word_less_def)
  then have "uint v \<le> 1999" by simp
  then have "of_int (uint v) \<le> (of_int 1999 :: rat)" by (simp only: of_int_le_iff)
  then show ?thesis by (simp add: rat16_def)
qed

lemma tenths_accepted:
  assumes "v < 2000"
  shows "rpm_accepted (tenths v)"
proof -
  have "f32_val (tenths v) \<le> f32_val (tenths 1999)"
    unfolding tenths_val by (rule rnd_mono) (use rat16_less [OF assms] in \<open>simp_all add: rat16_def\<close>)
  also have "\<dots> < 200" by code_simp
  finally have lt: "f32_val (tenths v) < 200" .
  have lit: "f32_lt (f32_lit 0) (f32_add (f32_lit 2) (f32_lit (1 / 10)))"
    "f32_lt (f32_add (f32_lit 2) (f32_lit (1 / 10))) (f32_lit 200)" by code_simp+
  show ?thesis
    using lt lit by (auto simp: rpm_accepted_def eff_rpm_def tenths_val(2) f32_lt_val f32_le_val)
qed

lemma tenths_time: "f32_finite (tenths v)" "f32_val (tenths v) \<le> 10 ^ 20"
proof -
  have "f32_val (tenths v) \<le> f32_val (tenths 65535)"
    unfolding tenths_val by (rule rnd_mono) (use rat16_bounds(2) [of v] in \<open>simp_all add: rat16_def\<close>)
  also have "\<dots> \<le> 10 ^ 20" by code_simp
  finally show "f32_val (tenths v) \<le> 10 ^ 20" .
qed (rule tenths_val(2))

lemma params_ok_write:
  assumes "params_ok cfg" "code_ok a v"
  shows "params_ok (write_register a v cfg)"
  using assms scaled_ok_write [of cfg a v] tenths_accepted [of v] tenths_time [of v]
  by (auto simp: params_ok_def write_register_def code_ok_def tenths_def [symmetric])

text \<open>No division by zero waits for the command phase.\<close>

definition baud_ok :: "modbus_config \<Rightarrow> bool" where
  "baud_ok m \<longleftrightarrow> \<not> (pendingBaudChange m \<and> mb_uartBaudRate m = 0)"

lemma baud_zero_iff: "baud_zero w \<longleftrightarrow> \<not> baud_ok (mb w)"
  by (simp add: baud_zero_def baud_ok_def)

lemma baud_ok_write:
  assumes "baud_ok cfg" "code_ok a v"
  shows "baud_ok (write_register a v cfg)"
proof (cases "a = REG_UART_BAUD")
  case True
  then have "unat v \<noteq> 0" using assms(2) by (simp add: code_ok_def unat_eq_zero)
  moreover have "unat (ucast v * 100 :: u32) = unat v * 100"
    using unat_u16_less [of v] by (simp add: unat_word_ariths unsigned_ucast_eq take_bit_nat_eq_self)
  ultimately have "(ucast v * 100 :: u32) \<noteq> 0" by (metis mult_eq_0_iff unat_0 zero_neq_numeral)
  then show ?thesis using True by (simp add: baud_ok_def write_fields)
next
  case False
  then have "pendingBaudChange (write_register a v cfg) = pendingBaudChange cfg"
    by (simp add: write_register_def)
  then show ?thesis using False assms(1) by (simp add: baud_ok_def write_fields)
qed

lemma modbus_recv_cfg:
  assumes "modbus_recv_cb env garbage pb err cfg = Some (cfg', cs, r)"
  obtains "cfg' = cfg"
  | p where "pb = Some p" "payload p 7 = 6"
      "cfg' = write_register (be16 (payload p 8) (payload p 9)) (be16 (payload p 10) (payload p 11)) cfg"
  using assms
  by (auto simp: modbus_recv_cb_def Let_def split: option.splits if_splits bind_splits)

text \<open>
  What an admissible environment sends: speed requests below the limit, baud rates that are not
  zero, and each buffer in memory that has the twelve bytes of the longest request from its payload
  pointer on, as the receive buffers of the driver do.
\<close>

definition request_ok :: "pbuf option \<Rightarrow> bool" where
  "request_ok pb = (case pb of None \<Rightarrow> True
     | Some p \<Rightarrow> payload p 7 = 6 \<longrightarrow>
         code_ok (be16 (payload p 8) (payload p 9)) (be16 (payload p 10) (payload p 11)))"

fun admissible :: "event \<Rightarrow> bool" where
  "admissible (Server cnt garbage room pb err) \<longleftrightarrow> length garbage = 64 \<and> request_ok pb \<and> 12 \<le> room"
| "admissible _ \<longleftrightarrow> True"

lemma server_call_ok:
  assumes "params_ok (mb w)" "baud_ok (mb w)" "length garbage = 64" "request_ok pb" "12 \<le> room"
  shows "\<exists>cfg cs. server_call cnt garbage room pb err w = Some (w\<lparr>mb := cfg\<rparr>, map Tcp cs) \<and> params_ok cfg \<and> baud_ok cfg"
proof -
  let ?env = "\<lparr>me_cnt = cnt, me_encoder = fw_encoder w, me_motor = fw_motor w,
      me_settings = App_Settings_Get (settings w)\<rparr>"
  have "scaled_ok (mb w)" using assms(1) by (simp add: params_ok_def)
  from modbus_recv_defined [OF this assms(3), of ?env pb err]
  obtain cfg cs r where r: "modbus_recv_cb ?env garbage pb err (mb w) = Some (cfg, cs, r)" by blast
  have "params_ok cfg \<and> baud_ok cfg"
    using r
  proof (cases rule: modbus_recv_cfg)
    case 1
    then show ?thesis using assms(1,2) by simp
  next
    case (2 p)
    then show ?thesis using assms(1,2,4) by (simp add: request_ok_def params_ok_write baud_ok_write)
  qed
  moreover have "bytes_read pb err \<le> room" using assms(5) by (auto simp: bytes_read_def split: option.split)
  then have "server_call cnt garbage room pb err w = Some (w\<lparr>mb := cfg\<rparr>, map Tcp cs)"
    using r by (simp add: server_call_def Let_def)
  ultimately show ?thesis by blast
qed

section \<open>What the phases leave alone\<close>

text \<open>Calls that do not touch port A, where the direction pin of the motor driver is.\<close>

fun spares_A :: "hal_call \<Rightarrow> bool" where
  "spares_A (HAL_GPIO_WritePin p n l) = (p \<noteq> GPIOA)"
| "spares_A (HAL_GPIO_TogglePin p n) = (p \<noteq> GPIOA)"
| "spares_A _ = True"

definition quiet :: "hal_call list \<Rightarrow> bool" where
  "quiet cs = list_all spares_A cs"

lemma quiet_simps [simp]:
  "quiet []" "quiet (c # cs) \<longleftrightarrow> spares_A c \<and> quiet cs" "quiet (cs @ ds) \<longleftrightarrow> quiet cs \<and> quiet ds"
  by (simp_all add: quiet_def)

lemma quiet_pin: "quiet cs \<Longrightarrow> pin_after GPIOA pin l cs = l"
proof (induction cs arbitrary: l)
  case (Cons c cs)
  then have "drive_pin GPIOA pin c l = l" by (cases c) auto
  then show ?case using Cons by (simp add: hw_simps)
qed simp

lemma quiet_regs: "only_regs cs \<Longrightarrow> quiet cs"
  unfolding only_regs_def quiet_def by (induction cs) (auto elim!: is_reg_write.elims)

text \<open>
  An action that leaves the motor, the lamps, the remembered motor state and the drive parameters
  alone and does not touch port A.
\<close>

definition frame :: "'f action \<Rightarrow> bool" where
  "frame f \<longleftrightarrow> (\<forall>e w. fw_motor (fst (f e w)) = fw_motor w \<and> fw_lamps (fst (f e w)) = fw_lamps w \<and>
     motorState (fst (f e w)) = motorState w \<and>
     mb_targetRPM (mb (fst (f e w))) = mb_targetRPM (mb w) \<and>
     mb_accelTimeSec (mb (fst (f e w))) = mb_accelTimeSec (mb w) \<and> quiet (snd (f e w)))"

lemma frame_and_then [inv_intros]: "frame f \<Longrightarrow> frame g \<Longrightarrow> frame (and_then f g)"
  by (simp add: frame_def and_then_def case_prod_beta)

lemma frame_actions [inv_intros]:
  "frame switch_edge" "frame motor_commands" "frame stream_start" "frame stream_stop"
  "frame baud_pause" "frame baud_resume" "frame encoder_command"
  by (auto simp: frame_def switch_edge_def motor_commands_def stream_start_def stream_stop_def
      baud_pause_def baud_resume_def encoder_command_def App_Telemetry_StartStream_def
      App_Telemetry_StopStream_def HAL_Encoder_EnableInterrupts_def HAL_Encoder_DisableInterrupts_def
      App_Encoder_SetDirection_def HAL_Encoder_SetCountDirection_def Let_def)

lemma frame_baud_set [inv_intros]: "frame (baud_set pf)"
  by (auto simp: frame_def baud_set_def App_Telemetry_SetBaudRate_def HAL_Telemetry_SetBaudRate_def
      Let_def case_prod_beta)

lemma frame_baud [inv_intros]: "frame (baud_command pf)"
proof -
  have "frame (and_then baud_pause (and_then (baud_set pf) baud_resume))"
    by (intro inv_intros)
  then show ?thesis by (simp add: frame_def baud_command_def)
qed

lemma frame_arbitrate: "frame (arbitrate pf)"
  unfolding arbitrate_def by (intro inv_intros)

lemma params_ok_cong:
  "mb_targetRPM m = mb_targetRPM m' \<Longrightarrow> mb_accelTimeSec m = mb_accelTimeSec m' \<Longrightarrow>
   params_ok m = params_ok m'"
  by (simp add: params_ok_def scaled_ok_def)

section \<open>The motor state the loop remembers\<close>

text \<open>The states the tick interrupt can have reached since.\<close>

definition follows :: "motor_state \<Rightarrow> motor_state \<Rightarrow> bool" where
  "follows a b \<longleftrightarrow> b = a \<or> a = STATE_ACCELERATING \<and> b = STATE_CRUISING
     \<or> a = STATE_DECELERATING \<and> b = STATE_STOPPED"

lemma follows_refl [simp]: "follows a a"
  by (simp add: follows_def)

lemma follows_trans: "follows a b \<Longrightarrow> follows b c \<Longrightarrow> follows a c"
  by (auto simp: follows_def)

definition at_rest :: "motor \<Rightarrow> bool" where
  "at_rest m \<longleftrightarrow> motor.currentState m = STATE_STOPPED"

lemma tick_follows:
  assumes "App_Motor_KinematicTick_1ms m = Some (m', cs)"
  shows "follows (motor.currentState m) (motor.currentState m') \<and> shaft m' = shaft m \<and> quiet cs"
proof -
  have q: "quiet ds" if "HAL_Motor_SetFrequency f = Some ds" for f ds
    using SetFrequency_total [of f] that by (auto intro: quiet_regs)
  show ?thesis using assms
    by (auto simp: App_Motor_KinematicTick_1ms_def Let_def follows_def hal_motor_defs
        split: if_splits bind_splits intro: q)
qed

definition motor_ok :: "motor \<Rightarrow> bool" where
  "motor_ok m \<longleftrightarrow> profile_wf (shaft m) \<and> (at_rest m \<or> motor_inv m)"

lemma motor_ok_tick:
  assumes "motor_ok m"
  shows "\<exists>m' cs. App_Motor_KinematicTick_1ms m = Some (m', cs) \<and> motor_ok m'"
proof (cases "at_rest m")
  case True
  then show ?thesis using assms by (simp add: at_rest_def App_Motor_KinematicTick_1ms_def)
next
  case False
  then have "motor_inv m" using assms by (simp add: motor_ok_def)
  then obtain m' cs where "App_Motor_KinematicTick_1ms m = Some (m', cs)" "motor_inv m'"
      "shaft m' = shaft m" by (rule motor_inv_tick)
  then show ?thesis using assms by (auto simp: motor_ok_def)
qed

lemma motor_ok_stop: "motor_ok m \<Longrightarrow> motor_ok (App_Motor_Stop m)"
  using motor_inv_stop [of m] by (auto simp: motor_ok_def at_rest_def App_Motor_Stop_def)

lemma shaft_stop [simp]: "shaft (App_Motor_Stop m) = shaft m"
  by (simp add: App_Motor_Stop_def)

text \<open>A new profile and a start, from rest.\<close>

lemma motor_ok_launch:
  assumes "motor_ok m" "at_rest m" "rpm_accepted r" "f32_finite a" "f32_val a \<le> 10 ^ 20"
  shows "\<exists>m' cs. App_Motor_Start d (App_Motor_CalculateProfile r a ms m) = Some (m', cs) \<and> motor_ok m'"
proof -
  have wf: "profile_wf (shaft m)" using assms(1) by (simp add: motor_ok_def)
  let ?p = "m\<lparr>shaft := profile_of r a ms (shaft m)\<rparr>"
  have e: "App_Motor_CalculateProfile r a ms m = ?p" by (rule CalculateProfile_eq [OF wf])
  have ok: "ramp_ok (shaft ?p)" using profile_of_ramp_ok [OF wf _ assms(4,5), of r ms] assms(3) by simp
  moreover have "motor.currentState ?p = STATE_STOPPED" using assms(2) by (simp add: at_rest_def)
  ultimately have "motor_inv ?p" by (simp add: motor_inv_def)
  from motor_inv_start [OF this, of d]
  obtain m' cs where m': "App_Motor_Start d ?p = Some (m', cs)" "motor_inv m'" "shaft m' = shaft ?p"
    by blast
  moreover have "profile_wf (shaft ?p)" using profile_of_wf [OF wf] by simp
  ultimately show ?thesis unfolding e motor_ok_def by metis
qed

section \<open>What the commands do to the record and the flags\<close>

lemmas action_defs = switch_edge_def motor_commands_def stream_start_def stream_stop_def
  baud_command_def baud_pause_def baud_set_def baud_resume_def encoder_command_def

lemma fst_and_then: "fst (and_then f g e w) = fst (g (settle (snd (f e w)) e) (fst (f e w)))"
  by (simp add: and_then_def case_prod_beta)

lemma action_mb:
  "mb (fst (switch_edge e w)) = mb w"
  "mb (fst (motor_commands e w)) = (mb w)\<lparr>pendingMotorStart := False, pendingMotorStop := False\<rparr>"
  "mb (fst (stream_start e w)) = (mb w)\<lparr>pendingStreamStart := False,
     streamActive := (streamActive (mb w) \<or> pendingStreamStart (mb w))\<rparr>"
  "mb (fst (stream_stop e w)) = (mb w)\<lparr>pendingStreamStop := False,
     streamActive := (streamActive (mb w) \<and> \<not> pendingStreamStop (mb w))\<rparr>"
  "mb (fst (baud_command pf e w)) = (mb w)\<lparr>pendingBaudChange := False\<rparr>"
  "mb (fst (encoder_command e w)) = (mb w)\<lparr>pendingEncoderDir := False\<rparr>"
proof -
  obtain m where m: "mb w = m" by simp
  show "mb (fst (switch_edge e w)) = mb w" by (simp add: switch_edge_def Let_def)
  show "mb (fst (motor_commands e w)) = (mb w)\<lparr>pendingMotorStart := False, pendingMotorStop := False\<rparr>"
    by (cases m) (simp add: motor_commands_def m Let_def)
  show "mb (fst (stream_start e w)) = (mb w)\<lparr>pendingStreamStart := False,
      streamActive := (streamActive (mb w) \<or> pendingStreamStart (mb w))\<rparr>"
    by (cases m) (simp add: stream_start_def m Let_def)
  show "mb (fst (stream_stop e w)) = (mb w)\<lparr>pendingStreamStop := False,
      streamActive := (streamActive (mb w) \<and> \<not> pendingStreamStop (mb w))\<rparr>"
    by (cases m) (simp add: stream_stop_def m Let_def)
  show "mb (fst (baud_command pf e w)) = (mb w)\<lparr>pendingBaudChange := False\<rparr>"
    by (cases m) (simp add: baud_command_def fst_and_then baud_pause_def baud_set_def baud_resume_def m
        Let_def case_prod_beta)
  show "mb (fst (encoder_command e w)) = (mb w)\<lparr>pendingEncoderDir := False\<rparr>"
    by (cases m) (simp add: encoder_command_def m Let_def)
qed

lemma action_flags:
  "sysMotorRunRequest (fst (switch_edge e w)) = (if currentSwitchState w \<noteq> lastSwitchState w
     then currentSwitchState w else sysMotorRunRequest w)"
  "lastSwitchState (fst (switch_edge e w)) = currentSwitchState w"
  "sysMotorRunRequest (fst (motor_commands e w)) = (if pendingMotorStop (mb w) then False
     else if pendingMotorStart (mb w) then True else sysMotorRunRequest w)"
  "lastSwitchState (fst (motor_commands e w)) = lastSwitchState w"
  "sysMotorRunRequest (fst (stream_start e w)) = sysMotorRunRequest w"
  "lastSwitchState (fst (stream_start e w)) = lastSwitchState w"
  "sysMotorRunRequest (fst (stream_stop e w)) = sysMotorRunRequest w"
  "lastSwitchState (fst (stream_stop e w)) = lastSwitchState w"
  "sysMotorRunRequest (fst (baud_command pf e w)) = sysMotorRunRequest w"
  "lastSwitchState (fst (baud_command pf e w)) = lastSwitchState w"
  "sysMotorRunRequest (fst (encoder_command e w)) = sysMotorRunRequest w"
  "lastSwitchState (fst (encoder_command e w)) = lastSwitchState w"
  by (simp_all add: switch_edge_def motor_commands_def stream_start_def stream_stop_def Let_def)
    (simp_all add: baud_command_def fst_and_then baud_pause_def baud_set_def baud_resume_def
      encoder_command_def Let_def case_prod_beta)

lemma arbitrate_mb:
  "mb (fst (arbitrate pf e w)) = (mb w)\<lparr>pendingMotorStart := False, pendingMotorStop := False,
     pendingStreamStart := False, pendingStreamStop := False, pendingEncoderDir := False,
     pendingBaudChange := False,
     streamActive := (\<not> pendingStreamStop (mb w) \<and> (streamActive (mb w) \<or> pendingStreamStart (mb w)))\<rparr>"
proof -
  obtain m where m: "mb w = m" by simp
  show ?thesis
    by (simp add: arbitrate_def fst_and_then action_mb m) (cases m, simp add: conj_commute)
qed

lemma arbitrate_flags:
  "sysMotorRunRequest (fst (arbitrate pf e w)) =
     (if pendingMotorStop (mb w) then False
      else if pendingMotorStart (mb w) then True
      else if currentSwitchState w \<noteq> lastSwitchState w then currentSwitchState w
      else sysMotorRunRequest w)"
  "lastSwitchState (fst (arbitrate pf e w)) = currentSwitchState w"
  by (simp_all add: arbitrate_def fst_and_then action_mb action_flags)

lemma baud_ok_flags [simp]:
  "baud_ok (m\<lparr>pendingSaveCmd := b\<rparr>) = baud_ok m" "baud_ok (m\<lparr>pendingRebootCmd := b\<rparr>) = baud_ok m"
  "baud_ok (mb (fst (arbitrate pf e w)))"
  by (simp_all add: baud_ok_def arbitrate_mb)

end
