(* ===== verification/Main_Reach.thy ===== *)
theory Main_Reach
  imports Main_Invariant
begin

text \<open>
  The states the firmware reaches: its invariant, kept by every phase, server call and interrupt,
  the start-up with the interrupts on the way, and reachability under any interleaving.
\<close>

section \<open>The invariant of the machine\<close>

fun hw_calls :: "sys_call list \<Rightarrow> hal_call list" where
  "hw_calls [] = []"
| "hw_calls (Hw c # cs) = c # hw_calls cs"
| "hw_calls (_ # cs) = hw_calls cs"

lemma hw_calls_map [simp]:
  "hw_calls (map Hw cs) = cs" "hw_calls (map Net ns) = []" "hw_calls (map Tcp ts) = []"
  by (induction cs, simp_all) (induction ns, simp_all, induction ts, simp_all)

lemma hw_calls_append [simp]: "hw_calls (cs @ ds) = hw_calls cs @ hw_calls ds"
  by (induction cs rule: hw_calls.induct) simp_all

fun remembers :: "pc \<Rightarrow> bool" where
  "remembers NETWORK = False"
| "remembers RESET = False"
| "remembers _ = True"

definition fw_inv :: "pc \<times> 'f firmware \<Rightarrow> bool" where
  "fw_inv s = (case s of (c, w) \<Rightarrow>
     motor_ok (fw_motor w) \<and> params_ok (mb w) \<and> baud_ok (mb w) \<and> lamps_inv (fw_lamps w) \<and>
     (remembers c \<longrightarrow> follows (motorState w) (motor.currentState (fw_motor w))))"

text \<open>A step that goes well: defined, in the invariant, and gentle with a moving motor.\<close>

definition gentle :: "motor \<Rightarrow> motor \<Rightarrow> sys_call list \<Rightarrow> bool" where
  "gentle m m' cs \<longleftrightarrow> at_rest m \<or> shaft m' = shaft m \<and> quiet (hw_calls cs)"

lemma lamp_calls_quiet:
  "quiet (snd (App_Lamp_SetMode i md s))" "quiet (snd (App_Lamp_Tick_1ms s))"
proof -
  have j: "j = 0 \<or> j = 1 \<or> 2 \<le> j" for j :: u8
    by (simp add: word_le_nat_alt word_unat_eq_iff) linarith
  have l: "quiet (HAL_Lamp_Toggle j)" "quiet (HAL_Lamp_SetState j b)" for j b
    using j [of j]
    by (auto simp: HAL_Lamp_Toggle_def HAL_Lamp_SetState_def LampMap_def NUM_LAMPS_def Let_def
        not_less)
  have t: "quiet (snd (tick_lamp j s))" for j s
    using l(1) [of "of_nat j"] by (simp add: tick_lamp_def count_lamp_def Let_def)
  have "quiet (snd (for_lamps js s))" for js
    by (induction js arbitrary: s) (simp_all add: t case_prod_beta)
  then show "quiet (snd (App_Lamp_Tick_1ms s))" by (simp add: App_Lamp_Tick_1ms_def)
  show "quiet (snd (App_Lamp_SetMode i md s))"
    by (simp add: App_Lamp_SetMode_def l Let_def split: lamp_mode.splits)
qed

lemma systick_ok:
  assumes "fw_inv (c, w)"
  shows "\<exists>w' cs. SysTick_Handler level w = Some (w', cs) \<and> fw_inv (c, w') \<and>
    gentle (fw_motor w) (fw_motor w') cs"
proof -
  have "motor_ok (fw_motor w)" using assms by (simp add: fw_inv_def)
  from motor_ok_tick [OF this]
  obtain m cs where m: "App_Motor_KinematicTick_1ms (fw_motor w) = Some (m, cs)" "motor_ok m"
    by blast
  have "SysTick_Handler level w = Some (w\<lparr>fw_motor := m, fw_switch := App_Switch_Tick_1ms level (fw_switch w),
      fw_lamps := fst (App_Lamp_Tick_1ms (fw_lamps w))\<rparr>,
      HAL_IncTick # map Hw (cs @ snd (App_Lamp_Tick_1ms (fw_lamps w))))"
    by (simp add: SysTick_Handler_def m(1) Let_def case_prod_beta)
  moreover have "fw_inv (c, w\<lparr>fw_motor := m, fw_switch := App_Switch_Tick_1ms level (fw_switch w),
      fw_lamps := fst (App_Lamp_Tick_1ms (fw_lamps w))\<rparr>)"
    using assms m(2) tick_follows [OF m(1)] lamps_inv_Tick [of "fw_lamps w"]
    by (auto simp: fw_inv_def intro: follows_trans)
  moreover have "gentle (fw_motor w) m (HAL_IncTick # map Hw (cs @ snd (App_Lamp_Tick_1ms (fw_lamps w))))"
    using tick_follows [OF m(1)] lamp_calls_quiet(2) [of "fw_lamps w"]
    by (simp add: gentle_def del: map_append)
  ultimately show ?thesis by fastforce
qed

lemma zero_pulse_ok:
  assumes "fw_inv (c, w)"
  shows "\<exists>w' cs. zero_pulse_irq pending cnt tick w = Some (w', cs) \<and> fw_inv (c, w') \<and>
    fw_motor w' = fw_motor w \<and> quiet cs"
proof -
  obtain s ds where z: "App_Encoder_OnZeroPulse cnt tick (fw_encoder w) = Some (s, ds)"
    using OnZeroPulse_fields [of cnt tick "fw_encoder w"] by blast
  then have "quiet ds"
    by (auto simp: App_Encoder_OnZeroPulse_def DEBUG_PrintZPulseTiming_def HAL_Encoder_Reset_def Let_def
        split: if_splits bind_splits)
  then show ?thesis using assms z
    by (auto simp: zero_pulse_irq_def EXTI2_IRQHandler_def fw_inv_def Let_def)
qed

lemma step_irq_ok:
  assumes "fw_inv (c, w)"
  shows "fw_inv (c, fst (step_irq pending cnt gReady dma w)) \<and>
    fw_motor (fst (step_irq pending cnt gReady dma w)) = fw_motor w \<and>
    quiet (snd (step_irq pending cnt gReady dma w))"
  using assms
  by (auto simp: step_irq_def EXTI9_5_IRQHandler_def fw_inv_def App_Telemetry_OnEncoderStep_def
      HAL_Telemetry_WriteBuffer_def Let_def case_prod_beta)

lemma uart_rx_ok:
  assumes "fw_inv (c, w)"
  shows "fw_inv (c, fst (uart_rx_irq b cnt gReady dma w)) \<and>
    fw_motor (fst (uart_rx_irq b cnt gReady dma w)) = fw_motor w \<and>
    quiet (snd (uart_rx_irq b cnt gReady dma w))"
  using assms
  by (auto simp: uart_rx_irq_def HAL_UART_RxCpltCallback_def fw_inv_def App_Telemetry_OnByteReceived_def
      HAL_Telemetry_WriteBuffer_def Let_def case_prod_beta split: rx_state.splits)

lemma irq_ok:
  assumes "fw_inv (c, w)"
  shows "\<exists>w' cs. irq_step i w = Some (w', cs) \<and> fw_inv (c, w') \<and> gentle (fw_motor w) (fw_motor w') cs"
proof (cases i)
  case (SysTick level)
  then show ?thesis using systick_ok [OF assms] by simp
next
  case (ZeroPulse p cnt t)
  then show ?thesis using zero_pulse_ok [OF assms, of p cnt t] by (auto simp: gentle_def)
next
  case (StepIrq p cnt r d)
  then show ?thesis using step_irq_ok [OF assms, of p cnt r d] by (simp add: case_prod_beta gentle_def)
next
  case (UartRx b cnt r d)
  then show ?thesis using uart_rx_ok [OF assms, of b cnt r d] by (simp add: case_prod_beta gentle_def)
next
  case UartError
  then show ?thesis using assms by (simp add: gentle_def HAL_UART_ErrorCallback_def)
next
  case EthIrq
  then show ?thesis using assms by (simp add: gentle_def ETH_IRQHandler_def)
qed

text \<open>What interrupts leave alone, and what they make of the switch.\<close>

definition kept :: "'f firmware \<Rightarrow> 'f firmware \<Rightarrow> bool" where
  "kept w w' \<longleftrightarrow> mb w' = mb w \<and> settings w' = settings w \<and> lastSwitchState w' = lastSwitchState w \<and>
     sysMotorRunRequest w' = sysMotorRunRequest w \<and> currentSwitchState w' = currentSwitchState w \<and>
     motorState w' = motorState w \<and> (at_rest (fw_motor w) \<longrightarrow> fw_motor w' = fw_motor w) \<and>
     (lamps_inv (fw_lamps w) \<longrightarrow> lamps_inv (fw_lamps w'))"

lemma kept_refl: "kept w w"
  by (simp add: kept_def)

lemma kept_trans: "kept w w' \<Longrightarrow> kept w' w'' \<Longrightarrow> kept w w''"
  by (simp add: kept_def)

lemma irq_kept:
  "irq_step i w = Some (w', cs) \<Longrightarrow> kept w w' \<and> fw_switch w' = fold App_Switch_Tick_1ms (levels [i]) (fw_switch w)"
proof (cases i)
  case (SysTick level)
  assume "irq_step i w = Some (w', cs)"
  then show ?thesis
    by (auto simp: SysTick SysTick_Handler_def kept_def at_rest_def App_Motor_KinematicTick_1ms_def lamps_inv_Tick
        Let_def case_prod_beta split: bind_splits if_splits)
qed (auto simp: zero_pulse_irq_def step_irq_def uart_rx_irq_def kept_def Let_def case_prod_beta
    split: bind_splits if_splits option.splits)

lemma levels_Cons: "levels (i # is) = levels [i] @ levels is"
  by (cases i) simp_all

lemma levels_append [simp]: "levels (is @ js) = levels is @ levels js"
proof (induction "is")
  case (Cons i "is")
  have "levels ((i # is) @ js) = levels [i] @ levels (is @ js)" unfolding append_Cons by (rule levels_Cons)
  also have "\<dots> = levels (i # is) @ levels js" unfolding Cons.IH levels_Cons [of i "is"] by simp
  finally show ?case .
qed simp

lemma irqs_kept:
  "irqs is w = Some (w', cs) \<Longrightarrow> kept w w' \<and> fw_switch w' = fold App_Switch_Tick_1ms (levels is) (fw_switch w)"
proof (induction "is" arbitrary: w cs)
  case (Cons i "is")
  then obtain v ds es where v: "irq_step i w = Some (v, ds)" "irqs is v = Some (w', es)" by (auto split: bind_splits)
  note k = irq_kept [OF v(1)] Cons.IH [OF v(2)]
  have "levels (i # is) = levels [i] @ levels is" by (rule levels_Cons)
  then show ?case using k by (auto simp del: levels.simps intro: kept_trans)
qed (simp add: kept_refl)

text \<open>While the motor is at rest every interrupt is handled.\<close>

lemma irq_at_rest: "at_rest (fw_motor w) \<Longrightarrow> \<exists>w' cs. irq_step i w = Some (w', cs)"
proof (cases i)
  case (ZeroPulse p cnt t)
  then show ?thesis using OnZeroPulse_fields [of cnt t "fw_encoder w"]
    by (fastforce simp: zero_pulse_irq_def Let_def case_prod_beta)
qed (simp_all add: SysTick_Handler_def App_Motor_KinematicTick_1ms_def at_rest_def Let_def case_prod_beta)

lemma irqs_at_rest:
  "at_rest (fw_motor w) \<Longrightarrow> \<exists>w' cs. irqs is w = Some (w', cs)"
proof (induction "is" arbitrary: w)
  case (Cons i "is")
  obtain v ds where v: "irq_step i w = Some (v, ds)" using irq_at_rest [OF Cons.prems] by blast
  then have "at_rest (fw_motor v)" using irq_kept [OF v] Cons.prems by (auto simp: kept_def)
  then obtain w' es where "irqs is v = Some (w', es)" using Cons.IH by blast
  then show ?case using v by simp
qed simp

lemma network_phase_ok:
  assumes "fw_inv (NETWORK, w)"
  shows "\<exists>w' cs. main_phase pf e i NETWORK w = Some (SAVE, w', cs) \<and> fw_inv (SAVE, w') \<and>
    fw_motor w' = fw_motor w \<and> hw_calls cs = []"
  using assms
  by (auto simp: fw_inv_def read_inputs_def App_Motor_GetState_def Let_def case_prod_beta)

lemma quiet_save: "quiet (fst (snd (App_Settings_Save d crc n s)))"
  by (simp add: App_Settings_Save_def Let_def case_prod_beta)

lemma save_phase_ok:
  assumes "fw_inv (SAVE, w)"
  shows "\<exists>w' cs. main_phase pf e i SAVE w = Some (COMMANDS, w', cs) \<and> fw_inv (COMMANDS, w') \<and>
    fw_motor w' = fw_motor w \<and> quiet (hw_calls cs)"
proof -
  have "params_ok ((mb w)\<lparr>pendingSaveCmd := False\<rparr>) = params_ok (mb w)"
    by (rule params_ok_cong) simp_all
  then show ?thesis using assms
    by (auto simp: process_save_def fw_inv_def quiet_save Let_def case_prod_beta)
qed

lemma commands_phase_ok:
  assumes "fw_inv (COMMANDS, w)"
  shows "\<exists>c' w' cs. main_phase pf e i COMMANDS w = Some (c', w', cs) \<and> fw_inv (c', w') \<and>
    fw_motor w' = fw_motor w \<and> quiet (hw_calls cs) \<and> c' = (if pendingRebootCmd (mb (fst (arbitrate pf e w))) then RESET else MOTOR)"
proof -
  note fr = frame_arbitrate [of pf, unfolded frame_def, THEN spec, THEN spec, of e w]
  have "params_ok (mb (fst (arbitrate pf e w))) = params_ok (mb w)"
    by (rule params_ok_cong) (use fr in simp_all)
  moreover have "params_ok (m\<lparr>pendingRebootCmd := False\<rparr>) = params_ok m" for m :: modbus_config
    by (rule params_ok_cong) simp_all
  ultimately show ?thesis using assms fr
    by (simp add: fw_inv_def reboot_command_def baud_zero_iff Let_def case_prod_beta)
qed

lemma motor_phase_ok:
  assumes "fw_inv (MOTOR, w)"
  shows "\<exists>w' cs. main_phase pf e i MOTOR w = Some (NETWORK, w', cs) \<and> fw_inv (NETWORK, w') \<and>
    gentle (fw_motor w) (fw_motor w') cs"
proof -
  have inv: "motor_ok (fw_motor w)" "params_ok (mb w)" "lamps_inv (fw_lamps w)"
      "follows (motorState w) (motor.currentState (fw_motor w))" "baud_ok (mb w)"
    using assms by (simp_all add: fw_inv_def)
  note l = lamps_inv_SetMode [OF inv(3)] and q = lamp_calls_quiet(1)
  note st = motor_ok_stop [OF inv(1)]
  show ?thesis
  proof (cases "motorState w")
    case STATE_STOPPED
    then have rest: "at_rest (fw_motor w)" using inv(4) by (simp add: follows_def at_rest_def)
    obtain m cs where "App_Motor_Start (mb_motorDirection (mb w)) (App_Motor_CalculateProfile
        (mb_targetRPM (mb w)) (mb_accelTimeSec (mb w)) (mb_microsteps (mb w)) (fw_motor w)) = Some (m, cs)"
        "motor_ok m"
      using motor_ok_launch [OF inv(1) rest] inv(2) by (metis params_ok_def)
    then show ?thesis using inv rest l STATE_STOPPED
      by (simp add: motor_machine_def fw_inv_def gentle_def Let_def case_prod_beta)
  next
    case STATE_ACCELERATING
    then show ?thesis using inv l q st
      by (simp add: motor_machine_def fw_inv_def gentle_def Let_def case_prod_beta)
  next
    case STATE_CRUISING
    then show ?thesis using inv l q st
      by (simp add: motor_machine_def fw_inv_def gentle_def Let_def case_prod_beta)
  next
    case STATE_DECELERATING
    then show ?thesis using inv l q
      by (simp add: motor_machine_def fw_inv_def gentle_def Let_def case_prod_beta)
  qed
qed

lemma gentle_same: "fw_motor w' = fw_motor w \<Longrightarrow> quiet (hw_calls cs) \<Longrightarrow> gentle (fw_motor w) (fw_motor w') cs"
  by (simp add: gentle_def)

lemma main_phase_ok:
  assumes "fw_inv (c, w)"
  shows "\<exists>c' w' cs. main_phase pf e i c w = Some (c', w', cs) \<and> fw_inv (c', w') \<and>
    gentle (fw_motor w) (fw_motor w') cs"
proof (cases c)
  case NETWORK
  then show ?thesis using network_phase_ok [of w pf e i] assms by (fastforce simp: gentle_def)
next
  case SAVE
  then show ?thesis using save_phase_ok [of w pf e i] assms by (fastforce simp: gentle_def)
next
  case COMMANDS
  then obtain c' w' cs where "main_phase pf e i COMMANDS w = Some (c', w', cs)" "fw_inv (c', w')"
      "fw_motor w' = fw_motor w" "quiet (hw_calls cs)"
    using commands_phase_ok [of w pf e i] assms by auto
  then show ?thesis by (simp add: COMMANDS gentle_def)
next
  case MOTOR
  then show ?thesis using motor_phase_ok [of w pf e i] assms by blast
next
  case RESET
  then show ?thesis using assms by (simp add: gentle_def)
qed

lemma fw_step_ok:
  assumes "fw_inv (c, w)" "admissible e"
  shows "\<exists>c' w' cs. fw_step pf e (c, w) = Some (c', w', cs) \<and> fw_inv (c', w') \<and>
    gentle (fw_motor w) (fw_motor w') cs"
proof (cases "c = RESET")
  case True
  then show ?thesis using assms(1) by (simp add: gentle_def)
next
  case False
  then have s: "fw_step pf e (c, w) = (case e of
        Main e i \<Rightarrow> main_phase pf e i c w
      | Server cnt g room pb err \<Rightarrow>
          if c = NETWORK then map_option (Pair c) (server_call cnt g room pb err w) else Some (c, w, [])
      | Irq i \<Rightarrow> map_option (Pair c) (irq_step i w))"
    by (cases c; cases e) simp_all
  show ?thesis
  proof (cases e)
    case (Main h i)
    then show ?thesis using main_phase_ok [OF assms(1)] s by simp
  next
    case (Server cnt g room pb err)
    then show ?thesis using server_call_ok [of w g pb room cnt err] assms s by (auto simp: fw_inv_def gentle_def)
  next
    case (Irq i)
    then show ?thesis using irq_ok [OF assms(1), of i] s by auto
  qed
qed

section \<open>Reachable states\<close>

text \<open>
  From a start-up on any flash content whose settings carry a speed below the limit and a finite
  ramp time, by the main program, the server and the interrupts in any order.
\<close>

inductive fw_reach :: "'f platform \<Rightarrow> pc \<times> 'f firmware \<Rightarrow> bool" for pf where
  started: "boot pf be (firmware0 f) = Some (w, cs) \<Longrightarrow> params_ok (mb w) \<Longrightarrow> fw_reach pf (NETWORK, w)"
| stepped: "fw_reach pf (c, w) \<Longrightarrow> admissible e \<Longrightarrow> fw_step pf e (c, w) = Some (c', w', cs) \<Longrightarrow>
    fw_reach pf (c', w')"

inductive_cases booted: "fw_reach pf s"

text \<open>The start-up comes to the loop: the clocks start, and time passes during the delays.\<close>

definition starts_up :: "boot_env \<Rightarrow> bool" where
  "starts_up be \<longleftrightarrow> be_osc be = HAL_OK \<and> be_clk be = HAL_OK \<and>
     5000 \<le> length (levels (be_wait be)) \<and> 75 \<le> length (levels (be_reset be))"

text \<open>The interrupts between the initialisation of the switch and the loop.\<close>

definition boot_irqs :: "boot_env \<Rightarrow> interrupt list" where
  "boot_irqs be = be_mid be @ be_wait be @ be_reset be @ be_late be"

definition new_settings :: "'f platform \<Rightarrow> boot_env \<Rightarrow> 'f \<Rightarrow> 'f settings_state" where
  "new_settings pf be f = fst (App_Settings_Init (pf_flash pf) (pf_crc pf) (be_crc be)
     \<lparr>flash = f, activeSettings = settings_of_words (replicate 12 0)\<rparr>)"

lemma STARTUP_DELAY_nat: "unat STARTUP_DELAY_MS = 5000"
  by (simp add: STARTUP_DELAY_MS_def)

lemma lamps_inv_Init: "lamps_inv s \<Longrightarrow> lamps_inv (fst (App_Lamp_Init s))"
  by (simp add: App_Lamp_Init_def lamps_inv_def each_lamp set_mode_cell_def)

lemma boot_eq:
  assumes "starts_up be" "uartBaudRate (activeSettings (new_settings pf be f)) \<noteq> 0"
  shows "\<exists>w cs s. boot pf be (firmware0 f) = Some (w, cs) \<and> fw_motor w = motor0 \<and> lamps_inv (fw_lamps w) \<and>
    fw_switch w = fold App_Switch_Tick_1ms (levels (boot_irqs be)) (fst (App_Switch_Init (be_switch be) s)) \<and>
    lastSwitchState w = False \<and> sysMotorRunRequest w = False \<and> settings w = new_settings pf be f \<and>
    mb w = sync_modbus (activeSettings (settings w)) ModbusCfg0"
proof -
  define w0 where "w0 = firmware0 f"
  have 0: "at_rest (fw_motor w0)" "lamps_inv (fw_lamps w0)" "fw_motor w0 = motor0"
    using lamps_inv_reachable [of "[]"]
    by (simp_all add: w0_def firmware0_def at_rest_def motor0_def lamps0_def lamps_inv_def)
  obtain w1 d1 where r1: "irqs (be_early be) w0 = Some (w1, d1)" using irqs_at_rest [OF 0(1)] by blast
  have k1: "kept w0 w1" using irqs_kept [OF r1] by simp
  define si where "si = App_Settings_Init (pf_flash pf) (pf_crc pf) (be_crc be) (settings w1)"
  define w2 where "w2 = w1\<lparr>settings := fst si, encoder_hal := fst (App_Encoder_Init (be_exticr1 be) (encoder_hal w1)),
    fw_switch := fst (App_Switch_Init (be_switch be) (fw_switch w1))\<rparr>"
  have 2: "at_rest (fw_motor w2)" using k1 0 by (simp add: w2_def kept_def)
  obtain w3 d2 where r2: "irqs (be_mid be) w2 = Some (w3, d2)" using irqs_at_rest [OF 2] by blast
  note k2 = irqs_kept [OF r2]
  define ti where "ti = App_Telemetry_Init (uartBaudRate (App_Settings_Get (fst si))) (fw_telemetry w3) (encoder_hal w3)"
  define w4 where "w4 = w3\<lparr>fw_lamps := fst (App_Lamp_Init (fw_lamps w3)), fw_telemetry := fst ti, encoder_hal := fst (snd ti)\<rparr>"
  have 4: "at_rest (fw_motor w4)" using k2 2 by (simp add: w4_def kept_def)
  obtain w5 d3 where r3: "irqs (be_wait be) w4 = Some (w5, d3)" using irqs_at_rest [OF 4] by blast
  note k3 = irqs_kept [OF r3]
  have 5: "at_rest (fw_motor w5)" using k3 4 by (simp add: kept_def)
  obtain w6 d4 where r4: "irqs (be_reset be) w5 = Some (w6, d4)" using irqs_at_rest [OF 5] by blast
  note k4 = irqs_kept [OF r4]
  define w7 where "w7 = w6\<lparr>net := fst (MX_LWIP_Init (App_Settings_Get (fst si)) (be_eth be) (be_phy_ok be) (pf_phy pf)
    (be_phy be) (net w6)), mb := sync_modbus (App_Settings_Get (fst si)) (mb w6)\<rparr>"
  have 7: "at_rest (fw_motor w7)" using k4 5 by (simp add: w7_def kept_def)
  obtain w8 d5 where r5: "irqs (be_late be) w7 = Some (w8, d5)" using irqs_at_rest [OF 7] by blast
  note k5 = irqs_kept [OF r5]
  have s1: "settings w1 = \<lparr>flash = f, activeSettings = settings_of_words (replicate 12 0)\<rparr>"
    using k1 by (simp add: kept_def w0_def firmware0_def)
  have baud: "uartBaudRate (App_Settings_Get (fst si)) \<noteq> 0"
    using assms(2) by (simp add: si_def s1 new_settings_def App_Settings_Get_def)
  have run: "\<exists>cs. boot pf be (firmware0 f) = Some (w8, cs)"
    using assms(1) baud r1 r2 r3 r4 r5
    unfolding boot_def SystemClock_Config_def starts_up_def STARTUP_DELAY_nat w0_def [symmetric]
    by (simp add: case_prod_beta Let_def si_def [symmetric] w2_def [symmetric] ti_def [symmetric] w4_def [symmetric]
        w7_def [symmetric] not_less)
  have mb6: "mb w6 = ModbusCfg0"
    using k1 k2 k3 k4 by (simp add: kept_def w2_def w4_def w0_def firmware0_def)
  have st: "settings w8 = fst si" using k2 k3 k4 k5 by (simp add: kept_def w2_def w4_def w7_def)
  have lamps: "lamps_inv (fw_lamps w8)"
  proof -
    have "lamps_inv (fw_lamps w3)" using k1 k2 0(2) by (simp add: kept_def w2_def)
    then have "lamps_inv (fw_lamps w4)" by (simp add: w4_def lamps_inv_Init)
    then show ?thesis using k3 k4 k5 by (simp add: kept_def w7_def)
  qed
  have motor: "fw_motor w8 = motor0" using k1 k2 k3 k4 k5 0 by (simp add: kept_def w2_def w4_def w7_def)
  have switch: "fw_switch w8 = fold App_Switch_Tick_1ms (levels (boot_irqs be)) (fst (App_Switch_Init (be_switch be) (fw_switch w1)))"
    using k2 k3 k4 k5 by (simp add: boot_irqs_def w2_def w4_def w7_def)
  have flags: "lastSwitchState w8 = False" "sysMotorRunRequest w8 = False"
    using k1 k2 k3 k4 k5 by (simp_all add: kept_def w0_def firmware0_def w2_def w4_def w7_def)
  have "mb w8 = sync_modbus (activeSettings (settings w8)) ModbusCfg0"
    using k5 mb6 st by (simp add: kept_def w7_def App_Settings_Get_def)
  moreover have "settings w8 = new_settings pf be f" by (simp add: st si_def s1 new_settings_def)
  ultimately show ?thesis using run motor lamps switch flags by blast
qed

lemma boot_SomeD:
  assumes "boot pf be (firmware0 f) = Some (w, cs)"
  shows "starts_up be" "uartBaudRate (activeSettings (new_settings pf be f)) \<noteq> 0"
proof -
  have "snd (SystemClock_Config (be_osc be) (be_clk be))"
    using assms by (simp only: boot_def case_prod_beta Let_def split: if_splits) simp_all
  then have "be_osc be = HAL_OK \<and> be_clk be = HAL_OK"
    by (auto simp: SystemClock_Config_def Let_def split: if_splits)
  moreover have "5000 \<le> length (levels (be_wait be)) \<and> 75 \<le> length (levels (be_reset be))"
    using assms by (auto simp: boot_def STARTUP_DELAY_nat Let_def case_prod_beta split: if_splits bind_splits)
  ultimately show "starts_up be" by (simp add: starts_up_def)
  obtain w1 d1 where r1: "irqs (be_early be) (firmware0 f) = Some (w1, d1)"
    "uartBaudRate (App_Settings_Get (fst (App_Settings_Init (pf_flash pf) (pf_crc pf) (be_crc be) (settings w1)))) \<noteq> 0"
    using assms by (auto simp: boot_def Let_def case_prod_beta split: if_splits bind_splits)
  have "settings w1 = \<lparr>flash = f, activeSettings = settings_of_words (replicate 12 0)\<rparr>"
    using irqs_kept [OF r1(1)] by (simp add: kept_def firmware0_def)
  then show "uartBaudRate (activeSettings (new_settings pf be f)) \<noteq> 0"
    using r1(2) by (simp add: new_settings_def App_Settings_Get_def)
qed

lemma motor_ok0: "motor_ok motor0"
  using profile_wf0 by (simp add: motor_ok_def at_rest_def motor0_def)

lemma boot_inv:
  assumes "boot pf be (firmware0 f) = Some (w, cs)" "params_ok (mb w)"
  shows "fw_inv (NETWORK, w)"
proof -
  have "fw_motor w = motor0" "lamps_inv (fw_lamps w)" "mb w = sync_modbus (activeSettings (settings w)) ModbusCfg0"
    using boot_eq [OF boot_SomeD [OF assms(1)]] assms(1) by auto
  then show ?thesis using assms(2) motor_ok0 by (simp add: fw_inv_def)
      (simp add: baud_ok_def sync_modbus_def ModbusCfg0_def Let_def)
qed

lemma fw_reach_inv: "fw_reach pf s \<Longrightarrow> fw_inv s"
proof (induction rule: fw_reach.induct)
  case (started be f w cs)
  then show ?case by (rule boot_inv)
next
  case (stepped c w e c' w' cs)
  then show ?case using fw_step_ok [of c w e pf] by auto
qed

end
