(* ===== verification/Main_Mask.thy ===== *)
theory Main_Mask
  imports Main_Reach
begin

text \<open>
  The interrupt mask of the encoder lines along a run: what each step of the firmware makes of the
  register, and the runs with the register beside the state.
\<close>

section \<open>Steps that leave the mask alone\<close>

fun spares_mask :: "hal_call \<Rightarrow> bool" where
  "spares_mask (REG_WRITE r v) = (r \<noteq> EXTI_IMR)"
| "spares_mask _ = True"

definition masked :: "hal_call list \<Rightarrow> bool" where
  "masked cs = list_all spares_mask cs"

lemma masked_simps [simp]:
  "masked []" "masked (c # cs) \<longleftrightarrow> spares_mask c \<and> masked cs" "masked (cs @ ds) \<longleftrightarrow> masked cs \<and> masked ds"
  by (simp_all add: masked_def)

lemma masked_reg: "masked cs \<Longrightarrow> reg_after EXTI_IMR i cs = i"
proof (induction cs arbitrary: i)
  case (Cons c cs)
  then have "write_reg EXTI_IMR c i = i" by (cases c) auto
  then show ?case using Cons by (simp add: hw_simps)
qed simp

lemma masked_frequency: "HAL_Motor_SetFrequency f = Some cs \<Longrightarrow> masked cs"
  by (auto simp: HAL_Motor_SetFrequency_def split: if_splits bind_splits)

lemma masked_motor:
  "App_Motor_KinematicTick_1ms m = Some (m', cs) \<Longrightarrow> masked cs"
  "App_Motor_Start d m = Some (m', cs) \<Longrightarrow> masked cs"
  by (auto simp: App_Motor_KinematicTick_1ms_def App_Motor_Start_def Let_def hal_motor_defs
      split: if_splits bind_splits intro: masked_frequency)

lemma masked_lamp:
  "masked (snd (App_Lamp_SetMode i md s))" "masked (snd (App_Lamp_Tick_1ms s))" "masked (snd (App_Lamp_Init s))"
proof -
  have l: "masked (HAL_Lamp_Toggle j)" "masked (HAL_Lamp_SetState j b)" for j b
    by (auto simp: HAL_Lamp_Toggle_def HAL_Lamp_SetState_def Let_def)
  have t: "masked (snd (tick_lamp j s))" for j s
    using l(1) [of "of_nat j"] by (simp add: tick_lamp_def count_lamp_def Let_def)
  have "masked (snd (for_lamps js s))" for js
    by (induction js arbitrary: s) (simp_all add: t case_prod_beta)
  then show "masked (snd (App_Lamp_Tick_1ms s))" by (simp add: App_Lamp_Tick_1ms_def)
  show "masked (snd (App_Lamp_SetMode i md s))"
    by (simp add: App_Lamp_SetMode_def l Let_def split: lamp_mode.splits)
  show "masked (snd (App_Lamp_Init s))"
    by (auto simp: App_Lamp_Init_def HAL_Lamp_Init_def masked_def list_all_iff)
qed

lemma masked_save: "masked (fst (snd (App_Settings_Save d crc n s)))"
  by (simp add: App_Settings_Save_def Let_def case_prod_beta)

lemma masked_settings: "masked (snd (App_Settings_Init d crc st s))"
  by (simp add: App_Settings_Init_def InitHardwareCRC_def masked_save Let_def case_prod_beta)

lemma masked_init:
  "masked App_Motor_Init" "masked (snd (App_Encoder_Init r h))" "masked (App_Encoder_SetDirection b c)"
  "masked (snd (App_Switch_Init l sw))" "masked (snd (snd (App_Telemetry_Init baud te h)))"
  "masked MX_GPIO_Init" "masked PHY_Hardware_Reset" "masked App_NVIC_Reconfigure" "masked (boot_messages hz)"
  "masked (hw_calls (fst (SystemClock_Config o1 o2)))"
  by (simp_all add: App_Motor_Init_def HAL_Motor_Init_def hal_motor_defs App_Encoder_Init_def HAL_Encoder_Init_def
      HAL_Encoder_Init_ZeroInput_def HAL_Encoder_TimerHires_Init_def App_Encoder_SetDirection_def
      HAL_Encoder_SetCountDirection_def App_Switch_Init_def HAL_Switch_Init_def App_Telemetry_Init_def
      HAL_Telemetry_Init_def MX_GPIO_Init_def PHY_Hardware_Reset_def App_NVIC_Reconfigure_def boot_messages_def
      SystemClock_Config_def Let_def)

lemma masked_zero_pulse:
  "App_Encoder_OnZeroPulse cnt tick s = Some (s', cs) \<Longrightarrow> masked cs"
  by (auto simp: App_Encoder_OnZeroPulse_def DEBUG_PrintZPulseTiming_def HAL_Encoder_Reset_def Let_def
      split: if_splits bind_splits)

lemma masked_irq: "irq_step i w = Some (w', cs) \<Longrightarrow> masked (hw_calls cs)"
proof (cases i)
  case (SysTick level)
  assume "irq_step i w = Some (w', cs)"
  then show ?thesis using masked_lamp(2)
    by (auto simp: SysTick SysTick_Handler_def Let_def case_prod_beta simp del: map_append split: bind_splits
        intro: masked_motor)
next
  case (ZeroPulse p cnt t)
  assume "irq_step i w = Some (w', cs)"
  then show ?thesis
    by (auto simp: ZeroPulse zero_pulse_irq_def EXTI2_IRQHandler_def Let_def case_prod_beta
        split: bind_splits if_splits intro: masked_zero_pulse)
qed (auto simp: step_irq_def EXTI9_5_IRQHandler_def App_Telemetry_OnEncoderStep_def HAL_Telemetry_WriteBuffer_def
    uart_rx_irq_def HAL_UART_RxCpltCallback_def App_Telemetry_OnByteReceived_def HAL_UART_ErrorCallback_def
    ETH_IRQHandler_def Let_def case_prod_beta split: if_splits option.splits rx_state.splits)

lemma masked_irqs: "irqs is w = Some (w', cs) \<Longrightarrow> masked (hw_calls cs)"
proof (induction "is" arbitrary: w cs)
  case (Cons i "is")
  then obtain v ds es where v: "irq_step i w = Some (v, ds)" "irqs is v = Some (w', es)" "cs = ds @ es"
    by (auto split: bind_splits)
  then show ?case using masked_irq [OF v(1)] Cons.IH [OF v(2)] by simp
qed simp

lemma masked_motor_machine: "motor_machine w = Some (w', cs) \<Longrightarrow> masked cs \<and> mb w' = mb w"
  using masked_lamp(1)
  by (auto simp: motor_machine_def Let_def case_prod_beta split: motor_state.splits if_splits bind_splits
      intro: masked_motor)

text \<open>The start-up does not touch the mask, and comes out with the stream marked off.\<close>

lemma boot_mask:
  assumes "boot pf be (firmware0 f) = Some (w, cs)"
  shows "masked (hw_calls cs)" "\<not> streamActive (mb w)"
proof -
  show "masked (hw_calls cs)"
    using assms
    by (auto simp: boot_def masked_settings masked_init masked_lamp(3) Let_def case_prod_beta simp del: map_append
        split: if_splits bind_splits intro: masked_irqs)
  have "mb w = sync_modbus (activeSettings (settings w)) ModbusCfg0"
    using boot_eq [OF boot_SomeD [OF assms]] assms by auto
  then show "\<not> streamActive (mb w)" by (simp add: sync_modbus_def ModbusCfg0_def Let_def)
qed

section \<open>The mask and the stream flag across the commands\<close>

definition in_step :: "nat \<Rightarrow> hw_env \<Rightarrow> 'f firmware \<Rightarrow> bool" where
  "in_step n e w \<longleftrightarrow> bit (hw_imr e) n = streamActive (mb w)"

definition keeps_step :: "nat \<Rightarrow> 'f action \<Rightarrow> bool" where
  "keeps_step n f \<longleftrightarrow> (\<forall>e w. in_step n e w \<longrightarrow> in_step n (settle (snd (f e w)) e) (fst (f e w)))"

lemma settle_append: "settle (cs @ ds) e = settle ds (settle cs e)"
  by (simp add: settle_def)

lemma keeps_and_then [inv_intros]: "keeps_step n f \<Longrightarrow> keeps_step n g \<Longrightarrow> keeps_step n (and_then f g)"
  by (simp add: keeps_step_def and_then_def case_prod_beta settle_append)

lemma imr_stream:
  "reg_after EXTI_IMR imr (App_Telemetry_StartStream i r f) = i OR (EXTI_IMR_MR6 OR EXTI_IMR_MR7)"
  "reg_after EXTI_IMR imr (App_Telemetry_StopStream i) = i AND NOT (EXTI_IMR_MR6 OR EXTI_IMR_MR7)"
  by (simp_all add: App_Telemetry_StartStream_def App_Telemetry_StopStream_def hw_simps
      HAL_Encoder_EnableInterrupts_def HAL_Encoder_DisableInterrupts_def)

lemma line_masks:
  "n = 6 \<or> n = 7 \<Longrightarrow> bit (i OR (EXTI_IMR_MR6 OR EXTI_IMR_MR7) :: u32) n"
  "n = 6 \<or> n = 7 \<Longrightarrow> \<not> bit (i AND NOT (EXTI_IMR_MR6 OR EXTI_IMR_MR7) :: u32) n"
  by (auto simp only: bit_or_iff bit_and_iff bit_not_iff bit_masks)

lemma imr_other:
  "reg_after EXTI_IMR i (snd (switch_edge e w)) = i" "reg_after EXTI_IMR i (snd (motor_commands e w)) = i"
  "reg_after EXTI_IMR i (snd (encoder_command e w)) = i" "reg_after EXTI_IMR i (snd (baud_set pf e w)) = i"
  by (simp_all add: action_defs hw_simps App_Encoder_SetDirection_def HAL_Encoder_SetCountDirection_def
      App_Telemetry_SetBaudRate_def HAL_Telemetry_SetBaudRate_def Let_def case_prod_beta)

lemma keeps_plain [inv_intros]:
  "keeps_step n switch_edge" "keeps_step n motor_commands" "keeps_step n encoder_command"
  by (simp_all add: keeps_step_def in_step_def settle_def imr_other)
    (simp_all add: action_defs Let_def)

lemma keeps_stream:
  assumes "n = 6 \<or> n = 7"
  shows "keeps_step n stream_start" "keeps_step n stream_stop"
  using line_masks [OF assms]
  by (simp_all add: keeps_step_def in_step_def settle_def stream_start_def stream_stop_def imr_stream Let_def
      split: if_splits)

lemma keeps_baud:
  assumes "n = 6 \<or> n = 7"
  shows "keeps_step n (baud_command pf)"
proof -
  have "in_step n (settle (snd (baud_command pf e w)) e) (fst (baud_command pf e w))" if "in_step n e w" for e w
  proof (cases "pendingBaudChange (mb w)")
    case False
    then show ?thesis using that by (simp add: baud_command_def in_step_def settle_def)
  next
    case True
    then have "streamActive (mb (fst (baud_command pf e w))) = streamActive (mb w)"
      by (simp add: baud_command_def and_then_def baud_pause_def baud_set_def baud_resume_def Let_def
          case_prod_beta)
    moreover have "bit (reg_after EXTI_IMR (hw_imr e) (snd (baud_command pf e w))) n = streamActive (mb w)"
      using True that line_masks [OF assms]
      by (simp add: baud_command_def and_then_def baud_pause_def baud_resume_def imr_stream imr_other
          case_prod_beta Let_def in_step_def settle_def)
        (simp add: baud_set_def case_prod_beta)
    ultimately show ?thesis by (simp add: in_step_def settle_def)
  qed
  then show ?thesis by (simp add: keeps_step_def)
qed

lemma keeps_arbitrate: "n = 6 \<or> n = 7 \<Longrightarrow> keeps_step n (arbitrate pf)"
  unfolding arbitrate_def by (intro inv_intros keeps_stream keeps_baud)


section \<open>Runs with the mask\<close>

lemma phase_mask:
  assumes n: "n = 6 \<or> n = 7" and b: "bit (hw_imr h) n = streamActive (mb w)"
    and p: "main_phase pf h i c w = Some (c', w', cs)"
  shows "bit (reg_after EXTI_IMR (hw_imr h) (hw_calls cs)) n = streamActive (mb w')"
proof (cases c)
  case NETWORK
  then show ?thesis using b p by (auto simp: read_inputs_def Let_def case_prod_beta)
next
  case SAVE
  then show ?thesis using b p
    by (auto simp: process_save_def masked_reg masked_save Let_def case_prod_beta split: if_splits)
next
  case COMMANDS
  have "bit (reg_after EXTI_IMR (hw_imr h) (snd (arbitrate pf h w))) n = streamActive (mb (fst (arbitrate pf h w)))"
    using keeps_arbitrate [OF n, of pf] b by (simp add: keeps_step_def in_step_def settle_def)
  then show ?thesis using p COMMANDS
    by (auto simp: reboot_command_def masked_reg Let_def case_prod_beta split: if_splits)
next
  case MOTOR
  then show ?thesis using b p by (auto simp: masked_reg dest: masked_motor_machine split: bind_splits)
next
  case RESET
  then show ?thesis using b p by simp
qed

lemma server_mask:
  "server_call cnt g room pb err w = Some (w', cs) \<Longrightarrow> streamActive (mb w') = streamActive (mb w) \<and> hw_calls cs = []"
  by (auto simp: server_call_def Let_def write_fields split: if_splits bind_splits elim!: modbus_recv_cfg)

text \<open>
  A run of the firmware with the interrupt mask register: after a reset the register is 0, every
  write of the firmware changes it, and what the main program reads is what is there. The lines of
  the encoder's channels are 6 and 7; the driver library may set others during start-up.
\<close>

inductive mask_reach :: "'f platform \<Rightarrow> u32 \<Rightarrow> pc \<times> 'f firmware \<Rightarrow> bool" for pf where
  start: "boot pf be (firmware0 f) = Some (w, cs) \<Longrightarrow>
     bit imr 6 = bit (reg_after EXTI_IMR 0 (hw_calls cs)) 6 \<Longrightarrow>
     bit imr 7 = bit (reg_after EXTI_IMR 0 (hw_calls cs)) 7 \<Longrightarrow> mask_reach pf imr (NETWORK, w)"
| main: "mask_reach pf (hw_imr h) (c, w) \<Longrightarrow> fw_step pf (Main h i) (c, w) = Some (c', w', cs) \<Longrightarrow>
     mask_reach pf (reg_after EXTI_IMR (hw_imr h) (hw_calls cs)) (c', w')"
| server: "mask_reach pf imr (c, w) \<Longrightarrow> fw_step pf (Server cnt g room pb err) (c, w) = Some (c', w', cs) \<Longrightarrow>
     mask_reach pf (reg_after EXTI_IMR imr (hw_calls cs)) (c', w')"
| interrupt: "mask_reach pf imr (c, w) \<Longrightarrow> fw_step pf (Irq q) (c, w) = Some (c', w', cs) \<Longrightarrow>
     mask_reach pf (reg_after EXTI_IMR imr (hw_calls cs)) (c', w')"

lemma mask_reach_bit:
  assumes "n = 6 \<or> n = 7"
  shows "mask_reach pf imr s \<Longrightarrow> bit imr n = streamActive (mb (snd s))"
proof (induction rule: mask_reach.induct)
  case (start be f w cs imr)
  then have "bit imr n = bit (reg_after EXTI_IMR 0 (hw_calls cs)) n" using assms by blast
  then show ?case using boot_mask [OF start(1)] by (simp add: masked_reg)
next
  case (main h c w i c' w' cs)
  then show ?case using phase_mask [OF assms, of h w pf i c c' w' cs] by (cases c) auto
next
  case (server imr c w cnt g room pb err c' w' cs)
  then show ?case by (cases c) (auto dest: server_mask)
next
  case (interrupt imr c w q c' w' cs)
  show ?case
  proof (cases "c = RESET")
    case False
    then have q: "irq_step q w = Some (w', cs)" using interrupt(2) by (cases c) auto
    then show ?thesis using interrupt(3) masked_irq [OF q] irq_kept [OF q] by (simp add: masked_reg kept_def)
  qed (use interrupt in simp)
qed

end
