(* ===== verification/Main_Props.thy ===== *)
theory Main_Props
  imports Main_Mask
begin

text \<open>
  What the firmware as a whole guarantees: the absence of undefined behaviour, the protection of a
  moving motor, the priorities of the commands, the truth of the stream flag, the life of the
  parameters across a save and a restart, and the first pass.
\<close>

section \<open>Safety\<close>

text \<open>
  C1: the firmware never leaves defined behaviour. From a start-up with sound parameters, in whatever
  order the main program, the network and the interrupts take turns and whatever the hardware
  delivers, the next step of each is defined, and it leads to a state of the same kind: no conversion
  is out of range, no store outside its buffer, no division by zero. This is so as long as the
  network is admissible: no client writes a speed of 200 RPM or more or a baud rate of 0, and each
  received buffer lies in memory that goes on for twelve bytes from its payload pointer, which the
  server reads even behind a frame that is shorter.
\<close>

theorem firmware_never_fails:
  assumes "fw_reach pf (c, w)" "admissible e"
  shows "\<exists>c' w' cs. fw_step pf e (c, w) = Some (c', w', cs) \<and> fw_reach pf (c', w') \<and>
    profile_wf (shaft (fw_motor w')) \<and> lamps_inv (fw_lamps w') \<and> params_ok (mb w')"
proof -
  obtain c' w' cs where s: "fw_step pf e (c, w) = Some (c', w', cs)" "fw_inv (c', w')"
    using fw_step_ok [OF fw_reach_inv [OF assms(1)] assms(2)] by blast
  from stepped [OF assms s(1)] s show ?thesis by (auto simp: fw_inv_def motor_ok_def)
qed

text \<open>
  Without that restriction it does: after a write of baud rate 0 the next command phase divides by it.
\<close>

lemma zero_baud_divides:
  "main_phase pf e i COMMANDS (w\<lparr>mb := write_register REG_UART_BAUD 0 (mb w)\<rparr>) = None"
  by (simp add: baud_zero_def write_register_def)

text \<open>
  C2: a turning motor is left alone. In every state reachable with an admissible network (no client
  writes a speed of 200 RPM or more or a baud rate of 0, and received buffers lie in memory of at
  least twelve bytes) in which the motor is not stopped, its frequency is between the start and the
  target frequency of the profile, and whatever admissible event happens next neither replaces the
  profile the interrupt is following nor drives the direction pin, although the main program decides
  on a motor state it read earlier.
\<close>

theorem moving_motor_protected:
  assumes "fw_reach pf (c, w)" "admissible e" "fw_step pf e (c, w) = Some (c', w', cs)"
    and "\<not> at_rest (fw_motor w)"
  shows "shaft (fw_motor w') = shaft (fw_motor w) \<and> pin_after GPIOA DIR_PIN l (hw_calls cs) = l \<and>
    f32_val (sp_startFreq (shaft (fw_motor w))) \<le> f32_val (currentFreq (fw_motor w)) \<and>
    f32_val (currentFreq (fw_motor w)) \<le> f32_val (sp_targetFreq (shaft (fw_motor w)))"
proof -
  have inv: "fw_inv (c, w)" using assms(1) by (rule fw_reach_inv)
  then have "motor_inv (fw_motor w)" using assms(4) by (simp add: fw_inv_def motor_ok_def)
  moreover have "gentle (fw_motor w) (fw_motor w') cs" using fw_step_ok [OF inv assms(2), of pf] assms(3) by auto
  ultimately show ?thesis using assms(4) by (simp add: gentle_def quiet_pin motor_inv_def at_rest_def)
qed

lemma motor_machine_result:
  assumes inv: "fw_inv (MOTOR, w)"
  shows "\<exists>w' cs. motor_machine w = Some (w', cs) \<and>
    (if motorState w = STATE_STOPPED
     then at_rest (fw_motor w) \<and>
       (if sysMotorRunRequest w
        then motor.currentState (fw_motor w') = STATE_ACCELERATING \<and>
          shaft (fw_motor w') = profile_of (mb_targetRPM (mb w)) (mb_accelTimeSec (mb w))
            (mb_microsteps (mb w)) (shaft (fw_motor w))
        else fw_motor w' = fw_motor w)
     else fw_motor w' =
       (if sysMotorRunRequest w \<or> motorState w = STATE_DECELERATING then fw_motor w
        else (fw_motor w)\<lparr>motor.currentState := STATE_DECELERATING\<rparr>))"
proof -
  from inv have f: "follows (motorState w) (motor.currentState (fw_motor w))" by (simp add: fw_inv_def)
  have p: "params_ok (mb w)" "motor_ok (fw_motor w)" using inv by (simp_all add: fw_inv_def)
  show ?thesis
  proof (cases "motorState w = STATE_STOPPED")
    case True
    then have rest: "at_rest (fw_motor w)" using f by (simp add: follows_def at_rest_def)
    have wf: "profile_wf (shaft (fw_motor w))" using p(2) by (simp add: motor_ok_def)
    let ?p = "profile_of (mb_targetRPM (mb w)) (mb_accelTimeSec (mb w)) (mb_microsteps (mb w))
        (shaft (fw_motor w))"
    let ?m = "(fw_motor w)\<lparr>shaft := ?p\<rparr>"
    have "ramp_ok (shaft ?m)" using profile_of_ramp_ok [OF wf] p(1) by (simp add: params_ok_def)
    moreover have "motor.currentState ?m = STATE_STOPPED" using rest by (simp add: at_rest_def)
    ultimately obtain cs where "App_Motor_Start (mb_motorDirection (mb w)) ?m =
        Some (?m\<lparr>currentFreq := sp_startFreq (shaft ?m), motor.currentState := STATE_ACCELERATING\<rparr>, cs)"
      by (metis motor_start_ok)
    then show ?thesis using True rest
      by (simp add: motor_machine_def CalculateProfile_eq [OF wf] Let_def case_prod_beta)
  next
    case False
    then show ?thesis using f
      by (cases "motorState w")
        (auto simp: motor_machine_def App_Motor_Stop_def follows_def Let_def case_prod_beta)
  qed
qed

text \<open>
  C7: what a pass decides. In a reachable state before the motor phase, a run request starts the
  motor exactly if the loop saw it stopped, with the profile of the current parameters; without
  one, a motor seen accelerating or cruising starts to decelerate; in all other cases the motor is
  not touched. A motor seen stopped is still stopped.
\<close>

theorem motor_phase_decides:
  assumes "fw_reach pf (MOTOR, w)"
  shows "\<exists>w' cs. motor_machine w = Some (w', cs) \<and>
    (if motorState w = STATE_STOPPED
     then at_rest (fw_motor w) \<and>
       (if sysMotorRunRequest w
        then motor.currentState (fw_motor w') = STATE_ACCELERATING \<and>
          shaft (fw_motor w') = profile_of (mb_targetRPM (mb w)) (mb_accelTimeSec (mb w))
            (mb_microsteps (mb w)) (shaft (fw_motor w))
        else fw_motor w' = fw_motor w)
     else fw_motor w' =
       (if sysMotorRunRequest w \<or> motorState w = STATE_DECELERATING then fw_motor w
        else (fw_motor w)\<lparr>motor.currentState := STATE_DECELERATING\<rparr>))"
  by (rule motor_machine_result [OF fw_reach_inv [OF assms]])

section \<open>Commands\<close>

text \<open>
  C8: who wins. After the command phase the run request is the last word of: a network stop, a
  network start, a change of the physical switch, the request before; so a stop beats a start of
  the same pass and the network beats the switch. The stream is off after a stop, on after a start;
  every pending flag except save and reboot is acknowledged, and nothing else in the record changes.
\<close>

theorem commands_priority:
  "sysMotorRunRequest (fst (arbitrate pf e w)) =
     (if pendingMotorStop (mb w) then False
      else if pendingMotorStart (mb w) then True
      else if currentSwitchState w \<noteq> lastSwitchState w then currentSwitchState w
      else sysMotorRunRequest w)
   \<and> lastSwitchState (fst (arbitrate pf e w)) = currentSwitchState w
   \<and> mb (fst (arbitrate pf e w)) = (mb w)\<lparr>pendingMotorStart := False, pendingMotorStop := False,
        pendingStreamStart := False, pendingStreamStop := False, pendingEncoderDir := False,
        pendingBaudChange := False,
        streamActive := (\<not> pendingStreamStop (mb w) \<and> (streamActive (mb w) \<or> pendingStreamStart (mb w)))\<rparr>"
  by (simp only: arbitrate_flags arbitrate_mb simp_thms)

text \<open>
  C21: the stream flag tells the truth. Along every run from a start-up, whatever the order of main
  program, server and interrupts and whatever commands arrive, the interrupt lines of both encoder
  channels are unmasked exactly when the stream is marked active: a baud change pauses a running
  stream and resumes it, and does not start one that is off.
\<close>

theorem stream_flag_truthful:
  assumes "mask_reach pf imr (c, w)" "n = 6 \<or> n = 7"
  shows "bit imr n \<longleftrightarrow> streamActive (mb w)"
  using mask_reach_bit [OF assms(2,1)] by simp

section \<open>Parameters across a restart\<close>

text \<open>
  C5: a saved configuration is the configuration after the restart. If a save command is executed,
  the flash accepts it, which the main program does not check, and the baud rate is not 0, then a
  start-up that comes to the loop with the same flash brings up a parameter record with the same
  speed, ramp time, direction, encoder sense, baud rate, stream option, microsteps and addresses.
  The stream is off, and its start is pending exactly if the stream option says so; no other command
  is pending.
\<close>

theorem save_then_restart:
  assumes "flash_ok (pf_flash pf)" "pendingSaveCmd (mb w)"
    and "snd (snd (App_Settings_Save (pf_flash pf) (pf_crc pf) (config_of (mb w) (newCfg w)) (settings w)))"
    and "starts_up be" "mb_uartBaudRate (mb w) \<noteq> 0"
  shows "\<exists>w' cs. boot pf be (firmware0 (flash (settings (fst (process_save pf w))))) = Some (w', cs) \<and>
    mb w' = (mb w)\<lparr>pendingMotorStart := False, pendingMotorStop := False,
      pendingStreamStart := mb_autoStartStream (mb w), pendingStreamStop := False,
      pendingEncoderDir := False, pendingBaudChange := False, pendingSaveCmd := False,
      pendingRebootCmd := False, streamActive := False\<rparr>"
proof -
  let ?n = "config_of (mb w) (newCfg w)"
  obtain st cs where s: "App_Settings_Save (pf_flash pf) (pf_crc pf) ?n (settings w) = (st, cs, True)"
    using assms(3) by (cases "App_Settings_Save (pf_flash pf) (pf_crc pf) ?n (settings w)") auto
  have n: "config_of ((mb w)\<lparr>pendingSaveCmd := False\<rparr>) (newCfg w) = ?n"
    by (simp add: config_of_def)
  have st: "settings (fst (process_save pf w)) = st"
    by (simp add: process_save_def assms(2) n s Let_def)
  let ?i = "\<lparr>flash = flash st, activeSettings = settings_of_words (replicate 12 0)\<rparr>"
  have a: "activeSettings (fst (App_Settings_Init (pf_flash pf) (pf_crc pf) (be_crc be) ?i)) =
      sealed (pf_crc pf) ?n"
    using Save_True(1) [OF assms(1) s] sealed_valid [of "pf_crc pf" ?n]
    by (simp add: Init_cases Let_def)
  have e: "sync_modbus (sealed (pf_crc pf) ?n) ModbusCfg0 = (mb w)\<lparr>pendingMotorStart := False,
      pendingMotorStop := False,
      pendingStreamStart := mb_autoStartStream (mb w), pendingStreamStop := False,
      pendingEncoderDir := False, pendingBaudChange := False, pendingSaveCmd := False,
      pendingRebootCmd := False, streamActive := False\<rparr>"
    by (cases "mb w") (simp add: sync_modbus_def sealed_def config_of_def ModbusCfg0_def Let_def
        ucast_down_ucast_id is_down)
  have i: "activeSettings (new_settings pf be (flash st)) = sealed (pf_crc pf) ?n"
    using a by (simp only: new_settings_def)
  then have "uartBaudRate (activeSettings (new_settings pf be (flash st))) \<noteq> 0"
    using assms(5) by (simp add: sealed_def config_of_def Let_def)
  from boot_eq [OF assms(4) this] obtain w' cs' where b: "boot pf be (firmware0 (flash st)) = Some (w', cs')"
      "mb w' = sync_modbus (sealed (pf_crc pf) ?n) ModbusCfg0"
    by (auto simp only: i)
  show ?thesis using b by (simp only: st e) blast
qed

section \<open>The first pass\<close>

text \<open>A run of the firmware, by the events that happen.\<close>

fun fw_run :: "'f platform \<Rightarrow> event list \<Rightarrow> pc \<times> 'f firmware \<Rightarrow> (pc \<times> 'f firmware) option" where
  "fw_run pf [] s = Some s"
| "fw_run pf (e # es) s = do { (c, w, cs) \<leftarrow> fw_step pf e s; fw_run pf es (c, w) }"

lemma fw_run_append: "fw_run pf (es @ fs) s = fw_run pf es s \<bind> fw_run pf fs"
  by (induction es arbitrary: s) (auto split: bind_splits)

lemma fw_run_irqs:
  "c \<noteq> RESET \<Longrightarrow> irqs is w = Some (w', cs) \<Longrightarrow> fw_run pf (map Irq is) (c, w) = Some (c, w')"
proof (induction "is" arbitrary: w cs)
  case (Cons i "is")
  then obtain v ds es where v: "irq_step i w = Some (v, ds)" "irqs is v = Some (w', es)" by (auto split: bind_splits)
  have "fw_step pf (Irq i) (c, w) = Some (c, v, ds)" using v(1) Cons.prems(1) by (cases c) simp_all
  then show ?case using Cons.IH [OF Cons.prems(1) v(2)] by simp
qed simp

lemma irqs_inv: "fw_inv (c, w) \<Longrightarrow> irqs is w = Some (w', cs) \<Longrightarrow> fw_inv (c, w')"
proof (induction "is" arbitrary: w cs)
  case (Cons i "is")
  then obtain v ds es where v: "irq_step i w = Some (v, ds)" "irqs is v = Some (w', es)" by (auto split: bind_splits)
  moreover have "fw_inv (c, v)" using irq_ok [OF Cons.prems(1), of i] v(1) by auto
  ultimately show ?case using Cons.IH by blast
qed simp

lemma sync_modbus_fields [simp]:
  "pendingMotorStart (sync_modbus s ModbusCfg0) = False" "pendingMotorStop (sync_modbus s ModbusCfg0) = False"
  "pendingSaveCmd (sync_modbus s ModbusCfg0) = False" "pendingRebootCmd (sync_modbus s ModbusCfg0) = False"
  "mb_targetRPM (sync_modbus s m) = targetRPM s" "mb_accelTimeSec (sync_modbus s m) = accelTimeSec s"
  by (simp_all add: sync_modbus_def ModbusCfg0_def Let_def)

text \<open>A phase and the interrupts after it, while the motor is at rest.\<close>

lemma phase_then_irqs:
  assumes "main_phase pf e i c w = Some (c', w1, cs)" "c \<noteq> RESET" "c' \<noteq> RESET" "at_rest (fw_motor w1)" "fw_inv (c', w1)"
  obtains w' where "fw_run pf (Main e i # map Irq is) (c, w) = Some (c', w')" "kept w1 w'" "fw_inv (c', w')"
proof -
  have s: "fw_step pf (Main e i) (c, w) = Some (c', w1, cs)" using assms(1,2) by (cases c) simp_all
  obtain w' ds where i: "irqs is w1 = Some (w', ds)" using irqs_at_rest [OF assms(4)] by blast
  have "fw_run pf (Main e i # map Irq is) (c, w) = Some (c', w')"
    using s fw_run_irqs [OF assms(3) i] by simp
  then show thesis using that irqs_kept [OF i] irqs_inv [OF assms(5) i] by blast
qed

lemma first_pass:
  assumes b: "boot pf be (firmware0 f) = Some (w, cs)" "params_ok (mb w)"
  shows "\<exists>v w'. fw_run pf ((Main e1 i1 # map Irq is1) @ (Main e2 i2 # map Irq is2) @ (Main e3 i3 # map Irq is3))
      (NETWORK, w) = Some (MOTOR, v) \<and>
    fw_run pf [Main e4 i4] (MOTOR, v) = Some (NETWORK, w') \<and>
    (if App_Switch_GetState (fw_switch w)
     then motor.currentState (fw_motor w') = STATE_ACCELERATING else fw_motor w' = motor0)"
proof -
  have w: "fw_motor w = motor0" "lastSwitchState w = False" "sysMotorRunRequest w = False"
      "mb w = sync_modbus (activeSettings (settings w)) ModbusCfg0"
    using boot_eq [OF boot_SomeD [OF b(1)]] b(1) by auto
  have rest: "at_rest motor0" by (simp add: at_rest_def motor0_def)
  let ?c = "App_Switch_GetState (fw_switch w)"
  obtain n cs1 where n: "main_phase pf e1 i1 NETWORK w = Some (SAVE, read_inputs (w\<lparr>net := n\<rparr>), cs1)"
    by (simp add: Let_def case_prod_beta)
  let ?r = "read_inputs (w\<lparr>net := n\<rparr>)"
  have r: "fw_motor ?r = motor0" "currentSwitchState ?r = ?c" "lastSwitchState ?r = False"
      "sysMotorRunRequest ?r = False" "motorState ?r = STATE_STOPPED" "mb ?r = mb w"
    using w(1-3) by (simp_all add: read_inputs_def App_Motor_GetState_def motor0_def Let_def)
  have "fw_inv (SAVE, ?r)" using network_phase_ok [OF boot_inv [OF b], of pf e1 i1] n by auto
  then obtain w1 where w1: "fw_run pf (Main e1 i1 # map Irq is1) (NETWORK, w) = Some (SAVE, w1)" "kept ?r w1" "fw_inv (SAVE, w1)"
    using phase_then_irqs [OF n] r(1) rest by (metis pc.distinct(7) pc.distinct(13))
  have s: "main_phase pf e2 i2 SAVE w1 = Some (COMMANDS, w1, [])"
    using w1(2) r(6) w(4) by (simp add: process_save_def kept_def Let_def)
  have m1: "fw_motor w1 = motor0" using w1(2) r(1) rest by (simp add: kept_def)
  have "fw_inv (COMMANDS, w1)" using save_phase_ok [OF w1(3), of pf e2 i2] s by auto
  then obtain w2 where w2: "fw_run pf (Main e2 i2 # map Irq is2) (SAVE, w1) = Some (COMMANDS, w2)" "kept w1 w2" "fw_inv (COMMANDS, w2)"
    using phase_then_irqs [OF s] m1 rest by (metis pc.distinct(13) pc.distinct(17))
  have m2: "fw_motor w2 = motor0" using w2(2) m1 rest by (simp add: kept_def)
  let ?v = "fst (arbitrate pf e3 w2)"
  have k2: "mb w2 = mb w" "currentSwitchState w2 = ?c" "lastSwitchState w2 = False"
      "sysMotorRunRequest w2 = False" "motorState w2 = STATE_STOPPED"
    using w1(2) w2(2) r by (simp_all add: kept_def)
  have v: "pendingRebootCmd (mb ?v) = False" "motorState ?v = STATE_STOPPED"
      "fw_motor ?v = motor0" "sysMotorRunRequest ?v = ?c"
    using frame_arbitrate [of pf, unfolded frame_def, THEN spec, THEN spec, of e3 w2] k2 w(4) m2
    by (simp_all add: arbitrate_mb arbitrate_flags)
  obtain c3 v' cs3 where c3: "main_phase pf e3 i3 COMMANDS w2 = Some (c3, v', cs3)" "fw_inv (c3, v')"
      "c3 = (if pendingRebootCmd (mb ?v) then RESET else MOTOR)"
    using commands_phase_ok [OF w2(3), of pf e3 i3] by blast
  then have c: "main_phase pf e3 i3 COMMANDS w2 = Some (MOTOR, ?v, cs3)" "fw_inv (MOTOR, ?v)"
    using v(1) by (auto simp: reboot_command_def Let_def case_prod_beta split: if_splits)
  then obtain w3 where w3: "fw_run pf (Main e3 i3 # map Irq is3) (COMMANDS, w2) = Some (MOTOR, w3)" "kept ?v w3" "fw_inv (MOTOR, w3)"
    using phase_then_irqs [OF c(1)] v(3) rest by (metis pc.distinct(17) pc.distinct(19))
  have k3: "motorState w3 = STATE_STOPPED" "fw_motor w3 = motor0" "sysMotorRunRequest w3 = ?c"
    using w3(2) v rest by (simp_all add: kept_def)
  from motor_machine_result [OF w3(3)] k3 obtain w' cs' where m: "motor_machine w3 = Some (w', cs')"
    "if ?c then motor.currentState (fw_motor w') = STATE_ACCELERATING else fw_motor w' = motor0"
    by (auto split: if_splits)
  have "fw_run pf ((Main e1 i1 # map Irq is1) @ (Main e2 i2 # map Irq is2) @ (Main e3 i3 # map Irq is3)) (NETWORK, w) = Some (MOTOR, w3)"
    unfolding fw_run_append w1(1) bind.bind_lunit w2(1) w3(1) ..
  moreover have "fw_run pf [Main e4 i4] (MOTOR, w3) = Some (NETWORK, w')" using m(1) by simp
  ultimately show ?thesis using m(2) by blast
qed

text \<open>The samples of the switch from its initialisation to the loop, newest first.\<close>

definition boot_samples :: "boot_env \<Rightarrow> bool list" where
  "boot_samples be = rev (map HAL_Switch_GetRawState (be_switch be # levels (boot_irqs be)))"

text \<open>
  C40: a switch that is on when the loop begins starts the motor. The loop compares the debounced
  switch with a previous state that starts as off; so after power-up, with no request from the
  network, the first pass starts the motor if the debounced state is on, and leaves it as it was
  after power-up otherwise, whatever interrupts come in between. That state is the one decided by
  the samples taken at the initialisation and at every tick of the start-up delays; if the last 51
  of them agree, it is what they say.
\<close>

theorem switch_on_at_boot:
  assumes "boot pf be (firmware0 f) = Some (w, cs)" "params_ok (mb w)"
  shows "\<exists>w'. fw_run pf (Main e1 i1 # map Irq is1 @ Main e2 i2 # map Irq is2 @ Main e3 i3 # map Irq is3 @ [Main e4 i4])
      (NETWORK, w) = Some (NETWORK, w') \<and>
    (if debounced (boot_samples be)
     then motor.currentState (fw_motor w') = STATE_ACCELERATING else fw_motor w' = motor0) \<and>
    (\<forall>on. (\<forall>x \<in> set (take 51 (boot_samples be)). x = on) \<longrightarrow> debounced (boot_samples be) = on)"
proof -
  obtain s where "fw_switch w = fold App_Switch_Tick_1ms (levels (boot_irqs be)) (fst (App_Switch_Init (be_switch be) s))"
    using boot_eq [OF boot_SomeD [OF assms(1)]] assms(1) by auto
  then have st: "App_Switch_GetState (fw_switch w) = debounced (boot_samples be)"
    by (simp only: state_after_init boot_samples_def)
  have "5000 \<le> length (levels (be_wait be))" using boot_SomeD(1) [OF assms(1)] by (simp add: starts_up_def)
  then have "51 \<le> length (boot_samples be)" by (simp add: boot_samples_def boot_irqs_def)
  then have steady: "\<forall>on. (\<forall>x \<in> set (take 51 (boot_samples be)). x = on) \<longrightarrow> debounced (boot_samples be) = on"
    using debounced_steady by blast
  obtain v w' where "fw_run pf ((Main e1 i1 # map Irq is1) @ (Main e2 i2 # map Irq is2) @ (Main e3 i3 # map Irq is3))
      (NETWORK, w) = Some (MOTOR, v)" "fw_run pf [Main e4 i4] (MOTOR, v) = Some (NETWORK, w')"
    and m: "if debounced (boot_samples be) then motor.currentState (fw_motor w') = STATE_ACCELERATING
      else fw_motor w' = motor0"
    using first_pass [OF assms] unfolding st by blast
  then have "fw_run pf (((Main e1 i1 # map Irq is1) @ (Main e2 i2 # map Irq is2) @ (Main e3 i3 # map Irq is3)) @ [Main e4 i4])
      (NETWORK, w) = Some (NETWORK, w')"
    unfolding fw_run_append by (simp only: bind.bind_lunit)
  then show ?thesis using m steady by (simp only: append_assoc append_Cons) blast
qed

section \<open>Witnesses\<close>

text \<open>A platform with an erased flash, and a start-up on it with everything in order.\<close>

definition demo_pf :: "nor_flash platform" where
  "demo_pf = \<lparr>pf_flash = nor_driver, pf_crc = xor_crc, pf_brr = (\<lambda>clk baud. clk div baud), pf_phy = lan8742\<rparr>"

definition demo_boot :: boot_env where
  "demo_boot = \<lparr>be_osc = HAL_OK, be_clk = HAL_OK, be_crc = HAL_OK, be_exticr1 = 0, be_ccer = 0,
     be_switch = False, be_eth = HAL_OK, be_phy_ok = True, be_phy = 2, be_pcb = True, be_bind = 0,
     be_sysclk = 168000000, be_early = [SysTick False], be_mid = [EthIrq],
     be_wait = replicate 5000 (SysTick False), be_reset = replicate 75 (SysTick False), be_late = []\<rparr>"

definition demo_fw :: "nor_flash firmware" where
  "demo_fw = fst (the (boot demo_pf demo_boot (firmware0 (flash blank))))"

definition demo_hw :: hw_env where
  "demo_hw = \<lparr>hw_imr = 0, hw_rtsr = 0, hw_ftsr = 0, hw_ccer = 0, hw_pclk2 = 84000000, hw_gReady = True,
     hw_rxReady = True\<rparr>"

definition demo_poll :: poll_in where
  "demo_poll = \<lparr>pi_pool = rx_pool0, pi_rx = [], pi_tick1 = 0, pi_tick2 = 0, pi_phy = 2\<rparr>"

lemma blank_settings:
  "targetRPM (activeSettings (fst (App_Settings_Init nor_driver xor_crc st \<lparr>flash = flash blank, activeSettings = r\<rparr>)))
     = f32_lit 8"
  "accelTimeSec (activeSettings (fst (App_Settings_Init nor_driver xor_crc st \<lparr>flash = flash blank, activeSettings = r\<rparr>)))
     = f32_lit 5"
  "uartBaudRate (activeSettings (fst (App_Settings_Init nor_driver xor_crc st \<lparr>flash = flash blank, activeSettings = r\<rparr>)))
     = 230400"
proof -
  let ?s = "\<lparr>flash = flash blank, activeSettings = r\<rparr>"
  have "\<not> (magicWord (flashMemory nor_driver (flash ?s)) = SETTINGS_MAGIC_WORD \<and>
      CalculateSettingsCRC xor_crc (flashMemory nor_driver (flash ?s)) = crc32 (flashMemory nor_driver (flash ?s)))"
    by (simp add: flashMemory_def settings_of_words_def upt_conv_Cons nor_driver_def blank_def
        SETTINGS_MAGIC_WORD_def)
  note m = this
  obtain b cs ok where r: "App_Settings_Save nor_driver xor_crc defaultSettings
      (?s\<lparr>activeSettings := defaultSettings\<rparr>) = (b, cs, ok)"
    by (cases "App_Settings_Save nor_driver xor_crc defaultSettings (?s\<lparr>activeSettings := defaultSettings\<rparr>)")
  have a: "activeSettings b = sealed xor_crc defaultSettings \<or> activeSettings b = defaultSettings"
  proof (cases ok)
    case True
    then show ?thesis using Save_True(2) [OF nor_driver_ok] r by metis
  next
    case False
    then have "activeSettings b = activeSettings (?s\<lparr>activeSettings := defaultSettings\<rparr>)"
      using Save_False(1) [OF nor_driver_ok] r by metis
    then show ?thesis by simp
  qed
  have b: "fst (App_Settings_Init nor_driver xor_crc st ?s) = b"
    by (subst Init_cases) (simp only: Let_def m if_False r fst_conv)
  show "targetRPM (activeSettings (fst (App_Settings_Init nor_driver xor_crc st ?s))) = f32_lit 8"
    "accelTimeSec (activeSettings (fst (App_Settings_Init nor_driver xor_crc st ?s))) = f32_lit 5"
    "uartBaudRate (activeSettings (fst (App_Settings_Init nor_driver xor_crc st ?s))) = 230400"
    using a unfolding b by (auto simp only: sealed_def defaultSettings_def Let_def system_settings.simps)
qed

lemma levels_replicate: "levels (replicate n (SysTick l)) = replicate n l"
  by (induction n) simp_all

lemma demo_boot_levels: "levels (boot_irqs demo_boot) = replicate 5075 False"
  by (simp add: boot_irqs_def demo_boot_def levels_replicate replicate_add [symmetric])

lemma demo_starts_up: "starts_up demo_boot"
  by (simp add: starts_up_def demo_boot_def levels_replicate)

lemma demo_boot_ok:
  "\<exists>cs. boot demo_pf demo_boot (firmware0 (flash blank)) = Some (demo_fw, cs)" "params_ok (mb demo_fw)"
proof -
  have n: "new_settings demo_pf demo_boot (flash blank) = fst (App_Settings_Init nor_driver xor_crc HAL_OK
       \<lparr>flash = flash blank, activeSettings = settings_of_words (replicate 12 0)\<rparr>)"
    by (simp add: new_settings_def demo_pf_def demo_boot_def)
  have "uartBaudRate (activeSettings (new_settings demo_pf demo_boot (flash blank))) \<noteq> 0"
    unfolding n blank_settings by simp
  from boot_eq [OF demo_starts_up this]
  obtain w cs where w: "boot demo_pf demo_boot (firmware0 (flash blank)) = Some (w, cs)"
    "settings w = fst (App_Settings_Init nor_driver xor_crc HAL_OK
       \<lparr>flash = flash blank, activeSettings = settings_of_words (replicate 12 0)\<rparr>)"
    "mb w = sync_modbus (activeSettings (settings w)) ModbusCfg0"
    unfolding n by blast
  then have d: "demo_fw = w" by (simp add: demo_fw_def)
  show "\<exists>cs. boot demo_pf demo_boot (firmware0 (flash blank)) = Some (demo_fw, cs)" using w d by blast
  have "params_ok (ModbusCfg0\<lparr>mb_targetRPM := f32_lit 8, mb_accelTimeSec := f32_lit 5\<rparr>)" by code_simp
  moreover have "mb_targetRPM (mb w) = f32_lit 8" "mb_accelTimeSec (mb w) = f32_lit 5"
    by (simp_all only: w(2,3) sync_modbus_fields blank_settings)
  ultimately show "params_ok (mb demo_fw)" unfolding d
    using params_ok_cong [of "mb w" "ModbusCfg0\<lparr>mb_targetRPM := f32_lit 8, mb_accelTimeSec := f32_lit 5\<rparr>"]
    by simp
qed

lemma demo_reach: "fw_reach demo_pf (NETWORK, demo_fw)"
proof -
  obtain cs where "boot demo_pf demo_boot (firmware0 (flash blank)) = Some (demo_fw, cs)"
    using demo_boot_ok(1) by blast
  from started [OF this demo_boot_ok(2)] show ?thesis .
qed

theorem firmware_never_fails_witness:
  "\<exists>c' w' cs. fw_step demo_pf (Irq (SysTick True)) (NETWORK, demo_fw) = Some (c', w', cs) \<and> params_ok (mb w')"
  using firmware_never_fails [OF demo_reach, of "Irq (SysTick True)"] by auto

lemma fw_run_reach:
  "fw_reach pf (c, w) \<Longrightarrow> list_all admissible es \<Longrightarrow> fw_run pf es (c, w) = Some s \<Longrightarrow> fw_reach pf s"
proof (induction es arbitrary: c w)
  case (Cons e es)
  obtain c' w' cs where s: "fw_step pf e (c, w) = Some (c', w', cs)" "fw_run pf es (c', w') = Some s"
    using Cons.prems(3) by (auto split: bind_splits)
  have "fw_reach pf (c', w')" by (rule stepped [OF Cons.prems(1) _ s(1)]) (use Cons.prems(2) in simp)
  then show ?case using s(2) Cons.prems(2) by (intro Cons.IH) simp_all
qed simp

lemma demo_samples: "\<forall>x \<in> set (boot_samples demo_boot). x = True"
  unfolding boot_samples_def demo_boot_levels by (simp add: demo_boot_def HAL_Switch_GetRawState_def)

lemma demo_switch: "App_Switch_GetState (fw_switch demo_fw) = True"
proof -
  obtain cs where b: "boot demo_pf demo_boot (firmware0 (flash blank)) = Some (demo_fw, cs)"
    using demo_boot_ok(1) by blast
  obtain s where "fw_switch demo_fw =
      fold App_Switch_Tick_1ms (levels (boot_irqs demo_boot)) (fst (App_Switch_Init (be_switch demo_boot) s))"
    using boot_eq [OF boot_SomeD [OF b]] b by auto
  then have "App_Switch_GetState (fw_switch demo_fw) = debounced (boot_samples demo_boot)"
    by (simp only: state_after_init boot_samples_def)
  moreover have "boot_samples demo_boot \<noteq> []" by (simp add: boot_samples_def)
  ultimately show ?thesis using debounced_all demo_samples by metis
qed

lemma demo_states:
  obtains v w where "fw_reach demo_pf (MOTOR, v)" "fw_reach demo_pf (NETWORK, w)"
    "motor.currentState (fw_motor w) = STATE_ACCELERATING"
proof -
  obtain cs where "boot demo_pf demo_boot (firmware0 (flash blank)) = Some (demo_fw, cs)"
    using demo_boot_ok(1) by blast
  from first_pass [OF this demo_boot_ok(2), of demo_hw demo_poll "[]" demo_hw demo_poll "[]" demo_hw demo_poll "[]"]
  obtain v w where r: "fw_run demo_pf [Main demo_hw demo_poll, Main demo_hw demo_poll, Main demo_hw demo_poll]
      (NETWORK, demo_fw) = Some (MOTOR, v)" "fw_run demo_pf [Main demo_hw demo_poll] (MOTOR, v) = Some (NETWORK, w)"
    "motor.currentState (fw_motor w) = STATE_ACCELERATING"
    unfolding demo_switch by auto
  have "fw_reach demo_pf (MOTOR, v)" by (rule fw_run_reach [OF demo_reach _ r(1)]) simp
  moreover from this have "fw_reach demo_pf (NETWORK, w)" by (rule fw_run_reach [OF _ _ r(2)]) simp
  ultimately show thesis using r(3) that by blast
qed

theorem moving_motor_protected_witness:
  "\<exists>w c' w' cs. fw_reach demo_pf (NETWORK, w) \<and> \<not> at_rest (fw_motor w) \<and>
    fw_step demo_pf (Irq (SysTick True)) (NETWORK, w) = Some (c', w', cs) \<and>
    shaft (fw_motor w') = shaft (fw_motor w)"
proof -
  obtain w where w: "fw_reach demo_pf (NETWORK, w)" "\<not> at_rest (fw_motor w)"
    by (rule demo_states) (simp add: at_rest_def)
  have a: "admissible (Irq (SysTick True))" by simp
  from fw_step_ok [OF fw_reach_inv [OF w(1)] a, of demo_pf]
  obtain c' w' cs where "fw_step demo_pf (Irq (SysTick True)) (NETWORK, w) = Some (c', w', cs)" by blast
  with moving_motor_protected [OF w(1) a this w(2)] w show ?thesis by blast
qed

theorem motor_phase_decides_witness:
  "\<exists>w w' cs. fw_reach demo_pf (MOTOR, w) \<and> motor_machine w = Some (w', cs)"
proof -
  obtain v where "fw_reach demo_pf (MOTOR, v)" by (rule demo_states)
  with motor_phase_decides [OF this] show ?thesis by blast
qed

text \<open>A client switches the stream on: a run with one request and three phases.\<close>

definition stream_request :: pbuf where
  "stream_request = \<lparr>payload = (\<lambda>i. [0, 1, 0, 0, 0, 6, 1, 6, 1, 44, 0, 1] ! i), pb_len = 12, tot_len = 12\<rparr>"

lemma stream_requested:
  "\<exists>cs r. modbus_recv_cb env garbage (Some stream_request) 0 cfg = Some (cfg\<lparr>pendingStreamStart := True\<rparr>, cs, r)"
proof -
  have "be16 1 44 = REG_STREAM_CTRL" "be16 0 1 = 1" by code_simp+
  then show ?thesis
    by (simp add: modbus_recv_cb_def stream_request_def write_register_def Let_def)
qed

lemma with_imr:
  assumes "mask_reach pf imr s"
  obtains h :: hw_env where "mask_reach pf (hw_imr h) s"
proof -
  have "hw_imr (demo_hw\<lparr>hw_imr := imr\<rparr>) = imr" by simp
  then show thesis using assms that by metis
qed

lemma demo_stream_run:
  "\<exists>imr w. mask_reach demo_pf imr (MOTOR, w) \<and> streamActive (mb w)"
proof -
  obtain cs0 where b: "boot demo_pf demo_boot (firmware0 (flash blank)) = Some (demo_fw, cs0)"
    using demo_boot_ok(1) by blast
  define h where "h = demo_hw\<lparr>hw_imr := reg_after EXTI_IMR 0 (hw_calls cs0)\<rparr>"
  have mbd: "pendingSaveCmd (mb demo_fw) = False" "pendingStreamStop (mb demo_fw) = False"
      "pendingRebootCmd (mb demo_fw) = False" "pendingBaudChange (mb demo_fw) = False"
    using boot_eq [OF boot_SomeD [OF b]] b by (auto simp: sync_modbus_def ModbusCfg0_def Let_def)
  have m0: "mask_reach demo_pf (hw_imr h) (NETWORK, demo_fw)"
    by (rule mask_reach.start [OF b]) (simp_all add: h_def)
  let ?w = "demo_fw\<lparr>mb := (mb demo_fw)\<lparr>pendingStreamStart := True\<rparr>\<rparr>"
  obtain cs1 r1 where "modbus_recv_cb \<lparr>me_cnt = 0, me_encoder = fw_encoder demo_fw, me_motor = fw_motor demo_fw,
      me_settings = App_Settings_Get (settings demo_fw)\<rparr> [] (Some stream_request) 0 (mb demo_fw) =
      Some ((mb demo_fw)\<lparr>pendingStreamStart := True\<rparr>, cs1, r1)"
    using stream_requested by blast
  moreover have "bytes_read (Some stream_request) 0 \<le> 12" by (simp add: bytes_read_def)
  ultimately have "fw_step demo_pf (Server 0 [] 12 (Some stream_request) 0) (NETWORK, demo_fw) =
      Some (NETWORK, ?w, map Tcp cs1)"
    by (simp add: server_call_def Let_def not_less)
  from mask_reach.server [OF m0 this] obtain h1 :: hw_env where m1: "mask_reach demo_pf (hw_imr h1) (NETWORK, ?w)"
    by (rule with_imr)
  obtain n cs2 where "fw_step demo_pf (Main h1 demo_poll) (NETWORK, ?w) = Some (SAVE, read_inputs (?w\<lparr>net := n\<rparr>), cs2)"
    by (simp add: Let_def case_prod_beta)
  from mask_reach.main [OF m1 this] obtain h2 :: hw_env where m2: "mask_reach demo_pf (hw_imr h2) (SAVE, read_inputs (?w\<lparr>net := n\<rparr>))"
    by (rule with_imr)
  let ?r = "read_inputs (?w\<lparr>net := n\<rparr>)"
  have r: "mb ?r = (mb demo_fw)\<lparr>pendingStreamStart := True\<rparr>" by (simp add: read_inputs_def Let_def)
  have "fw_step demo_pf (Main h2 demo_poll) (SAVE, ?r) = Some (COMMANDS, ?r, [])"
    by (simp add: process_save_def r mbd)
  from mask_reach.main [OF m2 this] obtain h3 :: hw_env where m3: "mask_reach demo_pf (hw_imr h3) (COMMANDS, ?r)"
    by (rule with_imr)
  let ?v = "fst (arbitrate demo_pf h3 ?r)"
  have v: "pendingRebootCmd (mb ?v) = False" "streamActive (mb ?v)" by (simp_all add: arbitrate_mb r mbd)
  obtain cs4 where "fw_step demo_pf (Main h3 demo_poll) (COMMANDS, ?r) = Some (MOTOR, ?v, cs4)"
    using v(1) by (simp add: baud_zero_def r mbd reboot_command_def Let_def case_prod_beta)
  from mask_reach.main [OF m3 this] v(2) show ?thesis by blast
qed

theorem stream_flag_truthful_witness:
  "\<exists>imr w. mask_reach demo_pf imr (MOTOR, w) \<and> streamActive (mb w) \<and> bit imr 7"
proof -
  obtain imr w where m: "mask_reach demo_pf imr (MOTOR, w)" "streamActive (mb w)" using demo_stream_run by blast
  with stream_flag_truthful [OF m(1), of 7] show ?thesis by blast
qed

theorem save_then_restart_witness:
  "\<exists>w' cs. boot demo_pf demo_boot (firmware0 (flash (settings (fst (process_save demo_pf
      (demo_fw\<lparr>settings := blank, mb := ModbusCfg0\<lparr>pendingSaveCmd := True, mb_microsteps := 1600\<rparr>\<rparr>)))))) =
    Some (w', cs) \<and> mb_microsteps (mb w') = 1600"
proof -
  let ?w = "demo_fw\<lparr>settings := blank, mb := ModbusCfg0\<lparr>pendingSaveCmd := True, mb_microsteps := 1600\<rparr>\<rparr>"
  have "flash_ok (pf_flash demo_pf)" "pendingSaveCmd (mb ?w)" "mb_uartBaudRate (mb ?w) \<noteq> 0"
    "snd (snd (App_Settings_Save (pf_flash demo_pf) (pf_crc demo_pf) (config_of (mb ?w) (newCfg ?w)) (settings ?w)))"
    using nor_driver_ok nor_save_ok by (simp_all add: demo_pf_def ModbusCfg0_def)
  from save_then_restart [OF this(1,2,4) demo_starts_up this(3)] show ?thesis by auto
qed

theorem switch_on_at_boot_witness:
  "\<exists>w'. fw_run demo_pf [Main demo_hw demo_poll, Irq (SysTick True), Main demo_hw demo_poll, Main demo_hw demo_poll,
      Irq (UartRx 0xAA 7 True HAL_OK), Main demo_hw demo_poll] (NETWORK, demo_fw) = Some (NETWORK, w') \<and>
    motor.currentState (fw_motor w') = STATE_ACCELERATING"
proof -
  obtain cs where b: "boot demo_pf demo_boot (firmware0 (flash blank)) = Some (demo_fw, cs)"
    using demo_boot_ok(1) by blast
  have all: "\<forall>x \<in> set (take 51 (boot_samples demo_boot)). x = True"
    using demo_samples by (meson in_set_takeD)
  from switch_on_at_boot [OF b demo_boot_ok(2), of demo_hw demo_poll "[SysTick True]" demo_hw demo_poll "[]"
      demo_hw demo_poll "[UartRx 0xAA 7 True HAL_OK]" demo_hw demo_poll] all
  obtain w' where "fw_run demo_pf (Main demo_hw demo_poll # map Irq [SysTick True] @ Main demo_hw demo_poll # map Irq [] @
      Main demo_hw demo_poll # map Irq [UartRx 0xAA 7 True HAL_OK] @ [Main demo_hw demo_poll]) (NETWORK, demo_fw) = Some (NETWORK, w')"
    "motor.currentState (fw_motor w') = STATE_ACCELERATING"
    by (metis (full_types))
  then show ?thesis by (simp only: list.map append.simps) blast
qed

end
