(* ===== verification/Rtt.thy ===== *)
theory Rtt
  imports Prelude "HOL-Library.Monad_Syntax"
begin

text \<open>
  \<open>lib/SEGGER_RTT/SEGGER_RTT.c\<close>: the diagnostic channels, ring buffers in memory that the debug
  probe reads while the firmware writes. The processor is little-endian and has no cache, so the
  uncached alias and the alignment of the control block are the identity; memory barriers order
  accesses that this sequential model orders anyway. A copy outside a buffer is \<open>None\<close>.
\<close>

section \<open>Memory and control block\<close>

definition mem_load :: "nat \<Rightarrow> nat \<Rightarrow> u8 list \<Rightarrow> u8 list option" where
  "mem_load off n buf = (if off + n \<le> length buf then Some (take n (drop off buf)) else None)"

definition mem_store :: "nat \<Rightarrow> u8 list \<Rightarrow> u8 list \<Rightarrow> u8 list option" where
  "mem_store off src buf =
     (if off + length src \<le> length buf
      then Some (take off buf @ src @ drop (off + length src) buf) else None)"

text \<open>An up or down buffer; \<open>pBuffer\<close> is the memory the pointer designates, \<open>None\<close> the null pointer.\<close>

record ring =
  sName :: "string option"
  pBuffer :: "u8 list option"
  SizeOfBuffer :: u32
  WrOff :: u32
  RdOff :: u32
  Flags :: u32

definition ring0 :: ring where
  "ring0 = \<lparr>sName = None, pBuffer = None, SizeOfBuffer = 0, WrOff = 0, RdOff = 0, Flags = 0\<rparr>"

record rtt_cb =
  acID :: "u8 list"
  MaxNumUpBuffers :: int
  MaxNumDownBuffers :: int
  aUp :: "ring list"
  aDown :: "ring list"
  ActiveTerminal :: u8

abbreviation SEGGER_RTT_MODE_NO_BLOCK_SKIP :: u32 where "SEGGER_RTT_MODE_NO_BLOCK_SKIP \<equiv> 0"
abbreviation SEGGER_RTT_MODE_NO_BLOCK_TRIM :: u32 where "SEGGER_RTT_MODE_NO_BLOCK_TRIM \<equiv> 1"
abbreviation SEGGER_RTT_MODE_BLOCK_IF_FIFO_FULL :: u32 where "SEGGER_RTT_MODE_BLOCK_IF_FIFO_FULL \<equiv> 2"
abbreviation SEGGER_RTT_MODE_MASK :: u32 where "SEGGER_RTT_MODE_MASK \<equiv> 3"
abbreviation SEGGER_RTT_MODE_DEFAULT :: u32 where
  "SEGGER_RTT_MODE_DEFAULT \<equiv> SEGGER_RTT_MODE_NO_BLOCK_SKIP"

definition SEGGER_RTT_MAX_NUM_UP_BUFFERS :: nat where "SEGGER_RTT_MAX_NUM_UP_BUFFERS = 3"
definition SEGGER_RTT_MAX_NUM_DOWN_BUFFERS :: nat where "SEGGER_RTT_MAX_NUM_DOWN_BUFFERS = 3"
definition BUFFER_SIZE_UP :: nat where "BUFFER_SIZE_UP = 1024"
definition BUFFER_SIZE_DOWN :: nat where "BUFFER_SIZE_DOWN = 16"

definition aTerminalId :: "u8 list" where
  "aTerminalId = map of_char ''0123456789ABCDEF''"

text \<open>The identifier is copied backwards, without its terminating zero.\<close>

definition aInitStr :: "u8 list" where
  "aInitStr = replicate 6 0 @ map of_char ''TTR REGGES''"

definition rtt_cb0 :: rtt_cb where
  "rtt_cb0 = \<lparr>acID = replicate 16 0, MaxNumUpBuffers = 0, MaxNumDownBuffers = 0,
     aUp = replicate SEGGER_RTT_MAX_NUM_UP_BUFFERS ring0,
     aDown = replicate SEGGER_RTT_MAX_NUM_DOWN_BUFFERS ring0, ActiveTerminal = 0\<rparr>"

text \<open>
  The memory of a static array: what the first channel designates, once it designates it.
\<close>

definition static_array :: "nat \<Rightarrow> ring list \<Rightarrow> u8 list" where
  "static_array n rs = (case pBuffer (rs ! 0) of None \<Rightarrow> replicate n 0 | Some b \<Rightarrow> b)"

definition DoInit :: "rtt_cb \<Rightarrow> rtt_cb" where
  "DoInit cb =
     (let up = static_array BUFFER_SIZE_UP (aUp cb); down = static_array BUFFER_SIZE_DOWN (aDown cb);
          p = rtt_cb0\<lparr>ActiveTerminal := ActiveTerminal cb\<rparr>;
          p = p\<lparr>MaxNumUpBuffers := int SEGGER_RTT_MAX_NUM_UP_BUFFERS,
                MaxNumDownBuffers := int SEGGER_RTT_MAX_NUM_DOWN_BUFFERS\<rparr>;
          p = p\<lparr>aUp := (aUp p)[0 := \<lparr>sName = Some ''Terminal'', pBuffer = Some up,
                  SizeOfBuffer = of_nat BUFFER_SIZE_UP, WrOff = 0, RdOff = 0,
                  Flags = SEGGER_RTT_MODE_DEFAULT\<rparr>]\<rparr>;
          p = p\<lparr>aDown := (aDown p)[0 := \<lparr>sName = Some ''Terminal'', pBuffer = Some down,
                  SizeOfBuffer = of_nat BUFFER_SIZE_DOWN, WrOff = 0, RdOff = 0,
                  Flags = SEGGER_RTT_MODE_DEFAULT\<rparr>]\<rparr>
      in p\<lparr>acID := rev aInitStr\<rparr>)"

definition INIT :: "rtt_cb \<Rightarrow> rtt_cb" where
  "INIT cb = (if acID cb ! 0 \<noteq> 0x53 then DoInit cb else cb)"

text \<open>A channel by its index; there is none beyond the array.\<close>

definition ring_at :: "u32 \<Rightarrow> ring list \<Rightarrow> ring option" where
  "ring_at i rs = (if unat i < length rs then Some (rs ! unat i) else None)"

section \<open>Writing\<close>

text \<open>
  \<open>_WriteBlocking\<close>. The read offset is read again in every round, since the probe may have moved it:
  the first argument lists what it shows in the rounds to come. The call does not return while
  they last and bytes remain; the unused readings are returned.
\<close>

definition blocking_round :: "u32 \<Rightarrow> ring \<Rightarrow> u8 list \<Rightarrow> u32 \<Rightarrow> (ring \<times> u32) option" where
  "blocking_round rd pRing pSrc NumBytes =
     (let w = WrOff pRing;
          NumBytesToWrite = (if w < rd then rd - w - 1 else SizeOfBuffer pRing - (w - rd + 1));
          NumBytesToWrite = min NumBytesToWrite (SizeOfBuffer pRing - w);
          NumBytesToWrite = min NumBytesToWrite NumBytes
      in do {
        src \<leftarrow> mem_load 0 (unat NumBytesToWrite) pSrc;
        buf \<leftarrow> pBuffer pRing;
        buf \<leftarrow> mem_store (unat w) src buf;
        let w = w + NumBytesToWrite;
        let w = (if w = SizeOfBuffer pRing then 0 else w);
        Some (pRing\<lparr>RdOff := rd, pBuffer := Some buf, WrOff := w\<rparr>, NumBytesToWrite)
      })"

fun blocking_loop :: "u32 list \<Rightarrow> ring \<Rightarrow> u8 list \<Rightarrow> u32 \<Rightarrow> u32 \<Rightarrow> (ring \<times> u32 \<times> u32 list) option" where
  "blocking_loop [] pRing pSrc NumBytes NumBytesWritten = None"
| "blocking_loop (rd # host) pRing pSrc NumBytes NumBytesWritten = do {
     (pRing, n) \<leftarrow> blocking_round rd pRing pSrc NumBytes;
     if NumBytes - n = 0 then Some (pRing, NumBytesWritten + n, host)
     else blocking_loop host pRing (drop (unat n) pSrc) (NumBytes - n) (NumBytesWritten + n)
   }"

definition WriteBlocking :: "u32 list \<Rightarrow> ring \<Rightarrow> u8 list \<Rightarrow> u32 \<Rightarrow> (ring \<times> u32 \<times> u32 list) option" where
  "WriteBlocking host pRing pSrc NumBytes = blocking_loop host pRing pSrc NumBytes 0"

text \<open>
  \<open>_WriteNoCheck\<close> copies first and moves the write offset last; the two halves are separate so that
  what happens between them can be stated. The first returns the offset to be published.
\<close>

definition NoCheck_copy :: "ring \<Rightarrow> u8 list \<Rightarrow> u32 \<Rightarrow> (ring \<times> u32) option" where
  "NoCheck_copy pRing pData NumBytes =
     (let w = WrOff pRing; Rem = SizeOfBuffer pRing - w
      in if NumBytes < Rem
         then do {
           src \<leftarrow> mem_load 0 (unat NumBytes) pData;
           buf \<leftarrow> pBuffer pRing;
           buf \<leftarrow> mem_store (unat w) src buf;
           Some (pRing\<lparr>pBuffer := Some buf\<rparr>, w + NumBytes)
         }
         else do {
           src \<leftarrow> mem_load 0 (unat Rem) pData;
           buf \<leftarrow> pBuffer pRing;
           buf \<leftarrow> mem_store (unat w) src buf;
           let NumBytesAtOnce = NumBytes - Rem;
           src \<leftarrow> mem_load (unat Rem) (unat NumBytesAtOnce) pData;
           buf \<leftarrow> mem_store 0 src buf;
           Some (pRing\<lparr>pBuffer := Some buf\<rparr>, NumBytesAtOnce)
         })"

definition WriteNoCheck :: "ring \<Rightarrow> u8 list \<Rightarrow> u32 \<Rightarrow> ring option" where
  "WriteNoCheck pRing pData NumBytes =
     do { (pRing, w) \<leftarrow> NoCheck_copy pRing pData NumBytes; Some (pRing\<lparr>WrOff := w\<rparr>) }"

definition GetAvailWriteSpace :: "ring \<Rightarrow> u32" where
  "GetAvailWriteSpace pRing =
     (if RdOff pRing \<le> WrOff pRing then SizeOfBuffer pRing - 1 - WrOff pRing + RdOff pRing
      else RdOff pRing - WrOff pRing - 1)"

definition PostTerminalSwitch :: "u32 list \<Rightarrow> ring \<Rightarrow> u8 \<Rightarrow> (ring \<times> u32 list) option" where
  "PostTerminalSwitch host pRing TerminalId = do {
     (pRing, n, host) \<leftarrow> WriteBlocking host pRing [0xFF, aTerminalId ! unat TerminalId] 2;
     Some (pRing, host)
   }"

text \<open>
  How a write treats a full buffer depends on the mode. The same code serves the buffers of both
  directions.
\<close>

definition write_ring :: "u32 list \<Rightarrow> ring \<Rightarrow> u8 list \<Rightarrow> u32 \<Rightarrow> (ring \<times> u32) option" where
  "write_ring host pRing pData NumBytes =
     (if Flags pRing = SEGGER_RTT_MODE_NO_BLOCK_SKIP
      then (let Avail = GetAvailWriteSpace pRing
            in if Avail < NumBytes then Some (pRing, 0)
               else do { pRing \<leftarrow> WriteNoCheck pRing pData NumBytes; Some (pRing, NumBytes) })
      else if Flags pRing = SEGGER_RTT_MODE_NO_BLOCK_TRIM
      then (let Avail = GetAvailWriteSpace pRing; Status = (if Avail < NumBytes then Avail else NumBytes)
            in do { pRing \<leftarrow> WriteNoCheck pRing pData Status; Some (pRing, Status) })
      else if Flags pRing = SEGGER_RTT_MODE_BLOCK_IF_FIFO_FULL
      then do { (pRing, Status, host) \<leftarrow> WriteBlocking host pRing pData NumBytes; Some (pRing, Status) }
      else Some (pRing, 0))"

definition SEGGER_RTT_WriteNoLock ::
  "u32 list \<Rightarrow> u32 \<Rightarrow> u8 list \<Rightarrow> u32 \<Rightarrow> rtt_cb \<Rightarrow> (rtt_cb \<times> u32) option" where
  "SEGGER_RTT_WriteNoLock host BufferIndex pData NumBytes cb = do {
     pRing \<leftarrow> ring_at BufferIndex (aUp cb);
     (pRing, Status) \<leftarrow> write_ring host pRing pData NumBytes;
     Some (cb\<lparr>aUp := (aUp cb)[unat BufferIndex := pRing]\<rparr>, Status)
   }"

definition SEGGER_RTT_WriteDownBufferNoLock ::
  "u32 list \<Rightarrow> u32 \<Rightarrow> u8 list \<Rightarrow> u32 \<Rightarrow> rtt_cb \<Rightarrow> (rtt_cb \<times> u32) option" where
  "SEGGER_RTT_WriteDownBufferNoLock host BufferIndex pData NumBytes cb = do {
     pRing \<leftarrow> ring_at BufferIndex (aDown cb);
     (pRing, Status) \<leftarrow> write_ring host pRing pData NumBytes;
     Some (cb\<lparr>aDown := (aDown cb)[unat BufferIndex := pRing]\<rparr>, Status)
   }"

text \<open>The locks mask interrupts around the call and leave the data alone.\<close>

definition SEGGER_RTT_Write ::
  "u32 list \<Rightarrow> u32 \<Rightarrow> u8 list \<Rightarrow> u32 \<Rightarrow> rtt_cb \<Rightarrow> (rtt_cb \<times> u32) option" where
  "SEGGER_RTT_Write host BufferIndex pData NumBytes cb =
     SEGGER_RTT_WriteNoLock host BufferIndex pData NumBytes (INIT cb)"

definition SEGGER_RTT_WriteDownBuffer ::
  "u32 list \<Rightarrow> u32 \<Rightarrow> u8 list \<Rightarrow> u32 \<Rightarrow> rtt_cb \<Rightarrow> (rtt_cb \<times> u32) option" where
  "SEGGER_RTT_WriteDownBuffer host BufferIndex pData NumBytes cb =
     SEGGER_RTT_WriteDownBufferNoLock host BufferIndex pData NumBytes (INIT cb)"

text \<open>The string is the bytes before its terminating zero.\<close>

definition SEGGER_RTT_WriteString :: "u32 list \<Rightarrow> u32 \<Rightarrow> u8 list \<Rightarrow> rtt_cb \<Rightarrow> (rtt_cb \<times> u32) option" where
  "SEGGER_RTT_WriteString host BufferIndex s cb =
     SEGGER_RTT_Write host BufferIndex s (of_nat (length s)) cb"

section \<open>Reading\<close>

text \<open>
  The read from the read offset to the wrap-around, then from there to the write offset; the same
  code for both directions. The bytes read are returned.
\<close>

definition read_ring :: "ring \<Rightarrow> u32 \<Rightarrow> (ring \<times> u8 list) option" where
  "read_ring pRing BufferSize = do {
     buf \<leftarrow> pBuffer pRing;
     let w = WrOff pRing;
     (r, BufferSize, out1) \<leftarrow>
       (if w < RdOff pRing
        then do {
          let n = min (SizeOfBuffer pRing - RdOff pRing) BufferSize;
          src \<leftarrow> mem_load (unat (RdOff pRing)) (unat n) buf;
          let r = RdOff pRing + n;
          Some (if r = SizeOfBuffer pRing then 0 else r, BufferSize - n, src)
        }
        else Some (RdOff pRing, BufferSize, []));
     let n = min (w - r) BufferSize;
     (r, out2) \<leftarrow>
       (if 0 < n then do { src \<leftarrow> mem_load (unat r) (unat n) buf; Some (r + n, src) } else Some (r, []));
     Some (if out1 @ out2 \<noteq> [] then pRing\<lparr>RdOff := r\<rparr> else pRing, out1 @ out2)
   }"

definition SEGGER_RTT_ReadUpBufferNoLock :: "u32 \<Rightarrow> u32 \<Rightarrow> rtt_cb \<Rightarrow> (rtt_cb \<times> u8 list) option" where
  "SEGGER_RTT_ReadUpBufferNoLock BufferIndex BufferSize cb =
     (let cb = INIT cb
      in do {
        pRing \<leftarrow> ring_at BufferIndex (aUp cb);
        (pRing, out) \<leftarrow> read_ring pRing BufferSize;
        Some (cb\<lparr>aUp := (aUp cb)[unat BufferIndex := pRing]\<rparr>, out)
      })"

definition SEGGER_RTT_ReadNoLock :: "u32 \<Rightarrow> u32 \<Rightarrow> rtt_cb \<Rightarrow> (rtt_cb \<times> u8 list) option" where
  "SEGGER_RTT_ReadNoLock BufferIndex BufferSize cb =
     (let cb = INIT cb
      in do {
        pRing \<leftarrow> ring_at BufferIndex (aDown cb);
        (pRing, out) \<leftarrow> read_ring pRing BufferSize;
        Some (cb\<lparr>aDown := (aDown cb)[unat BufferIndex := pRing]\<rparr>, out)
      })"

definition SEGGER_RTT_ReadUpBuffer :: "u32 \<Rightarrow> u32 \<Rightarrow> rtt_cb \<Rightarrow> (rtt_cb \<times> u8 list) option" where
  "SEGGER_RTT_ReadUpBuffer BufferIndex BufferSize cb = SEGGER_RTT_ReadUpBufferNoLock BufferIndex BufferSize cb"

definition SEGGER_RTT_Read :: "u32 \<Rightarrow> u32 \<Rightarrow> rtt_cb \<Rightarrow> (rtt_cb \<times> u8 list) option" where
  "SEGGER_RTT_Read BufferIndex BufferSize cb = SEGGER_RTT_ReadNoLock BufferIndex BufferSize cb"

section \<open>Overwriting, skipping, single bytes\<close>

text \<open>
  Making room for an overwriting write. The loop that reduces the read offset modulo the size
  computes the remainder; a size of 0 would make it endless and is excluded.
\<close>

definition overwrite_room :: "ring \<Rightarrow> u32 \<Rightarrow> ring option" where
  "overwrite_room pRing NumBytes =
     (let Avail = (if WrOff pRing = RdOff pRing then SizeOfBuffer pRing - 1
                   else if WrOff pRing < RdOff pRing then RdOff pRing - WrOff pRing - 1
                   else RdOff pRing - WrOff pRing - 1 + SizeOfBuffer pRing)
      in if Avail < NumBytes
         then if SizeOfBuffer pRing = 0 then None
              else Some (pRing\<lparr>RdOff := (RdOff pRing + (NumBytes - Avail)) mod SizeOfBuffer pRing\<rparr>)
         else Some pRing)"

text \<open>
  The copy in rounds up to the wrap-around. Every round but the last shortens the data, if the size
  is at least 2; \<open>fuel\<close> bounds the rounds and \<open>None\<close> is running out of it.
\<close>

fun overwrite_loop :: "nat \<Rightarrow> u32 \<Rightarrow> ring \<Rightarrow> u8 list \<Rightarrow> u32 \<Rightarrow> ring option" where
  "overwrite_loop 0 Avail pRing pData NumBytes = None"
| "overwrite_loop (Suc fuel) Avail pRing pData NumBytes =
     (if NumBytes < Avail
      then do {
        src \<leftarrow> mem_load 0 (unat NumBytes) pData;
        buf \<leftarrow> pBuffer pRing;
        buf \<leftarrow> mem_store (unat (WrOff pRing)) src buf;
        Some (pRing\<lparr>pBuffer := Some buf, WrOff := WrOff pRing + NumBytes\<rparr>)
      }
      else do {
        src \<leftarrow> mem_load 0 (unat Avail) pData;
        buf \<leftarrow> pBuffer pRing;
        buf \<leftarrow> mem_store (unat (WrOff pRing)) src buf;
        let pRing = pRing\<lparr>pBuffer := Some buf, WrOff := 0\<rparr>;
        if NumBytes - Avail = 0 then Some pRing
        else overwrite_loop fuel (SizeOfBuffer pRing - 1) pRing (drop (unat Avail) pData) (NumBytes - Avail)
      })"

definition overwrite_ring :: "ring \<Rightarrow> u8 list \<Rightarrow> u32 \<Rightarrow> ring option" where
  "overwrite_ring pRing pData NumBytes = do {
     pRing \<leftarrow> overwrite_room pRing NumBytes;
     overwrite_loop (unat NumBytes + 2) (SizeOfBuffer pRing - WrOff pRing) pRing pData NumBytes
   }"

definition SEGGER_RTT_WriteWithOverwriteNoLock :: "u32 \<Rightarrow> u8 list \<Rightarrow> u32 \<Rightarrow> rtt_cb \<Rightarrow> rtt_cb option" where
  "SEGGER_RTT_WriteWithOverwriteNoLock BufferIndex pData NumBytes cb = do {
     pRing \<leftarrow> ring_at BufferIndex (aUp cb);
     pRing \<leftarrow> overwrite_ring pRing pData NumBytes;
     Some (cb\<lparr>aUp := (aUp cb)[unat BufferIndex := pRing]\<rparr>)
   }"

definition skip_ring :: "ring \<Rightarrow> u8 list \<Rightarrow> u32 \<Rightarrow> (ring \<times> u32) option" where
  "skip_ring pRing pData NumBytes =
     (let r = RdOff pRing; w = WrOff pRing;
          straight = do {
            src \<leftarrow> mem_load 0 (unat NumBytes) pData;
            buf \<leftarrow> pBuffer pRing;
            buf \<leftarrow> mem_store (unat w) src buf;
            Some (pRing\<lparr>pBuffer := Some buf, WrOff := w + NumBytes\<rparr>, 1)
          }
      in if r \<le> w
         then (let Avail = SizeOfBuffer pRing - w - 1
               in if NumBytes \<le> Avail then straight
                  else if NumBytes \<le> Avail + r
                  then do {
                    let Rem = SizeOfBuffer pRing - w;
                    src \<leftarrow> mem_load 0 (unat Rem) pData;
                    buf \<leftarrow> pBuffer pRing;
                    buf \<leftarrow> mem_store (unat w) src buf;
                    let n = NumBytes - Rem;
                    buf \<leftarrow> (if n \<noteq> 0
                      then do { src \<leftarrow> mem_load (unat Rem) (unat n) pData; mem_store 0 src buf }
                      else Some buf);
                    Some (pRing\<lparr>pBuffer := Some buf, WrOff := n\<rparr>, 1)
                  }
                  else Some (pRing, 0))
         else (let Avail = r - w - 1
               in if NumBytes \<le> Avail then straight else Some (pRing, 0)))"

definition SEGGER_RTT_WriteSkipNoLock :: "u32 \<Rightarrow> u8 list \<Rightarrow> u32 \<Rightarrow> rtt_cb \<Rightarrow> (rtt_cb \<times> u32) option" where
  "SEGGER_RTT_WriteSkipNoLock BufferIndex pData NumBytes cb = do {
     pRing \<leftarrow> ring_at BufferIndex (aUp cb);
     (pRing, Status) \<leftarrow> skip_ring pRing pData NumBytes;
     Some (cb\<lparr>aUp := (aUp cb)[unat BufferIndex := pRing]\<rparr>, Status)
   }"

definition put_ring :: "ring \<Rightarrow> u8 \<Rightarrow> (ring \<times> u32) option" where
  "put_ring pRing c =
     (let w = WrOff pRing + 1;
          w = (if w = SizeOfBuffer pRing then 0 else w)
      in if w \<noteq> RdOff pRing
         then do {
           buf \<leftarrow> pBuffer pRing;
           buf \<leftarrow> mem_store (unat (WrOff pRing)) [c] buf;
           Some (pRing\<lparr>pBuffer := Some buf, WrOff := w\<rparr>, 1)
         }
         else Some (pRing, 0))"

definition SEGGER_RTT_PutCharSkipNoLock :: "u32 \<Rightarrow> u8 \<Rightarrow> rtt_cb \<Rightarrow> (rtt_cb \<times> u32) option" where
  "SEGGER_RTT_PutCharSkipNoLock BufferIndex c cb = do {
     pRing \<leftarrow> ring_at BufferIndex (aUp cb);
     (pRing, Status) \<leftarrow> put_ring pRing c;
     Some (cb\<lparr>aUp := (aUp cb)[unat BufferIndex := pRing]\<rparr>, Status)
   }"

definition SEGGER_RTT_PutCharSkip :: "u32 \<Rightarrow> u8 \<Rightarrow> rtt_cb \<Rightarrow> (rtt_cb \<times> u32) option" where
  "SEGGER_RTT_PutCharSkip BufferIndex c cb = SEGGER_RTT_PutCharSkipNoLock BufferIndex c (INIT cb)"

text \<open>
  In blocking mode the byte waits for room: the readings of the read offset the probe shows, until
  one differs from the next write offset.
\<close>

fun wait_room :: "u32 list \<Rightarrow> u32 \<Rightarrow> ring \<Rightarrow> ring option" where
  "wait_room [] w pRing = None"
| "wait_room (rd # host) w pRing =
     (if w = rd then wait_room host w (pRing\<lparr>RdOff := rd\<rparr>) else Some (pRing\<lparr>RdOff := rd\<rparr>))"

definition SEGGER_RTT_PutChar :: "u32 list \<Rightarrow> u32 \<Rightarrow> u8 \<Rightarrow> rtt_cb \<Rightarrow> (rtt_cb \<times> u32) option" where
  "SEGGER_RTT_PutChar host BufferIndex c cb =
     (let cb = INIT cb
      in do {
        pRing \<leftarrow> ring_at BufferIndex (aUp cb);
        let w = WrOff pRing + 1;
        let w = (if w = SizeOfBuffer pRing then 0 else w);
        pRing \<leftarrow> (if Flags pRing = SEGGER_RTT_MODE_BLOCK_IF_FIFO_FULL then wait_room host w pRing
                 else Some pRing);
        (pRing, Status) \<leftarrow> put_ring pRing c;
        Some (cb\<lparr>aUp := (aUp cb)[unat BufferIndex := pRing]\<rparr>, Status)
      })"

section \<open>Keys and fill levels\<close>

definition SEGGER_RTT_GetKey :: "rtt_cb \<Rightarrow> (rtt_cb \<times> int) option" where
  "SEGGER_RTT_GetKey cb = do {
     (cb, out) \<leftarrow> SEGGER_RTT_Read 0 1 cb;
     Some (cb, if length out = 1 then uint (out ! 0) else - 1)
   }"

text \<open>What the probe does to the control block before each attempt; the call returns when a key is there.\<close>

fun SEGGER_RTT_WaitKey :: "(rtt_cb \<Rightarrow> rtt_cb) list \<Rightarrow> rtt_cb \<Rightarrow> (rtt_cb \<times> int) option" where
  "SEGGER_RTT_WaitKey [] cb = None"
| "SEGGER_RTT_WaitKey (h # host) cb = do {
     (cb, r) \<leftarrow> SEGGER_RTT_GetKey (h cb);
     if r < 0 then SEGGER_RTT_WaitKey host cb else Some (cb, r)
   }"

definition SEGGER_RTT_HasKey :: "rtt_cb \<Rightarrow> (rtt_cb \<times> int) option" where
  "SEGGER_RTT_HasKey cb =
     (let cb = INIT cb
      in do {
        pRing \<leftarrow> ring_at 0 (aDown cb);
        Some (cb, if RdOff pRing \<noteq> WrOff pRing then 1 else 0)
      })"

definition SEGGER_RTT_HasData :: "u32 \<Rightarrow> rtt_cb \<Rightarrow> u32 option" where
  "SEGGER_RTT_HasData BufferIndex cb = do {
     pRing \<leftarrow> ring_at BufferIndex (aDown cb); Some (WrOff pRing - RdOff pRing) }"

definition SEGGER_RTT_HasDataUp :: "u32 \<Rightarrow> rtt_cb \<Rightarrow> u32 option" where
  "SEGGER_RTT_HasDataUp BufferIndex cb = do {
     pRing \<leftarrow> ring_at BufferIndex (aUp cb); Some (WrOff pRing - RdOff pRing) }"

definition SEGGER_RTT_GetAvailWriteSpace :: "u32 \<Rightarrow> rtt_cb \<Rightarrow> u32 option" where
  "SEGGER_RTT_GetAvailWriteSpace BufferIndex cb = do {
     pRing \<leftarrow> ring_at BufferIndex (aUp cb); Some (GetAvailWriteSpace pRing) }"

definition bytes_in_ring :: "ring \<Rightarrow> u32" where
  "bytes_in_ring pRing =
     (if RdOff pRing \<le> WrOff pRing then WrOff pRing - RdOff pRing
      else SizeOfBuffer pRing - (WrOff pRing - RdOff pRing))"

definition SEGGER_RTT_GetBytesInBuffer :: "u32 \<Rightarrow> rtt_cb \<Rightarrow> u32 option" where
  "SEGGER_RTT_GetBytesInBuffer BufferIndex cb = do {
     pRing \<leftarrow> ring_at BufferIndex (aUp cb); Some (bytes_in_ring pRing) }"

section \<open>Configuration\<close>

definition SEGGER_RTT_Init :: "rtt_cb \<Rightarrow> rtt_cb" where
  "SEGGER_RTT_Init cb = DoInit cb"

text \<open>The search for a free channel tests the pointer before the bound, as the loop does.\<close>

fun find_free :: "int \<Rightarrow> int \<Rightarrow> ring list \<Rightarrow> int option" where
  "find_free mx i [] = None"
| "find_free mx i (r # rs) =
     (if pBuffer r = None then Some i else if i + 1 < mx then find_free mx (i + 1) rs else Some (i + 1))"

definition fresh_ring :: "string option \<Rightarrow> u8 list option \<Rightarrow> u32 \<Rightarrow> u32 \<Rightarrow> ring" where
  "fresh_ring name buf BufferSize flags =
     \<lparr>sName = name, pBuffer = buf, SizeOfBuffer = BufferSize, WrOff = 0, RdOff = 0, Flags = flags\<rparr>"

definition SEGGER_RTT_AllocDownBuffer ::
  "string option \<Rightarrow> u8 list option \<Rightarrow> u32 \<Rightarrow> u32 \<Rightarrow> rtt_cb \<Rightarrow> (rtt_cb \<times> int) option" where
  "SEGGER_RTT_AllocDownBuffer name buf BufferSize flags cb =
     (let cb = INIT cb
      in do {
        i \<leftarrow> find_free (MaxNumDownBuffers cb) 0 (aDown cb);
        if i < MaxNumDownBuffers cb
        then Some (cb\<lparr>aDown := (aDown cb)[nat i := fresh_ring name buf BufferSize flags]\<rparr>, i)
        else Some (cb, - 1)
      })"

definition SEGGER_RTT_AllocUpBuffer ::
  "string option \<Rightarrow> u8 list option \<Rightarrow> u32 \<Rightarrow> u32 \<Rightarrow> rtt_cb \<Rightarrow> (rtt_cb \<times> int) option" where
  "SEGGER_RTT_AllocUpBuffer name buf BufferSize flags cb =
     (let cb = INIT cb
      in do {
        i \<leftarrow> find_free (MaxNumUpBuffers cb) 0 (aUp cb);
        if i < MaxNumUpBuffers cb
        then Some (cb\<lparr>aUp := (aUp cb)[nat i := fresh_ring name buf BufferSize flags]\<rparr>, i)
        else Some (cb, - 1)
      })"

text \<open>The first channel keeps its buffer: only its flags are set.\<close>

definition config_ring :: "u32 \<Rightarrow> string option \<Rightarrow> u8 list option \<Rightarrow> u32 \<Rightarrow> u32 \<Rightarrow> ring list \<Rightarrow> ring list" where
  "config_ring BufferIndex name buf BufferSize flags rs =
     (let r = (if BufferIndex \<noteq> 0 then fresh_ring name buf BufferSize (Flags (rs ! unat BufferIndex))
               else rs ! unat BufferIndex)
      in rs[unat BufferIndex := r\<lparr>Flags := flags\<rparr>])"

definition SEGGER_RTT_ConfigUpBuffer ::
  "u32 \<Rightarrow> string option \<Rightarrow> u8 list option \<Rightarrow> u32 \<Rightarrow> u32 \<Rightarrow> rtt_cb \<Rightarrow> rtt_cb \<times> int" where
  "SEGGER_RTT_ConfigUpBuffer BufferIndex name buf BufferSize flags cb =
     (let cb = INIT cb
      in if unat BufferIndex < SEGGER_RTT_MAX_NUM_UP_BUFFERS
         then (cb\<lparr>aUp := config_ring BufferIndex name buf BufferSize flags (aUp cb)\<rparr>, 0)
         else (cb, - 1))"

definition SEGGER_RTT_ConfigDownBuffer ::
  "u32 \<Rightarrow> string option \<Rightarrow> u8 list option \<Rightarrow> u32 \<Rightarrow> u32 \<Rightarrow> rtt_cb \<Rightarrow> rtt_cb \<times> int" where
  "SEGGER_RTT_ConfigDownBuffer BufferIndex name buf BufferSize flags cb =
     (let cb = INIT cb
      in if unat BufferIndex < SEGGER_RTT_MAX_NUM_DOWN_BUFFERS
         then (cb\<lparr>aDown := config_ring BufferIndex name buf BufferSize flags (aDown cb)\<rparr>, 0)
         else (cb, - 1))"

definition set_ring :: "(ring \<Rightarrow> ring) \<Rightarrow> u32 \<Rightarrow> ring list \<Rightarrow> ring list" where
  "set_ring f BufferIndex rs = rs[unat BufferIndex := f (rs ! unat BufferIndex)]"

definition SEGGER_RTT_SetNameUpBuffer :: "u32 \<Rightarrow> string option \<Rightarrow> rtt_cb \<Rightarrow> rtt_cb \<times> int" where
  "SEGGER_RTT_SetNameUpBuffer BufferIndex name cb =
     (let cb = INIT cb
      in if unat BufferIndex < SEGGER_RTT_MAX_NUM_UP_BUFFERS
         then (cb\<lparr>aUp := set_ring (\<lambda>r. r\<lparr>sName := name\<rparr>) BufferIndex (aUp cb)\<rparr>, 0) else (cb, - 1))"

definition SEGGER_RTT_SetNameDownBuffer :: "u32 \<Rightarrow> string option \<Rightarrow> rtt_cb \<Rightarrow> rtt_cb \<times> int" where
  "SEGGER_RTT_SetNameDownBuffer BufferIndex name cb =
     (let cb = INIT cb
      in if unat BufferIndex < SEGGER_RTT_MAX_NUM_DOWN_BUFFERS
         then (cb\<lparr>aDown := set_ring (\<lambda>r. r\<lparr>sName := name\<rparr>) BufferIndex (aDown cb)\<rparr>, 0) else (cb, - 1))"

definition SEGGER_RTT_SetFlagsUpBuffer :: "u32 \<Rightarrow> u32 \<Rightarrow> rtt_cb \<Rightarrow> rtt_cb \<times> int" where
  "SEGGER_RTT_SetFlagsUpBuffer BufferIndex flags cb =
     (let cb = INIT cb
      in if unat BufferIndex < SEGGER_RTT_MAX_NUM_UP_BUFFERS
         then (cb\<lparr>aUp := set_ring (\<lambda>r. r\<lparr>Flags := flags\<rparr>) BufferIndex (aUp cb)\<rparr>, 0) else (cb, - 1))"

definition SEGGER_RTT_SetFlagsDownBuffer :: "u32 \<Rightarrow> u32 \<Rightarrow> rtt_cb \<Rightarrow> rtt_cb \<times> int" where
  "SEGGER_RTT_SetFlagsDownBuffer BufferIndex flags cb =
     (let cb = INIT cb
      in if unat BufferIndex < SEGGER_RTT_MAX_NUM_DOWN_BUFFERS
         then (cb\<lparr>aDown := set_ring (\<lambda>r. r\<lparr>Flags := flags\<rparr>) BufferIndex (aDown cb)\<rparr>, 0) else (cb, - 1))"

section \<open>Terminals\<close>

definition SEGGER_RTT_SetTerminal :: "u32 list \<Rightarrow> u8 \<Rightarrow> rtt_cb \<Rightarrow> (rtt_cb \<times> int) option" where
  "SEGGER_RTT_SetTerminal host TerminalId cb =
     (let cb = INIT cb
      in if unat TerminalId < length aTerminalId
         then do {
           pRing \<leftarrow> ring_at 0 (aUp cb);
           let ac = [0xFF, aTerminalId ! unat TerminalId];
           if Flags pRing AND SEGGER_RTT_MODE_MASK = SEGGER_RTT_MODE_BLOCK_IF_FIFO_FULL
           then do {
             (pRing, n, host) \<leftarrow> WriteBlocking host pRing ac 2;
             Some (cb\<lparr>ActiveTerminal := TerminalId, aUp := (aUp cb)[0 := pRing]\<rparr>, 0)
           }
           else if 2 \<le> GetAvailWriteSpace pRing
           then do {
             pRing \<leftarrow> WriteNoCheck pRing ac 2;
             Some (cb\<lparr>ActiveTerminal := TerminalId, aUp := (aUp cb)[0 := pRing]\<rparr>, 0)
           }
           else Some (cb, - 1)
         }
         else Some (cb, - 1))"

text \<open>The switch to a terminal, the text, and the switch back, each blocking in turn.\<close>

definition out_switched :: "u32 list \<Rightarrow> u8 \<Rightarrow> u8 \<Rightarrow> u8 list \<Rightarrow> u32 \<Rightarrow> ring \<Rightarrow> (ring \<times> u32) option" where
  "out_switched host TerminalId active s n pRing = do {
     (pRing, host) \<leftarrow> PostTerminalSwitch host pRing TerminalId;
     (pRing, Status, host) \<leftarrow> WriteBlocking host pRing s n;
     (pRing, host) \<leftarrow> PostTerminalSwitch host pRing active;
     Some (pRing, Status)
   }"

definition out_ring :: "u32 list \<Rightarrow> u8 \<Rightarrow> u8 \<Rightarrow> u8 list \<Rightarrow> ring \<Rightarrow> (ring \<times> int) option" where
  "out_ring host TerminalId active s pRing =
     (let FragLen = of_nat (length s); Avail = GetAvailWriteSpace pRing;
          mode = Flags pRing AND SEGGER_RTT_MODE_MASK
      in if mode = SEGGER_RTT_MODE_NO_BLOCK_SKIP
         then if Avail < FragLen + 4 then Some (pRing, 0)
              else do { (r, n) \<leftarrow> out_switched host TerminalId active s FragLen pRing; Some (r, sint n) }
         else if mode = SEGGER_RTT_MODE_NO_BLOCK_TRIM
         then if Avail < 4 then Some (pRing, - 1)
              else do {
                (r, n) \<leftarrow> out_switched host TerminalId active s
                  (if FragLen < Avail - 4 then FragLen else Avail - 4) pRing;
                Some (r, sint n)
              }
         else if mode = SEGGER_RTT_MODE_BLOCK_IF_FIFO_FULL
         then do { (r, n) \<leftarrow> out_switched host TerminalId active s FragLen pRing; Some (r, sint n) }
         else Some (pRing, - 1))"

definition SEGGER_RTT_TerminalOut :: "u32 list \<Rightarrow> u8 \<Rightarrow> u8 list \<Rightarrow> rtt_cb \<Rightarrow> (rtt_cb \<times> int) option" where
  "SEGGER_RTT_TerminalOut host TerminalId s cb =
     (let cb = INIT cb
      in if unat TerminalId < length aTerminalId
         then do {
           pRing \<leftarrow> ring_at 0 (aUp cb);
           (pRing, Status) \<leftarrow> out_ring host TerminalId (ActiveTerminal cb) s pRing;
           Some (cb\<lparr>aUp := (aUp cb)[0 := pRing]\<rparr>, Status)
         }
         else Some (cb, - 1))"

end
