(* ===== verification/Rtt_Printf.thy ===== *)
theory Rtt_Printf
  imports Rtt
begin

text \<open>
  \<open>lib/SEGGER_RTT/SEGGER_RTT_printf.c\<close>: formatted diagnostics. A format string and a string argument
  are the bytes in memory with the terminating zero; a read behind them, a missing argument or one of
  the wrong type, a signed overflow, a division by zero and a loop that does not end are \<open>None\<close>.
\<close>

section \<open>The staging buffer\<close>

abbreviation SEGGER_RTT_PRINTF_BUFFER_SIZE :: u32 where "SEGGER_RTT_PRINTF_BUFFER_SIZE \<equiv> 64"
abbreviation FORMAT_FLAG_LEFT_JUSTIFY :: u32 where "FORMAT_FLAG_LEFT_JUSTIFY \<equiv> 1"
abbreviation FORMAT_FLAG_PAD_ZERO :: u32 where "FORMAT_FLAG_PAD_ZERO \<equiv> 2"
abbreviation FORMAT_FLAG_PRINT_SIGN :: u32 where "FORMAT_FLAG_PRINT_SIGN \<equiv> 4"
abbreviation FORMAT_FLAG_ALTERNATE :: u32 where "FORMAT_FLAG_ALTERNATE \<equiv> 8"

record printf_desc =
  pd_Buffer :: "u8 list"
  BufferSize :: u32
  Cnt :: u32
  ReturnValue :: int
  RTTBufferIndex :: u32

text \<open>
  The channels, and for each write to come the read offsets the probe shows while it blocks.
\<close>

type_synonym rtt_world = "u32 list list \<times> rtt_cb"
type_synonym printf_state = "printf_desc \<times> rtt_world"

definition rtt_out :: "u32 \<Rightarrow> u8 list \<Rightarrow> u32 \<Rightarrow> rtt_world \<Rightarrow> (rtt_world \<times> u32) option" where
  "rtt_out i data n w = do {
     (cb, k) \<leftarrow> SEGGER_RTT_Write (case fst w of [] \<Rightarrow> [] | host # _ \<Rightarrow> host) i data n (snd w);
     Some ((tl (fst w), cb), k)
   }"

text \<open>An addition to a value of type \<open>int\<close>, undefined when it overflows.\<close>

definition int_plus :: "int \<Rightarrow> int \<Rightarrow> int option" where
  "int_plus a b = (if a + b < 2 ^ 31 then Some (a + b) else None)"

definition StoreChar :: "u8 \<Rightarrow> printf_state \<Rightarrow> printf_state option" where
  "StoreChar c s = (let (p, w) = s in do {
     p \<leftarrow> (if Cnt p + 1 \<le> BufferSize p
           then do {
             buf \<leftarrow> mem_store (unat (Cnt p)) [c] (pd_Buffer p);
             r \<leftarrow> int_plus (ReturnValue p) 1;
             Some (p\<lparr>pd_Buffer := buf, Cnt := Cnt p + 1, ReturnValue := r\<rparr>)
           }
           else Some p);
     if Cnt p = BufferSize p
     then do {
       (w, k) \<leftarrow> rtt_out (RTTBufferIndex p) (pd_Buffer p) (Cnt p) w;
       Some (if k \<noteq> Cnt p then p\<lparr>ReturnValue := - 1\<rparr> else p\<lparr>Cnt := 0\<rparr>, w)
     }
     else Some (p, w)
   })"

abbreviation failed :: "printf_state \<Rightarrow> bool" where
  "failed s \<equiv> ReturnValue (fst s) < 0"

section \<open>Numbers\<close>

definition aV2C :: "u8 list" where
  "aV2C = map of_char ''0123456789ABCDEF''"

text \<open>The field width loop; it does not end for a base below 2.\<close>

partial_function (option) width_loop :: "u32 \<Rightarrow> u32 \<Rightarrow> u32 \<Rightarrow> u32 option" where
  [code]: "width_loop Base Number Width =
     (if Base \<le> Number then width_loop Base (Number div Base) (Width + 1) else Some Width)"

lemma unat_minus_one_less: "x \<noteq> 0 \<Longrightarrow> unat (x - 1) < unat (x :: 'a::len word)"
  by (simp add: unat_minus_one unat_gt_0)

text \<open>Padding up to the field width; what is left of the field width is returned.\<close>

function (sequential) pad_loop :: "u8 \<Rightarrow> u32 \<Rightarrow> u32 \<Rightarrow> printf_state \<Rightarrow> (u32 \<times> printf_state) option" where
  "pad_loop c Width FieldWidth s =
     (if FieldWidth \<noteq> 0 \<and> Width < FieldWidth
      then do {
        s \<leftarrow> StoreChar c s;
        if failed s then Some (FieldWidth - 1, s) else pad_loop c Width (FieldWidth - 1) s
      }
      else Some (FieldWidth, s))"
  by pat_completeness auto
termination
  by (relation "measure (\<lambda>(c, Width, FieldWidth, s). unat FieldWidth)")
    (auto intro: unat_minus_one_less)

declare pad_loop.simps [simp del]

text \<open>The search for the highest digit.\<close>

partial_function (option) digit_loop :: "u32 \<Rightarrow> u32 \<Rightarrow> u32 \<Rightarrow> u32 \<Rightarrow> u32 option" where
  [code]: "digit_loop Base v NumDigits Digit =
     (if 1 < NumDigits then digit_loop Base v (NumDigits - 1) (Digit * Base)
      else if Digit = 0 then None
      else if v div Digit < Base then Some Digit
      else digit_loop Base v NumDigits (Digit * Base))"

partial_function (option) print_digits :: "u32 \<Rightarrow> u32 \<Rightarrow> u32 \<Rightarrow> printf_state \<Rightarrow> printf_state option" where
  [code]: "print_digits Base v Digit s =
     (if Digit = 0 \<or> \<not> unat (v div Digit) < length aV2C then None
      else do {
        s \<leftarrow> StoreChar (aV2C ! unat (v div Digit)) s;
        if failed s \<or> Digit div Base = 0 then Some s
        else print_digits Base (v - v div Digit * Digit) (Digit div Base) s
      })"

definition PrintUnsigned ::
  "u32 \<Rightarrow> u32 \<Rightarrow> u32 \<Rightarrow> u32 \<Rightarrow> u32 \<Rightarrow> printf_state \<Rightarrow> printf_state option" where
  "PrintUnsigned v Base NumDigits FieldWidth FormatFlags s = do {
     Width \<leftarrow> width_loop Base v 1;
     let Width = (if Width < NumDigits then NumDigits else Width);
     (FieldWidth, s) \<leftarrow>
       (if FormatFlags AND FORMAT_FLAG_LEFT_JUSTIFY = 0
        then pad_loop (if FormatFlags AND FORMAT_FLAG_PAD_ZERO = FORMAT_FLAG_PAD_ZERO \<and> NumDigits = 0
                       then 0x30 else 0x20) Width FieldWidth s
        else Some (FieldWidth, s));
     if \<not> failed s
     then do {
       Digit \<leftarrow> digit_loop Base v NumDigits 1;
       s \<leftarrow> print_digits Base v Digit s;
       (FieldWidth, s) \<leftarrow>
         (if FormatFlags AND FORMAT_FLAG_LEFT_JUSTIFY = FORMAT_FLAG_LEFT_JUSTIFY
          then pad_loop 0x20 Width FieldWidth s
          else Some (FieldWidth, s));
       Some s
     }
     else Some s
   }"

text \<open>The negation of the least \<open>int\<close> overflows.\<close>

definition int_negate :: "u32 \<Rightarrow> u32 option" where
  "int_negate v = (if sint v = - (2 ^ 31) then None else Some (- v))"

text \<open>The sign; the number loses its own.\<close>

definition print_sign :: "u32 \<Rightarrow> u32 \<Rightarrow> printf_state \<Rightarrow> (u32 \<times> printf_state) option" where
  "print_sign FormatFlags v s =
     (if sint v < 0 then do { v \<leftarrow> int_negate v; s \<leftarrow> StoreChar 0x2D s; Some (v, s) }
      else if FormatFlags AND FORMAT_FLAG_PRINT_SIGN = FORMAT_FLAG_PRINT_SIGN
      then do { s \<leftarrow> StoreChar 0x2B s; Some (v, s) }
      else Some (v, s))"

text \<open>The width loop of a nonnegative \<open>int\<close> compares and divides the same bit patterns.\<close>

definition PrintInt ::
  "u32 \<Rightarrow> u32 \<Rightarrow> u32 \<Rightarrow> u32 \<Rightarrow> u32 \<Rightarrow> printf_state \<Rightarrow> printf_state option" where
  "PrintInt v Base NumDigits FieldWidth FormatFlags s = do {
     Number \<leftarrow> (if sint v < 0 then int_negate v else Some v);
     Width \<leftarrow> width_loop Base Number 1;
     let Width = (if Width < NumDigits then NumDigits else Width);
     let FieldWidth =
       (if 0 < FieldWidth \<and> (sint v < 0 \<or> FormatFlags AND FORMAT_FLAG_PRINT_SIGN = FORMAT_FLAG_PRINT_SIGN)
        then FieldWidth - 1 else FieldWidth);
     (FieldWidth, s) \<leftarrow>
       (if (FormatFlags AND FORMAT_FLAG_PAD_ZERO = 0 \<or> NumDigits \<noteq> 0)
           \<and> FormatFlags AND FORMAT_FLAG_LEFT_JUSTIFY = 0
        then pad_loop 0x20 Width FieldWidth s
        else Some (FieldWidth, s));
     if \<not> failed s
     then do {
       (v, s) \<leftarrow> print_sign FormatFlags v s;
       if \<not> failed s
       then do {
         (FieldWidth, s) \<leftarrow>
           (if FormatFlags AND FORMAT_FLAG_PAD_ZERO = FORMAT_FLAG_PAD_ZERO
               \<and> FormatFlags AND FORMAT_FLAG_LEFT_JUSTIFY = 0 \<and> NumDigits = 0
            then pad_loop 0x30 Width FieldWidth s
            else Some (FieldWidth, s));
         if \<not> failed s then PrintUnsigned v Base NumDigits FieldWidth FormatFlags s else Some s
       }
       else Some s
     }
     else Some s
   }"


section \<open>Directives\<close>

text \<open>An argument of the variable part: a word, or a string, which may be the null pointer.\<close>

datatype printf_arg = IntArg u32 | StrArg "u8 list option"

fun va_int :: "printf_arg list \<Rightarrow> (u32 \<times> printf_arg list) option" where
  "va_int (IntArg v # args) = Some (v, args)"
| "va_int _ = None"

fun va_string :: "printf_arg list \<Rightarrow> (u8 list option \<times> printf_arg list) option" where
  "va_string (StrArg s # args) = Some (s, args)"
| "va_string _ = None"

fun read_flags :: "u32 \<Rightarrow> u8 list \<Rightarrow> (u32 \<times> u8 list) option" where
  "read_flags FormatFlags [] = None"
| "read_flags FormatFlags (c # sFormat) =
     (if c = 0x2D then read_flags (FormatFlags OR FORMAT_FLAG_LEFT_JUSTIFY) sFormat
      else if c = 0x30 then read_flags (FormatFlags OR FORMAT_FLAG_PAD_ZERO) sFormat
      else if c = 0x2B then read_flags (FormatFlags OR FORMAT_FLAG_PRINT_SIGN) sFormat
      else if c = 0x23 then read_flags (FormatFlags OR FORMAT_FLAG_ALTERNATE) sFormat
      else Some (FormatFlags, c # sFormat))"

text \<open>A run of digits; the boolean says whether there was one.\<close>

fun read_number :: "bool \<Rightarrow> u32 \<Rightarrow> u8 list \<Rightarrow> (bool \<times> u32 \<times> u8 list) option" where
  "read_number present n [] = None"
| "read_number present n (c # sFormat) =
     (if c < 0x30 \<or> 0x39 < c then Some (present, n, c # sFormat)
      else read_number True (n * 10 + (ucast c - 0x30)) sFormat)"

definition read_precision ::
  "u8 list \<Rightarrow> printf_arg list \<Rightarrow> (bool \<times> u32 \<times> u8 list \<times> printf_arg list) option" where
  "read_precision sFormat args =
     (case sFormat of
        [] \<Rightarrow> None
      | c # f \<Rightarrow>
          if c = 0x2E
          then (case f of
                  [] \<Rightarrow> None
                | d # g \<Rightarrow>
                    if d = 0x2A then do { (n, args) \<leftarrow> va_int args; Some (True, n, g, args) }
                    else do { (b, n, f) \<leftarrow> read_number False 0 f; Some (b, n, f, args) })
          else Some (False, 0, sFormat, args))"

fun skip_length :: "u8 list \<Rightarrow> u8 list option" where
  "skip_length [] = None"
| "skip_length (c # sFormat) = (if c = 0x6C \<or> c = 0x68 then skip_length sFormat else Some (c # sFormat))"

record directive =
  dr_Flags :: u32
  dr_Width :: u32
  dr_PrecisionSet :: bool
  dr_Precision :: u32
  dr_conv :: u8

text \<open>What follows a percent sign, up to and with the conversion character.\<close>

definition read_directive ::
  "u8 list \<Rightarrow> printf_arg list \<Rightarrow> (directive \<times> u8 list \<times> printf_arg list) option" where
  "read_directive sFormat args = do {
     (FormatFlags, sFormat) \<leftarrow> read_flags 0 sFormat;
     (_, FieldWidth, sFormat) \<leftarrow> read_number False 0 sFormat;
     (PrecisionSet, Precision, sFormat, args) \<leftarrow> read_precision sFormat args;
     sFormat \<leftarrow> skip_length sFormat;
     case sFormat of
       [] \<Rightarrow> None
     | c # sFormat \<Rightarrow> Some (\<lparr>dr_Flags = FormatFlags, dr_Width = FieldWidth,
         dr_PrecisionSet = PrecisionSet, dr_Precision = Precision, dr_conv = c\<rparr>, sFormat, args)
   }"

fun print_string :: "bool \<Rightarrow> u32 \<Rightarrow> u8 list \<Rightarrow> printf_state \<Rightarrow> printf_state option" where
  "print_string PrecisionSet Precision [] s = None"
| "print_string PrecisionSet Precision (c # str) s =
     (if c = 0 then Some s
      else if PrecisionSet \<and> Precision = 0 then Some s
      else do {
        s \<leftarrow> StoreChar c s;
        if failed s then Some s else print_string PrecisionSet (Precision - 1) str s
      })"

definition convert :: "directive \<Rightarrow> printf_arg list \<Rightarrow> printf_state \<Rightarrow> (printf_state \<times> printf_arg list) option" where
  "convert d args s =
     (if dr_conv d = 0x63
      then do { (v, args) \<leftarrow> va_int args; s \<leftarrow> StoreChar (ucast v) s; Some (s, args) }
      else if dr_conv d = 0x64
      then do {
        (v, args) \<leftarrow> va_int args;
        s \<leftarrow> PrintInt v 10 (dr_Precision d) (dr_Width d) (dr_Flags d) s; Some (s, args)
      }
      else if dr_conv d = 0x75
      then do {
        (v, args) \<leftarrow> va_int args;
        s \<leftarrow> PrintUnsigned v 10 (dr_Precision d) (dr_Width d) (dr_Flags d) s; Some (s, args)
      }
      else if dr_conv d = 0x78 \<or> dr_conv d = 0x58
      then do {
        (v, args) \<leftarrow> va_int args;
        s \<leftarrow> PrintUnsigned v 16 (dr_Precision d) (dr_Width d) (dr_Flags d) s; Some (s, args)
      }
      else if dr_conv d = 0x73
      then do {
        (str, args) \<leftarrow> va_string args;
        s \<leftarrow> (case str of
               None \<Rightarrow> print_string False (dr_Precision d) (map of_char ''(NULL)'' @ [0]) s
             | Some str \<Rightarrow> print_string (dr_PrecisionSet d) (dr_Precision d) str s);
        Some (s, args)
      }
      else if dr_conv d = 0x70
      then do { (v, args) \<leftarrow> va_int args; s \<leftarrow> PrintUnsigned v 16 8 8 0 s; Some (s, args) }
      else if dr_conv d = 0x25 then do { s \<leftarrow> StoreChar 0x25 s; Some (s, args) }
      else Some (s, args))"

section \<open>The whole call\<close>

lemma read_flags_length: "read_flags F f = Some (F', f') \<Longrightarrow> length f' \<le> length f"
  by (induction F f rule: read_flags.induct) (auto split: if_splits)

lemma read_number_length: "read_number b n f = Some (b', n', f') \<Longrightarrow> length f' \<le> length f"
  by (induction b n f rule: read_number.induct) (auto split: if_splits)

lemma read_precision_length: "read_precision f args = Some (b, n, f', args') \<Longrightarrow> length f' \<le> length f"
  by (auto simp: read_precision_def split: list.splits if_splits bind_splits dest!: read_number_length)

lemma skip_length_length: "skip_length f = Some f' \<Longrightarrow> length f' \<le> length f"
  by (induction f rule: skip_length.induct) (auto split: if_splits)

lemma read_directive_length:
  assumes "read_directive f args = Some (d, f', args')"
  shows "length f' < length f"
proof -
  obtain F f1 b w f2 ps p f3 args3 f4 where
    "read_flags 0 f = Some (F, f1)" "read_number False 0 f1 = Some (b, w, f2)"
    "read_precision f2 args = Some (ps, p, f3, args3)" "skip_length f3 = Some f4" "length f' < length f4"
    using assms by (auto simp: read_directive_def split: bind_splits list.splits)
  then show ?thesis
    using read_flags_length read_number_length read_precision_length skip_length_length by fastforce
qed

function vprintf_loop :: "u8 list \<Rightarrow> printf_arg list \<Rightarrow> printf_state \<Rightarrow> printf_state option" where
  "vprintf_loop [] args s = None"
| "vprintf_loop (c # sFormat) args s =
     (if c = 0 then Some s
      else if c = 0x25
      then do {
        (d, f, args) \<leftarrow> read_directive sFormat args;
        (s, args) \<leftarrow> convert d args s;
        if failed s then Some s else vprintf_loop f args s
      }
      else do { s \<leftarrow> StoreChar c s; if failed s then Some s else vprintf_loop sFormat args s })"
  by pat_completeness auto
termination
  by (relation "measure (\<lambda>(f, args, s). length f)") (auto dest: read_directive_length)

text \<open>The staging buffer is a local array, with whatever it contains.\<close>

definition SEGGER_RTT_vprintf ::
  "u8 list \<Rightarrow> u32 \<Rightarrow> u8 list \<Rightarrow> printf_arg list \<Rightarrow> rtt_world \<Rightarrow> (rtt_world \<times> int) option" where
  "SEGGER_RTT_vprintf acBuffer BufferIndex sFormat args w = do {
     (p, w) \<leftarrow> vprintf_loop sFormat args
       (\<lparr>pd_Buffer = acBuffer, BufferSize = SEGGER_RTT_PRINTF_BUFFER_SIZE, Cnt = 0, ReturnValue = 0,
         RTTBufferIndex = BufferIndex\<rparr>, w);
     if 0 < ReturnValue p
     then do {
       (w, _) \<leftarrow> (if Cnt p \<noteq> 0 then rtt_out BufferIndex (pd_Buffer p) (Cnt p) w else Some (w, 0));
       r \<leftarrow> int_plus (ReturnValue p) (sint (Cnt p));
       Some (w, r)
     }
     else Some (w, ReturnValue p)
   }"

definition SEGGER_RTT_printf ::
  "u8 list \<Rightarrow> u32 \<Rightarrow> u8 list \<Rightarrow> printf_arg list \<Rightarrow> rtt_world \<Rightarrow> (rtt_world \<times> int) option" where
  "SEGGER_RTT_printf acBuffer BufferIndex sFormat args w =
     SEGGER_RTT_vprintf acBuffer BufferIndex sFormat args w"

end
