(* ===== verification/Rtt_Ring.thy ===== *)
theory Rtt_Ring
  imports Rtt
begin

text \<open>
  The ring buffers of the diagnostic channels as queues: what a buffer holds, what each operation
  does to it, and the contract of a bounded queue that reading and writing fulfil.
\<close>

section \<open>A ring over naturals\<close>

definition circ :: "'a list \<Rightarrow> nat \<Rightarrow> nat \<Rightarrow> 'a list" where
  "circ b R W = (if R \<le> W then take (W - R) (drop R b) else drop R b @ take W b)"

definition free :: "nat \<Rightarrow> nat \<Rightarrow> nat \<Rightarrow> nat" where
  "free S R W = (if W < R then R - W - 1 else S - (W - R + 1))"

lemma length_circ: "length b = S \<Longrightarrow> R < S \<Longrightarrow> W < S \<Longrightarrow> length (circ b R W) + free S R W = S - 1"
  by (auto simp: circ_def free_def)

lemma mem_store_Some:
  "off + length src \<le> length b \<Longrightarrow>
   mem_store off src b = Some (take off b @ src @ drop (off + length src) b)"
  by (simp add: mem_store_def)

lemma mem_load_Some: "off + n \<le> length b \<Longrightarrow> mem_load off n b = Some (take n (drop off b))"
  by (simp add: mem_load_def)

lemma store_circ:
  assumes "length b = S" "W < S" "R < S" "W + length src \<le> S" "length src \<le> free S R W"
  defines "b' \<equiv> take W b @ src @ drop (W + length src) b"
  defines "W' \<equiv> (if W + length src = S then 0 else W + length src)"
  shows "mem_store W src b = Some b'" "length b' = S" "W' < S" "circ b' R W' = circ b R W @ src" "circ b' R W = circ b R W"
    "free S R W' = free S R W - length src"
proof -
  show "mem_store W src b = Some b'" "length b' = S" "W' < S"
    using assms by (auto simp: mem_store_def)
  show "circ b' R W = circ b R W"
    using assms by (auto simp: circ_def free_def drop_take split: if_splits)
  show "circ b' R W' = circ b R W @ src"
    using assms by (auto simp: circ_def free_def drop_take split: if_splits)
  show "free S R W' = free S R W - length src"
    using assms by (auto simp: free_def split: if_splits)
qed

lemma load_circ:
  assumes "length b = S" "W < S" "R < S" "n \<le> length (circ b R W)"
    and "R + n \<le> S"
  defines "R' \<equiv> (if R + n = S then 0 else R + n)"
  shows "mem_load R n b = Some (take n (circ b R W))" "R' < S" "circ b R' W = drop n (circ b R W)"
proof -
  show "mem_load R n b = Some (take n (circ b R W))"
    using assms by (auto simp: mem_load_def circ_def min_def split: if_splits)
  show "R' < S" using assms by auto
  show "circ b R' W = drop n (circ b R W)"
    using assms by (auto simp: circ_def min_def drop_take add.commute split: if_splits)
qed

section \<open>What a channel holds\<close>

definition ring_ok :: "ring \<Rightarrow> bool" where
  "ring_ok r \<longleftrightarrow> (case pBuffer r of None \<Rightarrow> False
     | Some b \<Rightarrow> length b = unat (SizeOfBuffer r) \<and> WrOff r < SizeOfBuffer r \<and> RdOff r < SizeOfBuffer r)"

definition held :: "ring \<Rightarrow> u8 list" where
  "held r = circ (the (pBuffer r)) (unat (RdOff r)) (unat (WrOff r))"

definition room :: "ring \<Rightarrow> nat" where
  "room r = free (unat (SizeOfBuffer r)) (unat (RdOff r)) (unat (WrOff r))"

lemma ring_okE:
  assumes "ring_ok r"
  obtains b where "pBuffer r = Some b" "length b = unat (SizeOfBuffer r)"
    "unat (WrOff r) < unat (SizeOfBuffer r)" "unat (RdOff r) < unat (SizeOfBuffer r)"
  using assms by (auto simp: ring_ok_def word_less_nat_alt split: option.splits)

lemma held_room: "ring_ok r \<Longrightarrow> length (held r) + room r = unat (SizeOfBuffer r) - 1"
  by (erule ring_okE) (simp add: held_def room_def length_circ)

lemma unat_min: "unat (min a b) = min (unat a) (unat b)"
  by (simp add: min_def word_le_nat_alt)

lemma unat_1_32 [simp]: "unat (1 :: u32) = 1"
  by simp

text \<open>The free space the code computes is the free space there is.\<close>

lemma avail_room:
  assumes "ring_ok r"
  shows "unat (GetAvailWriteSpace r) = room r"
proof -
  obtain b where o: "unat (WrOff r) < unat (SizeOfBuffer r)" "unat (RdOff r) < unat (SizeOfBuffer r)"
    using assms by (rule ring_okE)
  show ?thesis
  proof (cases "RdOff r \<le> WrOff r")
    case True
    have s: "unat (SizeOfBuffer r - 1) = unat (SizeOfBuffer r) - 1"
      using o by (subst unat_sub_nat) auto
    have t: "unat (SizeOfBuffer r - 1 - WrOff r) = unat (SizeOfBuffer r) - 1 - unat (WrOff r)"
      using o s by (subst unat_sub_nat) auto
    have "unat (SizeOfBuffer r - 1 - WrOff r) + unat (RdOff r) < 2 ^ 32"
      using t o True unsigned_less [where w = "SizeOfBuffer r" and 'a = nat]
      by (simp add: word_le_nat_alt)
    then have "unat (SizeOfBuffer r - 1 - WrOff r + RdOff r) = unat (SizeOfBuffer r - 1 - WrOff r) + unat (RdOff r)"
      by (intro unat_add_nat) simp
    then show ?thesis using True o t
      by (simp add: GetAvailWriteSpace_def room_def free_def word_le_nat_alt)
  next
    case False
    then have "unat (RdOff r - WrOff r) = unat (RdOff r) - unat (WrOff r)"
      by (intro unat_sub_nat) (simp add: word_le_nat_alt)
    then have "unat (RdOff r - WrOff r - 1) = unat (RdOff r) - unat (WrOff r) - 1"
      using False by (subst unat_sub_nat) (auto simp: word_le_nat_alt)
    then show ?thesis using False by (simp add: GetAvailWriteSpace_def room_def free_def word_le_nat_alt)
  qed
qed

lemma ring_ok_words:
  assumes "ring_ok r"
  shows "unat (SizeOfBuffer r - WrOff r) = unat (SizeOfBuffer r) - unat (WrOff r)"
    "unat (WrOff r) < unat (SizeOfBuffer r)" "unat (RdOff r) < unat (SizeOfBuffer r)"
    "unat (SizeOfBuffer r) < 2 ^ 32"
  using assms unsigned_less [where w = "SizeOfBuffer r" and 'a = nat]
  by (auto elim!: ring_okE simp: unat_sub_nat)

lemma unat_off:
  assumes "ring_ok r" "unat (WrOff r) + unat n \<le> unat (SizeOfBuffer r)"
  shows "unat (WrOff r + n) = unat (WrOff r) + unat n"
  using ring_ok_words(4) [OF assms(1)] assms(2) by (intro unat_add_nat) simp

section \<open>Writing\<close>

text \<open>A write that fits, copied but not yet published, and published.\<close>

lemma drop_splice: "length y = m \<Longrightarrow> m \<le> R \<Longrightarrow> drop R (y @ drop m b) = drop R b"
  by simp

lemma NoCheck_fits:
  assumes ok: "ring_ok r" and n: "unat n \<le> length xs" "unat n \<le> room r"
  shows "\<exists>b w. NoCheck_copy r xs n = Some (r\<lparr>pBuffer := Some b\<rparr>, w) \<and>
    ring_ok (r\<lparr>pBuffer := Some b\<rparr>) \<and> held (r\<lparr>pBuffer := Some b\<rparr>) = held r \<and>
    ring_ok (r\<lparr>pBuffer := Some b, WrOff := w\<rparr>) \<and>
    held (r\<lparr>pBuffer := Some b, WrOff := w\<rparr>) = held r @ take (unat n) xs"
proof -
  define S R W where d: "S = unat (SizeOfBuffer r)" "R = unat (RdOff r)" "W = unat (WrOff r)"
  obtain b where b: "pBuffer r = Some b" "length b = S" "W < S" "R < S"
    using ok unfolding d by (rule ring_okE)
  have Rem: "unat (SizeOfBuffer r - WrOff r) = S - W" using ring_ok_words(1) [OF ok] by (simp add: d)
  have rm: "unat n \<le> free S R W" using n(2) by (simp add: room_def d)
  show ?thesis
  proof (cases "n < SizeOfBuffer r - WrOff r")
    case True
    then have lt: "unat n < S - W" by (simp add: word_less_nat_alt Rem)
    let ?b = "take W b @ take (unat n) xs @ drop (W + unat n) b"
    have src: "length (take (unat n) xs) = unat n" using n(1) by simp
    note st = store_circ [OF b(2-4), of "take (unat n) xs", unfolded src]
    have w: "unat (WrOff r + n) = W + unat n"
      using unat_off [OF ok, of n] lt by (simp add: d)
    have "NoCheck_copy r xs n = Some (r\<lparr>pBuffer := Some ?b\<rparr>, WrOff r + n)"
      using True b st(1) rm lt n(1) by (simp add: NoCheck_copy_def mem_load_Some Let_def d [symmetric])
    moreover have "length ?b = S" using st(2) rm lt by simp
    moreover have lt': "W + unat n < S" using lt by simp
    moreover have "circ ?b R (W + unat n) = circ b R W @ take (unat n) xs" "circ ?b R W = circ b R W"
      using st(4,5) rm lt' by simp_all
    ultimately show ?thesis
      using b(1) w b(2-4) n(1)
      by (intro exI [of _ ?b] exI [of _ "WrOff r + n"])
        (simp add: ring_ok_def held_def word_less_nat_alt d [symmetric])
  next
    case False
    then have ge: "S - W \<le> unat n" by (simp add: word_less_nat_alt Rem not_less)
    define m where "m = unat n - (S - W)"
    have RW: "R \<le> W" "m + (S - W) \<le> free S R W" "m < R"
      using rm ge b(3,4) by (auto simp: free_def m_def split: if_splits)
    let ?x = "take (S - W) xs" and ?y = "take m (drop (S - W) xs)"
    have lx: "length ?x = S - W" "length ?y = m" using n(1) ge by (simp_all add: m_def)
    let ?b1 = "take W b @ ?x @ drop S b"
    note s1 = store_circ [OF b(2-4), of ?x, unfolded lx]
    have s1': "mem_store W ?x b = Some ?b1" "length ?b1 = S" "circ ?b1 R 0 = circ b R W @ ?x"
      "circ ?b1 R W = circ b R W" "free S R 0 = free S R W - (S - W)"
      using s1 RW b(3) by simp_all
    have R0: "0 < S" "R < S" using b(3,4) by simp_all
    let ?b2 = "?y @ drop m ?b1"
    note s2 = store_circ [OF s1'(2) R0, of ?y, unfolded lx]
    have s2': "mem_store 0 ?y ?b1 = Some ?b2" "length ?b2 = S" "circ ?b2 R m = circ b R W @ ?x @ ?y"
      using s2 RW b(4) s1'(3,5) by simp_all
    have "drop R ?b2 = drop R ?b1" by (rule drop_splice) (use lx RW in simp_all)
    then have same: "circ ?b2 R W = circ b R W"
      using RW(1) s1'(4) by (simp only: circ_def if_True)
    have nm: "unat (n - (SizeOfBuffer r - WrOff r)) = m"
      using ge by (subst unat_sub_nat) (simp_all add: Rem m_def)
    have l2: "mem_load (S - W) m xs = Some ?y" "mem_load 0 (S - W) xs = Some ?x"
      using n(1) ge by (simp_all add: mem_load_def m_def)
    have "NoCheck_copy r xs n = Some (r\<lparr>pBuffer := Some ?b2\<rparr>, n - (SizeOfBuffer r - WrOff r))"
      using False b(1) s1'(1) s2'(1) l2 by (simp add: NoCheck_copy_def Rem nm Let_def d [symmetric])
    moreover have "take (unat n) xs = ?x @ ?y"
      using ge by (simp add: m_def take_add [symmetric])
    moreover have "m < S" using RW b(4) by simp
    ultimately show ?thesis
      using s2'(2,3) same b nm
      by (intro exI [of _ ?b2] exI [of _ "n - (SizeOfBuffer r - WrOff r)"])
        (simp add: ring_ok_def held_def word_less_nat_alt d [symmetric] del: drop_append take_append length_append)
  qed
qed

lemma WriteNoCheck_fits:
  assumes "ring_ok r" "unat n \<le> length xs" "unat n \<le> room r"
  shows "\<exists>r'. WriteNoCheck r xs n = Some r' \<and> ring_ok r' \<and> held r' = held r @ take (unat n) xs \<and>
    SizeOfBuffer r' = SizeOfBuffer r \<and> RdOff r' = RdOff r \<and> Flags r' = Flags r"
  using NoCheck_fits [OF assms] by (auto simp: WriteNoCheck_def)

end
