(* ===== verification/Rtt_Props.thy ===== *)
theory Rtt_Props
  imports Rtt_Ring
begin

text \<open>
  What the diagnostic channels promise: bounded queues without loss, duplication or reordering, by
  any of the write routines, with the probe reading in between; and where the code breaks the
  promise.
\<close>

section \<open>Writing and reading as queue operations\<close>

text \<open>How many bytes a write accepts in the modes that do not block.\<close>

definition accepted :: "ring \<Rightarrow> u32 \<Rightarrow> nat" where
  "accepted r n =
     (if Flags r = SEGGER_RTT_MODE_NO_BLOCK_SKIP then if unat n \<le> room r then unat n else 0
      else if Flags r = SEGGER_RTT_MODE_NO_BLOCK_TRIM then min (unat n) (room r) else 0)"

lemma write_ring_accepts:
  assumes ok: "ring_ok r" and n: "unat n \<le> length xs" and mode: "Flags r \<noteq> SEGGER_RTT_MODE_BLOCK_IF_FIFO_FULL"
  shows "\<exists>r' k. write_ring host r xs n = Some (r', k) \<and> unat k = accepted r n \<and> ring_ok r' \<and>
    held r' = held r @ take (unat k) xs \<and> Flags r' = Flags r \<and> SizeOfBuffer r' = SizeOfBuffer r"
proof -
  have av: "GetAvailWriteSpace r < n \<longleftrightarrow> room r < unat n"
    using avail_room [OF ok] by (simp add: word_less_nat_alt)
  define k where "k = (if GetAvailWriteSpace r < n then GetAvailWriteSpace r else n)"
  have k: "unat k = min (unat n) (room r)" using avail_room [OF ok] by (simp add: k_def av)
  have k': "unat k \<le> length xs" "unat k \<le> room r" using n k by simp_all
  consider "Flags r = 0" "room r < unat n" | "Flags r = 0" "unat n \<le> room r" | "Flags r = 1"
    | "Flags r \<noteq> 0" "Flags r \<noteq> 1" by fastforce
  then show ?thesis
  proof cases
    case 1
    then show ?thesis using ok av by (simp add: write_ring_def accepted_def)
  next
    case 2
    from WriteNoCheck_fits [OF ok n 2(2)] 2 show ?thesis using av
      by (auto simp: write_ring_def accepted_def)
  next
    case 3
    from WriteNoCheck_fits [OF ok k'] 3 k show ?thesis
      by (auto simp: write_ring_def accepted_def Let_def k_def [symmetric])
  next
    case 4
    then show ?thesis using ok mode by (simp add: write_ring_def accepted_def)
  qed
qed

text \<open>The second half of a read: from a read offset not beyond the write offset, or with nothing left to read.\<close>

lemma read_rest:
  fixes w q m :: u32
  assumes b: "length b = S" "unat w < S" "unat q < S" and le: "q \<le> w \<or> m = 0"
  shows "\<exists>q'. (if 0 < min (w - q) m
      then do { src \<leftarrow> mem_load (unat q) (unat (min (w - q) m)) b; Some (q + min (w - q) m, src) }
      else Some (q, [])) = Some (q', take (unat m) (circ b (unat q) (unat w))) \<and>
    unat q' < S \<and> circ b (unat q') (unat w) = drop (unat m) (circ b (unat q) (unat w))"
proof (cases "0 < min (w - q) m")
  case True
  then have le': "q \<le> w" using le by auto
  then have wq: "unat (w - q) = unat w - unat q" by (simp add: unat_sub)
  let ?n = "min (w - q) m"
  have n: "unat ?n = min (unat w - unat q) (unat m)" by (simp add: unat_min wq)
  have c: "circ b (unat q) (unat w) = take (unat w - unat q) (drop (unat q) b)"
    using le' by (simp add: circ_def word_le_nat_alt)
  have small: "unat q + unat ?n \<le> unat w" using le' n by (simp add: word_le_nat_alt)
  then have q': "unat (q + ?n) = unat q + unat ?n"
    using b(2) unsigned_less [where w = w and 'a = nat] by (intro unat_add_nat) simp
  have len: "length (circ b (unat q) (unat w)) = unat w - unat q" using c b by simp
  have "mem_load (unat q) (unat ?n) b = Some (take (unat ?n) (circ b (unat q) (unat w)))"
    "circ b (unat q + unat ?n) (unat w) = drop (unat ?n) (circ b (unat q) (unat w))"
    using load_circ [OF b, of "unat ?n"] small b(2) len n by simp_all
  moreover have "take (unat ?n) (circ b (unat q) (unat w)) = take (unat m) (circ b (unat q) (unat w))"
    "drop (unat ?n) (circ b (unat q) (unat w)) = drop (unat m) (circ b (unat q) (unat w))"
    using len n by (simp_all add: min_def)
  ultimately show ?thesis using True small b(2) q' by (intro exI [of _ "q + ?n"]) simp
next
  case False
  then have z: "w - q = 0 \<or> m = 0" by (auto simp: min_def word_gt_0 split: if_splits)
  then have "take (unat m) (circ b (unat q) (unat w)) = [] \<and>
      drop (unat m) (circ b (unat q) (unat w)) = circ b (unat q) (unat w)"
    by (auto simp: circ_def)
  then show ?thesis unfolding if_not_P [OF False] using b(3) by (intro exI [of _ q]) simp
qed

lemma read_ring_takes:
  assumes ok: "ring_ok r"
  shows "\<exists>r'. read_ring r n = Some (r', take (unat n) (held r)) \<and> ring_ok r' \<and>
    held r' = drop (unat n) (held r) \<and> Flags r' = Flags r \<and> SizeOfBuffer r' = SizeOfBuffer r"
proof -
  define S R W where d: "S = unat (SizeOfBuffer r)" "R = unat (RdOff r)" "W = unat (WrOff r)"
  obtain b where b: "pBuffer r = Some b" "length b = S" "W < S" "R < S"
    using ok unfolding d by (rule ring_okE)
  let ?h = "circ b R W"
  have first: "\<exists>q m out1. (if WrOff r < RdOff r
        then do {
          let k = min (SizeOfBuffer r - RdOff r) n;
          src \<leftarrow> mem_load (unat (RdOff r)) (unat k) b;
          let q = RdOff r + k;
          Some (if q = SizeOfBuffer r then 0 else q, n - k, src)
        } else Some (RdOff r, n, [])) = Some (q, m, out1) \<and>
      unat q < S \<and> (q \<le> WrOff r \<or> m = 0) \<and>
      out1 @ take (unat m) (circ b (unat q) W) = take (unat n) ?h \<and>
      drop (unat m) (circ b (unat q) W) = drop (unat n) ?h"
  proof (cases "WrOff r < RdOff r")
    case False
    then show ?thesis using b
      by (intro exI [of _ "RdOff r"] exI [of _ n] exI [of _ "[]"]) (simp add: d not_less [symmetric])
  next
    case True
    then have lt: "W < R" by (simp add: word_less_nat_alt d)
    let ?k = "min (SizeOfBuffer r - RdOff r) n"
    have sr: "unat (SizeOfBuffer r - RdOff r) = S - R" using b(4) by (simp add: unat_sub_nat d)
    have k: "unat ?k = min (S - R) (unat n)" by (simp add: unat_min sr)
    have q: "unat (RdOff r + ?k) = R + unat ?k"
      using k b(4) ring_ok_words(4) [OF ok] by (subst unat_add_nat) (simp_all add: d)
    have qS: "RdOff r + ?k = SizeOfBuffer r \<longleftrightarrow> R + unat ?k = S" by (simp add: word_unat_eq_iff q d)
    have len: "length ?h = S - R + W" using lt b by (simp add: circ_def)
    note ld = load_circ [OF b(2-4), of "unat ?k"]
    have l: "mem_load R (unat ?k) b = Some (take (unat ?k) ?h)"
      "circ b (if R + unat ?k = S then 0 else R + unat ?k) W = drop (unat ?k) ?h"
      using ld len k b(4) by auto
    have m: "unat (n - ?k) = unat n - unat ?k" using k by (simp add: unat_sub_nat)
    let ?q = "if RdOff r + ?k = SizeOfBuffer r then 0 else RdOff r + ?k"
    have uq: "unat ?q = (if R + unat ?k = S then 0 else R + unat ?k)" by (simp add: qS q)
    have "unat ?q < S" using uq k b(4) by auto
    moreover have "?q \<le> WrOff r \<or> n - ?k = 0"
    proof (cases "R + unat ?k = S")
      case True
      then show ?thesis by (simp add: qS)
    next
      case False
      then have "unat ?k = unat n" using k b(4) by linarith
      then show ?thesis by (simp add: word_unat_eq_iff m)
    qed
    moreover have "take (unat ?k) ?h @ take (unat n - unat ?k) (drop (unat ?k) ?h) = take (unat n) ?h"
      using k by (simp add: take_add [symmetric])
    moreover have "drop (unat n - unat ?k) (drop (unat ?k) ?h) = drop (unat n) ?h" using k by simp
    ultimately show ?thesis
      using True l by (intro exI [of _ ?q] exI [of _ "n - ?k"] exI [of _ "take (unat ?k) ?h"])
        (simp add: Let_def uq m d [symmetric])
  qed
  then obtain q m out1 where f: "(if WrOff r < RdOff r
        then do {
          let k = min (SizeOfBuffer r - RdOff r) n;
          src \<leftarrow> mem_load (unat (RdOff r)) (unat k) b;
          let q = RdOff r + k;
          Some (if q = SizeOfBuffer r then 0 else q, n - k, src)
        } else Some (RdOff r, n, [])) = Some (q, m, out1)"
    "unat q < S" "q \<le> WrOff r \<or> m = 0"
    "out1 @ take (unat m) (circ b (unat q) W) = take (unat n) ?h"
    "drop (unat m) (circ b (unat q) W) = drop (unat n) ?h" by blast
  obtain q' where g: "(if 0 < min (WrOff r - q) m
      then do { src \<leftarrow> mem_load (unat q) (unat (min (WrOff r - q) m)) b; Some (q + min (WrOff r - q) m, src) }
      else Some (q, [])) = Some (q', take (unat m) (circ b (unat q) W))"
    "unat q' < S" "circ b (unat q') W = drop (unat m) (circ b (unat q) W)"
    using read_rest [OF b(2) _ f(2,3)] b(3) by (auto simp: d)
  have e: "read_ring r n = Some (if take (unat n) ?h \<noteq> [] then r\<lparr>RdOff := q'\<rparr> else r, take (unat n) ?h)"
    by (simp only: read_ring_def b(1) f(1) [unfolded Let_def] g(1) Let_def Option.bind.simps prod.case f(4))
  have h: "held r = ?h" by (simp add: held_def b(1) d)
  show ?thesis
  proof (cases "take (unat n) ?h = []")
    case True
    then have "drop (unat n) ?h = ?h" by auto
    then show ?thesis using e h ok True by simp
  next
    case False
    then show ?thesis using e h g f(5) b
      by (simp add: ring_ok_def held_def word_less_nat_alt d [symmetric])
  qed
qed

section \<open>The queue contract\<close>

datatype 'x queue_op = Put "'x list" | Get nat

text \<open>A run of writes and reads: what was accepted, and what was delivered.\<close>

fun queue_run :: "('x list \<Rightarrow> 'r \<Rightarrow> ('r \<times> nat) option) \<Rightarrow> (nat \<Rightarrow> 'r \<Rightarrow> ('r \<times> 'x list) option) \<Rightarrow>
    'x queue_op list \<Rightarrow> 'r \<Rightarrow> ('r \<times> 'x list \<times> 'x list) option" where
  "queue_run put get [] r = Some (r, [], [])"
| "queue_run put get (Put xs # ops) r = do {
     (r, n) \<leftarrow> put xs r; (r, acc, out) \<leftarrow> queue_run put get ops r; Some (r, take n xs @ acc, out) }"
| "queue_run put get (Get n # ops) r = do {
     (r, ys) \<leftarrow> get n r; (r, acc, out) \<leftarrow> queue_run put get ops r; Some (r, acc, ys @ out) }"

fun op_within :: "nat \<Rightarrow> 'x queue_op \<Rightarrow> bool" where
  "op_within m (Put xs) = (length xs < m)"
| "op_within m (Get n) = (n < m)"

locale bounded_queue =
  fixes ok :: "'r \<Rightarrow> bool"
    and items :: "'r \<Rightarrow> 'x list"
    and put :: "'x list \<Rightarrow> 'r \<Rightarrow> ('r \<times> nat) option"
    and get :: "nat \<Rightarrow> 'r \<Rightarrow> ('r \<times> 'x list) option"
    and limit :: nat
  assumes put_law: "ok r \<Longrightarrow> length xs < limit \<Longrightarrow>
      \<exists>r' n. put xs r = Some (r', n) \<and> ok r' \<and> items r' = items r @ take n xs"
    and get_law: "ok r \<Longrightarrow> n < limit \<Longrightarrow>
      \<exists>r'. get n r = Some (r', take n (items r)) \<and> ok r' \<and> items r' = drop n (items r)"
begin

text \<open>Whatever is accepted comes out once and in order, or is still held.\<close>

lemma run_fifo:
  "ok r \<Longrightarrow> list_all (op_within limit) ops \<Longrightarrow>
   \<exists>r' acc out. queue_run put get ops r = Some (r', acc, out) \<and> ok r' \<and> items r @ acc = out @ items r'"
proof (induction ops arbitrary: r)
  case Nil
  then show ?case by simp
next
  case (Cons oper ops)
  show ?case
  proof (cases oper)
    case (Put xs)
    with Cons.prems obtain r1 n where p: "put xs r = Some (r1, n)" "ok r1" "items r1 = items r @ take n xs"
      using put_law by fastforce
    from Cons.IH [OF p(2)] Cons.prems(2) show ?thesis using Put p by fastforce
  next
    case (Get n)
    with Cons.prems obtain r1 where g: "get n r = Some (r1, take n (items r))" "ok r1"
        "items r1 = drop n (items r)"
      using get_law by fastforce
    from Cons.IH [OF g(2)] Cons.prems(2) obtain r' acc out where
      "queue_run put get ops r1 = Some (r', acc, out)" "ok r'" "items r1 @ acc = out @ items r'" by auto
    moreover from this g(3) have "items r @ acc = (take n (items r) @ out) @ items r'"
      by (metis append.assoc append_take_drop_id)
    ultimately show ?thesis using Get g(1) by simp
  qed
qed

end

definition ring_put :: "u8 list \<Rightarrow> ring \<Rightarrow> (ring \<times> nat) option" where
  "ring_put xs r = map_option (\<lambda>(r, k). (r, unat k)) (write_ring [] r xs (of_nat (length xs)))"

definition ring_get :: "nat \<Rightarrow> ring \<Rightarrow> (ring \<times> u8 list) option" where
  "ring_get n r = read_ring r (of_nat n)"

interpretation channel: bounded_queue
  "\<lambda>r. ring_ok r \<and> Flags r \<noteq> SEGGER_RTT_MODE_BLOCK_IF_FIFO_FULL" held ring_put ring_get "2 ^ 32"
proof
  fix r :: ring and xs :: "u8 list"
  assume "ring_ok r \<and> Flags r \<noteq> SEGGER_RTT_MODE_BLOCK_IF_FIFO_FULL" "length xs < 2 ^ 32"
  then show "\<exists>r' n. ring_put xs r = Some (r', n) \<and>
      (ring_ok r' \<and> Flags r' \<noteq> SEGGER_RTT_MODE_BLOCK_IF_FIFO_FULL) \<and> held r' = held r @ take n xs"
    using write_ring_accepts [of r "of_nat (length xs)" xs "[]"] by (auto simp: ring_put_def unat_of_nat_32)
next
  fix r :: ring and n :: nat
  assume "ring_ok r \<and> Flags r \<noteq> SEGGER_RTT_MODE_BLOCK_IF_FIFO_FULL" "n < 2 ^ 32"
  then show "\<exists>r'. ring_get n r = Some (r', take n (held r)) \<and>
      (ring_ok r' \<and> Flags r' \<noteq> SEGGER_RTT_MODE_BLOCK_IF_FIFO_FULL) \<and> held r' = drop n (held r)"
    using read_ring_takes [of r "of_nat n"] by (auto simp: ring_get_def unat_of_nat_32)
qed

text \<open>
  C9: a diagnostic channel is a queue. In the modes that do not block, however writes and reads
  alternate and wherever the offsets wrap, every call returns without a copy outside the buffer, and
  what the writes accepted is, in order and each byte once, what the reads have delivered followed
  by what the buffer still holds.
\<close>

theorem channel_is_fifo:
  assumes "ring_ok r" "Flags r \<noteq> SEGGER_RTT_MODE_BLOCK_IF_FIFO_FULL" "list_all (op_within (2 ^ 32)) ops"
  shows "\<exists>r' acc out. queue_run ring_put ring_get ops r = Some (r', acc, out) \<and> ring_ok r' \<and>
    held r @ acc = out @ held r'"
  using channel.run_fifo [of r ops] assms by blast

text \<open>
  How much a write accepts. Without blocking, the default mode takes all of the message or none
  of it, the trimming mode the part that fits; the status is the number of bytes stored; and the
  fill level and the free space always add up to the size less one.
\<close>

theorem write_accepts:
  assumes "ring_ok r" "Flags r = SEGGER_RTT_MODE_NO_BLOCK_SKIP \<or> Flags r = SEGGER_RTT_MODE_NO_BLOCK_TRIM"
    and "unat n \<le> length xs"
  shows "\<exists>r' k. write_ring host r xs n = Some (r', k) \<and> held r' = held r @ take (unat k) xs \<and>
    unat k = (if Flags r = SEGGER_RTT_MODE_NO_BLOCK_TRIM then min (unat n) (unat (GetAvailWriteSpace r))
              else if unat n \<le> unat (GetAvailWriteSpace r) then unat n else 0) \<and>
    length (held r') + unat (GetAvailWriteSpace r') = unat (SizeOfBuffer r) - 1"
proof -
  have "Flags r \<noteq> SEGGER_RTT_MODE_BLOCK_IF_FIFO_FULL" using assms(2) by auto
  from write_ring_accepts [OF assms(1,3) this, of host]
  obtain r' k where w: "write_ring host r xs n = Some (r', k)" "unat k = accepted r n" "ring_ok r'"
    "held r' = held r @ take (unat k) xs" "SizeOfBuffer r' = SizeOfBuffer r" by blast
  have "length (held r') + unat (GetAvailWriteSpace r') = unat (SizeOfBuffer r) - 1"
    using held_room [OF w(3)] avail_room [OF w(3)] w(5) by simp
  then show ?thesis using w assms(2) avail_room [OF assms(1)]
    by (intro exI [of _ r'] exI [of _ k]) (auto simp: accepted_def)
qed

section \<open>The specialised routines\<close>

lemma unat_less_iff: "(a :: u32) \<le> b \<longleftrightarrow> unat a \<le> unat b" "(a :: u32) < b \<longleftrightarrow> unat a < unat b"
  by (simp_all add: word_le_nat_alt word_less_nat_alt)

lemma skip_ring_eq:
  assumes ok: "ring_ok r" and n: "unat n \<le> length xs" "n \<noteq> 0"
  shows "skip_ring r xs n =
    (if unat n \<le> room r then map_option (\<lambda>r. (r, 1)) (WriteNoCheck r xs n) else Some (r, 0))"
proof -
  define S R W where d: "S = unat (SizeOfBuffer r)" "R = unat (RdOff r)" "W = unat (WrOff r)"
  obtain b where b: "pBuffer r = Some b" "length b = S" "W < S" "R < S"
    using ok unfolding d by (rule ring_okE)
  have Rem: "unat (SizeOfBuffer r - WrOff r) = S - W" using ring_ok_words(1) [OF ok] by (simp add: d)
  have A1: "unat (SizeOfBuffer r - WrOff r - 1) = S - W - 1" using b(3) Rem by (subst unat_sub_nat) simp_all
  have A2: "unat (SizeOfBuffer r - WrOff r - 1 + RdOff r) = S - W - 1 + R" if "R \<le> W"
    using b(3) that ring_ok_words(4) [OF ok] A1 by (subst unat_add_nat) (simp_all add: d)
  have A3: "unat (RdOff r - WrOff r - 1) = R - W - 1" if "W < R"
  proof -
    have "unat (RdOff r - WrOff r) = R - W" using that by (simp add: unat_sub_nat d)
    then show ?thesis using that by (subst unat_sub_nat) simp_all
  qed
  have rm: "room r = (if W < R then R - W - 1 else S - (W - R + 1))" by (simp add: room_def free_def d)
  have straight: "WriteNoCheck r xs n = (do {
      src \<leftarrow> mem_load 0 (unat n) xs; buf \<leftarrow> pBuffer r; buf \<leftarrow> mem_store (unat (WrOff r)) src buf;
      Some (r\<lparr>pBuffer := Some buf, WrOff := WrOff r + n\<rparr>) })" if "unat n < S - W"
    using that by (simp add: WriteNoCheck_def NoCheck_copy_def unat_less_iff Rem split: bind_split)
  have store0: "mem_store 0 (take 0 ys) buf = Some buf" for ys buf :: "u8 list" by (simp add: mem_store_def)
  have wrap: "WriteNoCheck r xs n = (do {
      src \<leftarrow> mem_load 0 (unat (SizeOfBuffer r - WrOff r)) xs; buf \<leftarrow> pBuffer r;
      buf \<leftarrow> mem_store (unat (WrOff r)) src buf;
      buf \<leftarrow> (if n - (SizeOfBuffer r - WrOff r) \<noteq> 0
        then do { src \<leftarrow> mem_load (unat (SizeOfBuffer r - WrOff r)) (unat (n - (SizeOfBuffer r - WrOff r))) xs;
                  mem_store 0 src buf }
        else Some buf);
      Some (r\<lparr>pBuffer := Some buf, WrOff := n - (SizeOfBuffer r - WrOff r)\<rparr>) })" if "S - W \<le> unat n"
  proof (cases "n = SizeOfBuffer r - WrOff r")
    case True
    then show ?thesis using that n(1)
      by (simp add: WriteNoCheck_def NoCheck_copy_def Let_def mem_load_Some store0 [of "[]", simplified] split: bind_split)
  next
    case False
    then show ?thesis using that
      by (simp add: WriteNoCheck_def NoCheck_copy_def Let_def unat_less_iff Rem split: bind_split)
  qed
  show ?thesis
  proof (cases "R \<le> W")
    case True
    then have le: "RdOff r \<le> WrOff r" by (simp add: unat_less_iff d)
    consider "unat n \<le> S - W - 1" | "S - W - 1 < unat n" "unat n \<le> S - W - 1 + R" | "S - W - 1 + R < unat n"
      by linarith
    then show ?thesis
    proof cases
      case 1
      then have "unat n < S - W" using b(3) by simp
      then show ?thesis using 1 le True b(3) straight rm
        by (simp add: skip_ring_def Let_def unat_less_iff A1 map_option_bind split: bind_split) (auto split: bind_splits)
    next
      case 2
      then show ?thesis using le True b(3) wrap rm A2 [OF True]
        by (simp add: skip_ring_def Let_def unat_less_iff A1) (auto split: bind_splits)
    next
      case 3
      then have "\<not> unat n \<le> S - Suc W" by linarith
      then show ?thesis using 3 le True b(3) rm A2 [OF True] by (simp add: skip_ring_def Let_def unat_less_iff A1)
    qed
  next
    case False
    then have lt: "W < R" "\<not> RdOff r \<le> WrOff r" by (simp_all add: unat_less_iff d)
    show ?thesis using lt straight rm A3 [OF lt(1)] b(4)
      by (auto simp: skip_ring_def Let_def unat_less_iff split: bind_splits)
  qed
qed

lemma put_ring_eq:
  assumes ok: "ring_ok r" and size: "2 \<le> unat (SizeOfBuffer r)"
  shows "put_ring r c =
    (if 1 \<le> room r then map_option (\<lambda>r. (r, 1)) (WriteNoCheck r [c] 1) else Some (r, 0))"
proof -
  define S R W where d: "S = unat (SizeOfBuffer r)" "R = unat (RdOff r)" "W = unat (WrOff r)"
  obtain b where b: "pBuffer r = Some b" "length b = S" "W < S" "R < S"
    using ok unfolding d by (rule ring_okE)
  have Rem: "unat (SizeOfBuffer r - WrOff r) = S - W" using ring_ok_words(1) [OF ok] by (simp add: d)
  have w1: "unat (WrOff r + 1) = W + 1"
    using b(3) ring_ok_words(4) [OF ok] by (subst unat_add_nat) (simp_all add: d)
  have rm: "room r = (if W < R then R - W - 1 else S - (W - R + 1))" by (simp add: room_def free_def d)
  have full: "WrOff r + 1 = SizeOfBuffer r \<longleftrightarrow> W + 1 = S" by (simp add: word_unat_eq_iff w1 d)
  show ?thesis
  proof (cases "W + 1 = S")
    case True
    then have e: "SizeOfBuffer r - WrOff r = 1" by (simp add: word_unat_eq_iff Rem)
    have "room r = 0 \<longleftrightarrow> R = 0" using rm True b(4) by auto
    then have z: "1 \<le> room r \<longleftrightarrow> RdOff r \<noteq> 0" by (simp add: d unat_eq_0 not_less_eq_eq [symmetric] Suc_le_eq)
    show ?thesis using z full True b
      by (simp add: put_ring_def WriteNoCheck_def NoCheck_copy_def e Let_def mem_load_Some mem_store_def d [symmetric])
  next
    case False
    then have lt: "\<not> WrOff r + 1 = SizeOfBuffer r" "1 < SizeOfBuffer r - WrOff r"
      using b(3) by (simp_all add: full unat_less_iff Rem)
    have "WrOff r + 1 = RdOff r \<longleftrightarrow> W + 1 = R" by (simp add: word_unat_eq_iff w1 d)
    moreover have "1 \<le> room r \<longleftrightarrow> W + 1 \<noteq> R" using rm False b(3,4) size by (auto simp: d)
    ultimately show ?thesis using lt b
      by (simp add: put_ring_def WriteNoCheck_def NoCheck_copy_def Let_def mem_load_Some mem_store_def d [symmetric])
  qed
qed

text \<open>
  The fast paths are the slow path. For a nonempty message the routine that distinguishes five
  cases of the offsets, and for a single byte the one that compares two offsets, do to the buffer
  exactly what the general write does in the default mode, and report 1 for success.
\<close>

theorem fast_writes_agree:
  assumes "ring_ok r" "Flags r = SEGGER_RTT_MODE_NO_BLOCK_SKIP" "unat n \<le> length xs" "n \<noteq> 0"
    and "2 \<le> unat (SizeOfBuffer r)"
  shows "map_option (\<lambda>(r, k). (r, k \<noteq> 0)) (skip_ring r xs n) =
      map_option (\<lambda>(r, k). (r, k \<noteq> 0)) (write_ring host r xs n) \<and>
    map_option (\<lambda>(r, k). (r, k \<noteq> 0)) (put_ring r c) =
      map_option (\<lambda>(r, k). (r, k \<noteq> 0)) (write_ring host r [c] 1)"
proof -
  have av: "GetAvailWriteSpace r < m \<longleftrightarrow> \<not> unat m \<le> room r" for m
    using avail_room [OF assms(1)] by (simp add: unat_less_iff not_le)
  have w: "map_option (\<lambda>(r, k). (r, k \<noteq> 0)) (write_ring host r ys m) =
      (if unat m \<le> room r then map_option (\<lambda>r. (r, True)) (WriteNoCheck r ys m) else Some (r, False))"
    if "m \<noteq> 0" for ys m
    using that assms(2) av [of m] by (cases "WriteNoCheck r ys m") (auto simp: write_ring_def)
  show ?thesis
    unfolding w [OF assms(4)] skip_ring_eq [OF assms(1,3,4)] put_ring_eq [OF assms(1,5)]
    using w [of 1 "[c]"] by (auto simp: option.map_comp comp_def)
qed

section \<open>Overwriting\<close>

text \<open>The probe, or an overwriting writer, moving the read offset by \<open>k\<close> bytes.\<close>

definition skipped :: "nat \<Rightarrow> ring \<Rightarrow> u32" where
  "skipped k r = of_nat ((unat (RdOff r) + k) mod unat (SizeOfBuffer r))"

lemma held_skipped:
  assumes ok: "ring_ok r" and k: "k \<le> length (held r)"
  shows "ring_ok (r\<lparr>RdOff := skipped k r\<rparr>) \<and> held (r\<lparr>RdOff := skipped k r\<rparr>) = drop k (held r)"
proof -
  define S R W where d: "S = unat (SizeOfBuffer r)" "R = unat (RdOff r)" "W = unat (WrOff r)"
  obtain b where b: "pBuffer r = Some b" "length b = S" "W < S" "R < S"
    using ok unfolding d by (rule ring_okE)
  have h: "held r = circ b R W" by (simp add: held_def b(1) d)
  have "(R + k) mod S < S" using b(3) by (intro mod_less_divisor) simp
  then have u: "unat (skipped k r) = (R + k) mod S"
    using ring_ok_words(4) [OF ok] unfolding skipped_def d [symmetric] by (intro unat_of_nat_32) (simp add: d)
  have "(R + k) mod S < S \<and> circ b ((R + k) mod S) W = drop k (circ b R W)"
  proof (cases "R + k < S")
    case True
    then show ?thesis using load_circ(3) [OF b(2-4), of k] k h by simp
  next
    case False
    then have m: "(R + k) mod S = R + k - S" using k h b length_circ [OF b(2,4,3)] by (simp add: mod_if)
    have lt: "W < R" using False k h b by (auto simp: circ_def split: if_splits)
    have le: "R + k - S \<le> W" using lt k h b(2,4) by (simp add: circ_def)
    have "circ b (R + k - S) W = drop k (circ b R W)"
      using lt le False k h b by (simp add: circ_def drop_take add.commute)
    then show ?thesis using m lt False k h b by (simp add: circ_def)
  qed
  then show ?thesis using u b h by (simp add: ring_ok_def held_def word_less_nat_alt d [symmetric])
qed

lemma overwrite_room_eq:
  assumes ok: "ring_ok r" and n: "unat n < unat (SizeOfBuffer r)" and size: "unat (SizeOfBuffer r) \<le> 2 ^ 31"
  shows "overwrite_room r n = Some (if unat n \<le> room r then r else r\<lparr>RdOff := skipped (unat n - room r) r\<rparr>)"
proof -
  define S R W where d: "S = unat (SizeOfBuffer r)" "R = unat (RdOff r)" "W = unat (WrOff r)"
  obtain b where b: "pBuffer r = Some b" "length b = S" "W < S" "R < S"
    using ok unfolding d by (rule ring_okE)
  have rm: "room r = (if W < R then R - W - 1 else S - (W - R + 1))" by (simp add: room_def free_def d)
  define av where "av = (if WrOff r = RdOff r then SizeOfBuffer r - 1
      else if WrOff r < RdOff r then RdOff r - WrOff r - 1
      else RdOff r - WrOff r - 1 + SizeOfBuffer r)"
  have av: "unat av = room r"
  proof -
    consider "WrOff r = RdOff r" | "WrOff r < RdOff r" | "RdOff r < WrOff r" by fastforce
    then show ?thesis
    proof cases
      case 1
      have "unat (SizeOfBuffer r - 1) = S - 1" using b(3) by (subst unat_sub_nat) (simp_all add: d)
      then show ?thesis using 1 rm by (simp add: av_def d)
    next
      case 2
      then have lt: "W < R" by (simp add: unat_less_iff d)
      have "unat (RdOff r - WrOff r) = R - W" using lt by (simp add: unat_sub_nat d)
      then have "unat (RdOff r - WrOff r - 1) = R - W - 1" using lt by (subst unat_sub_nat) simp_all
      then show ?thesis using 2 lt rm by (auto simp: av_def)
    next
      case 3
      then have lt: "R < W" by (simp add: unat_less_iff d)
      have "unat (WrOff r - RdOff r) = W - R" using lt by (simp add: unat_sub_nat d)
      then have "unat (WrOff r - RdOff r + 1) = W - R + 1"
        using ring_ok_words(4) [OF ok] b(3) by (subst unat_add_nat) (simp_all add: d)
      then have "unat (SizeOfBuffer r - (WrOff r - RdOff r + 1)) = S - (W - R + 1)"
        using b(3) by (subst unat_sub_nat) (simp_all add: d)
      moreover have "av = SizeOfBuffer r - (WrOff r - RdOff r + 1)" using 3 by (auto simp: av_def)
      ultimately show ?thesis using lt rm by simp
    qed
  qed
  show ?thesis
  proof (cases "unat n \<le> room r")
    case True
    then show ?thesis by (simp add: overwrite_room_def av_def [symmetric] unat_less_iff av)
  next
    case False
    have s0: "SizeOfBuffer r \<noteq> 0" using b(3) by (auto simp: d)
    have u: "unat (n - av) = unat n - room r" using False by (simp add: unat_sub_nat av)
    have "unat (RdOff r + (n - av)) = R + (unat n - room r)"
      using u n size b(4) by (subst unat_add_nat) (simp_all add: d)
    then have "unat ((RdOff r + (n - av)) mod SizeOfBuffer r) = (R + (unat n - room r)) mod S"
      by (simp add: unat_mod d)
    then have "(RdOff r + (n - av)) mod SizeOfBuffer r = skipped (unat n - room r) r"
      unfolding skipped_def d [symmetric] by (metis of_nat_unat ucast_id)
    then show ?thesis using False s0
      by (simp add: overwrite_room_def av_def [symmetric] unat_less_iff av)
  qed
qed

text \<open>With room for the message, the overwriting rounds are the general write.\<close>

lemma overwrite_loop_eq:
  assumes ok: "ring_ok r" and n: "unat n \<le> length xs" "unat n \<le> room r" "1 \<le> fuel"
  shows "overwrite_loop (Suc fuel) (SizeOfBuffer r - WrOff r) r xs n = WriteNoCheck r xs n"
proof -
  define S R W where d: "S = unat (SizeOfBuffer r)" "R = unat (RdOff r)" "W = unat (WrOff r)"
  obtain b where b: "pBuffer r = Some b" "length b = S" "W < S" "R < S"
    using ok unfolding d by (rule ring_okE)
  have Rem: "unat (SizeOfBuffer r - WrOff r) = S - W" using ring_ok_words(1) [OF ok] by (simp add: d)
  have rm: "room r = (if W < R then R - W - 1 else S - (W - R + 1))" by (simp add: room_def free_def d)
  show ?thesis
  proof (cases "n < SizeOfBuffer r - WrOff r")
    case True
    then show ?thesis by (simp add: WriteNoCheck_def NoCheck_copy_def split: bind_split)
  next
    case False
    then have ge: "S - W \<le> unat n" by (simp add: unat_less_iff Rem)
    let ?m = "n - (SizeOfBuffer r - WrOff r)"
    have m: "unat ?m = unat n - (S - W)" using ge by (simp add: unat_sub_nat Rem)
    have s1: "unat (SizeOfBuffer r - 1) = S - 1" using b(3) by (subst unat_sub_nat) (simp_all add: d)
    have mlt: "?m < SizeOfBuffer r - 1" using n(2) ge rm b(3,4) by (auto simp: unat_less_iff m s1 split: if_splits)
    obtain f where f: "fuel = Suc f" using n(3) by (cases fuel) auto
    have l: "mem_load 0 (unat ?m) (drop (S - W) xs) = mem_load (S - W) (unat ?m) xs"
      using n(1) ge m by (simp add: mem_load_def)
    have e: "mem_load (S - W) 0 xs = Some []" if "unat n = S - W"
      using that n(1) by (simp add: mem_load_def)
    show ?thesis
    proof (cases "?m = 0")
      case True
      then have "unat n = S - W" using m ge by simp
      from e [OF this] True False show ?thesis
        by (simp add: WriteNoCheck_def NoCheck_copy_def Let_def Rem mem_store_def split: bind_split)
    next
      case nz: False
      show ?thesis using False nz mlt
        by (simp add: f WriteNoCheck_def NoCheck_copy_def Let_def Rem l split: bind_split)
    qed
  qed
qed

text \<open>
  Overwriting keeps the newest bytes. A message shorter than the buffer is stored whole in one or
  two copies, and the buffer then holds the last bytes, as many as it can, of what it held followed
  by the message: exactly the oldest bytes make room.
\<close>

theorem overwrite_keeps_newest:
  assumes "ring_ok r" "unat n \<le> length xs" "unat n < unat (SizeOfBuffer r)" "unat (SizeOfBuffer r) \<le> 2 ^ 31"
  shows "\<exists>r'. overwrite_ring r xs n = Some r' \<and> ring_ok r' \<and>
    held r' = drop (length (held r) + unat n - (unat (SizeOfBuffer r) - 1)) (held r @ take (unat n) xs)"
proof -
  let ?k = "unat n - room r"
  let ?r = "if unat n \<le> room r then r else r\<lparr>RdOff := skipped ?k r\<rparr>"
  have k: "?k \<le> length (held r)" using held_room [OF assms(1)] assms(3) by simp
  note sk = held_skipped [OF assms(1) k]
  have ok: "ring_ok ?r" "held ?r = drop ?k (held r)" "SizeOfBuffer ?r = SizeOfBuffer r"
    using assms(1) sk by (cases "unat n \<le> room r"; simp)+
  have rm: "unat n \<le> room ?r"
    using held_room [OF ok(1)] held_room [OF assms(1)] ok(2,3) assms(3) k by simp
  have "overwrite_ring r xs n = WriteNoCheck ?r xs n"
    using overwrite_loop_eq [OF ok(1) assms(2) rm, of "unat n + 1"]
    by (simp add: overwrite_ring_def overwrite_room_eq [OF assms(1,3,4)])
  moreover have "?k = length (held r) + unat n - (unat (SizeOfBuffer r) - 1)"
    using held_room [OF assms(1)] by simp
  ultimately show ?thesis using WriteNoCheck_fits [OF ok(1) assms(2) rm] ok(2) k by auto
qed

section \<open>Fill level\<close>

text \<open>
  C38: the fill level is wrong once the data wraps. While the held bytes lie in one piece the reported
  number is their number; when they wrap around the end of the buffer, the code subtracts the wrong
  way round and reports more bytes than the buffer has room for.
\<close>

theorem fill_level_wrong_after_wrap:
  assumes "ring_ok r" "unat (SizeOfBuffer r) \<le> 2 ^ 31"
  shows "if RdOff r \<le> WrOff r then unat (bytes_in_ring r) = length (held r)
    else unat (bytes_in_ring r) = unat (SizeOfBuffer r) + (unat (RdOff r) - unat (WrOff r))
      \<and> length (held r) = unat (SizeOfBuffer r) - (unat (RdOff r) - unat (WrOff r))
      \<and> unat (SizeOfBuffer r) < unat (bytes_in_ring r)"
proof -
  define S R W where d: "S = unat (SizeOfBuffer r)" "R = unat (RdOff r)" "W = unat (WrOff r)"
  obtain b where b: "pBuffer r = Some b" "length b = S" "W < S" "R < S"
    using assms(1) unfolding d by (rule ring_okE)
  have h: "held r = circ b R W" by (simp add: held_def b(1) d)
  show ?thesis
  proof (cases "RdOff r \<le> WrOff r")
    case True
    then have "R \<le> W" by (simp add: unat_less_iff d)
    then show ?thesis using True h b by (simp add: bytes_in_ring_def circ_def unat_sub d)
  next
    case False
    then have lt: "W < R" by (simp add: unat_less_iff d)
    have "unat (RdOff r - WrOff r) = R - W" using lt by (simp add: unat_sub_nat d)
    then have "unat (SizeOfBuffer r + (RdOff r - WrOff r)) = S + (R - W)"
      using assms(2) b(4) by (subst unat_add_nat) (simp_all add: d)
    moreover have "bytes_in_ring r = SizeOfBuffer r + (RdOff r - WrOff r)"
      using False by (simp add: bytes_in_ring_def)
    ultimately have "unat (bytes_in_ring r) = S + (R - W)" by simp
    moreover have "length (held r) = S - (R - W)" using h lt b by (simp add: circ_def)
    ultimately show ?thesis using False lt unfolding d [symmetric] by simp
  qed
qed

section \<open>Interrupted writes\<close>

text \<open>
  The lock masks the interrupts of priority 2 and lower only. The zero-pulse interrupt has priority 0,
  so its diagnostic output can fall between the copy and the publication of another write.
\<close>

definition interrupted_write :: "ring \<Rightarrow> u8 list \<Rightarrow> u8 list \<Rightarrow> (ring \<times> u32) option" where
  "interrupted_write r outer inner = do {
     (r, w) \<leftarrow> NoCheck_copy r outer (of_nat (length outer));
     (r, k) \<leftarrow> write_ring [] r inner (of_nat (length inner));
     Some (r\<lparr>WrOff := w\<rparr>, k)
   }"

text \<open>
  C39: a message printed by the zero-pulse handler into an unfinished write is lost or corrupts it.
  Both writes fit and both report success, yet the buffer afterwards holds only as many more bytes
  as the outer message has: the handler's are not there on top of them.
\<close>

theorem interrupted_write_loses:
  assumes "ring_ok r" "Flags r = SEGGER_RTT_MODE_NO_BLOCK_SKIP"
    and "length outer \<le> room r" "length inner \<le> room r"
  shows "\<exists>r' k. interrupted_write r outer inner = Some (r', k) \<and> unat k = length inner \<and>
    length (held r') = length (held r) + length outer"
proof -
  have small: "length outer < 2 ^ 32" "length inner < 2 ^ 32"
    using assms(3,4) held_room [OF assms(1)] ring_ok_words(4) [OF assms(1)] by simp_all
  note u = unat_of_nat_32 [OF small(1)] unat_of_nat_32 [OF small(2)]
  obtain b w where c: "NoCheck_copy r outer (of_nat (length outer)) = Some (r\<lparr>pBuffer := Some b\<rparr>, w)"
    "ring_ok (r\<lparr>pBuffer := Some b\<rparr>)" "held (r\<lparr>pBuffer := Some b\<rparr>) = held r"
    "ring_ok (r\<lparr>pBuffer := Some b, WrOff := w\<rparr>)"
    "held (r\<lparr>pBuffer := Some b, WrOff := w\<rparr>) = held r @ outer"
    using NoCheck_fits [OF assms(1), of "of_nat (length outer)" outer] assms(3) u by auto
  let ?r = "r\<lparr>pBuffer := Some b\<rparr>"
  have rm: "length inner \<le> room ?r" using assms(4) by (simp add: room_def)
  have "WriteNoCheck ?r inner (of_nat (length inner)) \<noteq> None \<and>
      write_ring [] ?r inner (of_nat (length inner)) =
        map_option (\<lambda>r. (r, of_nat (length inner))) (WriteNoCheck ?r inner (of_nat (length inner)))"
    using WriteNoCheck_fits [OF c(2), of "of_nat (length inner)" inner] rm u avail_room [OF c(2)] assms(2)
    by (auto simp: write_ring_def unat_less_iff not_less [symmetric])
  moreover obtain r2 where r2: "WriteNoCheck ?r inner (of_nat (length inner)) = Some r2" "ring_ok r2"
      "SizeOfBuffer r2 = SizeOfBuffer r" "RdOff r2 = RdOff r"
    using WriteNoCheck_fits [OF c(2), of "of_nat (length inner)" inner] rm u by auto
  ultimately have e: "interrupted_write r outer inner = Some (r2\<lparr>WrOff := w\<rparr>, of_nat (length inner))"
    by (simp add: interrupted_write_def c(1))
  obtain b2 where b2: "pBuffer r2 = Some b2" "length b2 = unat (SizeOfBuffer r)"
    using r2(2,3) by (auto elim: ring_okE)
  have W: "unat w < unat (SizeOfBuffer r)" "unat (RdOff r) < unat (SizeOfBuffer r)"
    "length b = unat (SizeOfBuffer r)"
    using c(2,4) ring_ok_words(2,3) [OF c(4)] by (auto elim: ring_okE)
  have "length (circ b2 (unat (RdOff r)) (unat w)) = length (circ b (unat (RdOff r)) (unat w))"
    using length_circ [OF b2(2) W(2,1)] length_circ [OF W(3,2,1)] by linarith
  then have "length (held (r2\<lparr>WrOff := w\<rparr>)) = length (held (r\<lparr>pBuffer := Some b, WrOff := w\<rparr>))"
    using b2(1) r2(4) by (simp add: held_def)
  then show ?thesis using e c(5) u by simp
qed

section \<open>Blocking writes\<close>

lemma blocking_round_ok:
  assumes ok: "ring_ok r" and k: "k \<le> length (held r)" and n: "unat n \<le> length xs"
  shows "\<exists>r' m. blocking_round (skipped k r) r xs n = Some (r', m) \<and> ring_ok r' \<and>
    held r' = drop k (held r) @ take (unat m) xs \<and> SizeOfBuffer r' = SizeOfBuffer r \<and>
    m \<le> n \<and> (0 < n \<and> 0 < room (r\<lparr>RdOff := skipped k r\<rparr>) \<longrightarrow> 0 < m)"
proof -
  let ?r = "r\<lparr>RdOff := skipped k r\<rparr>"
  have ok': "ring_ok ?r" and h: "held ?r = drop k (held r)" using held_skipped [OF ok k] by simp_all
  define S R W where d: "S = unat (SizeOfBuffer r)" "R = unat (skipped k r)" "W = unat (WrOff r)"
  obtain b where b: "pBuffer r = Some b" "length b = S" "W < S" "R < S"
    using ok' unfolding d by (auto elim: ring_okE)
  have hr: "held ?r = circ b R W" by (simp add: held_def b(1) d)
  have rm: "room ?r = free S R W" by (simp add: room_def d)
  have Rem: "unat (SizeOfBuffer r - WrOff r) = S - W" using ring_ok_words(1) [OF ok] by (simp add: d)
  define a where "a = (if WrOff r < skipped k r then skipped k r - WrOff r - 1
      else SizeOfBuffer r - (WrOff r - skipped k r + 1))"
  have a: "unat a = free S R W"
  proof (cases "WrOff r < skipped k r")
    case True
    then have lt: "W < R" by (simp add: unat_less_iff d)
    have "unat (skipped k r - WrOff r) = R - W" using lt by (simp add: unat_sub_nat d)
    then have "unat (skipped k r - WrOff r - 1) = R - W - 1" using lt by (subst unat_sub_nat) simp_all
    then show ?thesis using True lt by (simp add: a_def free_def)
  next
    case False
    then have le: "R \<le> W" by (simp add: unat_less_iff d)
    have "unat (WrOff r - skipped k r) = W - R" using le by (simp add: unat_sub_nat d)
    then have "unat (WrOff r - skipped k r + 1) = W - R + 1"
      using ring_ok_words(4) [OF ok] b(3) by (subst unat_add_nat) (simp_all add: d)
    then have "unat (SizeOfBuffer r - (WrOff r - skipped k r + 1)) = S - (W - R + 1)"
      using b(3) by (subst unat_sub_nat) (simp_all add: d)
    then show ?thesis using False le by (simp add: a_def free_def)
  qed
  define m where "m = min (min a (SizeOfBuffer r - WrOff r)) n"
  have m: "unat m = min (min (free S R W) (S - W)) (unat n)" by (simp add: m_def unat_min a Rem)
  have src: "length (take (unat m) xs) = unat m" using n m by simp
  have fit: "W + unat m \<le> S" "unat m \<le> free S R W" using m b(3) by simp_all
  note st = store_circ [OF b(2-4), of "take (unat m) xs", unfolded src, OF fit]
  let ?b = "take W b @ take (unat m) xs @ drop (W + unat m) b"
  have w: "unat (WrOff r + m) = W + unat m"
    using unat_off [OF ok, of m] fit by (simp add: d)
  have ws: "WrOff r + m = SizeOfBuffer r \<longleftrightarrow> W + unat m = S" by (simp add: word_unat_eq_iff w d)
  let ?w = "if WrOff r + m = SizeOfBuffer r then 0 else WrOff r + m"
  have uw: "unat ?w = (if W + unat m = S then 0 else W + unat m)" by (simp add: ws w)
  let ?r' = "r\<lparr>RdOff := skipped k r, pBuffer := Some ?b, WrOff := ?w\<rparr>"
  have "blocking_round (skipped k r) r xs n = Some (?r', m)"
    using b(1) st(1) n m
    by (simp only: blocking_round_def Let_def a_def [symmetric] m_def [symmetric] d [symmetric])
      (simp add: mem_load_def)
  moreover have "ring_ok ?r'"
    using st(2,3) uw b(4) by (simp add: ring_ok_def unat_less_iff d [symmetric] del: length_append)
  moreover have "held ?r' = drop k (held r) @ take (unat m) xs"
  proof -
    have "held ?r' = circ ?b R (unat ?w)" by (simp add: held_def d)
    also have "\<dots> = circ b R W @ take (unat m) xs" using st(4) uw by simp
    finally show ?thesis using h hr by simp
  qed
  moreover have "m \<le> n" by (simp add: m_def)
  moreover have "0 < m" if "0 < n" "0 < room ?r"
    using that b(3) m by (simp add: unat_less_iff rm)
  ultimately show ?thesis by auto
qed

text \<open>
  A session: the probe takes so many bytes, or what there is, before each round. Its readings of the
  read offset, and the bytes it takes.
\<close>

fun session :: "nat list \<Rightarrow> ring \<Rightarrow> u8 list \<Rightarrow> u32 \<Rightarrow> u32 list \<times> u8 list" where
  "session [] r xs n = ([], [])"
| "session (k # ks) r xs n =
     (let k = min k (length (held r)); rd = skipped k r
      in case blocking_round rd r xs n of
           None \<Rightarrow> ([rd], [])
         | Some (r', m) \<Rightarrow>
             (let (rds, out) = (if n - m = 0 then ([], []) else session ks r' (drop (unat m) xs) (n - m))
              in (rd # rds, take k (held r) @ out)))"

lemma blocking_session:
  assumes "ring_ok r" "unat n \<le> length xs" "2 \<le> unat (SizeOfBuffer r)" "list_all (\<lambda>k. 1 \<le> k) ks"
    and "unat n < length ks"
  shows "\<exists>r' rest. blocking_loop (fst (session ks r xs n)) r xs n wr = Some (r', wr + n, rest) \<and>
    ring_ok r' \<and> held r @ take (unat n) xs = snd (session ks r xs n) @ held r'"
  using assms
proof (induction ks arbitrary: r xs n wr)
  case Nil
  then show ?case by simp
next
  case (Cons k0 ks)
  let ?k = "min k0 (length (held r))"
  have kl: "?k \<le> length (held r)" by simp
  from blocking_round_ok [OF Cons.prems(1) kl Cons.prems(2)]
  obtain r1 m where r1: "blocking_round (skipped ?k r) r xs n = Some (r1, m)" "ring_ok r1"
    "held r1 = drop ?k (held r) @ take (unat m) xs" "SizeOfBuffer r1 = SizeOfBuffer r" "m \<le> n"
    "0 < n \<and> 0 < room (r\<lparr>RdOff := skipped ?k r\<rparr>) \<longrightarrow> 0 < m" by blast
  have "length (held (r\<lparr>RdOff := skipped ?k r\<rparr>)) + room (r\<lparr>RdOff := skipped ?k r\<rparr>) = unat (SizeOfBuffer r) - 1"
    "held (r\<lparr>RdOff := skipped ?k r\<rparr>) = drop ?k (held r)"
    using held_skipped [OF Cons.prems(1) kl] held_room [of "r\<lparr>RdOff := skipped ?k r\<rparr>"] by simp_all
  moreover have "length (held r) \<le> unat (SizeOfBuffer r) - 1" using held_room [OF Cons.prems(1)] by simp
  ultimately have room1: "0 < room (r\<lparr>RdOff := skipped ?k r\<rparr>)"
    using Cons.prems(3,4) by (cases "held r") auto
  show ?case
  proof (cases "n - m = 0")
    case True
    then have "n = m" by simp
    then show ?thesis using r1 by (simp add: Let_def append.assoc [symmetric])
  next
    case False
    then have n0: "0 < n" using r1(5) by (auto simp: word_gt_0)
    then have m0: "0 < unat m" using r1(6) room1 by (simp add: unat_less_iff)
    have nm: "unat (n - m) = unat n - unat m" using r1(5) by (simp add: unat_sub)
    have le: "unat m \<le> unat n" using r1(5) by (simp add: unat_less_iff)
    have "\<exists>r' rest. blocking_loop (fst (session ks r1 (drop (unat m) xs) (n - m))) r1 (drop (unat m) xs)
          (n - m) (wr + m) = Some (r', wr + m + (n - m), rest) \<and> ring_ok r' \<and>
        held r1 @ take (unat (n - m)) (drop (unat m) xs) = snd (session ks r1 (drop (unat m) xs) (n - m)) @ held r'"
      by (rule Cons.IH) (use Cons.prems r1(2,4) nm m0 le in auto)
    then obtain r' rest where r': "blocking_loop (fst (session ks r1 (drop (unat m) xs) (n - m))) r1
        (drop (unat m) xs) (n - m) (wr + m) = Some (r', wr + n, rest)" "ring_ok r'"
        "held r1 @ take (unat (n - m)) (drop (unat m) xs) = snd (session ks r1 (drop (unat m) xs) (n - m)) @ held r'"
      by auto
    have "take (unat m) xs @ take (unat (n - m)) (drop (unat m) xs) = take (unat n) xs"
      using le by (simp add: nm take_add [symmetric])
    then have "held r @ take (unat n) xs =
        take ?k (held r) @ snd (session ks r1 (drop (unat m) xs) (n - m)) @ held r'"
      using r'(3) r1(3) by (metis append.assoc append_take_drop_id)
    then show ?thesis using False r1(1) r'(1,2) by (simp add: Let_def case_prod_beta)
  qed
qed

text \<open>
  A blocking write loses nothing and ends. If the probe takes at least one byte, when there is
  one, before each round, the write returns within as many rounds as it has bytes, and one; it
  reports them all stored, and what the probe took meanwhile followed by what the buffer then holds
  is what it held before followed by the message.
\<close>

theorem blocking_write_completes:
  assumes "ring_ok r" "unat n \<le> length xs" "2 \<le> unat (SizeOfBuffer r)" "list_all (\<lambda>k. 1 \<le> k) ks"
    and "unat n < length ks"
  shows "\<exists>r' rest. WriteBlocking (fst (session ks r xs n)) r xs n = Some (r', n, rest) \<and>
    ring_ok r' \<and> held r @ take (unat n) xs = snd (session ks r xs n) @ held r'"
  using blocking_session [OF assms, of 0] by (simp add: WriteBlocking_def)

section \<open>From initialisation to the host\<close>

definition first_up :: ring where
  "first_up = \<lparr>sName = Some ''Terminal'', pBuffer = Some (replicate BUFFER_SIZE_UP 0),
     SizeOfBuffer = 1024, WrOff = 0, RdOff = 0, Flags = SEGGER_RTT_MODE_NO_BLOCK_SKIP\<rparr>"

lemma init_first_up:
  "aUp (DoInit rtt_cb0) = [first_up, ring0, ring0]" "acID (DoInit rtt_cb0) ! 0 = 0x53"
proof -
  show "acID (DoInit rtt_cb0) ! 0 = 0x53" by code_simp
  show "aUp (DoInit rtt_cb0) = [first_up, ring0, ring0]"
    by (simp add: DoInit_def rtt_cb0_def static_array_def first_up_def ring0_def Let_def numeral_eq_Suc
        SEGGER_RTT_MAX_NUM_UP_BUFFERS_def BUFFER_SIZE_UP_def)
qed

lemma first_up_ok: "ring_ok first_up" "held first_up = []" "room first_up = 1023"
  by (simp_all add: ring_ok_def first_up_def BUFFER_SIZE_UP_def held_def circ_def room_def free_def)

lemma INIT_done: "acID cb ! 0 = 0x53 \<Longrightarrow> INIT cb = cb"
  by (simp add: INIT_def)

text \<open>
  What is printed after initialisation is what the host reads. After \<open>SEGGER_RTT_Init\<close> on zeroed
  memory a string shorter than the buffer is accepted whole, and a read of the first up channel
  returns it; a further read returns nothing.
\<close>

theorem init_write_read:
  assumes "length s < 1024"
  shows "\<exists>cb cb' cb''. SEGGER_RTT_WriteString host 0 s (SEGGER_RTT_Init rtt_cb0) = Some (cb, of_nat (length s)) \<and>
    SEGGER_RTT_ReadUpBuffer 0 1024 cb = Some (cb', s) \<and>
    SEGGER_RTT_ReadUpBuffer 0 1024 cb' = Some (cb'', [])"
proof -
  let ?cb = "DoInit rtt_cb0"
  have u: "unat (of_nat (length s) :: u32) = length s" using assms by (intro unat_of_nat_32) simp
  have u1: "unat (1024 :: u32) = 1024" by simp
  have "Flags first_up = SEGGER_RTT_MODE_NO_BLOCK_SKIP" by (simp add: first_up_def)
  with write_ring_accepts [OF first_up_ok(1), of "of_nat (length s)" s host] assms u
  obtain r k where w: "write_ring host first_up s (of_nat (length s)) = Some (r, k)"
      "unat k = length s" "ring_ok r" "held r = s"
    by (auto simp: accepted_def first_up_ok)
  have k: "k = of_nat (length s)" using w(2) u by (simp add: word_unat_eq_iff)
  let ?c1 = "?cb\<lparr>aUp := [r, ring0, ring0]\<rparr>"
  have 1: "SEGGER_RTT_WriteString host 0 s (SEGGER_RTT_Init rtt_cb0) = Some (?c1, of_nat (length s))"
    using w(1) by (simp add: SEGGER_RTT_WriteString_def SEGGER_RTT_Write_def SEGGER_RTT_Init_def INIT_done
        init_first_up SEGGER_RTT_WriteNoLock_def ring_at_def k)
  obtain r1 where r1: "read_ring r 1024 = Some (r1, s)" "ring_ok r1" "held r1 = []"
    using read_ring_takes [OF w(3), of 1024] w(4) assms u1 by auto
  let ?c2 = "?cb\<lparr>aUp := [r1, ring0, ring0]\<rparr>"
  have 2: "SEGGER_RTT_ReadUpBuffer 0 1024 ?c1 = Some (?c2, s)"
    using r1(1) by (simp add: SEGGER_RTT_ReadUpBuffer_def SEGGER_RTT_ReadUpBufferNoLock_def INIT_done
        init_first_up ring_at_def Let_def)
  obtain r2 where r2: "read_ring r1 1024 = Some (r2, [])"
    using read_ring_takes [OF r1(2), of 1024] r1(3) by auto
  have "SEGGER_RTT_ReadUpBuffer 0 1024 ?c2 = Some (?cb\<lparr>aUp := [r2, ring0, ring0]\<rparr>, [])"
    using r2 by (simp add: SEGGER_RTT_ReadUpBuffer_def SEGGER_RTT_ReadUpBufferNoLock_def INIT_done
        init_first_up ring_at_def Let_def)
  with 1 2 show ?thesis by blast
qed

section \<open>Witnesses\<close>

text \<open>A buffer of eight bytes holding three before the wrap.\<close>

definition demo_ring :: ring where
  "demo_ring = \<lparr>sName = None, pBuffer = Some [0, 1, 2, 3, 4, 5, 6, 7], SizeOfBuffer = 8, WrOff = 6,
     RdOff = 3, Flags = SEGGER_RTT_MODE_NO_BLOCK_SKIP\<rparr>"

lemma demo_ring_ok: "ring_ok demo_ring" "room demo_ring = 4" "held demo_ring = [3, 4, 5]"
  by (simp_all add: ring_ok_def demo_ring_def room_def free_def held_def circ_def)

theorem channel_is_fifo_witness:
  "\<exists>r' acc out. queue_run ring_put ring_get [Put [8, 9, 10], Get 5, Put [11]] demo_ring = Some (r', acc, out) \<and>
    [3, 4, 5] @ acc = out @ held r'"
  using channel_is_fifo [of demo_ring "[Put [8, 9, 10], Get 5, Put [11]]"] demo_ring_ok
  by (auto simp: demo_ring_def)

theorem write_accepts_witness:
  "\<exists>r' k. write_ring [] demo_ring [8, 9, 10] 3 = Some (r', k) \<and> held r' = [3, 4, 5] @ take (unat k) [8, 9, 10]"
  using write_accepts [of demo_ring 3 "[8, 9, 10]" "[]"] demo_ring_ok by (auto simp: demo_ring_def)

theorem fast_writes_agree_witness:
  "map_option (\<lambda>(r, k). (r, k \<noteq> 0)) (skip_ring demo_ring [8, 9, 10] 3) =
     map_option (\<lambda>(r, k). (r, k \<noteq> 0)) (write_ring [] demo_ring [8, 9, 10] 3)"
  using fast_writes_agree [of demo_ring 3 "[8, 9, 10]" "[]" 0] demo_ring_ok by (simp add: demo_ring_def)

theorem overwrite_keeps_newest_witness:
  "\<exists>r'. overwrite_ring demo_ring [8, 9, 10, 11, 12] 5 = Some r' \<and> held r' = [4, 5, 8, 9, 10, 11, 12]"
  using overwrite_keeps_newest [of demo_ring 5 "[8, 9, 10, 11, 12]"] demo_ring_ok
  by (auto simp: demo_ring_def)

theorem fill_level_wrong_after_wrap_witness:
  "unat (bytes_in_ring (demo_ring\<lparr>WrOff := 1\<rparr>)) = 10"
  using fill_level_wrong_after_wrap [of "demo_ring\<lparr>WrOff := 1\<rparr>"]
  by (simp add: ring_ok_def demo_ring_def word_le_nat_alt)

theorem interrupted_write_loses_witness:
  "\<exists>r' k. interrupted_write demo_ring [8, 9, 10] [20, 21] = Some (r', k) \<and> unat k = 2 \<and> length (held r') = 6"
  using interrupted_write_loses [of demo_ring "[8, 9, 10]" "[20, 21]"] demo_ring_ok
  by (simp add: demo_ring_def numeral_eq_Suc)

theorem blocking_write_completes_witness:
  "\<exists>r' rest. WriteBlocking (fst (session [1, 1, 1, 1, 1, 1] demo_ring [8, 9, 10, 11, 12] 5)) demo_ring
     [8, 9, 10, 11, 12] 5 = Some (r', 5, rest)"
  using blocking_write_completes [of demo_ring 5 "[8, 9, 10, 11, 12]" "[1, 1, 1, 1, 1, 1]"] demo_ring_ok
  by (auto simp: demo_ring_def)

theorem init_write_read_witness:
  "\<exists>cb cb'. SEGGER_RTT_WriteString [] 0 [72, 105] (SEGGER_RTT_Init rtt_cb0) = Some (cb, 2) \<and>
    SEGGER_RTT_ReadUpBuffer 0 1024 cb = Some (cb', [72, 105])"
  using init_write_read [of "[72, 105]" "[]"] by auto

end
