(* ===== verification/Rtt_Format.thy ===== *)
theory Rtt_Format
  imports Rtt_Printf Rtt_Props
begin

text \<open>
  What the formatter is for: the text a format string and its arguments stand for, defined without
  the staging buffer, and the proof that the code emits exactly this text, one character after the
  other, until the channel refuses a write.
\<close>

section \<open>Emitting a text\<close>

fun emits :: "u8 list \<Rightarrow> printf_state \<Rightarrow> printf_state option" where
  "emits [] s = Some s"
| "emits (c # cs) s = (if failed s then Some s else do { s \<leftarrow> StoreChar c s; emits cs s })"

lemma emits_failed [simp]: "failed s \<Longrightarrow> emits cs s = Some s"
  by (cases cs) simp_all

lemma emits_append: "emits (xs @ ys) s = do { s \<leftarrow> emits xs s; emits ys s }"
  by (induction xs s rule: emits.induct) (auto split: bind_splits)

lemma emits_Nil: "emits [] = Some"
  by (rule ext) simp

text \<open>A padding loop emits its characters and, unless the channel fails, uses up the field.\<close>

lemma pad_cases:
  assumes "\<not> failed s"
  obtains "pad_loop c w fw s = None" "emits (replicate (unat fw - unat w) c) s = None"
  | fw' s' where "pad_loop c w fw s = Some (fw', s')" "emits (replicate (unat fw - unat w) c) s = Some s'"
      "failed s' \<or> fw' = min fw w"
proof -
  have "(pad_loop c w fw s = None \<and> emits (replicate (unat fw - unat w) c) s = None) \<or>
    (\<exists>fw' s'. pad_loop c w fw s = Some (fw', s') \<and> emits (replicate (unat fw - unat w) c) s = Some s' \<and>
      (failed s' \<or> fw' = min fw w))"
    using assms
  proof (induction c w fw s rule: pad_loop.induct)
    case (1 c w fw s)
    show ?case
    proof (cases "fw \<noteq> 0 \<and> w < fw")
      case False
      then have "unat fw - unat w = 0" "min fw w = fw"
        by (auto simp: min_def not_less word_le_nat_alt)
      moreover have "pad_loop c w fw s = Some (fw, s)" by (subst pad_loop.simps) (use False in auto)
      ultimately show ?thesis by simp
    next
      case True
      then have k: "unat fw - unat w = Suc (unat (fw - 1) - unat w)" "min fw w = w" "min (fw - 1) w = w"
        by (auto simp: min_def word_less_nat_alt word_le_nat_alt unat_minus_one word_unat_eq_iff)
      show ?thesis
      proof (cases "StoreChar c s")
        case None
        then have "pad_loop c w fw s = None" by (subst pad_loop.simps) (use True in simp)
        then show ?thesis using None k(1) 1(2) by simp
      next
        case (Some s1)
        show ?thesis
        proof (cases "failed s1")
          case True
          then have "pad_loop c w fw s = Some (fw - 1, s1)"
            by (subst pad_loop.simps) (use Some \<open>fw \<noteq> 0 \<and> w < fw\<close> in simp)
          then show ?thesis using Some True k(1) 1(2) by simp
        next
          case False
          note IH = 1(1) [OF \<open>fw \<noteq> 0 \<and> w < fw\<close> Some False False]
          have "pad_loop c w fw s = pad_loop c w (fw - 1) s1"
            by (subst pad_loop.simps) (use True Some False in simp)
          moreover have "emits (replicate (unat fw - unat w) c) s =
              emits (replicate (unat (fw - 1) - unat w) c) s1"
            using Some 1(2) by (simp add: k(1))
          ultimately show ?thesis using IH by (simp only: k(2,3))
        qed
      qed
    qed
  qed
  then show thesis using that by blast
qed

text \<open>So what follows a padding loop may take the field width as used up.\<close>

lemma pad_bind:
  assumes "\<not> failed s" "\<And>f f' s'. failed s' \<Longrightarrow> g f s' = g f' s'"
  shows "pad_loop c w fw s \<bind> (\<lambda>(f, s). g f s) =
    emits (replicate (unat fw - unat w) c) s \<bind> g (min fw w)"
  using assms(1) by (rule pad_cases [of s c w fw]) (auto intro: assms(2))

text \<open>
  A failed write leaves the staging buffer full. The only code that still runs on it is a trailing
  pad, which tries to write the buffer once more; \<open>steady\<close> says that this fails again and leaves the
  channels alone. \<open>tracks\<close> compares a run of the code with the text it should emit.
\<close>

definition steady :: "printf_state \<Rightarrow> bool" where
  "steady s \<longleftrightarrow> (\<forall>cs s'. emits cs s = Some s' \<longrightarrow> failed s' \<longrightarrow>
     (\<exists>s2. StoreChar 0x20 s' = Some s2 \<and> ReturnValue (fst s2) = ReturnValue (fst s') \<and> snd (snd s2) = snd (snd s')))"

definition tracks :: "printf_state option \<Rightarrow> printf_state option \<Rightarrow> bool" where
  "tracks x y \<longleftrightarrow> (\<forall>s. y = Some s \<longrightarrow>
     (if failed s then \<exists>s'. x = Some s' \<and> ReturnValue (fst s') = ReturnValue (fst s) \<and> snd (snd s') = snd (snd s) else x = Some s))"

lemma tracks_refl: "tracks x x"
  by (simp add: tracks_def)

lemma steady_emits: "steady s \<Longrightarrow> emits cs s = Some s' \<Longrightarrow> steady s'"
  unfolding steady_def by (metis bind.bind_lunit emits_append)

lemma tracks_bind:
  assumes "steady s"
    and "\<And>s'. emits xs s = Some s' \<Longrightarrow> failed s' \<Longrightarrow> g s' = Some s'"
    and "\<And>s'. steady s' \<Longrightarrow> \<not> failed s' \<Longrightarrow> tracks (g s') (emits ys s')"
  shows "tracks (emits xs s \<bind> g) (emits (xs @ ys) s)"
proof (cases "emits xs s")
  case (Some s')
  show ?thesis
  proof (cases "failed s'")
    case True
    then show ?thesis using Some assms(2) by (simp add: emits_append tracks_refl)
  next
    case False
    then show ?thesis using Some assms(3) steady_emits [OF assms(1) Some] by (simp add: emits_append)
  qed
qed (simp add: emits_append tracks_refl)

lemma trailing_pad:
  assumes "steady s"
  shows "tracks (emits xs s \<bind> (\<lambda>s. pad_loop 0x20 w fw s \<bind> (\<lambda>(f, s). Some s)))
    (emits (xs @ replicate (unat fw - unat w) 0x20) s)"
proof (cases "emits xs s")
  case (Some s1)
  show ?thesis
  proof (cases "failed s1")
    case True
    then obtain s2 where "StoreChar 0x20 s1 = Some s2" "ReturnValue (fst s2) = ReturnValue (fst s1)" "snd (snd s2) = snd (snd s1)"
      using assms Some unfolding steady_def by blast
    then obtain s3 where "pad_loop 0x20 w fw s1 \<bind> (\<lambda>(f, s). Some s) = Some s3"
        "ReturnValue (fst s3) = ReturnValue (fst s1)"
        "snd (snd s3) = snd (snd s1)"
      using True by (cases "fw \<noteq> 0 \<and> w < fw") (simp_all add: pad_loop.simps [of _ w fw s1])
    then show ?thesis using Some True by (simp add: tracks_def emits_append)
  next
    case False
    have "pad_loop 0x20 w fw s1 \<bind> (\<lambda>(f, s). Some s) = emits (replicate (unat fw - unat w) 0x20) s1"
      using pad_bind [OF False, of "\<lambda>_. Some"] by simp
    then show ?thesis using Some
      by (simp add: emits_append tracks_refl)
  qed
qed (simp add: emits_append tracks_refl)

section \<open>Numerals\<close>

text \<open>How many digits a number has, and its lowest \<open>L\<close> digits, the most significant first.\<close>

fun num_width :: "nat \<Rightarrow> nat \<Rightarrow> nat" where
  "num_width b v = (if b \<le> 1 \<or> v < b then 1 else Suc (num_width b (v div b)))"

declare num_width.simps [simp del]

definition numeral_digits :: "nat \<Rightarrow> nat \<Rightarrow> nat \<Rightarrow> nat list" where
  "numeral_digits b L v = map (\<lambda>i. v div b ^ i mod b) (rev [0..<L])"

lemma num_width_le:
  assumes "2 \<le> b"
  shows "num_width b v \<le> Suc k \<longleftrightarrow> v < b ^ Suc k"
proof (induction k arbitrary: v)
  case 0
  show ?case using assms by (subst num_width.simps) (auto simp: num_width.simps [of b "v div b"])
next
  case (Suc k)
  have "v div b < b ^ Suc k \<longleftrightarrow> v < b ^ Suc (Suc k)"
    using assms by (simp add: div_less_iff_less_mult mult.commute)
  moreover have "v < b \<Longrightarrow> v < b ^ Suc (Suc k)"
    using assms by (metis One_nat_def Suc_leD le_less_trans nat_less_le numeral_2_eq_2 power_one_right power_increasing_iff
        less_le_trans not_less one_le_numeral order.strict_trans2 zero_less_Suc Suc_le_eq)
  ultimately show ?case using Suc [of "v div b"] assms
    by (subst num_width.simps) auto
qed

lemma num_width_pos: "0 < num_width b v"
  by (subst num_width.simps) simp

lemma numeral_digits_Suc:
  "numeral_digits b (Suc k) v = (v div b ^ k mod b) # numeral_digits b k (v mod b ^ k)"
proof -
  have "v mod b ^ k div b ^ i mod b = v div b ^ i mod b" if "i < k" for i
  proof -
    obtain m where k: "k = Suc (i + m)" using less_imp_Suc_add [OF \<open>i < k\<close>] by auto
    have e: "b ^ k = b ^ i * (b * b ^ m)" by (simp add: k power_add)
    have "v mod b ^ k div b ^ i = v div b ^ i mod (b * b ^ m)"
      unfolding e by (cases "b = 0") (simp_all add: mod_mult2_eq)
    then show ?thesis by (simp add: mod_mod_cancel)
  qed
  then show ?thesis by (auto simp: numeral_digits_def)
qed

text \<open>Reading the digits back gives the number.\<close>

lemma numeral_digits_value:
  "v < b ^ L \<Longrightarrow> foldl (\<lambda>a d. a * b + d) x (numeral_digits b L v) = x * b ^ L + v"
proof (induction L arbitrary: v x)
  case (Suc L)
  have "0 < b" using Suc.prems by (cases b) auto
  then have d: "v div b ^ L < b" using Suc.prems by (simp add: div_less_iff_less_mult)
  have "v mod b ^ L < b ^ L" using \<open>0 < b\<close> by simp
  note IH = Suc.IH [OF this, of "x * b + v div b ^ L"]
  have "(x * b + v div b ^ L) * b ^ L + v mod b ^ L = x * b ^ Suc L + v"
    using div_mult_mod_eq [of v "b ^ L"] by (simp add: add_mult_distrib)
  then show ?case using d by (simp add: numeral_digits_Suc IH)
qed (simp add: numeral_digits_def)


section \<open>The number loops\<close>

lemma unat_div_nat: "unat (a div b :: 'a::len word) = unat a div unat b"
  by (rule unat_div)

lemma num_width_bound: "2 \<le> b \<Longrightarrow> num_width b (unat (v :: u32)) \<le> 32"
proof -
  assume "2 \<le> b"
  then have "unat v < b ^ 32"
    using unsigned_less [where w = v and 'a = nat] power_mono [of 2 b 32] by simp
  then show ?thesis using num_width_le [OF \<open>2 \<le> b\<close>, of "unat v" 31] by simp
qed

lemma width_loop_num_width:
  assumes "2 \<le> unat b"
  shows "width_loop b n w = Some (w + of_nat (num_width (unat b) (unat n) - 1))"
proof (induction "unat n" arbitrary: n w rule: less_induct)
  case less
  show ?case
  proof (cases "b \<le> n")
    case False
    then have "num_width (unat b) (unat n) = 1"
      by (subst num_width.simps) (simp add: not_le word_less_nat_alt)
    then show ?thesis using False by (subst width_loop.simps) simp
  next
    case True
    then have le: "unat b \<le> unat n" by (simp add: word_le_nat_alt)
    have "num_width (unat b) (unat n) = Suc (num_width (unat b) (unat (n div b)))"
      using le assms by (subst num_width.simps) (simp add: unat_div_nat)
    moreover have "unat (n div b) < unat n" using le assms by (simp add: unat_div_nat)
    note less [OF this, of "w + 1"]
    ultimately show ?thesis using True num_width_pos [of "unat b" "unat (n div b)"]
      by (subst width_loop.simps) (cases "num_width (unat b) (unat (n div b))", auto)
  qed
qed

lemma digit_loop_counted:
  "nd \<noteq> 0 \<Longrightarrow> digit_loop b v nd D = digit_loop b v 1 (D * b ^ (unat nd - 1))"
proof (induction "unat nd" arbitrary: nd D rule: less_induct)
  case less
  show ?case
  proof (cases "1 < nd")
    case True
    then have u: "unat (nd - 1) = unat nd - 1" "unat nd - 1 = Suc (unat (nd - 1) - 1)"
      using less.prems by (auto simp: unat_minus_one word_less_nat_alt)
    have "unat (nd - 1) < unat nd" "nd - 1 \<noteq> 0" using True u less.prems by auto
    note less.hyps [OF this, of "D * b"]
    then show ?thesis using True by (subst digit_loop.simps) (simp add: u(2) mult.assoc del: One_nat_def)
  next
    case False
    then have "nd = 1" using less.prems by (auto simp: not_less word_le_nat_alt word_unat_eq_iff)
    then show ?thesis by simp
  qed
qed

lemma digit_loop_power:
  assumes "2 \<le> unat b" "\<not> 1 < nd" "unat D = unat b ^ k"
  shows "\<exists>D'. digit_loop b v nd D = Some D' \<and> unat D' = unat b ^ max k (num_width (unat b) (unat v) - 1)"
  using assms(3)
proof (induction "32 - k" arbitrary: k D rule: less_induct)
  case less
  have "D \<noteq> 0" using less.prems assms(1) by auto
  have iff: "v div D < b \<longleftrightarrow> num_width (unat b) (unat v) \<le> Suc k"
    using assms(1) less.prems by (simp add: num_width_le word_less_nat_alt unat_div_nat
        div_less_iff_less_mult mult.commute)
  show ?case
  proof (cases "v div D < b")
    case True
    then show ?thesis using iff less.prems \<open>D \<noteq> 0\<close> assms(2)
      by (subst digit_loop.simps) (simp add: max_absorb1)
  next
    case False
    then have w: "Suc k < num_width (unat b) (unat v)" using iff by simp
    have k: "k < 32" using w num_width_bound [OF assms(1), of v] by simp
    have "unat b ^ Suc k \<le> unat v" using w num_width_le [OF assms(1), of "unat v" k] by simp
    then have "unat (D * b) = unat b ^ Suc k"
      using unsigned_less [where w = v and 'a = nat] less.prems
      by (subst unat_mult_lem [THEN iffD1]) (simp_all add: mult.commute)
    moreover have "32 - Suc k < 32 - k" using k by simp
    ultimately obtain D' where
      "digit_loop b v nd (D * b) = Some D'" "unat D' = unat b ^ max (Suc k) (num_width (unat b) (unat v) - 1)"
      using less.hyps by blast
    moreover have "max (Suc k) (num_width (unat b) (unat v) - 1) = max k (num_width (unat b) (unat v) - 1)"
      using w by simp
    ultimately show ?thesis using False \<open>D \<noteq> 0\<close> assms(2) by (subst digit_loop.simps) simp
  qed
qed

text \<open>The precision the digit arithmetic can represent: ten decimal or eight hexadecimal digits.\<close>

definition precision_ok :: "u32 \<Rightarrow> u32 \<Rightarrow> bool" where
  "precision_ok b nd \<longleftrightarrow> unat b ^ (unat nd - 1) < 2 ^ 32"

lemma digit_loop_highest:
  assumes "2 \<le> unat b" "precision_ok b nd"
  shows "\<exists>D. digit_loop b v nd 1 = Some D \<and>
    unat D = unat b ^ (max (unat nd) (num_width (unat b) (unat v)) - 1)"
proof (cases "nd = 0")
  case True
  then show ?thesis using digit_loop_power [OF assms(1), of nd 1 0 v] by simp
next
  case False
  have "unat (b ^ (unat nd - 1)) = unat b ^ (unat nd - 1)"
  proof -
    have lt: "unat b ^ (unat nd - 1) < 2 ^ 32" using assms(2) by (simp add: precision_ok_def)
    have "b ^ (unat nd - 1) = of_nat (unat b ^ (unat nd - 1))" by simp
    then show ?thesis by (simp only: unat_of_nat_32 [OF lt])
  qed
  from digit_loop_power [OF assms(1) _ this, of 1 v]
  moreover have "max (unat nd - 1) m = max (unat nd) (Suc m) - 1" for m by simp
  ultimately show ?thesis using num_width_pos [of "unat b" "unat v"]
    by (cases "num_width (unat b) (unat v)") (simp_all add: digit_loop_counted [OF False, of b v 1])
qed

lemma print_digits_emits:
  assumes "2 \<le> unat b" "unat b \<le> 16"
  shows "\<not> failed s \<Longrightarrow> unat D = unat b ^ k \<Longrightarrow> unat v < unat b ^ Suc k \<Longrightarrow>
    print_digits b v D s = emits (map (\<lambda>d. aV2C ! d) (numeral_digits (unat b) (Suc k) (unat v))) s"
proof (induction k arbitrary: v D s)
  case 0
  have "D = 1" using 0(2) by (simp add: word_unat_eq_iff)
  moreover have "1 div b = 0" using assms(1) by (simp add: word_unat_eq_iff unat_div_nat)
  moreover have "unat v < 16" using 0(3) assms(2) by simp
  ultimately show ?case using 0(1,3)
    by (subst print_digits.simps) (simp add: numeral_digits_def aV2C_def emits_Nil)
next
  case (Suc k)
  have D: "unat (D div b) = unat b ^ k" "D \<noteq> 0" using Suc.prems(2) assms(1)
    by (auto simp: unat_div_nat)
  then have D0: "D div b \<noteq> 0" using assms(1) by (metis power_eq_0_iff unat_0 not_numeral_le_zero)
  have d: "unat (v div D) = unat v div unat b ^ Suc k" by (simp add: unat_div_nat Suc.prems(2))
  have dl: "unat (v div D) < unat b"
    unfolding d using Suc.prems(3) assms(1) by (simp add: div_less_iff_less_mult mult.commute)
  have r: "unat (v - v div D * D) = unat v mod unat b ^ Suc k"
    by (simp add: minus_div_mult_eq_mod unat_mod Suc.prems(2))
  have rl: "unat (v - v div D * D) < unat b ^ Suc k" unfolding r using assms(1) by simp
  have len: "length aV2C = 16" by (simp add: aV2C_def)
  show ?case
  proof (cases "StoreChar (aV2C ! unat (v div D)) s")
    case None
    then show ?thesis using D(2) dl assms(2) Suc.prems(1)
      by (subst print_digits.simps) (simp add: numeral_digits_Suc [of _ "Suc k"] d len)
  next
    case (Some s1)
    show ?thesis
    proof (cases "failed s1")
      case True
      then show ?thesis using Some D(2) dl assms(2) Suc.prems(1)
        by (subst print_digits.simps) (simp add: numeral_digits_Suc [of _ "Suc k"] d len)
    next
      case False
      have "print_digits b v D s = print_digits b (v - v div D * D) (D div b) s1"
        using Some D(2) D0 dl assms(2) False by (subst print_digits.simps) (simp add: len)
      also have "\<dots> = emits (map (\<lambda>d. aV2C ! d) (numeral_digits (unat b) (Suc k)
          (unat v mod unat b ^ Suc k))) s1"
        using Suc.IH [OF False D(1) rl] by (simp add: r)
      finally show ?thesis using Some dl Suc.prems(1)
        by (simp add: numeral_digits_Suc [of _ "Suc k"] d)
    qed
  qed
qed


section \<open>The text of a number\<close>

lemma and_exp_eq_iff: "n < LENGTH('a) \<Longrightarrow> f AND 2 ^ n = 2 ^ n \<longleftrightarrow> bit f n" for f :: "'a::len word"
  by (auto simp: bit_eq_iff [where 'a = "'a word"] bit_and_iff bit_exp_iff)

lemma flag_bits:
  "f AND 1 = 0 \<longleftrightarrow> \<not> bit f 0" "f AND 1 = 1 \<longleftrightarrow> bit f 0"
  "f AND 2 = 0 \<longleftrightarrow> \<not> bit f 1" "f AND 2 = 2 \<longleftrightarrow> bit f 1" "f AND 4 = 4 \<longleftrightarrow> bit f 2" for f :: u32
  using and_exp_eq_0_iff_not_bit [of f 0] and_exp_eq_0_iff_not_bit [of f 1]
    and_exp_eq_iff [of 0 f] and_exp_eq_iff [of 1 f] and_exp_eq_iff [of 2 f] by simp_all

definition full_width :: "u32 \<Rightarrow> u32 \<Rightarrow> nat \<Rightarrow> nat" where
  "full_width b nd v = max (unat nd) (num_width (unat b) v)"

definition digits_text :: "u32 \<Rightarrow> u32 \<Rightarrow> nat \<Rightarrow> u8 list" where
  "digits_text b nd v = map (\<lambda>d. aV2C ! d) (numeral_digits (unat b) (full_width b nd v) v)"

definition unsigned_text :: "u32 \<Rightarrow> u32 \<Rightarrow> u32 \<Rightarrow> u32 \<Rightarrow> u32 \<Rightarrow> u8 list" where
  "unsigned_text b nd fw fl v =
     (let pad = unat fw - full_width b nd (unat v); ds = digits_text b nd (unat v)
      in if bit fl 0 then ds @ replicate pad 0x20
         else replicate pad (if bit fl 1 \<and> nd = 0 then 0x30 else 0x20) @ ds)"

definition sign_text :: "u32 \<Rightarrow> u32 \<Rightarrow> u8 list" where
  "sign_text fl v = (if sint v < 0 then [0x2D] else if bit fl 2 then [0x2B] else [])"

definition signed_text :: "u32 \<Rightarrow> u32 \<Rightarrow> u32 \<Rightarrow> u32 \<Rightarrow> u32 \<Rightarrow> u8 list" where
  "signed_text b nd fw fl v =
     (let m = nat \<bar>sint v\<bar>; pad = unat fw - length (sign_text fl v) - full_width b nd m; ds = digits_text b nd m
      in if bit fl 0 then sign_text fl v @ ds @ replicate pad 0x20
         else if bit fl 1 \<and> nd = 0 then sign_text fl v @ replicate pad 0x30 @ ds
         else replicate pad 0x20 @ sign_text fl v @ ds)"

text \<open>The width the code computes.\<close>

lemma code_width:
  assumes "2 \<le> unat b"
  obtains W where "width_loop b v 1 = Some W"
    "unat (if W < nd then nd else W) = full_width b nd (unat v)"
proof -
  let ?n = "num_width (unat b) (unat v)"
  have "unat (of_nat ?n :: u32) = ?n"
    using num_width_bound [OF assms, of v] by (intro unat_of_nat_32) simp
  moreover have "width_loop b v 1 = Some (of_nat ?n)"
    using width_loop_num_width [OF assms, of v 1] num_width_pos [of "unat b" "unat v"]
    by (cases ?n) simp_all
  ultimately show thesis
    by (intro that [of "of_nat ?n"]) (auto simp: full_width_def word_less_nat_alt max_def)
qed

lemma code_digits:
  assumes "2 \<le> unat b" "unat b \<le> 16" "precision_ok b nd" "\<not> failed s"
  obtains D where "digit_loop b v nd 1 = Some D" "print_digits b v D s = emits (digits_text b nd (unat v)) s"
proof -
  let ?L = "full_width b nd (unat v)"
  obtain D where D: "digit_loop b v nd 1 = Some D" "unat D = unat b ^ (?L - 1)"
    using digit_loop_highest [OF assms(1,3), of v] by (auto simp: full_width_def)
  have L: "num_width (unat b) (unat v) \<le> Suc (?L - 1)" "?L = Suc (?L - 1)"
    using num_width_pos [of "unat b" "unat v"] by (auto simp: full_width_def)
  have "unat v < unat b ^ Suc (?L - 1)" using num_width_le [OF assms(1)] L(1) by blast
  from print_digits_emits [OF assms(1,2,4) D(2) this] D(1) L(2) show thesis
    by (intro that [of D]) (simp_all add: digits_text_def)
qed

lemma PrintUnsigned_tracks:
  assumes "2 \<le> unat b" "unat b \<le> 16" "precision_ok b nd" "\<not> failed s" "steady s"
  shows "tracks (PrintUnsigned v b nd fw fl s) (emits (unsigned_text b nd fw fl v) s)"
proof -
  obtain W where W: "width_loop b v 1 = Some W"
      "unat (if W < nd then nd else W) = full_width b nd (unat v)"
    using code_width [OF assms(1)] .
  define w where "w = (if W < nd then nd else W)"
  have w: "unat w = full_width b nd (unat v)" using W(2) by (simp add: w_def)
  let ?ds = "digits_text b nd (unat v)"
  show ?thesis
  proof (cases "bit fl 0")
    case True
    obtain D where D: "digit_loop b v nd 1 = Some D" "print_digits b v D s = emits ?ds s"
      using code_digits [OF assms(1-4)] .
    have "PrintUnsigned v b nd fw fl s = emits ?ds s \<bind>
        (\<lambda>s. pad_loop 0x20 w fw s \<bind> (\<lambda>(f, s). Some s))"
      using W(1) D True assms(4) by (simp add: PrintUnsigned_def flag_bits Let_def flip: w_def)
    then show ?thesis using trailing_pad [OF assms(5), of ?ds w fw] True
      by (simp add: unsigned_text_def Let_def w)
  next
    case False
    define c where "c = (if bit fl 1 \<and> nd = 0 then 0x30 else 0x20 :: u8)"
    have "PrintUnsigned v b nd fw fl s = pad_loop c w fw s \<bind> (\<lambda>(f, s). if \<not> failed s
        then do { D \<leftarrow> digit_loop b v nd 1; print_digits b v D s } else Some s)"
      using W(1) False by (simp add: PrintUnsigned_def flag_bits Let_def c_def flip: w_def cong: if_cong)
    also have "\<dots> = emits (replicate (unat fw - unat w) c) s \<bind>
        (\<lambda>s. if \<not> failed s then do { D \<leftarrow> digit_loop b v nd 1; print_digits b v D s } else Some s)"
      using pad_bind [OF assms(4), of "\<lambda>_ s. if \<not> failed s
        then do { D \<leftarrow> digit_loop b v nd 1; print_digits b v D s } else Some s" c w fw] by simp
    also have "\<dots> = emits (replicate (unat fw - unat w) c @ ?ds) s"
      unfolding emits_append
    proof (rule Option.bind_cong [OF refl])
      fix s1
      show "(if \<not> failed s1 then do { D \<leftarrow> digit_loop b v nd 1; print_digits b v D s1 } else Some s1)
          = emits ?ds s1"
      proof (cases "failed s1")
        case False
        obtain D where "digit_loop b v nd 1 = Some D" "print_digits b v D s1 = emits ?ds s1"
          using code_digits [OF assms(1-3) False] .
        then show ?thesis using False by simp
      qed simp
    qed
    finally have "PrintUnsigned v b nd fw fl s = emits (replicate (unat fw - unat w) c @ ?ds) s" .
    moreover have "unsigned_text b nd fw fl v = replicate (unat fw - unat w) c @ ?ds"
      using False by (simp only: unsigned_text_def Let_def w c_def if_False)
    ultimately show ?thesis by (simp only: tracks_refl)
  qed
qed


definition guarded :: "(printf_state \<Rightarrow> printf_state option) \<Rightarrow> printf_state \<Rightarrow> printf_state option" where
  "guarded g s = (if \<not> failed s then g s else Some s)"

lemma tracks_guarded:
  assumes "steady s" "\<And>s'. steady s' \<Longrightarrow> \<not> failed s' \<Longrightarrow> tracks (g s') (emits ys s')"
  shows "tracks (emits xs s \<bind> guarded g) (emits (xs @ ys) s)"
  using assms by (intro tracks_bind) (simp_all add: guarded_def)

text \<open>The magnitude of a negative number other than the least one.\<close>

definition magnitude :: "u32 \<Rightarrow> u32" where
  "magnitude v = (if sint v < 0 then - v else v)"

lemma int_negate_magnitude:
  "sint v \<noteq> - (2 ^ 31) \<Longrightarrow> sint v < 0 \<Longrightarrow> int_negate v = Some (magnitude v)"
  by (simp add: int_negate_def magnitude_def)

lemma unat_magnitude: "unat (magnitude v) = nat \<bar>sint v\<bar>"
proof (cases "sint v < 0")
  case True
  have r: "- (2 ^ 31) \<le> sint v" using sint_ge [of v] by simp
  have "- v = word_of_int (- sint v)" by simp
  then have "uint (- v) = (- sint v) mod 2 ^ 32"
    by (simp only: uint_word_of_int take_bit_eq_mod) simp
  also have "\<dots> = - sint v" using True r by (intro mod_pos_pos_trivial) simp_all
  finally show ?thesis using True by (simp add: magnitude_def unat_eq_nat_uint)
next
  case False
  have "uint v = sint v mod 2 ^ 32" by (simp add: uint_sint take_bit_eq_mod)
  also have "\<dots> = sint v" using False sint_lt [of v] by (intro mod_pos_pos_trivial) simp_all
  finally show ?thesis using False by (simp add: magnitude_def unat_eq_nat_uint)
qed

lemma print_sign_emits:
  assumes "\<not> failed s" "sint v \<noteq> - (2 ^ 31)"
  shows "print_sign fl v s = do { s \<leftarrow> emits (sign_text fl v) s; Some (magnitude v, s) }"
  using assms
  by (auto simp: print_sign_def sign_text_def int_negate_magnitude magnitude_def emits_Nil flag_bits)

text \<open>\<open>PrintInt\<close> by the stages that write: spaces, sign, zeros, digits.\<close>

lemma PrintInt_stages:
  fixes v b nd fw fl W :: u32
  assumes "width_loop b (magnitude v) 1 = Some W" "sint v \<noteq> - (2 ^ 31)" "\<not> failed s"
  defines "w \<equiv> (if W < nd then nd else W)"
    and "fw1 \<equiv> (if 0 < fw \<and> (sint v < 0 \<or> bit fl 2) then fw - 1 else fw)"
    and "fin f \<equiv> guarded (PrintUnsigned (magnitude v) b nd f fl)"
  shows "PrintInt v b nd fw fl s =
    (if bit fl 0 then emits (sign_text fl v) s \<bind> fin fw1
     else if bit fl 1 \<and> nd = 0
     then emits (sign_text fl v) s \<bind> guarded (\<lambda>s. pad_loop 0x30 w fw1 s \<bind> (\<lambda>(f, s). fin f s))
     else pad_loop 0x20 w fw1 s \<bind> (\<lambda>(f, s). guarded (\<lambda>s. emits (sign_text fl v) s \<bind> fin f) s))"
proof -
  have n: "(if sint v < 0 then int_negate v else Some v) = Some (magnitude v)"
    using assms(2) by (simp add: int_negate_magnitude magnitude_def)
  have "PrintInt v b nd fw fl s =
    do {
     (f, s) \<leftarrow> (if (\<not> bit fl 1 \<or> nd \<noteq> 0) \<and> \<not> bit fl 0 then pad_loop 0x20 w fw1 s else Some (fw1, s));
     guarded (\<lambda>s. do {
       (v, s) \<leftarrow> do { s \<leftarrow> emits (sign_text fl v) s; Some (magnitude v, s) };
       guarded (\<lambda>s. do {
         (f, s) \<leftarrow> (if bit fl 1 \<and> \<not> bit fl 0 \<and> nd = 0 then pad_loop 0x30 w f s else Some (f, s));
         guarded (PrintUnsigned v b nd f fl) s
       }) s
     }) s
    }"
    unfolding PrintInt_def n Let_def flag_bits assms(1) bind.bind_lunit
      w_def [symmetric] fw1_def [symmetric]
    by (simp add: print_sign_emits [OF _ assms(2)] guarded_def cong: if_cong)
  then show ?thesis
    by (auto simp: fin_def Let_def guarded_def intro!: Option.bind_cong split: if_splits)
qed


lemma pad_guarded:
  assumes "\<not> failed s"
  shows "pad_loop c w fw s \<bind> (\<lambda>(f, s). guarded (g f) s) =
    emits (replicate (unat fw - unat w) c) s \<bind> guarded (g (min fw w))"
  by (rule pad_bind [OF assms]) (simp add: guarded_def)

lemma unsigned_text_padded:
  "unat w = full_width b nd (unat v) \<Longrightarrow> \<not> bit fl 0 \<Longrightarrow> unsigned_text b nd (min f w) fl v = digits_text b nd (unat v)"
  by (simp add: unsigned_text_def Let_def unat_min)

lemma PrintInt_tracks:
  assumes "2 \<le> unat b" "unat b \<le> 16" "precision_ok b nd" "sint v \<noteq> - (2 ^ 31)" "\<not> failed s" "steady s"
  shows "tracks (PrintInt v b nd fw fl s) (emits (signed_text b nd fw fl v) s)"
proof -
  obtain W where W: "width_loop b (magnitude v) 1 = Some W"
      "unat (if W < nd then nd else W) = full_width b nd (unat (magnitude v))"
    using code_width [OF assms(1)] .
  define w where "w = (if W < nd then nd else W)"
  define fw1 where "fw1 = (if 0 < fw \<and> (sint v < 0 \<or> bit fl 2) then fw - 1 else fw)"
  let ?fin = "\<lambda>f. guarded (PrintUnsigned (magnitude v) b nd f fl)" and ?sg = "sign_text fl v"
    and ?ds = "digits_text b nd (unat (magnitude v))" and ?k = "unat fw1 - unat w"
  have w: "unat w = full_width b nd (unat (magnitude v))" using W(2) by (simp add: w_def)
  have fw1: "unat fw1 = unat fw - length ?sg"
    by (auto simp: fw1_def sign_text_def unat_minus_one word_gt_0)
  note stages = PrintInt_stages [OF W(1) assms(4,5), of nd fw fl, folded w_def fw1_def]
  note wording = signed_text_def [of b nd fw fl v, folded unat_magnitude fw1 w, unfolded Let_def]
  have fin: "tracks (emits xs s' \<bind> ?fin (min fw1 w)) (emits (xs @ ?ds) s')"
    if "steady s'" "\<not> bit fl 0" for xs s'
    using that(1) PrintUnsigned_tracks [OF assms(1-3), of _ "magnitude v" "min fw1 w" fl]
      unsigned_text_padded [OF w that(2)] by (intro tracks_guarded) simp_all
  consider "bit fl 0" | "\<not> bit fl 0" "bit fl 1 \<and> nd = 0" | "\<not> bit fl 0" "\<not> (bit fl 1 \<and> nd = 0)" by blast
  then show ?thesis
  proof cases
    case 1
    have "tracks (emits ?sg s \<bind> ?fin fw1) (emits (?sg @ unsigned_text b nd fw1 fl (magnitude v)) s)"
      using assms(6) by (intro tracks_guarded PrintUnsigned_tracks assms)
    then show ?thesis using 1 by (simp add: stages wording unsigned_text_def w)
  next
    case 2
    have "tracks (emits ?sg s \<bind> guarded (\<lambda>s. pad_loop 0x30 w fw1 s \<bind> (\<lambda>(f, s). ?fin f s)))
        (emits (?sg @ replicate ?k 0x30 @ ?ds) s)"
    proof (rule tracks_guarded [OF assms(6)])
      fix s' assume a: "steady s'" "\<not> failed s'"
      show "tracks (pad_loop 0x30 w fw1 s' \<bind> (\<lambda>(f, s). ?fin f s)) (emits (replicate ?k 0x30 @ ?ds) s')"
        unfolding pad_guarded [OF a(2)] by (rule fin [OF a(1) 2(1)])
    qed
    moreover have "bit fl 0 = False" "(bit fl 1 \<and> nd = 0) = True" using 2 by simp_all
    ultimately show ?thesis by (simp only: stages wording w if_False if_True)
  next
    case 3
    have "pad_loop 0x20 w fw1 s \<bind> (\<lambda>(f, s). guarded (\<lambda>s. emits ?sg s \<bind> ?fin f) s) =
        emits (replicate ?k 0x20) s \<bind> guarded (\<lambda>s. emits ?sg s \<bind> ?fin (min fw1 w))"
      by (rule pad_guarded [OF assms(5)])
    also have "tracks \<dots> (emits (replicate ?k 0x20 @ ?sg @ ?ds) s)"
      using assms(6) by (intro tracks_guarded fin 3(1))
    finally have "tracks (pad_loop 0x20 w fw1 s \<bind> (\<lambda>(f, s). guarded (\<lambda>s. emits ?sg s \<bind> ?fin f) s))
      (emits (replicate ?k 0x20 @ ?sg @ ?ds) s)" .
    moreover have "bit fl 0 = False" "(bit fl 1 \<and> nd = 0) = False" using 3 by simp_all
    ultimately show ?thesis by (simp only: stages wording w if_False)
  qed
qed

end
