(* ===== verification/Rtt_Printf_Props.thy ===== *)
theory Rtt_Printf_Props
  imports Rtt_Format
begin

text \<open>
  What a formatted message does to a channel: the text of a format string and its arguments, the
  chunks in which it reaches the buffer, the value the call returns, and where it goes wrong.
\<close>

section \<open>The text of a format string\<close>

definition string_text :: "bool \<Rightarrow> u32 \<Rightarrow> u8 list \<Rightarrow> u8 list option" where
  "string_text PrecisionSet Precision str =
     (if 0 \<in> set str
      then Some (let t = takeWhile (\<lambda>c. c \<noteq> 0) str in if PrecisionSet then take (unat Precision) t else t)
      else None)"

definition directive_text :: "directive \<Rightarrow> printf_arg list \<Rightarrow> (u8 list \<times> printf_arg list) option" where
  "directive_text d args =
     (if dr_conv d = 0x63 then do { (v, args) \<leftarrow> va_int args; Some ([ucast v], args) }
      else if dr_conv d = 0x64
      then do {
        (v, args) \<leftarrow> va_int args;
        if precision_ok 10 (dr_Precision d) \<and> sint v \<noteq> - (2 ^ 31)
        then Some (signed_text 10 (dr_Precision d) (dr_Width d) (dr_Flags d) v, args) else None
      }
      else if dr_conv d = 0x75
      then do {
        (v, args) \<leftarrow> va_int args;
        if precision_ok 10 (dr_Precision d)
        then Some (unsigned_text 10 (dr_Precision d) (dr_Width d) (dr_Flags d) v, args) else None
      }
      else if dr_conv d = 0x78 \<or> dr_conv d = 0x58
      then do {
        (v, args) \<leftarrow> va_int args;
        if precision_ok 16 (dr_Precision d)
        then Some (unsigned_text 16 (dr_Precision d) (dr_Width d) (dr_Flags d) v, args) else None
      }
      else if dr_conv d = 0x73
      then do {
        (str, args) \<leftarrow> va_string args;
        t \<leftarrow> (case str of None \<Rightarrow> Some (map of_char ''(NULL)'')
              | Some str \<Rightarrow> string_text (dr_PrecisionSet d) (dr_Precision d) str);
        Some (t, args)
      }
      else if dr_conv d = 0x70 then do { (v, args) \<leftarrow> va_int args; Some (unsigned_text 16 8 8 0 v, args) }
      else if dr_conv d = 0x25 then Some ([0x25], args)
      else Some ([], args))"

function format_text :: "u8 list \<Rightarrow> printf_arg list \<Rightarrow> u8 list option" where
  "format_text [] args = None"
| "format_text (c # f) args =
     (if c = 0 then Some []
      else if c = 0x25
      then do {
        (d, f, args) \<leftarrow> read_directive f args;
        (t, args) \<leftarrow> directive_text d args;
        u \<leftarrow> format_text f args;
        Some (t @ u)
      }
      else map_option ((#) c) (format_text f args))"
  by pat_completeness auto
termination
  by (relation "measure (\<lambda>(f, args). length f)") (auto dest: read_directive_length)

section \<open>The code emits the text\<close>

lemma tracks_then:
  assumes "steady s" "tracks x (emits xs s)"
    and "\<And>s'. steady s' \<Longrightarrow> \<not> failed s' \<Longrightarrow> tracks (g s') (emits ys s')"
  shows "tracks (x \<bind> guarded g) (emits (xs @ ys) s)"
proof (cases "emits xs s")
  case (Some s1)
  show ?thesis
  proof (cases "failed s1")
    case True
    then show ?thesis using Some assms(2) by (auto simp: tracks_def emits_append guarded_def)
  next
    case False
    then show ?thesis using Some assms(2) assms(3) [OF steady_emits [OF assms(1) Some] False]
      by (auto simp: tracks_def emits_append guarded_def)
  qed
qed (simp add: emits_append tracks_def)

lemma print_string_emits:
  "string_text ps p str = Some t \<Longrightarrow> \<not> failed s \<Longrightarrow> print_string ps p str s = emits t s"
proof (induction ps p str s arbitrary: t rule: print_string.induct)
  case (2 ps p c str s)
  show ?case
  proof (cases "c = 0 \<or> ps \<and> p = 0")
    case True
    then show ?thesis using 2(2) by (auto simp: string_text_def Let_def split: if_splits)
  next
    case False
    then have c: "c \<noteq> 0" "ps \<longrightarrow> unat p = Suc (unat (p - 1))" by (auto simp: unat_minus_one unat_gt_0)
    obtain u where u: "string_text ps (p - 1) str = Some u" "t = c # u"
      using 2(2) c by (auto simp: string_text_def Let_def split: if_splits)
    show ?thesis
    proof (cases "StoreChar c s")
      case (Some s1)
      show ?thesis
      proof (cases "failed s1")
        case True
        then show ?thesis using Some False 2(3) u(2) by auto
      next
        case nf: False
        then have "print_string ps (p - 1) str s1 = emits u s1" using 2(1) False Some u(1) by auto
        then show ?thesis using Some False nf 2(3) u(2) by auto
      qed
    qed (use False 2(3) u(2) in auto)
  qed
qed (simp add: string_text_def)

lemma unat_bases: "unat (10 :: u32) = 10" "unat (16 :: u32) = 16"
  by simp_all

lemma convert_tracks:
  assumes "directive_text d args = Some (t, args')" "\<not> failed s" "steady s"
  shows "tracks (map_option fst (convert d args s)) (emits t s) \<and>
    (\<forall>r. convert d args s = Some r \<longrightarrow> snd r = args')"
proof -
  have fin: ?thesis if "convert d args s = x \<bind> (\<lambda>s. Some (s, args'))" "tracks x (emits t s)" for x
    using that by (cases x) auto
  have str: "print_string False n (map of_char ''(NULL)'' @ [0]) s = emits (map of_char ''(NULL)'') s" for n
    using assms(2) by (intro print_string_emits) (simp_all add: string_text_def)
  have e: "StoreChar c s = emits [c] s" for c using assms(2) by (simp add: emits_Nil)
  note num = PrintUnsigned_tracks [of _ _ s, OF _ _ _ assms(2,3)]
  consider "dr_conv d = 0x63" | "dr_conv d = 0x64" | "dr_conv d = 0x75" | "dr_conv d = 0x78 \<or> dr_conv d = 0x58"
    | "dr_conv d = 0x73" | "dr_conv d = 0x70" | "dr_conv d = 0x25"
    | "dr_conv d \<notin> {0x63, 0x64, 0x75, 0x78, 0x58, 0x73, 0x70, 0x25}" by blast
  then show ?thesis
  proof cases
    case 1
    then obtain v where "va_int args = Some (v, args')" "t = [ucast v]"
      using assms(1) by (auto simp: directive_text_def split: bind_splits)
    with 1 show ?thesis by (intro fin [of "emits t s"]) (simp_all add: convert_def e tracks_refl del: emits.simps)
  next
    case 2
    then obtain v where v: "va_int args = Some (v, args')" "precision_ok 10 (dr_Precision d)"
        "sint v \<noteq> - (2 ^ 31)" "t = signed_text 10 (dr_Precision d) (dr_Width d) (dr_Flags d) v"
      using assms(1) by (auto simp: directive_text_def split: bind_splits if_splits)
    have "tracks (PrintInt v 10 (dr_Precision d) (dr_Width d) (dr_Flags d) s) (emits t s)"
      unfolding v(4) by (rule PrintInt_tracks) (simp_all add: v(2) v(3) [simplified] assms(2,3))
    with 2 v(1) show ?thesis by (intro fin) (simp_all add: convert_def)
  next
    case 3
    then obtain v where "va_int args = Some (v, args')" "precision_ok 10 (dr_Precision d)"
        "t = unsigned_text 10 (dr_Precision d) (dr_Width d) (dr_Flags d) v"
      using assms(1) by (auto simp: directive_text_def split: bind_splits if_splits)
    with 3 num [of 10 "dr_Precision d"] show ?thesis by (intro fin) (simp_all add: convert_def)
  next
    case 4
    then obtain v where "va_int args = Some (v, args')" "precision_ok 16 (dr_Precision d)"
        "t = unsigned_text 16 (dr_Precision d) (dr_Width d) (dr_Flags d) v"
      using assms(1) by (auto simp: directive_text_def split: bind_splits if_splits)
    with 4 num [of 16 "dr_Precision d"] show ?thesis
      by (intro fin [of "PrintUnsigned v 16 (dr_Precision d) (dr_Width d) (dr_Flags d) s"])
        (auto simp: convert_def)
  next
    case 5
    then obtain str where v: "va_string args = Some (str, args')"
        "(case str of None \<Rightarrow> Some (map of_char ''(NULL)'')
          | Some str \<Rightarrow> string_text (dr_PrecisionSet d) (dr_Precision d) str) = Some t"
      using assms(1) by (auto simp: directive_text_def split: bind_splits)
    have "(case str of None \<Rightarrow> print_string False (dr_Precision d) (map of_char ''(NULL)'' @ [0]) s
          | Some str \<Rightarrow> print_string (dr_PrecisionSet d) (dr_Precision d) str s) = emits t s"
      using v(2) print_string_emits [OF _ assms(2)] str by (cases str) (simp_all del: emits.simps)
    with 5 v(1) show ?thesis by (intro fin [of "emits t s"]) (simp_all add: convert_def tracks_refl)
  next
    case 6
    then obtain v where "va_int args = Some (v, args')" "t = unsigned_text 16 8 8 0 v"
      using assms(1) by (auto simp: directive_text_def split: bind_splits)
    with 6 num [of 16 8] show ?thesis by (intro fin) (simp_all add: convert_def precision_ok_def)
  next
    case 7
    then show ?thesis using assms(1)
      by (intro fin [of "emits t s"])
        (simp_all add: directive_text_def convert_def tracks_refl e del: emits.simps)
  next
    case 8
    then show ?thesis using assms(1) by (auto simp: directive_text_def convert_def tracks_refl)
  qed
qed

lemma vprintf_loop_tracks:
  "format_text f args = Some t \<Longrightarrow> \<not> failed s \<Longrightarrow> steady s \<Longrightarrow>
   tracks (vprintf_loop f args s) (emits t s)"
proof (induction f args arbitrary: t s rule: format_text.induct)
  case (2 c f args)
  consider "c = 0" | "c = 0x25" | "c \<noteq> 0" "c \<noteq> 0x25" by blast
  then show ?case
  proof cases
    case 1
    then show ?thesis using 2(3) by (simp add: tracks_refl)
  next
    case 2
    then obtain d f' args1 t1 args2 u where st: "read_directive f args = Some (d, f', args1)"
        "directive_text d args1 = Some (t1, args2)" "format_text f' args2 = Some u" "t = t1 @ u"
      using "2.prems"(1) by (auto split: bind_splits)
    note IH = "2.IH"(1) [OF _ 2 st(1) refl refl st(2) refl st(3)]
    have cv: "tracks (map_option fst (convert d args1 s)) (emits t1 s)"
      "\<And>r. convert d args1 s = Some r \<Longrightarrow> snd r = args2"
      using convert_tracks [OF st(2) "2.prems"(2,3)] by auto
    have "vprintf_loop (c # f) args s =
        map_option fst (convert d args1 s) \<bind> guarded (vprintf_loop f' args2)"
      using 2 st(1) cv(2) by (cases "convert d args1 s") (auto simp: guarded_def)
    then show ?thesis using tracks_then [OF "2.prems"(3) cv(1), of "vprintf_loop f' args2" u] IH 2 st(4)
      by simp
  next
    case 3
    then obtain u where u: "format_text f args = Some u" "t = [c] @ u" using "2.prems"(1) by auto
    have "vprintf_loop (c # f) args s = emits [c] s \<bind> guarded (vprintf_loop f args)"
      using 3 "2.prems"(2) by (auto simp: guarded_def [abs_def] emits_Nil intro!: Option.bind_cong)
    moreover have "tracks \<dots> (emits ([c] @ u) s)"
      using "2.prems"(3) "2.IH"(2) [OF 3 u(1)] by (intro tracks_guarded)
    ultimately show ?thesis using u(2) by simp
  qed
qed simp


section \<open>The channel behind the staging buffer\<close>

text \<open>An up channel in the default mode, and the staging buffer with the characters it holds.\<close>

definition on_channel :: "u32 \<Rightarrow> ring \<Rightarrow> rtt_cb \<Rightarrow> bool" where
  "on_channel i r cb \<longleftrightarrow> acID cb ! 0 = 0x53 \<and> ring_at i (aUp cb) = Some r \<and> ring_ok r \<and>
     Flags r = SEGGER_RTT_MODE_NO_BLOCK_SKIP"

definition staging :: "u32 \<Rightarrow> ring \<Rightarrow> u8 list \<Rightarrow> int \<Rightarrow> printf_state \<Rightarrow> bool" where
  "staging i r xs n s \<longleftrightarrow> BufferSize (fst s) = 64 \<and> RTTBufferIndex (fst s) = i \<and>
     length (pd_Buffer (fst s)) = 64 \<and> unat (Cnt (fst s)) = length xs \<and>
     take (length xs) (pd_Buffer (fst s)) = xs \<and> ReturnValue (fst s) = n \<and> on_channel i r (snd (snd s))"

lemma rtt_out_skip:
  assumes "on_channel i r (snd w)" "unat n \<le> length data"
  shows "room r < unat n \<Longrightarrow> rtt_out i data n w = Some ((tl (fst w), snd w), 0)"
    and "unat n \<le> room r \<Longrightarrow> \<exists>r' cb. rtt_out i data n w = Some ((tl (fst w), cb), n) \<and> on_channel i r' cb \<and>
      held r' = held r @ take (unat n) data \<and> SizeOfBuffer r' = SizeOfBuffer r"
proof -
  let ?h = "case fst w of [] \<Rightarrow> [] | host # _ \<Rightarrow> host"
  have ch: "ring_at i (aUp (snd w)) = Some r" "ring_ok r" "Flags r = 0" "INIT (snd w) = snd w"
    using assms(1) by (simp_all add: on_channel_def INIT_done)
  have av: "GetAvailWriteSpace r < n \<longleftrightarrow> room r < unat n"
    using avail_room [OF ch(2)] by (simp add: word_less_nat_alt)
  show "rtt_out i data n w = Some ((tl (fst w), snd w), 0)" if "room r < unat n"
  proof -
    have "write_ring ?h r data n = Some (r, 0)" using that ch(3) av by (simp add: write_ring_def)
    moreover have "(aUp (snd w))[unat i := r] = aUp (snd w)"
      using ch(1) by (auto simp: ring_at_def split: if_splits)
    ultimately show ?thesis
      by (simp add: rtt_out_def SEGGER_RTT_Write_def SEGGER_RTT_WriteNoLock_def ch)
  qed
  show "\<exists>r' cb. rtt_out i data n w = Some ((tl (fst w), cb), n) \<and> on_channel i r' cb \<and>
      held r' = held r @ take (unat n) data \<and> SizeOfBuffer r' = SizeOfBuffer r" if le: "unat n \<le> room r"
  proof -
    obtain r' k where r': "write_ring ?h r data n = Some (r', k)" "unat k = unat n" "ring_ok r'"
        "held r' = held r @ take (unat k) data" "Flags r' = 0" "SizeOfBuffer r' = SizeOfBuffer r"
      using write_ring_accepts [OF ch(2) assms(2), of ?h] ch(3) le by (auto simp: accepted_def)
    let ?cb = "(snd w)\<lparr>aUp := (aUp (snd w))[unat i := r']\<rparr>"
    have "k = n" using r'(2) by (simp add: word_unat_eq_iff)
    then have "rtt_out i data n w = Some ((tl (fst w), ?cb), n)"
      using r'(1) by (simp add: rtt_out_def SEGGER_RTT_Write_def SEGGER_RTT_WriteNoLock_def ch)
    moreover have "on_channel i r' ?cb"
      using assms(1) r'(3,5) ch(1) by (auto simp: on_channel_def ring_at_def split: if_splits)
    ultimately show ?thesis using r' by auto
  qed
qed

text \<open>One character: staged, or the sixty-fourth, which flushes the buffer or is stuck with it.\<close>

lemma StoreChar_staging:
  assumes "staging i r xs n s" "length xs < 64"
  shows "\<not> n + 1 < 2 ^ 31 \<Longrightarrow> StoreChar c s = None"
    and "n + 1 < 2 ^ 31 \<Longrightarrow> length xs < 63 \<Longrightarrow> \<exists>s'. StoreChar c s = Some s' \<and> staging i r (xs @ [c]) (n + 1) s'"
    and "n + 1 < 2 ^ 31 \<Longrightarrow> length xs = 63 \<Longrightarrow> 64 \<le> room r \<Longrightarrow>
      \<exists>s' r'. StoreChar c s = Some s' \<and> staging i r' [] (n + 1) s' \<and> held r' = held r @ xs @ [c] \<and>
        SizeOfBuffer r' = SizeOfBuffer r"
    and "n + 1 < 2 ^ 31 \<Longrightarrow> length xs = 63 \<Longrightarrow> room r < 64 \<Longrightarrow>
      \<exists>s'. StoreChar c s = Some s' \<and> staging i r (xs @ [c]) (- 1) s'"
proof -
  obtain p w where s: "s = (p, w)" by (cases s)
  define buf where "buf = take (length xs) (pd_Buffer p) @ [c] @ drop (length xs + 1) (pd_Buffer p)"
  have st: "BufferSize p = 64" "RTTBufferIndex p = i" "length (pd_Buffer p) = 64" "unat (Cnt p) = length xs"
      "take (length xs) (pd_Buffer p) = xs" "ReturnValue p = n" "on_channel i r (snd w)"
    using assms(1) by (simp_all add: staging_def s)
  have cnt: "unat (Cnt p + 1) = Suc (length xs)"
    using assms(2) st(4) by (subst unat_add_nat) simp_all
  have le: "Cnt p + 1 \<le> 64" using assms(2) cnt by (simp add: word_le_nat_alt)
  have store: "mem_store (length xs) [c] (pd_Buffer p) = Some buf"
    using st(3,4) assms(2) by (simp add: mem_store_def buf_def)
  have buf: "length buf = 64" "take (Suc (length xs)) buf = xs @ [c]"
    using st(3,5) assms(2) by (simp_all add: buf_def)
  let ?p = "p\<lparr>pd_Buffer := buf, Cnt := Cnt p + 1, ReturnValue := n + 1\<rparr>"
  have step: "StoreChar c s = (if Cnt p + 1 = 64
      then do { (w, k) \<leftarrow> rtt_out i buf 64 w;
        Some (if k \<noteq> 64 then ?p\<lparr>ReturnValue := - 1\<rparr> else ?p\<lparr>Cnt := 0\<rparr>, w) }
      else Some (?p, w))" if "n + 1 < 2 ^ 31"
    using that le by (simp add: StoreChar_def s st store int_plus_def)
  show "StoreChar c s = None" if "\<not> n + 1 < 2 ^ 31"
    using that le by (simp add: StoreChar_def s st store int_plus_def)
  have full: "Cnt p + 1 = 64 \<longleftrightarrow> length xs = 63" using cnt by (simp add: word_unat_eq_iff)
  show "\<exists>s'. StoreChar c s = Some s' \<and> staging i r (xs @ [c]) (n + 1) s'"
    if "n + 1 < 2 ^ 31" "length xs < 63"
    using that st cnt buf by (simp add: step full staging_def)
  show "\<exists>s' r'. StoreChar c s = Some s' \<and> staging i r' [] (n + 1) s' \<and> held r' = held r @ xs @ [c] \<and>
        SizeOfBuffer r' = SizeOfBuffer r" if a: "n + 1 < 2 ^ 31" "length xs = 63" "64 \<le> room r"
  proof -
    obtain r' cb where "rtt_out i buf 64 w = Some ((tl (fst w), cb), 64)" "on_channel i r' cb"
        "held r' = held r @ take 64 buf" "SizeOfBuffer r' = SizeOfBuffer r"
      using rtt_out_skip(2) [OF st(7), of 64 buf] a(3) buf(1) by auto
    moreover have "take 64 buf = xs @ [c]" using buf(2) a(2) by simp
    ultimately show ?thesis using a(1,2) st buf(1)
      by (intro exI [of _ "(?p\<lparr>Cnt := 0\<rparr>, tl (fst w), cb)"] exI [of _ r']) (simp add: step full staging_def)
  qed
  show "\<exists>s'. StoreChar c s = Some s' \<and> staging i r (xs @ [c]) (- 1) s'"
    if a: "n + 1 < 2 ^ 31" "length xs = 63" "room r < 64"
  proof -
    have "rtt_out i buf 64 w = Some ((tl (fst w), snd w), 0)"
      using rtt_out_skip(1) [OF st(7), of 64 buf] a(3) buf(1) by simp
    then show ?thesis using a(1,2) st buf cnt by (simp add: step full staging_def)
  qed
qed


text \<open>A stuck buffer: a full chunk the channel has no room for.\<close>

definition stuck :: "u32 \<Rightarrow> printf_state \<Rightarrow> bool" where
  "stuck i s \<longleftrightarrow> (\<exists>r ys. staging i r ys (- 1) s \<and> length ys = 64 \<and> room r < 64)"

definition running :: "u32 \<Rightarrow> printf_state \<Rightarrow> bool" where
  "running i s \<longleftrightarrow> (\<exists>r xs n. staging i r xs n s \<and> length xs < 64 \<and> 0 \<le> n)"

lemma running_not_failed: "running i s \<Longrightarrow> \<not> failed s" and stuck_failed: "stuck i s \<Longrightarrow> failed s"
  by (auto simp: running_def stuck_def staging_def)

lemma running_step:
  assumes "running i s" "StoreChar c s = Some s'"
  shows "running i s' \<or> stuck i s'"
proof -
  obtain r xs n where st: "staging i r xs n s" "length xs < 64" "0 \<le> n"
    using assms(1) unfolding running_def by blast
  have n: "n + 1 < 2 ^ 31" using StoreChar_staging(1) [OF st(1,2), of c] assms(2) by force
  consider "length xs < 63" | "length xs = 63" "64 \<le> room r" | "length xs = 63" "room r < 64"
    using st(2) by linarith
  then show ?thesis
  proof cases
    case 1
    then have "staging i r (xs @ [c]) (n + 1) s'"
      using StoreChar_staging(2) [OF st(1,2) n, of c] assms(2) by simp
    then show ?thesis using 1 st(3) unfolding running_def
      by (intro disjI1 exI [of _ r] exI [of _ "xs @ [c]"] exI [of _ "n + 1"]) simp
  next
    case 2
    then obtain r' where "staging i r' [] (n + 1) s'"
      using StoreChar_staging(3) [OF st(1,2) n, of c] assms(2) by auto
    then show ?thesis using st(3) unfolding running_def
      by (intro disjI1 exI [of _ r'] exI [of _ "[]"] exI [of _ "n + 1"]) simp
  next
    case 3
    then have "staging i r (xs @ [c]) (- 1) s'"
      using StoreChar_staging(4) [OF st(1,2) n, of c] assms(2) by simp
    then show ?thesis using 3 unfolding stuck_def
      by (intro disjI2 exI [of _ r] exI [of _ "xs @ [c]"]) simp
  qed
qed

lemma emits_running:
  "running i s \<Longrightarrow> emits cs s = Some s' \<Longrightarrow> running i s' \<or> stuck i s'"
proof (induction cs arbitrary: s)
  case (Cons c cs)
  from running_not_failed [OF Cons.prems(1)] Cons.prems(2) obtain s1 where s1: "StoreChar c s = Some s1" "emits cs s1 = Some s'"
    by (auto split: bind_splits)
  from running_step [OF Cons.prems(1) s1(1)] show ?case
  proof
    assume "stuck i s1"
    then show ?thesis using s1(2) stuck_failed [of i s1] by simp
  qed (rule Cons.IH [OF _ s1(2)])
qed simp

lemma stuck_retry:
  assumes "stuck i s"
  shows "\<exists>s'. StoreChar c s = Some s' \<and> ReturnValue (fst s') = ReturnValue (fst s) \<and> snd (snd s') = snd (snd s)"
proof -
  obtain r ys where st: "staging i r ys (- 1) s" "length ys = 64" "room r < 64"
    using assms unfolding stuck_def by blast
  then have cnt: "Cnt (fst s) = 64" by (simp add: staging_def word_unat_eq_iff)
  have "rtt_out i (pd_Buffer (fst s)) 64 (snd s) = Some ((tl (fst (snd s)), snd (snd s)), 0)"
    using st by (intro rtt_out_skip(1) [of i r]) (simp_all add: staging_def)
  then show ?thesis using st(1) cnt
    by (cases s) (simp add: StoreChar_def staging_def)
qed

lemma running_steady:
  assumes "running i s"
  shows "steady s"
  unfolding steady_def
proof (intro allI impI)
  fix cs s'
  assume "emits cs s = Some s'" "failed s'"
  then have "stuck i s'" using emits_running [OF assms] running_not_failed by blast
  then show "\<exists>s2. StoreChar 0x20 s' = Some s2 \<and> ReturnValue (fst s2) = ReturnValue (fst s') \<and> snd (snd s2) = snd (snd s')"
    by (rule stuck_retry)
qed


section \<open>The outcome of a call\<close>

text \<open>
  What a text does that starts on an empty staging buffer or continues one: whole chunks of 64 bytes
  go to the channel while it has room; the first that does not fit ends the call.
\<close>

definition outcome :: "u32 \<Rightarrow> ring \<Rightarrow> u8 list \<Rightarrow> int \<Rightarrow> printf_state option \<Rightarrow> bool" where
  "outcome i r whole n x \<longleftrightarrow>
     (if length whole div 64 \<le> room r div 64
      then \<exists>s r'. x = Some s \<and> staging i r' (drop (64 * (length whole div 64)) whole) n s \<and>
        held r' = held r @ take (64 * (length whole div 64)) whole \<and> SizeOfBuffer r' = SizeOfBuffer r
      else \<exists>s r' ys. x = Some s \<and> staging i r' ys (- 1) s \<and>
        held r' = held r @ take (64 * (room r div 64)) whole)"

lemma outcome_chunk:
  assumes "outcome i r1 t n x" "length chunk = 64" "64 \<le> room r" "room r1 = room r - 64"
    and "held r1 = held r @ chunk" "SizeOfBuffer r1 = SizeOfBuffer r"
  shows "outcome i r (chunk @ t) n x"
proof -
  have q: "length (chunk @ t) div 64 = Suc (length t div 64)" "room r div 64 = Suc (room r1 div 64)"
    using assms(2-4) by (simp_all add: div_add_self1 le_div_geq)
  have k: "take (64 * Suc m) (chunk @ t) = chunk @ take (64 * m) t"
    "drop (64 * Suc m) (chunk @ t) = drop (64 * m) t" for m
    using assms(2) by simp_all
  show ?thesis
    using assms(1) unfolding outcome_def q k Suc_le_mono assms(5,6) append_assoc .
qed

lemma room_after:
  assumes "ring_ok r" "ring_ok r'" "held r' = held r @ xs" "SizeOfBuffer r' = SizeOfBuffer r"
  shows "room r' = room r - length xs"
  using held_room [OF assms(1)] held_room [OF assms(2)] assms(3,4) by simp

lemma staging_ring_ok: "staging i r xs n s \<Longrightarrow> ring_ok r"
  by (simp add: staging_def on_channel_def)

lemma emits_outcome:
  assumes "staging i r xs n s" "length xs < 64" "0 \<le> n" "n + int (length t) < 2 ^ 31"
  shows "outcome i r (xs @ t) (n + int (length t)) (emits t s)"
  using assms
proof (induction t arbitrary: r xs n s)
  case Nil
  then show ?case by (auto simp: outcome_def)
next
  case (Cons c t)
  have n: "n + 1 < 2 ^ 31" "0 \<le> n + 1" "n + 1 + int (length t) < 2 ^ 31" and nf: "\<not> failed s"
    using Cons.prems by (auto simp: staging_def)
  have len: "n + int (length (c # t)) = n + 1 + int (length t)" by simp
  consider "length xs < 63" | "length xs = 63" "64 \<le> room r" | "length xs = 63" "room r < 64"
    using Cons.prems(2) by linarith
  then show ?case
  proof cases
    case 1
    obtain s1 where s1: "StoreChar c s = Some s1" "staging i r (xs @ [c]) (n + 1) s1"
      using StoreChar_staging(2) [OF Cons.prems(1,2) n(1) 1] by blast
    have "outcome i r ((xs @ [c]) @ t) (n + 1 + int (length t)) (emits t s1)"
      using 1 by (intro Cons.IH s1(2) n) simp
    then show ?thesis unfolding len using nf s1(1) by simp
  next
    case 2
    obtain s1 r1 where s1: "StoreChar c s = Some s1" "staging i r1 [] (n + 1) s1"
        "held r1 = held r @ xs @ [c]" "SizeOfBuffer r1 = SizeOfBuffer r"
      using StoreChar_staging(3) [OF Cons.prems(1,2) n(1) 2] by blast
    have "outcome i r1 ([] @ t) (n + 1 + int (length t)) (emits t s1)"
      by (intro Cons.IH s1(2) n) simp
    moreover have "room r1 = room r - length (xs @ [c])"
      using s1 Cons.prems(1) by (intro room_after) (simp_all add: staging_ring_ok)
    ultimately have "outcome i r ((xs @ [c]) @ t) (n + 1 + int (length t)) (emits t s1)"
      using 2 s1(3,4) by (intro outcome_chunk [of i r1]) simp_all
    then show ?thesis unfolding len using nf s1(1) by simp
  next
    case 3
    obtain s1 where s1: "StoreChar c s = Some s1" "staging i r (xs @ [c]) (- 1) s1"
      using StoreChar_staging(4) [OF Cons.prems(1,2) n(1) 3] by blast
    have "failed s1" using s1(2) by (simp add: staging_def)
    moreover have "room r div 64 = 0" "\<not> length (xs @ c # t) div 64 \<le> 0"
      using 3 by (simp_all add: div_eq_0_iff)
    ultimately show ?thesis using s1 nf by (auto simp: outcome_def)
  qed
qed


text \<open>The text that reaches a channel with \<open>m\<close> free bytes, and what the call returns.\<close>

definition printed :: "nat \<Rightarrow> u8 list \<Rightarrow> u8 list" where
  "printed m t =
     (if m div 64 < length t div 64 then take (64 * (m div 64)) t
      else if length t \<le> m then t else take (64 * (length t div 64)) t)"

definition printf_result :: "nat \<Rightarrow> u8 list \<Rightarrow> int" where
  "printf_result m t =
     (if m div 64 < length t div 64 then - 1 else int (length t) + int (length t mod 64))"

lemma sint_small:
  assumes "unat (c :: u32) < 2 ^ 31"
  shows "sint c = int (unat c)"
proof -
  have "int (unat c) < int (2 ^ 31)" using assms by (simp only: of_nat_less_iff)
  then have "uint c < 2 ^ 31" unfolding uint_nat by (simp only: of_nat_power of_nat_numeral)
  then have m: "(uint c + 2 ^ 31) mod 2 ^ 32 = uint c + 2 ^ 31"
    by (intro mod_pos_pos_trivial) simp_all
  have "sint (word_of_int (uint c) :: u32) = (uint c + 2 ^ 31) mod 2 ^ 32 - 2 ^ 31"
    by (subst int_word_sint) simp
  then show ?thesis by (simp only: m) simp
qed

text \<open>The remainder of the text, written last; whether it fits is not looked at.\<close>

lemma final_write:
  assumes "staging i r xs n s" "length xs < 64" "0 < n" "n + 64 < 2 ^ 31"
  shows "\<exists>w' r'. do {
       (w, _) \<leftarrow> (if Cnt (fst s) \<noteq> 0 then rtt_out i (pd_Buffer (fst s)) (Cnt (fst s)) (snd s) else Some (snd s, 0));
       r \<leftarrow> int_plus (ReturnValue (fst s)) (sint (Cnt (fst s)));
       Some (w, r) } = Some (w', n + int (length xs)) \<and>
     on_channel i r' (snd w') \<and> held r' = held r @ (if length xs \<le> room r then xs else [])"
proof -
  have st: "length (pd_Buffer (fst s)) = 64" "unat (Cnt (fst s)) = length xs"
      "take (length xs) (pd_Buffer (fst s)) = xs" "ReturnValue (fst s) = n" "on_channel i r (snd (snd s))"
    using assms(1) by (simp_all add: staging_def)
  have p: "int_plus (ReturnValue (fst s)) (sint (Cnt (fst s))) = Some (n + int (length xs))"
    using st(2,4) assms(2,4) sint_small [of "Cnt (fst s)"] by (simp add: int_plus_def)
  consider "Cnt (fst s) = 0" | "Cnt (fst s) \<noteq> 0" "length xs \<le> room r" | "Cnt (fst s) \<noteq> 0" "room r < length xs"
    by linarith
  then show ?thesis
  proof cases
    case 1
    then have "xs = []" using st(2) by simp
    then show ?thesis using 1 p st(5) by auto
  next
    case 2
    then show ?thesis using rtt_out_skip(2) [OF st(5), of "Cnt (fst s)" "pd_Buffer (fst s)"] st assms(2) p
      by auto
  next
    case 3
    then show ?thesis using rtt_out_skip(1) [OF st(5), of "Cnt (fst s)" "pd_Buffer (fst s)"] st assms(2) p
      by auto
  qed
qed

lemma printf_effect:
  assumes "on_channel i r (snd w)" "length acBuffer = 64" "format_text f args = Some t" "length t < 2 ^ 31 - 64"
  shows "\<exists>w' r'. SEGGER_RTT_printf acBuffer i f args w = Some (w', printf_result (room r) t) \<and>
    on_channel i r' (snd w') \<and> held r' = held r @ printed (room r) t"
proof -
  let ?p = "\<lparr>pd_Buffer = acBuffer, BufferSize = 64, Cnt = 0, ReturnValue = 0, RTTBufferIndex = i\<rparr>"
  let ?q = "length t div 64" and ?m = "room r div 64"
  have st: "staging i r [] 0 (?p, w)" using assms(1,2) by (simp add: staging_def)
  then have "running i (?p, w)" unfolding running_def by (metis length_0_conv zero_less_numeral order_refl)
  then have tr: "tracks (vprintf_loop f args (?p, w)) (emits t (?p, w))"
    by (intro vprintf_loop_tracks assms(3) running_steady) simp_all
  have out: "outcome i r t (int (length t)) (emits t (?p, w))"
    using emits_outcome [OF st, of t] assms(4) by simp
  show ?thesis
  proof (cases "?q \<le> ?m")
    case False
    then obtain s r' ys where s: "emits t (?p, w) = Some s" "staging i r' ys (- 1) s"
        "held r' = held r @ take (64 * ?m) t"
      using out by (auto simp: outcome_def)
    then obtain s' where "vprintf_loop f args (?p, w) = Some s'" "ReturnValue (fst s') = - 1"
        "snd (snd s') = snd (snd s)"
      using tr by (auto simp: tracks_def staging_def)
    then have "SEGGER_RTT_printf acBuffer i f args w = Some (snd s', - 1)"
      by (simp add: SEGGER_RTT_printf_def SEGGER_RTT_vprintf_def case_prod_beta)
    then show ?thesis using s False \<open>snd (snd s') = snd (snd s)\<close>
      by (auto simp: printf_result_def printed_def staging_def not_le)
  next
    case True
    then obtain s r1 where s: "emits t (?p, w) = Some s"
        "staging i r1 (drop (64 * ?q) t) (int (length t)) s"
        "held r1 = held r @ take (64 * ?q) t" "SizeOfBuffer r1 = SizeOfBuffer r"
      using out by (auto simp: outcome_def)
    have v: "vprintf_loop f args (?p, w) = Some s" using tr s(1,2) by (simp add: tracks_def staging_def)
    have rm: "room r1 = room r - 64 * ?q"
      using s(2,3,4) st True by (subst room_after [of r r1]) (auto simp: staging_ring_ok)
    have q: "64 * ?q \<le> room r" "64 * ?q + length t mod 64 = length t" using True by auto
    show ?thesis
    proof (cases "t = []")
      case True
      then show ?thesis using s v
        by (auto simp: SEGGER_RTT_printf_def SEGGER_RTT_vprintf_def case_prod_beta staging_def
            printf_result_def printed_def)
    next
      case False
      have l: "length (drop (64 * ?q) t) = length t mod 64" using q(2) unfolding length_drop by linarith
      obtain w' r' where w': "SEGGER_RTT_printf acBuffer i f args w = Some (w', int (length t) + int (length t mod 64))"
          "on_channel i r' (snd w')"
          "held r' = held r1 @ (if length t mod 64 \<le> room r1 then drop (64 * ?q) t else [])"
      proof -
        have a: "length (drop (64 * ?q) t) < 64" "0 < int (length t)" "int (length t) + 64 < 2 ^ 31"
          using False assms(4) unfolding l by simp_all
        have call: "SEGGER_RTT_printf acBuffer i f args w = do {
            (w, _) \<leftarrow> (if Cnt (fst s) \<noteq> 0 then rtt_out i (pd_Buffer (fst s)) (Cnt (fst s)) (snd s) else Some (snd s, 0));
            r \<leftarrow> int_plus (ReturnValue (fst s)) (sint (Cnt (fst s)));
            Some (w, r) }"
          using v s(2) a(2) by (simp add: SEGGER_RTT_printf_def SEGGER_RTT_vprintf_def case_prod_beta staging_def)
        show thesis using final_write [OF s(2) a] that unfolding call l by blast
      qed
      have "length t mod 64 \<le> room r1 \<longleftrightarrow> length t \<le> room r" using q rm by linarith
      then have "held r' = held r @ printed (room r) t"
        using w'(3) s(3) True by (simp add: printed_def)
      then show ?thesis using w'(1,2) True by (auto simp: printf_result_def)
    qed
  qed
qed


text \<open>
  What a formatted message leaves in a channel. In the default mode, if the format and its
  arguments stand for a text, the text is handed over in chunks of 64 bytes. If every full chunk fits,
  the rest is written if it fits too and dropped if not; the first full chunk that does not fit ends
  the call with -1, and the chunks before it stay. Otherwise the call returns the length of the text
  plus the length of the last chunk, although the documentation promises the bytes stored.
\<close>

theorem printf_outcome:
  assumes "on_channel i r (snd w)" "length acBuffer = 64" "format_text f args = Some t" "length t < 2 ^ 31 - 64"
  shows "\<exists>w' r'. SEGGER_RTT_printf acBuffer i f args w = Some (w', printf_result (room r) t) \<and>
    on_channel i r' (snd w') \<and> held r' = held r @ printed (room r) t"
  using assms by (rule printf_effect)

text \<open>Reading a number back: the value of its digit characters.\<close>

definition digit_value :: "u8 \<Rightarrow> nat" where
  "digit_value c = (if c \<le> 0x39 then unat c - 0x30 else unat c - 0x37)"

definition read_digits :: "nat \<Rightarrow> u8 list \<Rightarrow> nat" where
  "read_digits b t = foldl (\<lambda>a c. a * b + digit_value c) 0 t"

lemma digit_value_aV2C: "d < 16 \<Longrightarrow> digit_value (aV2C ! d) = d"
proof -
  have "\<forall>d \<in> set [0..<16]. digit_value (aV2C ! d) = d" by code_simp
  then show "d < 16 \<Longrightarrow> ?thesis" by simp
qed

lemma numeral_digits_less: "0 < b \<Longrightarrow> d \<in> set (numeral_digits b L v) \<Longrightarrow> d < b"
  by (auto simp: numeral_digits_def)

lemma read_digits_text:
  assumes "2 \<le> unat b" "unat b \<le> 16"
  shows "read_digits (unat b) (digits_text b nd v) = v"
proof -
  let ?ds = "numeral_digits (unat b) (full_width b nd v) v"
  have L: "num_width (unat b) v \<le> Suc (full_width b nd v - 1)" "full_width b nd v = Suc (full_width b nd v - 1)"
    using num_width_pos [of "unat b" v] by (auto simp: full_width_def)
  have "v < unat b ^ full_width b nd v" using num_width_le [OF assms(1)] L by metis
  then have v: "foldl (\<lambda>a d. a * unat b + d) 0 ?ds = v" using numeral_digits_value [of v "unat b" _ 0] by simp
  have "foldl (\<lambda>a c. a * unat b + digit_value c) a (map ((!) aV2C) ds) = foldl (\<lambda>a d. a * unat b + d) a ds"
    if "\<forall>d \<in> set ds. d < unat b" for a ds
    using that assms(2) by (induction ds arbitrary: a) (simp_all add: digit_value_aV2C)
  then show ?thesis using v numeral_digits_less [of "unat b"] assms(1)
    by (simp add: read_digits_def digits_text_def)
qed

lemma length_digits_text: "length (digits_text b nd v) = full_width b nd v"
  by (simp add: digits_text_def numeral_digits_def)

lemma read_digits_zeros: "read_digits b (replicate n 0x30 @ t) = read_digits b t"
proof -
  have "foldl (\<lambda>a c. a * b + digit_value c) 0 (replicate n 0x30) = 0"
    by (induction n) (simp_all add: digit_value_def)
  then show ?thesis by (simp add: read_digits_def)
qed

lemma short_message:
  assumes "on_channel i r (snd w)" "length acBuffer = 64" "format_text f args = Some t"
    and "length t < 64" "length t \<le> room r"
  shows "\<exists>w' r'. SEGGER_RTT_printf acBuffer i f args w = Some (w', 2 * int (length t)) \<and>
    on_channel i r' (snd w') \<and> held r' = held r @ t"
  using printf_effect [OF assms(1-3)] assms(4,5) by (simp add: printed_def printf_result_def)

lemma decimal_text:
  "format_text [0x25, 0x75, 0] [IntArg v] = Some (digits_text 10 0 (unat v))"
  by (simp add: read_directive_def read_precision_def directive_text_def precision_ok_def
      unsigned_text_def full_width_def Let_def)

lemma hex_text:
  "format_text [0x25, 0x30, 0x38, 0x58, 0] [IntArg v] =
     Some (replicate (8 - full_width 16 0 (unat v)) 0x30 @ digits_text 16 0 (unat v))"
  by (simp add: read_directive_def read_precision_def directive_text_def precision_ok_def
      unsigned_text_def Let_def)

text \<open>
  C22: numbers print correctly and can be read back. On a channel with room, \<open>%u\<close> prints the decimal
  digits of a word and \<open>%08X\<close> exactly eight hexadecimal ones; reading either text gives the word
  again, whatever it is.
\<close>

theorem number_roundtrip:
  assumes "on_channel i r (snd w)" "length acBuffer = 64" "64 \<le> room r"
  shows "(\<exists>w' r' t. SEGGER_RTT_printf acBuffer i [0x25, 0x75, 0] [IntArg v] w = Some (w', 2 * int (length t)) \<and>
      on_channel i r' (snd w') \<and> held r' = held r @ t \<and> read_digits 10 t = unat v) \<and>
    (\<exists>w' r' t. SEGGER_RTT_printf acBuffer i [0x25, 0x30, 0x38, 0x58, 0] [IntArg v] w = Some (w', 16) \<and>
      on_channel i r' (snd w') \<and> held r' = held r @ t \<and> length t = 8 \<and> read_digits 16 t = unat v)"
proof (intro conjI)
  let ?d = "digits_text 10 0 (unat v)" and ?h = "digits_text 16 0 (unat v)"
  let ?z = "replicate (8 - full_width 16 0 (unat v)) 0x30 @ ?h"
  have "length ?d \<le> 32" using num_width_bound [of 10 v] by (simp add: length_digits_text full_width_def)
  then have "length ?d < 64" "length ?d \<le> room r" using assms(3) by simp_all
  from short_message [OF assms(1,2) decimal_text this] read_digits_text [of 10 0 "unat v"]
  show "\<exists>w' r' t. SEGGER_RTT_printf acBuffer i [0x25, 0x75, 0] [IntArg v] w = Some (w', 2 * int (length t)) \<and>
      on_channel i r' (snd w') \<and> held r' = held r @ t \<and> read_digits 10 t = unat v" by auto
  have "unat v < 16 ^ Suc 7" using unsigned_less [where w = v and 'a = nat] by simp
  then have "num_width 16 (unat v) \<le> Suc 7" using num_width_le [of 16 "unat v" 7] by simp
  then have l: "length ?z = 8" by (simp add: length_digits_text full_width_def)
  have "read_digits 16 ?z = unat v" using read_digits_text [of 16 0 "unat v"] by (simp add: read_digits_zeros)
  moreover have "length ?z < 64" "length ?z \<le> room r" using l assms(3) by simp_all
  note short_message [OF assms(1,2) hex_text this]
  ultimately show "\<exists>w' r' t. SEGGER_RTT_printf acBuffer i [0x25, 0x30, 0x38, 0x58, 0] [IntArg v] w = Some (w', 16) \<and>
      on_channel i r' (snd w') \<and> held r' = held r @ t \<and> length t = 8 \<and> read_digits 16 t = unat v"
    using l by (metis int_ops(3) mult_2 numeral_Bit0 of_nat_numeral)
qed

text \<open>A text without percent sign or zero, then a percent sign at the very end.\<close>

lemma literal_then_percent:
  assumes "0 \<notin> set xs" "0x25 \<notin> set xs" "\<not> failed s" "emits xs s = Some s'" "\<not> failed s'"
  shows "vprintf_loop (xs @ [0x25, 0]) [] s = None"
  using assms
proof (induction xs arbitrary: s)
  case Nil
  have "read_directive [0] [] = Some (\<lparr>dr_Flags = 0, dr_Width = 0, dr_PrecisionSet = False, dr_Precision = 0,
      dr_conv = 0\<rparr>, [], [])"
    by (simp add: read_directive_def read_precision_def)
  then show ?case using Nil by (simp add: convert_def)
next
  case (Cons c xs)
  then obtain s1 where s1: "StoreChar c s = Some s1" "emits xs s1 = Some s'"
    by (auto split: bind_splits)
  moreover have "\<not> failed s1" using s1(2) Cons.prems(5) by (cases "failed s1") auto
  ultimately show ?case using Cons by auto
qed

text \<open>
  C35: a percent sign at the end of a format string reads behind the string. The terminating zero is
  taken for an unknown conversion and skipped, so the loop goes on with the memory after it: whatever
  text came before, if it has been accepted, the call leaves defined behaviour.
\<close>

theorem trailing_percent_overreads:
  assumes "on_channel i r (snd w)" "length acBuffer = 64" "0 \<notin> set xs" "0x25 \<notin> set xs"
    and "length xs \<le> room r" "length xs < 2 ^ 31 - 64"
  shows "SEGGER_RTT_printf acBuffer i (xs @ [0x25, 0]) [] w = None"
proof -
  let ?p = "\<lparr>pd_Buffer = acBuffer, BufferSize = 64, Cnt = 0, ReturnValue = 0, RTTBufferIndex = i\<rparr>"
  have st: "staging i r [] 0 (?p, w)" using assms(1,2) by (simp add: staging_def)
  have "length xs div 64 \<le> room r div 64" using assms(5) by (rule div_le_mono)
  then obtain s r' where s: "emits xs (?p, w) = Some s" "staging i r' (drop (64 * (length xs div 64)) xs) (int (length xs)) s"
    using emits_outcome [OF st, of xs] assms(6) by (auto simp: outcome_def)
  then have "vprintf_loop (xs @ [0x25, 0]) [] (?p, w) = None"
    using literal_then_percent [OF assms(3,4), of "(?p, w)" s] by (simp add: staging_def)
  then show ?thesis by (simp add: SEGGER_RTT_printf_def SEGGER_RTT_vprintf_def)
qed

section \<open>Witnesses\<close>

text \<open>The firmware's channel right after initialisation.\<close>

lemma demo_channel: "on_channel 0 first_up (DoInit rtt_cb0)"
  using init_first_up first_up_ok by (simp add: on_channel_def ring_at_def first_up_def)

theorem printf_outcome_witness:
  "\<exists>w' r'. SEGGER_RTT_printf (replicate 64 0) 0 [0x25, 0x75, 0] [IntArg 42] ([], DoInit rtt_cb0) = Some (w', 4) \<and>
     held r' = map of_char ''42''"
proof -
  have "digits_text 10 0 42 = map of_char ''42''" by code_simp
  then have t: "format_text [0x25, 0x75, 0] [IntArg 42] = Some (map of_char ''42'')"
    using decimal_text [of 42] by simp
  show ?thesis
    using printf_outcome [of 0 first_up "([], DoInit rtt_cb0)" "replicate 64 0", OF _ _ t] demo_channel first_up_ok
    by (auto simp: printf_result_def printed_def)
qed

theorem number_roundtrip_witness:
  "\<exists>w' t. SEGGER_RTT_printf (replicate 64 0) 0 [0x25, 0x30, 0x38, 0x58, 0] [IntArg 0xBEEF]
      ([], DoInit rtt_cb0) = Some (w', 16) \<and> read_digits 16 t = 0xBEEF"
  using number_roundtrip [of 0 first_up "([], DoInit rtt_cb0)" "replicate 64 0" "0xBEEF"] demo_channel first_up_ok
  by auto

theorem trailing_percent_overreads_witness:
  "SEGGER_RTT_printf (replicate 64 0) 0 [0x31, 0x30, 0x30, 0x25, 0] [] ([], DoInit rtt_cb0) = None"
  using trailing_percent_overreads [of 0 first_up "([], DoInit rtt_cb0)" "replicate 64 0" "[0x31, 0x30, 0x30]"]
    demo_channel first_up_ok by simp

end
