(* ===== verification/Lwip_Mem.thy ===== *)
theory Lwip_Mem
  imports Prelude "HOL-Library.Monad_Syntax"
begin

text \<open>
  \<open>lib/LwIP/src/core/mem.c\<close>: the heap of the TCP/IP stack, a byte array in which every block starts
  with a header that links it to its neighbours. Pointers into the array are offsets; the headers
  are read and written as the bytes they are. An access to a header outside the array, or a search
  that does not end, is \<open>None\<close>. The build has no threads, no overflow checks and no statistics;
  a failed \<open>LWIP_ASSERT\<close> only prints.
\<close>

section \<open>The array and its headers\<close>

type_synonym mem_size_t = u16

abbreviation MEM_SIZE_ALIGNED :: u32 where "MEM_SIZE_ALIGNED \<equiv> 1600"
abbreviation SIZEOF_STRUCT_MEM :: u32 where "SIZEOF_STRUCT_MEM \<equiv> 8"
abbreviation MIN_SIZE_ALIGNED :: u32 where "MIN_SIZE_ALIGNED \<equiv> 12"

record mem =
  mem_next :: mem_size_t
  mem_prev :: mem_size_t
  mem_used :: u8

record heap =
  ram :: "nat \<Rightarrow> u8"
  lfree :: mem_size_t

text \<open>The last header of the array is at its end.\<close>

definition in_ram :: "mem_size_t \<Rightarrow> bool" where
  "in_ram p \<longleftrightarrow> unat p \<le> 1600"

abbreviation ram_end :: mem_size_t where "ram_end \<equiv> 1600"

definition get16 :: "(nat \<Rightarrow> u8) \<Rightarrow> nat \<Rightarrow> u16" where
  "get16 r a = be16 (r (a + 1)) (r a)"

definition put16 :: "nat \<Rightarrow> u16 \<Rightarrow> (nat \<Rightarrow> u8) \<Rightarrow> (nat \<Rightarrow> u8)" where
  "put16 a v r = r(a := lo8 v, a + 1 := hi8 v)"

definition header :: "(nat \<Rightarrow> u8) \<Rightarrow> nat \<Rightarrow> mem" where
  "header r a = \<lparr>mem_next = get16 r a, mem_prev = get16 r (a + 2), mem_used = r (a + 4)\<rparr>"

definition mem_at :: "mem_size_t \<Rightarrow> heap \<Rightarrow> mem option" where
  "mem_at p h = (if in_ram p then Some (header (ram h) (unat p)) else None)"

definition set_next :: "mem_size_t \<Rightarrow> mem_size_t \<Rightarrow> heap \<Rightarrow> heap option" where
  "set_next p v h = (if in_ram p then Some (h\<lparr>ram := put16 (unat p) v (ram h)\<rparr>) else None)"

definition set_prev :: "mem_size_t \<Rightarrow> mem_size_t \<Rightarrow> heap \<Rightarrow> heap option" where
  "set_prev p v h = (if in_ram p then Some (h\<lparr>ram := put16 (unat p + 2) v (ram h)\<rparr>) else None)"

definition set_used :: "mem_size_t \<Rightarrow> u8 \<Rightarrow> heap \<Rightarrow> heap option" where
  "set_used p v h = (if in_ram p then Some (h\<lparr>ram := (ram h)(unat p + 4 := v)\<rparr>) else None)"

definition LWIP_MEM_ALIGN_SIZE :: "mem_size_t \<Rightarrow> u32" where
  "LWIP_MEM_ALIGN_SIZE sz = (ucast sz + 4 - 1) AND NOT (4 - 1)"

definition mem_init :: "heap \<Rightarrow> heap option" where
  "mem_init h = do {
     h \<leftarrow> set_next 0 (ucast MEM_SIZE_ALIGNED) h;
     h \<leftarrow> set_prev 0 0 h;
     h \<leftarrow> set_used 0 0 h;
     h \<leftarrow> set_used ram_end 1 h;
     h \<leftarrow> set_next ram_end (ucast MEM_SIZE_ALIGNED) h;
     h \<leftarrow> set_prev ram_end (ucast MEM_SIZE_ALIGNED) h;
     Some (h\<lparr>lfree := 0\<rparr>)
   }"

section \<open>Freeing\<close>

text \<open>\<open>plug_holes\<close>: a hole is plugged forward, then backward.\<close>

definition plug_next :: "mem_size_t \<Rightarrow> heap \<Rightarrow> heap option" where
  "plug_next mem h = do {
     m \<leftarrow> mem_at mem h;
     n \<leftarrow> mem_at (mem_next m) h;
     if mem \<noteq> mem_next m \<and> mem_used n = 0 \<and> mem_next m \<noteq> ram_end
     then do {
       let h = (if lfree h = mem_next m then h\<lparr>lfree := mem\<rparr> else h);
       h \<leftarrow> set_next mem (mem_next n) h;
       if ucast (mem_next n) \<noteq> MEM_SIZE_ALIGNED then set_prev (mem_next n) mem h else Some h
     }
     else Some h
   }"

definition plug_prev :: "mem_size_t \<Rightarrow> heap \<Rightarrow> heap option" where
  "plug_prev mem h = do {
     m \<leftarrow> mem_at mem h;
     p \<leftarrow> mem_at (mem_prev m) h;
     if mem_prev m \<noteq> mem \<and> mem_used p = 0
     then do {
       let h = (if lfree h = mem then h\<lparr>lfree := mem_prev m\<rparr> else h);
       h \<leftarrow> set_next (mem_prev m) (mem_next m) h;
       if ucast (mem_next m) \<noteq> MEM_SIZE_ALIGNED then set_prev (mem_next m) (mem_prev m) h else Some h
     }
     else Some h
   }"

definition plug_holes :: "mem_size_t \<Rightarrow> heap \<Rightarrow> heap option" where
  "plug_holes mem h = do { h \<leftarrow> plug_next mem h; plug_prev mem h }"

definition mem_link_valid :: "mem_size_t \<Rightarrow> heap \<Rightarrow> bool option" where
  "mem_link_valid mem h = do {
     m \<leftarrow> mem_at mem h;
     if MEM_SIZE_ALIGNED < ucast (mem_next m) \<or> MEM_SIZE_ALIGNED < ucast (mem_prev m) then Some False
     else do {
       n \<leftarrow> mem_at (mem_next m) h;
       p \<leftarrow> mem_at (mem_prev m) h;
       Some (\<not> (mem_prev m \<noteq> mem \<and> mem_next p \<noteq> mem \<or> mem_next m \<noteq> ram_end \<and> mem_prev n \<noteq> mem))
     }
   }"

text \<open>A pointer to data: \<open>None\<close> is the null pointer, an offset may lie outside the array.\<close>

type_synonym data_ptr = "int option"

definition mem_free :: "data_ptr \<Rightarrow> heap \<Rightarrow> heap option" where
  "mem_free rmem h =
     (case rmem of
        None \<Rightarrow> Some h
      | Some d \<Rightarrow>
          if d mod 4 \<noteq> 0 then Some h
          else if d - 8 < 0 \<or> 1600 < d + 12 then Some h
          else (let mem = word_of_int (d - 8)
                in do {
                  m \<leftarrow> mem_at mem h;
                  if mem_used m = 0 then Some h
                  else do {
                    valid \<leftarrow> mem_link_valid mem h;
                    if \<not> valid then Some h
                    else do {
                      h \<leftarrow> set_used mem 0 h;
                      let h = (if mem < lfree h then h\<lparr>lfree := mem\<rparr> else h);
                      plug_holes mem h
                    }
                  }
                }))"

section \<open>Allocating\<close>

text \<open>The size of the data a block can hold, in the unsigned arithmetic of the comparison.\<close>

definition user_size :: "mem \<Rightarrow> mem_size_t \<Rightarrow> u32" where
  "user_size m ptr = ucast (mem_next m) - (ucast ptr + SIZEOF_STRUCT_MEM)"

text \<open>From the given block to the next free one, or the end.\<close>

partial_function (option) next_free :: "mem_size_t \<Rightarrow> heap \<Rightarrow> mem_size_t option" where
  [code]: "next_free cur h = do {
     c \<leftarrow> mem_at cur h;
     if mem_used c \<noteq> 0 \<and> cur \<noteq> ram_end then next_free (mem_next c) h else Some cur
   }"

text \<open>The search for a block: the offset of the first free one that is large enough.\<close>

partial_function (option) find_block :: "u32 \<Rightarrow> mem_size_t \<Rightarrow> heap \<Rightarrow> mem_size_t option option" where
  [code]: "find_block sz ptr h =
     (if ucast ptr < MEM_SIZE_ALIGNED - sz
      then do {
        m \<leftarrow> mem_at ptr h;
        if mem_used m = 0 \<and> sz \<le> user_size m ptr then Some (Some ptr)
        else find_block sz (mem_next m) h
      }
      else Some None)"

text \<open>Taking a block, splitting it if the rest can be a block of its own.\<close>

definition take_block :: "u32 \<Rightarrow> mem_size_t \<Rightarrow> heap \<Rightarrow> heap option" where
  "take_block sz ptr h = do {
     m \<leftarrow> mem_at ptr h;
     if sz + SIZEOF_STRUCT_MEM + MIN_SIZE_ALIGNED \<le> user_size m ptr
     then (let ptr2 = ucast (ucast ptr + SIZEOF_STRUCT_MEM + sz)
           in do {
             h \<leftarrow> set_used ptr2 0 h;
             h \<leftarrow> set_next ptr2 (mem_next m) h;
             h \<leftarrow> set_prev ptr2 ptr h;
             h \<leftarrow> set_next ptr ptr2 h;
             h \<leftarrow> set_used ptr 1 h;
             if ucast (mem_next m) \<noteq> MEM_SIZE_ALIGNED then set_prev (mem_next m) ptr2 h else Some h
           })
     else set_used ptr 1 h
   }"

definition mem_malloc :: "mem_size_t \<Rightarrow> heap \<Rightarrow> (heap \<times> data_ptr) option" where
  "mem_malloc size_in h =
     (if size_in = 0 then Some (h, None)
      else (let size = (ucast (LWIP_MEM_ALIGN_SIZE size_in) :: mem_size_t);
                size = (if ucast size < MIN_SIZE_ALIGNED then ucast MIN_SIZE_ALIGNED else size)
            in if MEM_SIZE_ALIGNED < ucast size \<or> size < size_in then Some (h, None)
               else do {
                 found \<leftarrow> find_block (ucast size) (lfree h) h;
                 case found of
                   None \<Rightarrow> Some (h, None)
                 | Some mem \<Rightarrow> do {
                     h \<leftarrow> take_block (ucast size) mem h;
                     h \<leftarrow> (if mem = lfree h
                           then do { cur \<leftarrow> next_free (lfree h) h; Some (h\<lparr>lfree := cur\<rparr>) }
                           else Some h);
                     Some (h, Some (uint mem + 8))
                   }
               }))"

definition mem_trim :: "data_ptr \<Rightarrow> mem_size_t \<Rightarrow> heap \<Rightarrow> (heap \<times> data_ptr) option" where
  "mem_trim rmem new_size h =
     (let newsize = (ucast (LWIP_MEM_ALIGN_SIZE new_size) :: mem_size_t);
          newsize = (if ucast newsize < MIN_SIZE_ALIGNED then ucast MIN_SIZE_ALIGNED else newsize)
      in if MEM_SIZE_ALIGNED < ucast newsize \<or> newsize < new_size then Some (h, None)
         else case rmem of
           None \<Rightarrow> Some (h, rmem)
         | Some d \<Rightarrow>
             if d < 0 \<or> 1600 \<le> d then Some (h, rmem)
             else if d < 8 then None
             else (let ptr = word_of_int (d - 8)
                   in do {
                     m \<leftarrow> mem_at ptr h;
                     let size = (ucast (ucast (mem_next m - ptr) - SIZEOF_STRUCT_MEM) :: mem_size_t);
                     if size < newsize then Some (h, None)
                     else if newsize = size then Some (h, rmem)
                     else do {
                       m2 \<leftarrow> mem_at (mem_next m) h;
                       let ptr2 = ucast (ucast ptr + SIZEOF_STRUCT_MEM + ucast newsize);
                       if mem_used m2 = 0
                       then do {
                         let h = (if lfree h = mem_next m then h\<lparr>lfree := ptr2\<rparr> else h);
                         h \<leftarrow> set_used ptr2 0 h;
                         h \<leftarrow> set_next ptr2 (mem_next m2) h;
                         h \<leftarrow> set_prev ptr2 ptr h;
                         h \<leftarrow> set_next ptr ptr2 h;
                         h \<leftarrow> (if ucast (mem_next m2) \<noteq> MEM_SIZE_ALIGNED
                               then set_prev (mem_next m2) ptr2 h else Some h);
                         Some (h, rmem)
                       }
                       else if ucast newsize + SIZEOF_STRUCT_MEM + MIN_SIZE_ALIGNED \<le> ucast size
                       then do {
                         let h = (if ptr2 < lfree h then h\<lparr>lfree := ptr2\<rparr> else h);
                         h \<leftarrow> set_used ptr2 0 h;
                         h \<leftarrow> set_next ptr2 (mem_next m) h;
                         h \<leftarrow> set_prev ptr2 ptr h;
                         h \<leftarrow> set_next ptr ptr2 h;
                         h \<leftarrow> (if ucast (mem_next m) \<noteq> MEM_SIZE_ALIGNED
                               then set_prev (mem_next m) ptr2 h else Some h);
                         Some (h, rmem)
                       }
                       else Some (h, rmem)
                     }
                   }))"

text \<open>The zeroes are written to the bytes from the data pointer on.\<close>

definition fill_zero :: "nat \<Rightarrow> nat \<Rightarrow> heap \<Rightarrow> heap" where
  "fill_zero a n h = h\<lparr>ram := (\<lambda>x. if a \<le> x \<and> x < a + n then 0 else ram h x)\<rparr>"

definition mem_calloc :: "mem_size_t \<Rightarrow> mem_size_t \<Rightarrow> heap \<Rightarrow> (heap \<times> data_ptr) option" where
  "mem_calloc count sz h =
     (let alloc_size = (ucast count * ucast sz :: u32)
      in if ucast (ucast alloc_size :: mem_size_t) \<noteq> alloc_size then Some (h, None)
         else do {
           (h, p) \<leftarrow> mem_malloc (ucast alloc_size) h;
           case p of
             None \<Rightarrow> Some (h, p)
           | Some d \<Rightarrow> Some (fill_zero (nat d) (unat alloc_size) h, p)
         })"

end
