(* ===== verification/Lwip_Memp.thy ===== *)
theory Lwip_Memp
  imports Lwip_Mem
begin

text \<open>
  \<open>lib/LwIP/src/core/memp.c\<close>: pools of elements of a fixed size, each with the list of its free
  elements, and the pointers that the modules above pass around. The build has no overflow checks
  and no statistics, and takes the pools from arrays of their own.
\<close>

section \<open>Pointers\<close>

text \<open>A pointer is an offset into an object: the array of the heap, an element of a pool, or an
  object of the caller. Only offsets into one object are compared.\<close>

datatype region = Heap | Element nat nat | Extern nat

type_synonym addr = "region \<times> int"

definition padd :: "addr \<Rightarrow> int \<Rightarrow> addr" where
  "padd a n = (fst a, snd a + n)"

lemma padd_simps [simp]: "padd a 0 = a" "padd (padd a i) j = padd a (i + j)" "padd a i = padd a j \<longleftrightarrow> i = j"
  by (simp_all add: padd_def)

lemma padd_sel [simp]: "snd (padd a i) = snd a + i" "fst (padd a i) = fst a"
  by (simp_all add: padd_def)

text \<open>\<open>LWIP_MEM_ALIGN\<close>; every object starts at a multiple of four.\<close>

definition mem_align :: "addr \<Rightarrow> addr" where
  "mem_align a = (fst a, (snd a + 3) div 4 * 4)"

section \<open>Pools\<close>

text \<open>The pools of this build, in the order of \<open>memp_std.h\<close>, with their numbers of elements: UDP and TCP
  control blocks, listening blocks, segments, reassembly, fragments, timeouts, and the two of the
  packet buffers.\<close>

abbreviation MEMP_PBUF :: nat where "MEMP_PBUF \<equiv> 7"
abbreviation MEMP_PBUF_POOL :: nat where "MEMP_PBUF_POOL \<equiv> 8"
abbreviation MEMP_MAX :: nat where "MEMP_MAX \<equiv> 9"

definition memp_pools :: "nat list" where
  "memp_pools = [4, 5, 8, 16, 5, 15, 3, 16, 16]"

text \<open>The lists of free elements, \<open>*desc->tab\<close>, by pool.\<close>

type_synonym pools = "addr list list"

definition memp_init_pool :: "nat \<Rightarrow> pools \<Rightarrow> pools" where
  "memp_init_pool t tabs =
     tabs[t := foldl (\<lambda>tab i. (Element t i, 0) # tab) [] [0 ..< memp_pools ! t]]"

definition memp_init :: "pools \<Rightarrow> pools" where
  "memp_init tabs = foldl (\<lambda>tabs t. memp_init_pool t tabs) tabs [0 ..< MEMP_MAX]"

definition do_memp_malloc_pool :: "nat \<Rightarrow> pools \<Rightarrow> addr option \<times> pools" where
  "do_memp_malloc_pool t tabs =
     (case tabs ! t of
        [] \<Rightarrow> (None, tabs)
      | memp # rest \<Rightarrow> (Some memp, tabs[t := rest]))"

text \<open>A descriptor is the number of its pool; \<open>None\<close> is the null pointer.\<close>

definition memp_malloc_pool :: "nat option \<Rightarrow> pools \<Rightarrow> addr option \<times> pools" where
  "memp_malloc_pool desc tabs =
     (case desc of None \<Rightarrow> (None, tabs) | Some t \<Rightarrow> do_memp_malloc_pool t tabs)"

definition memp_malloc :: "nat \<Rightarrow> pools \<Rightarrow> addr option \<times> pools" where
  "memp_malloc t tabs = (if \<not> t < MEMP_MAX then (None, tabs) else do_memp_malloc_pool t tabs)"

definition do_memp_free_pool :: "nat \<Rightarrow> addr \<Rightarrow> pools \<Rightarrow> pools" where
  "do_memp_free_pool t mem tabs = tabs[t := mem # tabs ! t]"

definition memp_free_pool :: "nat option \<Rightarrow> addr option \<Rightarrow> pools \<Rightarrow> pools" where
  "memp_free_pool desc mem tabs =
     (case (desc, mem) of (Some t, Some m) \<Rightarrow> do_memp_free_pool t m tabs | _ \<Rightarrow> tabs)"

definition memp_free :: "nat \<Rightarrow> addr option \<Rightarrow> pools \<Rightarrow> pools" where
  "memp_free t mem tabs =
     (if \<not> t < MEMP_MAX then tabs
      else case mem of None \<Rightarrow> tabs | Some m \<Rightarrow> do_memp_free_pool t m tabs)"

section \<open>Nothing is lost or handed out twice\<close>

definition elements :: "nat \<Rightarrow> addr set" where
  "elements t = (\<lambda>i. (Element t i, 0)) ` {..< memp_pools ! t}"

text \<open>A pool offers a set of elements: its list has exactly these, each once.\<close>

definition offers :: "pools \<Rightarrow> nat \<Rightarrow> addr set \<Rightarrow> bool" where
  "offers tabs t F \<longleftrightarrow> length tabs = MEMP_MAX \<and> t < MEMP_MAX \<and> distinct (tabs ! t) \<and> set (tabs ! t) = F"

text \<open>
  The interface. Taking an element gives one that is offered and withdraws it, or says that there is
  none; an element given back is offered again; no other pool is affected.
\<close>

locale element_pools =
  fixes offering :: "'p \<Rightarrow> nat \<Rightarrow> 'a set \<Rightarrow> bool"
    and get :: "nat \<Rightarrow> 'p \<Rightarrow> 'a option \<times> 'p"
    and put :: "nat \<Rightarrow> 'a option \<Rightarrow> 'p \<Rightarrow> 'p"
  assumes get_none: "offering ps t F \<Longrightarrow> get t ps = (None, ps') \<Longrightarrow> F = {} \<and> ps' = ps"
    and get_some: "offering ps t F \<Longrightarrow> get t ps = (Some a, ps') \<Longrightarrow> a \<in> F \<and> offering ps' t (F - {a})"
    and get_other: "offering ps u G \<Longrightarrow> u \<noteq> t \<Longrightarrow> offering (snd (get t ps)) u G"
    and put_same: "offering ps t F \<Longrightarrow> a \<notin> F \<Longrightarrow> offering (put t (Some a) ps) t (insert a F)"
    and put_other: "offering ps u G \<Longrightarrow> u \<noteq> t \<Longrightarrow> offering (put t (Some a) ps) u G"
begin

text \<open>All pools with what is in use, and a client that takes elements and gives back those it has.\<close>

definition conserved :: "(nat \<Rightarrow> 'a set) \<Rightarrow> nat set \<Rightarrow> 'p \<times> 'a set \<Rightarrow> bool" where
  "conserved all T s \<longleftrightarrow> (\<forall>t \<in> T. offering (fst s) t (all t - snd s))"

definition request :: "(nat \<Rightarrow> 'a set) \<Rightarrow> nat \<times> 'a option \<Rightarrow> 'p \<times> 'a set \<Rightarrow> 'p \<times> 'a set" where
  "request all r s =
     (case r of
        (t, None) \<Rightarrow> (case get t (fst s) of (None, ps) \<Rightarrow> (ps, snd s) | (Some a, ps) \<Rightarrow> (ps, insert a (snd s)))
      | (t, Some a) \<Rightarrow> if a \<in> all t \<inter> snd s then (put t (Some a) (fst s), snd s - {a}) else s)"

lemma request_conserved:
  assumes "conserved all T s" "fst r \<in> T" "\<And>t u. t \<in> T \<Longrightarrow> u \<in> T \<Longrightarrow> t \<noteq> u \<Longrightarrow> all t \<inter> all u = {}"
  shows "conserved all T (request all r s)"
proof -
  obtain t x where r: "r = (t, x)" "t \<in> T" using assms(2) by (cases r) auto
  note off = assms(1) [unfolded conserved_def, rule_format]
  show ?thesis
  proof (cases x)
    case None
    obtain y ps where g: "get t (fst s) = (y, ps)" by fastforce
    show ?thesis
    proof (cases y)
      case None
      then have "ps = fst s" using get_none [OF off [OF r(2)]] g by blast
      then show ?thesis using assms(1) \<open>x = None\<close> None g by (simp add: request_def r conserved_def)
    next
      case (Some a)
      from get_some [OF off [OF r(2)] g [unfolded Some]]
      have a: "a \<in> all t - snd s" "offering ps t (all t - snd s - {a})" by auto
      have "offering ps u (all u - insert a (snd s))" if u: "u \<in> T" for u
      proof (cases "u = t")
        case True
        then show ?thesis using a(2) by (metis Diff_insert)
      next
        case False
        then have "all u - insert a (snd s) = all u - snd s" using assms(3) [OF u r(2)] a(1) by blast
        then show ?thesis using get_other [OF off [OF u] False] g by simp
      qed
      then show ?thesis using \<open>x = None\<close> Some g by (simp add: request_def r conserved_def)
    qed
  next
    case (Some a)
    show ?thesis
    proof (cases "a \<in> all t \<inter> snd s")
      case True
      have "offering (put t (Some a) (fst s)) u (all u - (snd s - {a}))" if u: "u \<in> T" for u
      proof (cases "u = t")
        case True
        then have "all u - (snd s - {a}) = insert a (all t - snd s)" using \<open>a \<in> all t \<inter> snd s\<close> by blast
        then show ?thesis using put_same [OF off [OF r(2)], of a] True \<open>a \<in> all t \<inter> snd s\<close> by simp
      next
        case False
        then have "all u - (snd s - {a}) = all u - snd s" using assms(3) [OF u r(2)] True by blast
        then show ?thesis using put_other [OF off [OF u] False] by simp
      qed
      then show ?thesis using Some True by (simp add: request_def r conserved_def)
    qed (use assms(1) Some in \<open>auto simp: request_def r conserved_def\<close>)
  qed
qed

end

lemma elements_disjoint: "a \<in> elements t \<Longrightarrow> a \<in> elements u \<Longrightarrow> t = u"
  by (auto simp: elements_def)

lemma card_elements: "card (elements t) = memp_pools ! t"
  unfolding elements_def by (subst card_image) (auto simp: inj_on_def)

lemma init_pool_list: "foldl (\<lambda>tab i. (Element t i, 0) # tab) [] [0 ..< n] = rev (map (\<lambda>i. (Element t i, 0)) [0 ..< n])"
  by (induction n) simp_all

lemma memp_init_ok:
  assumes "length tabs = MEMP_MAX"
  shows "t < MEMP_MAX \<Longrightarrow> offers (memp_init tabs) t (elements t)"
proof -
  have init: "foldl (\<lambda>tabs t. memp_init_pool t tabs) tabs [0 ..< n] ! t =
      (if t < n then rev (map (\<lambda>i. (Element t i, 0)) [0 ..< memp_pools ! t]) else tabs ! t) \<and>
      length (foldl (\<lambda>tabs t. memp_init_pool t tabs) tabs [0 ..< n]) = MEMP_MAX"
    if "n \<le> MEMP_MAX" "t < MEMP_MAX" for n t
    using that by (induction n) (auto simp: assms memp_init_pool_def init_pool_list nth_list_update)
  have "distinct (memp_init tabs ! t) \<and> set (memp_init tabs ! t) = elements t" if "t < MEMP_MAX" for t
    using init [of MEMP_MAX t] that
    by (auto simp: memp_init_def elements_def distinct_map inj_on_def)
  moreover have "length (memp_init tabs) = MEMP_MAX" using init [of MEMP_MAX 0] by (simp add: memp_init_def)
  ultimately show "t < MEMP_MAX \<Longrightarrow> offers (memp_init tabs) t (elements t)" by (simp add: offers_def)
qed

text \<open>The pools of \<open>memp.c\<close> provide the interface.\<close>

lemma offers_get:
  assumes "offers tabs t F" "memp_malloc t tabs = (m, tabs')"
  shows "case m of None \<Rightarrow> F = {} \<and> tabs' = tabs | Some a \<Rightarrow> a \<in> F \<and> offers tabs' t (F - {a})"
proof (cases "tabs ! t")
  case Nil
  then show ?thesis using assms by (simp add: offers_def memp_malloc_def do_memp_malloc_pool_def)
next
  case (Cons a rest)
  then have "m = Some a" "tabs' = tabs[t := rest]"
    using assms by (simp_all add: offers_def memp_malloc_def do_memp_malloc_pool_def)
  then show ?thesis using assms(1) Cons by (auto simp: offers_def)
qed

interpretation memp: element_pools offers memp_malloc memp_free
proof unfold_locales
  fix ps ps' t F a
  show "offers ps t F \<Longrightarrow> memp_malloc t ps = (None, ps') \<Longrightarrow> F = {} \<and> ps' = ps"
    using offers_get [of ps t F None ps'] by simp
  show "offers ps t F \<Longrightarrow> memp_malloc t ps = (Some a, ps') \<Longrightarrow> a \<in> F \<and> offers ps' t (F - {a})"
    using offers_get [of ps t F "Some a" ps'] by simp
  show "offers ps t F \<Longrightarrow> a \<notin> F \<Longrightarrow> offers (memp_free t (Some a) ps) t (insert a F)"
    by (simp add: offers_def memp_free_def do_memp_free_pool_def)
next
  fix ps u G t a
  show "offers ps u G \<Longrightarrow> u \<noteq> t \<Longrightarrow> offers (snd (memp_malloc t ps)) u G"
    by (auto simp: offers_def memp_malloc_def do_memp_malloc_pool_def split: list.splits)
  show "offers ps u G \<Longrightarrow> u \<noteq> t \<Longrightarrow> offers (memp_free t (Some a) ps) u G"
    by (simp add: offers_def memp_free_def do_memp_free_pool_def)
qed

text \<open>Whatever is taken and given back, in any order: nothing is lost or handed out twice.\<close>

lemma memp_conserved:
  assumes "length tabs = MEMP_MAX" "\<forall>r \<in> set rs. fst r < MEMP_MAX"
  shows "memp.conserved elements {..< MEMP_MAX} (fold (memp.request elements) rs (memp_init tabs, {}))"
proof -
  have "memp.conserved elements {..< MEMP_MAX} (fold (memp.request elements) rs s)"
    if "memp.conserved elements {..< MEMP_MAX} s" for s
    using that assms(2)
  proof (induction rs arbitrary: s)
    case (Cons r rs)
    have "elements t \<inter> elements u = {}" if "t \<noteq> u" for t u using that elements_disjoint by blast
    then have "memp.conserved elements {..< MEMP_MAX} (memp.request elements r s)"
      using Cons.prems by (intro memp.request_conserved) simp_all
    then show ?case using Cons by simp
  qed simp
  moreover have "memp.conserved elements {..< MEMP_MAX} (memp_init tabs, {})"
    using memp_init_ok [OF assms(1)] by (simp add: memp.conserved_def)
  ultimately show ?thesis by blast
qed

end
