(* ===== verification/Lwip_Pbuf.thy ===== *)
theory Lwip_Pbuf
  imports Lwip_Memp
begin

text \<open>
  \<open>lib/LwIP/src/core/pbuf.c\<close>: packet buffers, their chains, and the copying between chains and
  plain memory. The headers of the buffers are a store of their own, indexed by their address; the
  bytes of packets and of plain memory are one array over all objects; blocks of the heap and
  elements of the pools come from the models of \<open>mem.c\<close> and \<open>memp.c\<close>. Access to the header of a
  buffer that does not exist, arithmetic on the null pointer, or a loop that does not end is \<open>None\<close>;
  a failed \<open>LWIP_ASSERT\<close> only prints.
\<close>

section \<open>Types and state\<close>

type_synonym err_t = int

abbreviation ERR_OK :: err_t where "ERR_OK \<equiv> 0"
abbreviation ERR_MEM :: err_t where "ERR_MEM \<equiv> - 1"
abbreviation ERR_VAL :: err_t where "ERR_VAL \<equiv> - 6"
abbreviation ERR_ARG :: err_t where "ERR_ARG \<equiv> - 16"

definition PBUF_TRANSPORT :: u16 where "PBUF_TRANSPORT = 54"
definition PBUF_IP :: u16 where "PBUF_IP = 34"
definition PBUF_LINK :: u16 where "PBUF_LINK = 14"
definition PBUF_RAW :: u16 where "PBUF_RAW = 0"

definition PBUF_RAM :: u16 where "PBUF_RAM = 0x0200 OR 0x80 OR 0x00"
definition PBUF_ROM :: u16 where "PBUF_ROM = 0x01"
definition PBUF_REF :: u16 where "PBUF_REF = 0x40 OR 0x01"
definition PBUF_POOL :: u16 where "PBUF_POOL = 0x0100 OR 0x80 OR 0x02"

abbreviation PBUF_TYPE_FLAG_STRUCT_DATA_CONTIGUOUS :: u8 where "PBUF_TYPE_FLAG_STRUCT_DATA_CONTIGUOUS \<equiv> 0x80"
abbreviation PBUF_FLAG_IS_CUSTOM :: u8 where "PBUF_FLAG_IS_CUSTOM \<equiv> 0x02"
abbreviation SIZEOF_STRUCT_PBUF :: u32 where "SIZEOF_STRUCT_PBUF \<equiv> 16"
abbreviation PBUF_POOL_BUFSIZE_ALIGNED :: u32 where "PBUF_POOL_BUFSIZE_ALIGNED \<equiv> 592"

record pbuf =
  pb_next :: "addr option"
  pb_payload :: "addr option"
  pb_tot_len :: u16
  pb_len :: u16
  pb_type_internal :: u8
  pb_flags :: u8
  pb_ref :: u8
  pb_if_idx :: u8

record pbufs =
  pb_at :: "addr \<Rightarrow> pbuf option"
  bytes :: "addr \<Rightarrow> u8"
  mem_heap :: heap
  pools :: pools
  pbuf_free_ooseq_pending :: u8
  custom_freed :: "addr list"

definition deref :: "addr option \<Rightarrow> pbufs \<Rightarrow> pbuf option" where
  "deref p st = (case p of None \<Rightarrow> None | Some a \<Rightarrow> pb_at st a)"

definition set_pb :: "addr \<Rightarrow> pbuf \<Rightarrow> pbufs \<Rightarrow> pbufs" where
  "set_pb a b st = st\<lparr>pb_at := (pb_at st)(a := Some b)\<rparr>"

definition memcpy :: "addr option \<Rightarrow> addr option \<Rightarrow> nat \<Rightarrow> pbufs \<Rightarrow> pbufs option" where
  "memcpy dst src n st =
     (if n = 0 then Some st
      else do {
        (r, d) \<leftarrow> dst;
        s \<leftarrow> src;
        Some (st\<lparr>bytes := (\<lambda>(x, i). if x = r \<and> d \<le> i \<and> i < d + int n then bytes st (padd s (i - d))
                            else bytes st (x, i))\<rparr>)
      })"

definition pbuf_get_allocsrc :: "pbuf \<Rightarrow> u8" where
  "pbuf_get_allocsrc b = pb_type_internal b AND 0x0F"

text \<open>Nothing of this module but a flag for the out-of-sequence queues of TCP.\<close>

definition pbuf_pool_is_empty :: "pbufs \<Rightarrow> pbufs" where
  "pbuf_pool_is_empty st = st\<lparr>pbuf_free_ooseq_pending := 1\<rparr>"

definition pbuf_init_alloced_pbuf :: "addr \<Rightarrow> addr option \<Rightarrow> u16 \<Rightarrow> u16 \<Rightarrow> u16 \<Rightarrow> u8 \<Rightarrow> pbufs \<Rightarrow> pbufs" where
  "pbuf_init_alloced_pbuf p payload tot_len len type flags =
     set_pb p \<lparr>pb_next = None, pb_payload = payload, pb_tot_len = tot_len, pb_len = len,
       pb_type_internal = ucast type, pb_flags = flags, pb_ref = 1, pb_if_idx = 0\<rparr>"

section \<open>Freeing\<close>

text \<open>\<open>mem_free\<close> rejects what is not in its array.\<close>

definition free_heap :: "addr \<Rightarrow> pbufs \<Rightarrow> pbufs option" where
  "free_heap p st =
     (if fst p = Heap then do { h \<leftarrow> mem_free (Some (snd p)) (mem_heap st); Some (st\<lparr>mem_heap := h\<rparr>) }
      else Some st)"

definition dealloc :: "addr \<Rightarrow> pbuf \<Rightarrow> pbufs \<Rightarrow> pbufs option" where
  "dealloc p b st =
     (let st = st\<lparr>pb_at := (pb_at st)(p := None)\<rparr>
      in if pb_flags b AND PBUF_FLAG_IS_CUSTOM \<noteq> 0 then Some (st\<lparr>custom_freed := custom_freed st @ [p]\<rparr>)
         else if pbuf_get_allocsrc b = 0x02 then Some (st\<lparr>pools := memp_free MEMP_PBUF_POOL (Some p) (pools st)\<rparr>)
         else if pbuf_get_allocsrc b = 0x01 then Some (st\<lparr>pools := memp_free MEMP_PBUF (Some p) (pools st)\<rparr>)
         else if pbuf_get_allocsrc b = 0x00 then free_heap p st
         else Some st)"

partial_function (option) free_loop :: "addr option \<Rightarrow> u8 \<Rightarrow> pbufs \<Rightarrow> (u8 \<times> pbufs) option" where
  [code]: "free_loop p count st =
     (case p of
        None \<Rightarrow> Some (count, st)
      | Some a \<Rightarrow> do {
          b \<leftarrow> pb_at st a;
          let ref = pb_ref b - 1;
          let b = b\<lparr>pb_ref := ref\<rparr>;
          let st = set_pb a b st;
          if ref = 0 then do {
            st \<leftarrow> dealloc a b st;
            free_loop (pb_next b) (count + 1) st
          }
          else Some (count, st)
        })"

definition pbuf_free :: "addr option \<Rightarrow> pbufs \<Rightarrow> (u8 \<times> pbufs) option" where
  "pbuf_free p st = (if p = None then Some (0, st) else free_loop p 0 st)"

section \<open>Allocating\<close>

definition pbuf_alloc_reference :: "addr option \<Rightarrow> u16 \<Rightarrow> u16 \<Rightarrow> pbufs \<Rightarrow> addr option \<times> pbufs" where
  "pbuf_alloc_reference payload len type st =
     (let (p, ps) = memp_malloc MEMP_PBUF (pools st); st = st\<lparr>pools := ps\<rparr>
      in case p of
           None \<Rightarrow> (None, st)
         | Some a \<Rightarrow> (Some a, pbuf_init_alloced_pbuf a payload len len type 0 st))"

text \<open>The chain built so far: its first buffer, if any, and its last.\<close>

partial_function (option) pool_loop ::
    "u16 \<Rightarrow> u16 \<Rightarrow> (addr \<times> addr) option \<Rightarrow> pbufs \<Rightarrow> (addr option \<times> pbufs) option" where
  [code]: "pool_loop offset rem_len chain st =
     (let (m, ps) = memp_malloc MEMP_PBUF_POOL (pools st); st = st\<lparr>pools := ps\<rparr>
      in case m of
           None \<Rightarrow> do {
             let st = pbuf_pool_is_empty st;
             st \<leftarrow> (case chain of None \<Rightarrow> Some st | Some (p, _) \<Rightarrow> map_option snd (pbuf_free (Some p) st));
             Some (None, st)
           }
         | Some q \<Rightarrow> do {
             let qlen = min rem_len (ucast (PBUF_POOL_BUFSIZE_ALIGNED - LWIP_MEM_ALIGN_SIZE offset));
             let payload = mem_align (padd q (uint SIZEOF_STRUCT_PBUF + uint offset));
             let st = pbuf_init_alloced_pbuf q (Some payload) rem_len qlen PBUF_POOL 0 st;
             (p, st) \<leftarrow> (case chain of
                 None \<Rightarrow> Some (q, st)
               | Some (p, l) \<Rightarrow> do { b \<leftarrow> pb_at st l; Some (p, set_pb l (b\<lparr>pb_next := Some q\<rparr>) st) });
             let rem_len = rem_len - qlen;
             if 0 < rem_len then pool_loop 0 rem_len (Some (p, q)) st else Some (Some p, st)
           })"

definition alloc_ram :: "u16 \<Rightarrow> u16 \<Rightarrow> pbufs \<Rightarrow> (addr option \<times> pbufs) option" where
  "alloc_ram offset len st =
     (let payload_len = (ucast (LWIP_MEM_ALIGN_SIZE offset + LWIP_MEM_ALIGN_SIZE len) :: u16);
          alloc_len = (ucast (LWIP_MEM_ALIGN_SIZE (ucast SIZEOF_STRUCT_PBUF) + ucast payload_len) :: u16)
      in if ucast payload_len < LWIP_MEM_ALIGN_SIZE len \<or> ucast alloc_len < LWIP_MEM_ALIGN_SIZE len
         then Some (None, st)
         else do {
           (h, d) \<leftarrow> mem_malloc alloc_len (mem_heap st);
           let st = st\<lparr>mem_heap := h\<rparr>;
           case d of
             None \<Rightarrow> Some (None, st)
           | Some d \<Rightarrow>
               let p = (Heap, d); payload = mem_align (padd p (uint SIZEOF_STRUCT_PBUF + uint offset))
               in Some (Some p, pbuf_init_alloced_pbuf p (Some payload) len len PBUF_RAM 0 st)
         })"

definition pbuf_alloc :: "u16 \<Rightarrow> u16 \<Rightarrow> u16 \<Rightarrow> pbufs \<Rightarrow> (addr option \<times> pbufs) option" where
  "pbuf_alloc layer len type st =
     (let offset = layer
      in if type = PBUF_REF \<or> type = PBUF_ROM then Some (pbuf_alloc_reference None len type st)
         else if type = PBUF_POOL then pool_loop offset len None st
         else if type = PBUF_RAM then alloc_ram offset len st
         else Some (None, st))"

definition pbuf_alloced_custom ::
    "u16 \<Rightarrow> u16 \<Rightarrow> u16 \<Rightarrow> addr \<Rightarrow> addr option \<Rightarrow> u16 \<Rightarrow> pbufs \<Rightarrow> addr option \<times> pbufs" where
  "pbuf_alloced_custom l len type p payload_mem payload_mem_len st =
     (let offset = l
      in if ucast payload_mem_len < LWIP_MEM_ALIGN_SIZE offset + ucast len then (None, st)
         else (let payload = map_option (\<lambda>m. padd m (uint (LWIP_MEM_ALIGN_SIZE offset))) payload_mem
               in (Some p, pbuf_init_alloced_pbuf p payload len len type PBUF_FLAG_IS_CUSTOM st)))"

section \<open>Shrinking\<close>

partial_function (option) shrink_loop :: "u16 \<Rightarrow> u16 \<Rightarrow> addr option \<Rightarrow> pbufs \<Rightarrow> (u16 \<times> addr option \<times> pbufs) option" where
  [code]: "shrink_loop shrink rem_len q st = do {
     a \<leftarrow> q;
     b \<leftarrow> pb_at st a;
     if pb_len b < rem_len
     then shrink_loop shrink (rem_len - pb_len b) (pb_next b)
            (set_pb a (b\<lparr>pb_tot_len := pb_tot_len b - shrink\<rparr>) st)
     else Some (rem_len, q, st)
   }"

text \<open>Trimming the block of a buffer, of which the header and the first bytes stay.\<close>

definition trim_block :: "addr \<Rightarrow> pbuf \<Rightarrow> u16 \<Rightarrow> pbufs \<Rightarrow> (addr option \<times> pbufs) option" where
  "trim_block q b rem_len st = do {
     payload \<leftarrow> pb_payload b;
     if fst payload \<noteq> fst q then None
     else if fst q = Heap then do {
       (h, d) \<leftarrow> mem_trim (Some (snd q)) (word_of_int (snd payload - snd q + uint rem_len)) (mem_heap st);
       Some (map_option (Pair Heap) d, st\<lparr>mem_heap := h\<rparr>)
     }
     else Some (Some q, st)
   }"

definition pbuf_realloc :: "addr option \<Rightarrow> u16 \<Rightarrow> pbufs \<Rightarrow> pbufs option" where
  "pbuf_realloc p new_len st = do {
     b \<leftarrow> deref p st;
     if pb_tot_len b \<le> new_len then Some st
     else do {
       let shrink = pb_tot_len b - new_len;
       (rem_len, q, st) \<leftarrow> shrink_loop shrink new_len p st;
       a \<leftarrow> q;
       b \<leftarrow> pb_at st a;
       (q, st) \<leftarrow> (if pbuf_get_allocsrc b = 0x00 \<and> rem_len \<noteq> pb_len b \<and> pb_flags b AND PBUF_FLAG_IS_CUSTOM = 0
                  then trim_block a b rem_len st else Some (q, st));
       a \<leftarrow> q;
       b \<leftarrow> pb_at st a;
       let st = set_pb a (b\<lparr>pb_len := rem_len, pb_tot_len := rem_len\<rparr>) st;
       st \<leftarrow> (if pb_next b \<noteq> None then map_option snd (pbuf_free (pb_next b) st) else Some st);
       b \<leftarrow> pb_at st a;
       Some (set_pb a (b\<lparr>pb_next := None\<rparr>) st)
     }
   }"

section \<open>Room for headers\<close>

definition pbuf_add_header_impl :: "addr option \<Rightarrow> u32 \<Rightarrow> bool \<Rightarrow> pbufs \<Rightarrow> (u8 \<times> pbufs) option" where
  "pbuf_add_header_impl p header_size_increment force st =
     (if p = None \<or> 0xFFFF < header_size_increment then Some (1, st)
      else if header_size_increment = 0 then Some (0, st)
      else do {
        a \<leftarrow> p;
        b \<leftarrow> pb_at st a;
        let increment_magnitude = (ucast header_size_increment :: u16);
        if increment_magnitude + pb_tot_len b < increment_magnitude then Some (1, st)
        else do {
          let grown = (\<lambda>payload. set_pb a (b\<lparr>pb_payload := Some payload, pb_len := pb_len b + increment_magnitude,
                         pb_tot_len := pb_tot_len b + increment_magnitude\<rparr>) st);
          if pb_type_internal b AND PBUF_TYPE_FLAG_STRUCT_DATA_CONTIGUOUS \<noteq> 0
          then do {
            payload \<leftarrow> pb_payload b;
            let payload = padd payload (- uint header_size_increment);
            if fst payload \<noteq> fst a then None
            else if snd payload < snd a + uint SIZEOF_STRUCT_PBUF then Some (1, st)
            else Some (0, grown payload)
          }
          else if force then do {
            payload \<leftarrow> pb_payload b;
            Some (0, grown (padd payload (- uint header_size_increment)))
          }
          else Some (1, st)
        }
      })"

definition pbuf_add_header :: "addr option \<Rightarrow> u32 \<Rightarrow> pbufs \<Rightarrow> (u8 \<times> pbufs) option" where
  "pbuf_add_header p header_size_increment = pbuf_add_header_impl p header_size_increment False"

definition pbuf_add_header_force :: "addr option \<Rightarrow> u32 \<Rightarrow> pbufs \<Rightarrow> (u8 \<times> pbufs) option" where
  "pbuf_add_header_force p header_size_increment = pbuf_add_header_impl p header_size_increment True"

definition pbuf_remove_header :: "addr option \<Rightarrow> u32 \<Rightarrow> pbufs \<Rightarrow> (u8 \<times> pbufs) option" where
  "pbuf_remove_header p header_size_decrement st =
     (if p = None \<or> 0xFFFF < header_size_decrement then Some (1, st)
      else if header_size_decrement = 0 then Some (0, st)
      else do {
        a \<leftarrow> p;
        b \<leftarrow> pb_at st a;
        let increment_magnitude = (ucast header_size_decrement :: u16);
        if \<not> increment_magnitude \<le> pb_len b then Some (1, st)
        else do {
          payload \<leftarrow> pb_payload b;
          Some (0, set_pb a (b\<lparr>pb_payload := Some (padd payload (uint header_size_decrement)),
            pb_len := pb_len b - increment_magnitude, pb_tot_len := pb_tot_len b - increment_magnitude\<rparr>) st)
        }
      })"

definition pbuf_header_impl :: "addr option \<Rightarrow> 16 word \<Rightarrow> bool \<Rightarrow> pbufs \<Rightarrow> (u8 \<times> pbufs) option" where
  "pbuf_header_impl p header_size_increment force st =
     (if header_size_increment <s 0 then pbuf_remove_header p (word_of_int (- sint header_size_increment)) st
      else pbuf_add_header_impl p (word_of_int (sint header_size_increment)) force st)"

definition pbuf_header :: "addr option \<Rightarrow> 16 word \<Rightarrow> pbufs \<Rightarrow> (u8 \<times> pbufs) option" where
  "pbuf_header p header_size_increment = pbuf_header_impl p header_size_increment False"

definition pbuf_header_force :: "addr option \<Rightarrow> 16 word \<Rightarrow> pbufs \<Rightarrow> (u8 \<times> pbufs) option" where
  "pbuf_header_force p header_size_increment = pbuf_header_impl p header_size_increment True"

partial_function (option) pbuf_free_header :: "addr option \<Rightarrow> u16 \<Rightarrow> pbufs \<Rightarrow> (addr option \<times> pbufs) option" where
  [code]: "pbuf_free_header p free_left st =
     (if free_left \<noteq> 0 \<and> p \<noteq> None
      then do {
        a \<leftarrow> p;
        b \<leftarrow> pb_at st a;
        if pb_len b \<le> free_left
        then do {
          (_, st) \<leftarrow> pbuf_free p (set_pb a (b\<lparr>pb_next := None\<rparr>) st);
          pbuf_free_header (pb_next b) (free_left - pb_len b) st
        }
        else do {
          (_, st) \<leftarrow> pbuf_remove_header p (ucast free_left) st;
          pbuf_free_header p 0 st
        }
      }
      else Some (p, st))"

section \<open>Chains\<close>

partial_function (option) clen_loop :: "addr option \<Rightarrow> u16 \<Rightarrow> pbufs \<Rightarrow> u16 option" where
  [code]: "clen_loop p len st =
     (case p of
        None \<Rightarrow> Some len
      | Some a \<Rightarrow> do { b \<leftarrow> pb_at st a; clen_loop (pb_next b) (len + 1) st })"

definition pbuf_clen :: "addr option \<Rightarrow> pbufs \<Rightarrow> u16 option" where
  "pbuf_clen p st = clen_loop p 0 st"

definition pbuf_ref :: "addr option \<Rightarrow> pbufs \<Rightarrow> pbufs option" where
  "pbuf_ref p st =
     (case p of
        None \<Rightarrow> Some st
      | Some a \<Rightarrow> do { b \<leftarrow> pb_at st a; Some (set_pb a (b\<lparr>pb_ref := pb_ref b + 1\<rparr>) st) })"

partial_function (option) cat_loop :: "addr \<Rightarrow> addr \<Rightarrow> pbufs \<Rightarrow> pbufs option" where
  [code]: "cat_loop p t st = do {
     b \<leftarrow> pb_at st p;
     tb \<leftarrow> pb_at st t;
     let b = b\<lparr>pb_tot_len := pb_tot_len b + pb_tot_len tb\<rparr>;
     case pb_next b of
       Some n \<Rightarrow> cat_loop n t (set_pb p b st)
     | None \<Rightarrow> Some (set_pb p (b\<lparr>pb_next := Some t\<rparr>) st)
   }"

definition pbuf_cat :: "addr option \<Rightarrow> addr option \<Rightarrow> pbufs \<Rightarrow> pbufs option" where
  "pbuf_cat h t st =
     (case (h, t) of (Some h, Some t) \<Rightarrow> cat_loop h t st | _ \<Rightarrow> Some st)"

definition pbuf_chain :: "addr option \<Rightarrow> addr option \<Rightarrow> pbufs \<Rightarrow> pbufs option" where
  "pbuf_chain h t st = do { st \<leftarrow> pbuf_cat h t st; pbuf_ref t st }"

definition pbuf_dechain :: "addr option \<Rightarrow> pbufs \<Rightarrow> (addr option \<times> pbufs) option" where
  "pbuf_dechain p st = do {
     a \<leftarrow> p;
     b \<leftarrow> pb_at st a;
     let q = pb_next b;
     (tail_gone, st) \<leftarrow> (case q of
         None \<Rightarrow> Some (1, st)
       | Some c \<Rightarrow> do {
           qb \<leftarrow> pb_at st c;
           let st = set_pb c (qb\<lparr>pb_tot_len := pb_tot_len b - pb_len b\<rparr>) st;
           b \<leftarrow> pb_at st a;
           let st = set_pb a (b\<lparr>pb_next := None, pb_tot_len := pb_len b\<rparr>) st;
           pbuf_free q st
         });
     Some (if 0 < tail_gone then None else q, st)
   }"

section \<open>Copying\<close>

text \<open>The loop of \<open>pbuf_copy\<close>. Offsets are of type \<open>size_t\<close> and never exceed the lengths.\<close>

partial_function (option) copy_loop ::
    "addr option \<Rightarrow> addr option \<Rightarrow> nat \<Rightarrow> nat \<Rightarrow> pbufs \<Rightarrow> (err_t \<times> pbufs) option" where
  [code]: "copy_loop p_to p_from offset_to offset_from st = do {
     t \<leftarrow> deref p_to st;
     f \<leftarrow> deref p_from st;
     let len = (if unat (pb_len f) - offset_from \<le> unat (pb_len t) - offset_to
                then unat (pb_len f) - offset_from else unat (pb_len t) - offset_to);
     st \<leftarrow> memcpy (map_option (\<lambda>a. padd a (int offset_to)) (pb_payload t))
             (map_option (\<lambda>a. padd a (int offset_from)) (pb_payload f)) len st;
     let offset_to = offset_to + len;
     let offset_from = offset_from + len;
     let (offset_from, p_from) = (if unat (pb_len f) \<le> offset_from then (0, pb_next f) else (offset_from, p_from));
     let (offset_to, p_to, short) = (if offset_to = unat (pb_len t)
         then (0, pb_next t, \<not> (pb_next t \<noteq> None \<or> p_from = None)) else (offset_to, p_to, False));
     if short then Some (ERR_ARG, st)
     else do {
       queue_from \<leftarrow> (if p_from \<noteq> None
           then do { f \<leftarrow> deref p_from st; Some (pb_len f = pb_tot_len f \<and> pb_next f \<noteq> None) } else Some False);
       if queue_from then Some (ERR_VAL, st)
       else do {
         queue_to \<leftarrow> (if p_to \<noteq> None
             then do { t \<leftarrow> deref p_to st; Some (pb_len t = pb_tot_len t \<and> pb_next t \<noteq> None) } else Some False);
         if queue_to then Some (ERR_VAL, st)
         else if p_from \<noteq> None then copy_loop p_to p_from offset_to offset_from st
         else Some (ERR_OK, st)
       }
     }
   }"

definition pbuf_copy :: "addr option \<Rightarrow> addr option \<Rightarrow> pbufs \<Rightarrow> (err_t \<times> pbufs) option" where
  "pbuf_copy p_to p_from st =
     (if p_to = None \<or> p_from = None then Some (ERR_ARG, st)
      else do {
        t \<leftarrow> deref p_to st;
        f \<leftarrow> deref p_from st;
        if \<not> pb_tot_len f \<le> pb_tot_len t then Some (ERR_ARG, st)
        else copy_loop p_to p_from 0 0 st
      })"

partial_function (option) copy_partial_loop ::
    "addr option \<Rightarrow> addr \<Rightarrow> u16 \<Rightarrow> u16 \<Rightarrow> u16 \<Rightarrow> u16 \<Rightarrow> pbufs \<Rightarrow> (u16 \<times> pbufs) option" where
  [code]: "copy_partial_loop p dataptr left len offset copied_total st =
     (if len \<noteq> 0 \<and> p \<noteq> None
      then do {
        b \<leftarrow> deref p st;
        if offset \<noteq> 0 \<and> pb_len b \<le> offset
        then copy_partial_loop (pb_next b) dataptr left len (offset - pb_len b) copied_total st
        else do {
          let buf_copy_len = pb_len b - offset;
          let buf_copy_len = (if len < buf_copy_len then len else buf_copy_len);
          st \<leftarrow> memcpy (Some (padd dataptr (uint left)))
                  (map_option (\<lambda>a. padd a (uint offset)) (pb_payload b)) (unat buf_copy_len) st;
          copy_partial_loop (pb_next b) dataptr (left + buf_copy_len) (len - buf_copy_len) 0
            (copied_total + buf_copy_len) st
        }
      }
      else Some (copied_total, st))"

definition pbuf_copy_partial :: "addr option \<Rightarrow> addr option \<Rightarrow> u16 \<Rightarrow> u16 \<Rightarrow> pbufs \<Rightarrow> (u16 \<times> pbufs) option" where
  "pbuf_copy_partial buf dataptr len offset st =
     (case (buf, dataptr) of
        (Some _, Some d) \<Rightarrow> copy_partial_loop buf d 0 len offset 0 st
      | _ \<Rightarrow> Some (0, st))"

partial_function (option) pbuf_skip_const :: "addr option \<Rightarrow> u16 \<Rightarrow> pbufs \<Rightarrow> (addr option \<times> u16) option" where
  [code]: "pbuf_skip_const q offset_left st =
     (case q of
        None \<Rightarrow> Some (None, offset_left)
      | Some a \<Rightarrow> do {
          b \<leftarrow> pb_at st a;
          if pb_len b \<le> offset_left then pbuf_skip_const (pb_next b) (offset_left - pb_len b) st
          else Some (q, offset_left)
        })"

definition pbuf_skip :: "addr option \<Rightarrow> u16 \<Rightarrow> pbufs \<Rightarrow> (addr option \<times> u16) option" where
  "pbuf_skip p in_offset st = pbuf_skip_const p in_offset st"

definition pbuf_get_contiguous ::
    "addr option \<Rightarrow> addr option \<Rightarrow> u32 \<Rightarrow> u16 \<Rightarrow> u16 \<Rightarrow> pbufs \<Rightarrow> (addr option \<times> pbufs) option" where
  "pbuf_get_contiguous p buffer bufsize len offset st =
     (if p = None \<or> buffer = None \<or> \<not> ucast len \<le> bufsize then Some (None, st)
      else do {
        (q, out_offset) \<leftarrow> pbuf_skip_const p offset st;
        case q of
          None \<Rightarrow> Some (None, st)
        | Some a \<Rightarrow> do {
            b \<leftarrow> pb_at st a;
            if unat out_offset + unat len \<le> unat (pb_len b)
            then do { payload \<leftarrow> pb_payload b; Some (Some (padd payload (uint out_offset)), st) }
            else do {
              (n, st) \<leftarrow> pbuf_copy_partial q buffer len out_offset st;
              Some (if n \<noteq> len then None else buffer, st)
            }
          }
      })"

partial_function (option) take_loop :: "addr option \<Rightarrow> addr \<Rightarrow> nat \<Rightarrow> nat \<Rightarrow> pbufs \<Rightarrow> pbufs option" where
  [code]: "take_loop p dataptr total_copy_len copied_total st =
     (if total_copy_len \<noteq> 0
      then do {
        b \<leftarrow> deref p st;
        let buf_copy_len = (if unat (pb_len b) < total_copy_len then unat (pb_len b) else total_copy_len);
        st \<leftarrow> memcpy (pb_payload b) (Some (padd dataptr (int copied_total))) buf_copy_len st;
        take_loop (pb_next b) dataptr (total_copy_len - buf_copy_len) (copied_total + buf_copy_len) st
      }
      else Some st)"

definition pbuf_take :: "addr option \<Rightarrow> addr option \<Rightarrow> u16 \<Rightarrow> pbufs \<Rightarrow> (err_t \<times> pbufs) option" where
  "pbuf_take buf dataptr len st =
     (case (buf, dataptr) of
        (Some a, Some d) \<Rightarrow> do {
          b \<leftarrow> pb_at st a;
          if \<not> len \<le> pb_tot_len b then Some (ERR_MEM, st)
          else do { st \<leftarrow> take_loop buf d (unat len) 0 st; Some (ERR_OK, st) }
        }
      | _ \<Rightarrow> Some (ERR_ARG, st))"

definition pbuf_take_at :: "addr option \<Rightarrow> addr \<Rightarrow> u16 \<Rightarrow> u16 \<Rightarrow> pbufs \<Rightarrow> (err_t \<times> pbufs) option" where
  "pbuf_take_at buf dataptr len offset st = do {
     (q, target_offset) \<leftarrow> pbuf_skip buf offset st;
     case q of
       None \<Rightarrow> Some (ERR_MEM, st)
     | Some a \<Rightarrow> do {
         b \<leftarrow> pb_at st a;
         if unat target_offset + unat len \<le> unat (pb_tot_len b)
         then do {
           let first_copy_len = min (pb_len b - target_offset) len;
           st \<leftarrow> memcpy (map_option (\<lambda>p. padd p (uint target_offset)) (pb_payload b)) (Some dataptr)
                   (unat first_copy_len) st;
           let remaining_len = len - first_copy_len;
           let src_ptr = padd dataptr (uint first_copy_len);
           if 0 < remaining_len then do { b \<leftarrow> pb_at st a; pbuf_take (pb_next b) (Some src_ptr) remaining_len st }
           else Some (ERR_OK, st)
         }
         else Some (ERR_MEM, st)
       }
   }"

definition pbuf_clone :: "u16 \<Rightarrow> u16 \<Rightarrow> addr option \<Rightarrow> pbufs \<Rightarrow> (addr option \<times> pbufs) option" where
  "pbuf_clone layer type p st = do {
     b \<leftarrow> deref p st;
     (q, st) \<leftarrow> pbuf_alloc layer (pb_tot_len b) type st;
     case q of
       None \<Rightarrow> Some (None, st)
     | Some _ \<Rightarrow> do { (err, st) \<leftarrow> pbuf_copy q p st; Some (q, st) }
   }"

definition pbuf_coalesce :: "addr option \<Rightarrow> u16 \<Rightarrow> pbufs \<Rightarrow> (addr option \<times> pbufs) option" where
  "pbuf_coalesce p layer st = do {
     b \<leftarrow> deref p st;
     if pb_next b = None then Some (p, st)
     else do {
       (q, st) \<leftarrow> pbuf_clone layer PBUF_RAM p st;
       case q of
         None \<Rightarrow> Some (p, st)
       | Some _ \<Rightarrow> do { (_, st) \<leftarrow> pbuf_free p st; Some (q, st) }
     }
   }"

section \<open>Single bytes and searching\<close>

definition pbuf_try_get_at :: "addr option \<Rightarrow> u16 \<Rightarrow> pbufs \<Rightarrow> int option" where
  "pbuf_try_get_at p offset st = do {
     (q, q_idx) \<leftarrow> pbuf_skip_const p offset st;
     case q of
       None \<Rightarrow> Some (- 1)
     | Some a \<Rightarrow> do {
         b \<leftarrow> pb_at st a;
         if q_idx < pb_len b then do { payload \<leftarrow> pb_payload b; Some (uint (bytes st (padd payload (uint q_idx)))) }
         else Some (- 1)
       }
   }"

definition pbuf_get_at :: "addr option \<Rightarrow> u16 \<Rightarrow> pbufs \<Rightarrow> u8 option" where
  "pbuf_get_at p offset st = do {
     ret \<leftarrow> pbuf_try_get_at p offset st;
     Some (if 0 \<le> ret then word_of_int ret else 0)
   }"

definition pbuf_put_at :: "addr option \<Rightarrow> u16 \<Rightarrow> u8 \<Rightarrow> pbufs \<Rightarrow> pbufs option" where
  "pbuf_put_at p offset data st = do {
     (q, q_idx) \<leftarrow> pbuf_skip p offset st;
     case q of
       None \<Rightarrow> Some st
     | Some a \<Rightarrow> do {
         b \<leftarrow> pb_at st a;
         if q_idx < pb_len b
         then do { payload \<leftarrow> pb_payload b; Some (st\<lparr>bytes := (bytes st)(padd payload (uint q_idx) := data)\<rparr>) }
         else Some st
       }
   }"

partial_function (option) memcmp_skip :: "addr option \<Rightarrow> u16 \<Rightarrow> pbufs \<Rightarrow> (addr option \<times> u16) option" where
  [code]: "memcmp_skip q start st =
     (case q of
        None \<Rightarrow> Some (None, start)
      | Some a \<Rightarrow> do {
          b \<leftarrow> pb_at st a;
          if pb_len b \<le> start then memcmp_skip (pb_next b) (start - pb_len b) st else Some (q, start)
        })"

partial_function (option) memcmp_loop :: "addr option \<Rightarrow> u16 \<Rightarrow> addr \<Rightarrow> u16 \<Rightarrow> u16 \<Rightarrow> pbufs \<Rightarrow> u16 option" where
  [code]: "memcmp_loop q start s2 n i st =
     (if i < n
      then do {
        a \<leftarrow> pbuf_get_at q (start + i) st;
        let b = bytes st (padd s2 (uint i));
        if a \<noteq> b then Some (word_of_int (min (uint i + 1) 0xFFFF))
        else memcmp_loop q start s2 n (i + 1) st
      }
      else Some 0)"

definition pbuf_memcmp :: "addr option \<Rightarrow> u16 \<Rightarrow> addr \<Rightarrow> u16 \<Rightarrow> pbufs \<Rightarrow> u16 option" where
  "pbuf_memcmp p offset s2 n st = do {
     b \<leftarrow> deref p st;
     if unat (pb_tot_len b) < unat offset + unat n then Some 0xffff
     else do {
       (q, start) \<leftarrow> memcmp_skip p offset st;
       memcmp_loop q start s2 n 0 st
     }
   }"

partial_function (option) memfind_loop :: "addr option \<Rightarrow> addr \<Rightarrow> u16 \<Rightarrow> u16 \<Rightarrow> u16 \<Rightarrow> pbufs \<Rightarrow> u16 option" where
  [code]: "memfind_loop p mem mem_len max_cmp_start i st =
     (if i \<le> max_cmp_start
      then do {
        plus \<leftarrow> pbuf_memcmp p i mem mem_len st;
        if plus = 0 then Some i else memfind_loop p mem mem_len max_cmp_start (i + 1) st
      }
      else Some 0xFFFF)"

definition pbuf_memfind :: "addr option \<Rightarrow> addr \<Rightarrow> u16 \<Rightarrow> u16 \<Rightarrow> pbufs \<Rightarrow> u16 option" where
  "pbuf_memfind p mem mem_len start_offset st = do {
     b \<leftarrow> deref p st;
     let max_cmp_start = pb_tot_len b - mem_len;
     if unat mem_len + unat start_offset \<le> unat (pb_tot_len b)
     then memfind_loop p mem mem_len max_cmp_start start_offset st
     else Some 0xFFFF
   }"

partial_function (option) strlen :: "addr \<Rightarrow> nat \<Rightarrow> pbufs \<Rightarrow> nat option" where
  [code]: "strlen s n st = (if bytes st (padd s (int n)) = 0 then Some n else strlen s (n + 1) st)"

definition pbuf_strstr :: "addr option \<Rightarrow> addr option \<Rightarrow> pbufs \<Rightarrow> u16 option" where
  "pbuf_strstr p substr st =
     (case substr of
        None \<Rightarrow> Some 0xFFFF
      | Some s \<Rightarrow>
          if bytes st s = 0 then Some 0xFFFF
          else do {
            b \<leftarrow> deref p st;
            if pb_tot_len b = 0xFFFF then Some 0xFFFF
            else do {
              substr_len \<leftarrow> strlen s 0 st;
              if 0xFFFF \<le> substr_len then Some 0xFFFF
              else pbuf_memfind p s (of_nat substr_len) 0 st
            }
          })"

end
