(* ===== verification/Lwip_Layout.thy ===== *)
theory Lwip_Layout
  imports Lwip_Mem
begin

text \<open>
  The heap as a list of blocks: which chain of headers in the array a layout stands for, the
  invariant of the heap, and what the searches and updates of the code do to the layout.
\<close>

section \<open>Headers as bytes\<close>

lemma get_put16 [simp]: "get16 (put16 a v r) a = v"
  by (simp add: get16_def put16_def)

lemma get_put16_other: "a + 1 < b \<or> b + 1 < a \<Longrightarrow> get16 (put16 b v r) a = get16 r a"
  by (auto simp: get16_def put16_def)

lemma put16_other: "x < a \<or> a + 1 < x \<Longrightarrow> put16 a v r x = r x"
  by (auto simp: put16_def)

lemma header_cong: "(\<And>a. o1 \<le> a \<Longrightarrow> a < o1 + 5 \<Longrightarrow> r' a = r a) \<Longrightarrow> header r' o1 = header r o1"
  by (simp add: header_def get16_def)

lemma header_next [simp]: "header (put16 p v r) p = (header r p)\<lparr>mem_next := v\<rparr>"
  by (simp add: header_def get_put16_other put16_other)

lemma header_prev [simp]: "header (put16 (p + 2) v r) p = (header r p)\<lparr>mem_prev := v\<rparr>"
  by (simp add: header_def get_put16_other put16_other)

lemma header_used [simp]: "header (r(p + 4 := v)) p = (header r p)\<lparr>mem_used := v\<rparr>"
  by (simp add: header_def get16_def)

lemma unat16: "n \<le> 1600 \<Longrightarrow> unat (of_nat n :: u16) = n"
  by (simp add: unat_of_nat take_bit_nat_eq_self)

lemma of_nat16_eq: "m \<le> 1600 \<Longrightarrow> n \<le> 1600 \<Longrightarrow> (of_nat m :: u16) = of_nat n \<longleftrightarrow> m = n"
  by (metis unat16)

lemma of_nat16_less: "m \<le> 1600 \<Longrightarrow> n \<le> 1600 \<Longrightarrow> (of_nat m :: u16) < of_nat n \<longleftrightarrow> m < n"
  by (simp add: word_less_nat_alt unat16)

lemma unat32: "n \<le> 100000 \<Longrightarrow> unat (of_nat n :: u32) = n"
  by (simp add: unat_of_nat take_bit_nat_eq_self)

lemma ucast16: "n \<le> 1600 \<Longrightarrow> ucast (of_nat n :: u16) = (of_nat n :: u32)"
  by (simp add: unsigned_of_nat take_bit_nat_eq_self)

lemma ucast16_end: "n \<le> 1600 \<Longrightarrow> ucast (of_nat n :: u16) = MEM_SIZE_ALIGNED \<longleftrightarrow> n = 1600"
  by (simp add: ucast16 word_unat_eq_iff unat32)

lemma mem_at_offset: "n \<le> 1600 \<Longrightarrow> mem_at (of_nat n) h = Some (header (ram h) n)"
  by (simp add: mem_at_def in_ram_def unat16)

lemma set_at_offset:
  assumes "n \<le> 1600"
  shows "set_next (of_nat n) v h = Some (h\<lparr>ram := put16 n v (ram h)\<rparr>)"
    and "set_prev (of_nat n) v h = Some (h\<lparr>ram := put16 (n + 2) v (ram h)\<rparr>)"
    and "set_used (of_nat n) b h = Some (h\<lparr>ram := (ram h)(n + 4 := b)\<rparr>)"
  using assms by (simp_all add: set_next_def set_prev_def set_used_def in_ram_def unat16)

section \<open>Layouts\<close>

text \<open>A block with its size, header included, and whether it is used.\<close>

type_synonym layout = "(nat \<times> bool) list"

definition extent :: "layout \<Rightarrow> nat" where
  "extent bs = sum_list (map fst bs)"

lemma extent_simps [simp]: "extent [] = 0" "extent (b # bs) = fst b + extent bs" "extent (as @ bs) = extent as + extent bs"
  by (simp_all add: extent_def)

text \<open>The offset of the last block, which the block after it points back to.\<close>

fun last_off :: "nat \<Rightarrow> nat \<Rightarrow> layout \<Rightarrow> nat" where
  "last_off pp p [] = pp"
| "last_off pp p (b # bs) = last_off p (p + fst b) bs"

fun segment :: "(nat \<Rightarrow> u8) \<Rightarrow> nat \<Rightarrow> nat \<Rightarrow> layout \<Rightarrow> bool" where
  "segment r pp p [] \<longleftrightarrow> True"
| "segment r pp p ((s, u) # bs) \<longleftrightarrow>
     header r p = \<lparr>mem_next = of_nat (p + s), mem_prev = of_nat pp, mem_used = of_bool u\<rparr> \<and>
     20 \<le> s \<and> 4 dvd s \<and> segment r p (p + s) bs"

lemma last_off_append [simp]: "last_off pp p (as @ bs) = last_off (last_off pp p as) (p + extent as) bs"
  by (induction pp p as rule: last_off.induct) (simp_all add: add.assoc)

lemma segment_append [simp]:
  "segment r pp p (as @ bs) \<longleftrightarrow> segment r pp p as \<and> segment r (last_off pp p as) (p + extent as) bs"
  by (induction r pp p as rule: segment.induct) (auto simp: add.assoc)

lemma segment_cong:
  assumes "\<And>a. p \<le> a \<Longrightarrow> a < p + extent bs \<Longrightarrow> r' a = r a"
  shows "segment r' pp p bs = segment r pp p bs"
  using assms
proof (induction r pp p bs rule: segment.induct)
  case (2 r pp p s u bs)
  show ?case
  proof (cases "20 \<le> s")
    case True
    have "header r' p = header r p" using True by (intro header_cong 2(2)) auto
    moreover have "segment r' p (p + s) bs = segment r p (p + s) bs" by (intro 2(1) 2(2)) auto
    ultimately show ?thesis by simp
  qed simp
qed simp

lemma segment_sizes: "segment r pp p bs \<Longrightarrow> (s, u) \<in> set bs \<Longrightarrow> 20 \<le> s \<and> 4 dvd s"
  by (induction r pp p bs rule: segment.induct) auto

lemma segment_extent_dvd: "segment r pp p bs \<Longrightarrow> 4 dvd extent bs"
  by (induction r pp p bs rule: segment.induct) auto

lemma segment_empty: "segment r pp p bs \<Longrightarrow> extent bs = 0 \<longleftrightarrow> bs = []"
  by (cases "(r, pp, p, bs)" rule: segment.cases) auto

lemma last_off_le:
  "segment r pp p bs \<Longrightarrow>
   last_off pp p bs = pp \<and> bs = [] \<or> p \<le> last_off pp p bs \<and> last_off pp p bs + 20 \<le> p + extent bs"
proof (induction r pp p bs rule: segment.induct)
  case (2 r pp p s u bs)
  have "segment r p (p + s) bs" "20 \<le> s" using 2(2) by simp_all
  then show ?case using 2(1) by (cases bs) auto
qed simp

text \<open>Linking what follows to another predecessor; at the end of the array nothing is written.\<close>

lemma segment_set_prev:
  assumes "segment r pp p bs" "p + extent bs = 1600"
  shows "segment (if p \<noteq> 1600 then put16 (p + 2) (of_nat pp') r else r) pp' p bs"
proof (cases bs)
  case (Cons b cs)
  obtain s u where b: "b = (s, u)" by (cases b)
  have s: "20 \<le> s" "p \<noteq> 1600" using assms Cons b by auto
  have "segment (put16 (p + 2) (of_nat pp') r) p (p + s) cs = segment r p (p + s) cs"
    using s by (intro segment_cong) (simp add: put16_other)
  moreover have "header (put16 (p + 2) (of_nat pp') r) p = (header r p)\<lparr>mem_prev := of_nat pp'\<rparr>"
    by (rule header_prev)
  ultimately show ?thesis using assms Cons b s(2) by (simp del: header_prev add_2_eq_Suc')
qed simp

section \<open>The invariant\<close>

fun first_free :: "nat \<Rightarrow> layout \<Rightarrow> nat" where
  "first_free p [] = p"
| "first_free p ((s, u) # bs) = (if u then first_free (p + s) bs else p)"

text \<open>No two free blocks are neighbours.\<close>

abbreviation coalesced :: "layout \<Rightarrow> bool" where
  "coalesced bs \<equiv> successively (\<lambda>a b. snd a \<or> snd b) bs"

definition heap_ok :: "heap \<Rightarrow> layout \<Rightarrow> bool" where
  "heap_ok h bs \<longleftrightarrow> segment (ram h) 0 0 bs \<and> extent bs = 1600 \<and> coalesced bs \<and>
     header (ram h) 1600 = \<lparr>mem_next = 1600, mem_prev = 1600, mem_used = 1\<rparr> \<and>
     lfree h = of_nat (first_free 0 bs)"

text \<open>The addresses of the data in use, and the blocks handed out with the sizes of their data.\<close>

fun data_bytes :: "nat \<Rightarrow> layout \<Rightarrow> nat set" where
  "data_bytes p [] = {}"
| "data_bytes p ((s, u) # bs) = (if u then {p + 8..<p + s} else {}) \<union> data_bytes (p + s) bs"

fun allocated :: "nat \<Rightarrow> layout \<Rightarrow> (nat \<times> nat) list" where
  "allocated p [] = []"
| "allocated p ((s, u) # bs) = (if u then [(p + 8, s - 8)] else []) @ allocated (p + s) bs"

lemma data_bytes_append [simp]: "data_bytes p (as @ bs) = data_bytes p as \<union> data_bytes (p + extent as) bs"
  by (induction p as rule: data_bytes.induct) (auto simp: add.assoc)

lemma allocated_append [simp]: "allocated p (as @ bs) = allocated p as @ allocated (p + extent as) bs"
  by (induction p as rule: allocated.induct) (auto simp: add.assoc)

lemma first_free_append:
  "first_free p (as @ bs) = (if list_all snd as then first_free (p + extent as) bs else first_free p as)"
  by (induction p as rule: first_free.induct) (auto simp: add.assoc)

lemma first_free_less: "\<not> list_all snd bs \<Longrightarrow> segment r pp p bs \<Longrightarrow> first_free p bs < p + extent bs"
  by (induction r pp p bs rule: segment.induct) auto

lemma data_bytes_range: "segment r pp p bs \<Longrightarrow> a \<in> data_bytes p bs \<Longrightarrow> p + 8 \<le> a \<and> a < p + extent bs"
proof (induction r pp p bs rule: segment.induct)
  case (2 r pp p s u bs)
  have "segment r p (p + s) bs" "20 \<le> s" using 2(2) by simp_all
  with 2(1) have "a \<in> data_bytes (p + s) bs \<Longrightarrow> p + s + 8 \<le> a \<and> a < p + s + extent bs" by blast
  with 2(3) show ?case using \<open>20 \<le> s\<close> by (auto split: if_splits)
qed simp

lemma allocated_data: "(d, n) \<in> set (allocated p bs) \<Longrightarrow> {d..<d + n} \<subseteq> data_bytes p bs"
  by (induction p bs rule: allocated.induct) (auto split: if_splits)

end
