(* ===== verification/Lwip_Heap.thy ===== *)
theory Lwip_Heap
  imports Lwip_Layout
begin

text \<open>
  What the code's updates do to the layout of the heap: taking and splitting a block, shrinking
  one, joining a free block with its neighbours, and the searches for a free block.
\<close>

section \<open>Replacing some neighbouring blocks\<close>

text \<open>
  Every update rewrites the headers of one or two neighbouring blocks and the link back to them in
  the block that follows, if there is one. The rest of the array is as it was.
\<close>

definition relinked :: "nat \<Rightarrow> nat \<Rightarrow> nat \<Rightarrow> (nat \<Rightarrow> u8) \<Rightarrow> (nat \<Rightarrow> u8) \<Rightarrow> bool" where
  "relinked p q l r r' \<longleftrightarrow>
     (\<forall>a<p. r' a = r a) \<and> (\<forall>a\<ge>q. (q = 1600 \<or> a \<noteq> q + 2 \<and> a \<noteq> q + 3) \<longrightarrow> r' a = r a) \<and>
     (q \<noteq> 1600 \<longrightarrow> get16 r' (q + 2) = of_nat l)"

lemma relinked_segment:
  assumes old: "segment r 0 0 (as @ bs @ cs)" "extent (as @ bs @ cs) = 1600"
    and p: "p = extent as" and q: "q = p + extent bs" and same: "extent bs' = extent bs"
    and r': "relinked p q (last_off (last_off 0 0 as) p bs') r r'"
    and mid: "segment r' (last_off 0 0 as) p bs'"
  shows "segment r' 0 0 (as @ bs' @ cs)"
proof -
  have "segment r' 0 0 as = segment r 0 0 as"
    using r' p by (intro segment_cong) (simp add: relinked_def)
  moreover have "segment r' (last_off (last_off 0 0 as) p bs') q cs"
  proof (cases cs)
    case (Cons b ds)
    obtain s u where b: "b = (s, u)" by (cases b)
    have rest: "segment r (last_off (last_off 0 0 as) p bs) q cs" using old p q by simp
    then have s: "20 \<le> s" and hd: "header r q = \<lparr>mem_next = of_nat (q + s), mem_prev = of_nat (last_off (last_off 0 0 as) p bs), mem_used = of_bool u\<rparr>"
      and ds: "segment r q (q + s) ds" using Cons b by simp_all
    have end': "q \<noteq> 1600" using old(2) p q Cons b s by simp
    have "segment r' q (q + s) ds = segment r q (q + s) ds"
      using r' s by (intro segment_cong) (simp add: relinked_def)
    moreover have "header r' q = (header r q)\<lparr>mem_prev := of_nat (last_off (last_off 0 0 as) p bs')\<rparr>"
      using r' end' by (simp add: header_def relinked_def get16_def)
    ultimately show ?thesis using rest hd ds Cons b by simp
  qed simp
  ultimately show ?thesis using old p q same mid by simp
qed

lemma relinked_end:
  assumes "segment r 0 0 (as @ bs @ cs)" "extent (as @ bs @ cs) = 1600" "q = extent as + extent bs"
    and "relinked p q l r r'"
  shows "header r' 1600 = header r 1600"
proof -
  have "q = 1600 \<or> q + 20 \<le> 1600"
    using assms(1-3) by (cases cs) (auto split: prod.splits)
  then show ?thesis using assms(4) unfolding relinked_def by (intro header_cong) auto
qed

lemma relinked_data:
  assumes "segment r 0 0 (as @ bs @ cs)" "p = extent as" "q = p + extent bs" "relinked p q l r r'"
    and "a \<in> data_bytes 0 as \<union> data_bytes q cs"
  shows "r' a = r a"
proof -
  have "a < p \<or> q + 8 \<le> a"
    using assms(1-3,5) data_bytes_range [of r 0 0 as a] data_bytes_range [of r _ q cs a] by fastforce
  then show ?thesis using assms(4) by (auto simp: relinked_def)
qed

text \<open>The link back is right already when the last block stays where it is.\<close>

lemma segment_link_back:
  assumes "segment r 0 0 (as @ bs @ cs)" "extent (as @ bs @ cs) = 1600" "q = extent as + extent bs" "q \<noteq> 1600"
  shows "get16 r (q + 2) = of_nat (last_off (last_off 0 0 as) (extent as) bs)"
  using assms by (cases cs) (auto simp: header_def)

section \<open>Joining two free blocks\<close>

lemma join_blocks:
  assumes "segment (ram h) 0 0 (as @ [(s, False), (t, False)] @ cs)"
    and "extent (as @ [(s, False), (t, False)] @ cs) = 1600"
    and p: "p = extent as" and q: "q = p + s + t"
  defines "n \<equiv> (of_nat q :: u16)"
  obtains h' where
    "do { h \<leftarrow> set_next (of_nat p) n h;
          if ucast n \<noteq> MEM_SIZE_ALIGNED then set_prev n (of_nat p) h else Some h } = Some h'"
    "segment (ram h') 0 0 (as @ [(s + t, False)] @ cs)" "relinked p q p (ram h) (ram h')"
    "\<And>a. p + 2 \<le> a \<Longrightarrow> a < q \<Longrightarrow> ram h' a = ram h a" "lfree h' = lfree h"
proof -
  have b: "q \<le> 1600" "20 \<le> s" "20 \<le> t" "4 dvd s + t" using assms by auto
  have pq: "p \<le> 1600" using b q by simp
  have hd: "header (ram h) p = \<lparr>mem_next = of_nat (p + s), mem_prev = of_nat (last_off 0 0 as), mem_used = 0\<rparr>"
    using assms(1) p by simp
  have n: "ucast n \<noteq> MEM_SIZE_ALIGNED \<longleftrightarrow> q \<noteq> 1600"
    using b(1) unfolding n_def by (simp add: ucast16_end)
  define r1 where "r1 = put16 p n (ram h)"
  define r2 where "r2 = (if q \<noteq> 1600 then put16 (q + 2) (of_nat p) r1 else r1)"
  have run: "do { h \<leftarrow> set_next (of_nat p) n h;
          if ucast n \<noteq> MEM_SIZE_ALIGNED then set_prev n (of_nat p) h else Some h } = Some (h\<lparr>ram := r2\<rparr>)"
    using b(1) unfolding n set_at_offset [OF pq]
    by (simp add: n_def set_at_offset r1_def r2_def)
  have rel: "relinked p q p (ram h) r2"
    using b q unfolding relinked_def r2_def r1_def by (auto simp: put16_def get16_def)
  have keep: "r2 a = ram h a" if "p + 2 \<le> a" "a < q" for a
    using that by (simp add: r2_def r1_def put16_other)
  have "header r2 p = (header (ram h) p)\<lparr>mem_next := n\<rparr>"
    using b q unfolding r2_def r1_def
    by (simp add: header_def get16_def put16_def)
  then have "segment r2 (last_off 0 0 as) p [(s + t, False)]"
    using hd b q by (simp add: n_def add.assoc)
  then have seg: "segment r2 0 0 (as @ [(s + t, False)] @ cs)"
    using rel q by (intro relinked_segment [OF assms(1,2) p]) simp_all
  show thesis by (rule that [of "h\<lparr>ram := r2\<rparr>"]) (use run rel seg keep in simp_all)
qed

section \<open>Splitting a block\<close>

text \<open>A used block and, behind it, a free one take the place of one or two blocks.\<close>

definition split_ram :: "nat \<Rightarrow> nat \<Rightarrow> nat \<Rightarrow> (nat \<Rightarrow> u8) \<Rightarrow> (nat \<Rightarrow> u8)" where
  "split_ram p p2 q r =
     (let r = (put16 p (of_nat p2) (put16 (p2 + 2) (of_nat p) (put16 p2 (of_nat q) (r(p2 + 4 := 0)))))(p + 4 := 1)
      in if q \<noteq> 1600 then put16 (q + 2) (of_nat p2) r else r)"

lemma split_ram_relinked:
  assumes "p + 20 \<le> p2" "p2 + 20 \<le> q"
  shows "relinked p q p2 r (split_ram p p2 q r)"
  using assms unfolding relinked_def split_ram_def Let_def
  by (auto simp: put16_def get16_def)

lemma split_ram_keeps:
  assumes "p + 5 \<le> a" "a < p2 \<or> p2 + 5 \<le> a" "a < q"
  shows "split_ram p p2 q r a = r a"
  using assms unfolding split_ram_def Let_def by (auto simp: put16_def)

lemma split_ram_headers:
  assumes "p + 20 \<le> p2" "p2 + 20 \<le> q"
  shows "header (split_ram p p2 q r) p = \<lparr>mem_next = of_nat p2, mem_prev = mem_prev (header r p), mem_used = 1\<rparr>"
    and "header (split_ram p p2 q r) p2 = \<lparr>mem_next = of_nat q, mem_prev = of_nat p, mem_used = 0\<rparr>"
  using assms unfolding split_ram_def Let_def by (simp_all add: header_def get16_def put16_def)

lemma split_block:
  assumes "segment r 0 0 (as @ ((s, u) # bs) @ cs)" "extent (as @ ((s, u) # bs) @ cs) = 1600"
    and p: "p = extent as" and q: "q = p + extent ((s, u) # bs)"
    and sizes: "p2 = p + k" "20 \<le> k" "4 dvd k" "q = p2 + l" "20 \<le> l"
  shows "segment (split_ram p p2 q r) 0 0 (as @ [(k, True), (l, False)] @ cs)"
proof (rule relinked_segment [OF assms(1-4)])
  have "4 dvd p" "4 dvd extent ((s, u) # bs)"
    using assms(1) p segment_extent_dvd [of r 0 0 as]
      segment_extent_dvd [of r "last_off 0 0 as" p "(s, u) # bs"] by (simp_all del: extent_simps(2) add: extent_simps(2))
  then have "4 dvd q" "4 dvd p" unfolding q by simp_all
  then have "4 dvd l" using sizes by presburger
  moreover have "mem_prev (header r p) = of_nat (last_off 0 0 as)" using assms(1) p by simp
  ultimately show "segment (split_ram p p2 q r) (last_off 0 0 as) p [(k, True), (l, False)]"
    using sizes by (simp add: split_ram_headers)
  show "relinked p q (last_off (last_off 0 0 as) p [(k, True), (l, False)]) r (split_ram p p2 q r)"
    using split_ram_relinked [of p p2 q r] sizes by simp
qed (use sizes q in simp)

text \<open>Using a block as a whole.\<close>

lemma use_block:
  assumes "segment r 0 0 (as @ [(s, u)] @ cs)" "extent (as @ [(s, u)] @ cs) = 1600" "p = extent as"
  shows "segment (r(p + 4 := of_bool v)) 0 0 (as @ [(s, v)] @ cs)"
    and "relinked p (p + s) p r (r(p + 4 := of_bool v))"
proof -
  have hd: "header r p = \<lparr>mem_next = of_nat (p + s), mem_prev = of_nat (last_off 0 0 as), mem_used = of_bool u\<rparr>"
    and s: "20 \<le> s" "4 dvd s"
    using assms by simp_all
  have link: "p + s \<noteq> 1600 \<Longrightarrow> get16 r (p + s + 2) = of_nat p"
    using segment_link_back [OF assms(1,2), of "p + s"] assms(3) by simp
  show rel: "relinked p (p + s) p r (r(p + 4 := of_bool v))"
    using link s unfolding relinked_def by (auto simp: get16_def)
  have "header (r(p + 4 := of_bool v)) p = (header r p)\<lparr>mem_used := of_bool v\<rparr>" by (rule header_used)
  then have mid: "segment (r(p + 4 := of_bool v)) (last_off 0 0 as) p [(s, v)]"
    using hd s by simp
  show "segment (r(p + 4 := of_bool v)) 0 0 (as @ [(s, v)] @ cs)"
    by (rule relinked_segment [OF assms(1-3) refl _ _ mid]) (use rel in simp_all)
qed

section \<open>Searching\<close>

text \<open>First fit: the blocks before the chosen one, its size and the blocks after it.\<close>

fun first_fit :: "nat \<Rightarrow> layout \<Rightarrow> (layout \<times> nat \<times> layout) option" where
  "first_fit n [] = None"
| "first_fit n ((s, u) # bs) =
     (if \<not> u \<and> n + 8 \<le> s then Some ([], s, bs)
      else map_option (\<lambda>(as, t, cs). ((s, u) # as, t, cs)) (first_fit n bs))"

lemma first_fit_Some:
  "first_fit n bs = Some (as, s, cs) \<Longrightarrow>
   bs = as @ (s, False) # cs \<and> n + 8 \<le> s \<and> (\<forall>(t, u) \<in> set as. u \<or> t < n + 8)"
  by (induction n bs arbitrary: as rule: first_fit.induct) (auto split: if_splits)

lemma first_fit_None: "first_fit n bs = None \<longleftrightarrow> (\<forall>(t, u) \<in> set bs. u \<or> t < n + 8)"
  by (induction n bs rule: first_fit.induct) auto

lemma first_fit_small: "extent bs < n + 8 \<Longrightarrow> first_fit n bs = None"
  by (induction n bs rule: first_fit.induct) auto

lemma first_fit_used:
  "list_all snd as \<Longrightarrow>
   first_fit n (as @ bs) = map_option (\<lambda>(cs, t, ds). (as @ cs, t, ds)) (first_fit n bs)"
  by (induction as) (auto simp: option.map_comp comp_def split_def option.map_ident)

lemma user_size_offset:
  assumes "p + s \<le> 1600" "8 \<le> s"
  shows "user_size \<lparr>mem_next = of_nat (p + s), mem_prev = v, mem_used = u\<rparr> (of_nat p) = of_nat (s - 8)"
proof -
  have "p + s = p + 8 + (s - 8)" using assms(2) by simp
  then have "(of_nat (p + s) :: u32) = of_nat p + 8 + of_nat (s - 8)"
    by (metis of_nat_add of_nat_numeral)
  moreover have "ucast (of_nat (p + s) :: u16) = (of_nat (p + s) :: u32)" "ucast (of_nat p :: u16) = (of_nat p :: u32)"
    using assms(1) by (simp_all add: ucast16 del: of_nat_add)
  ultimately show ?thesis unfolding user_size_def mem.simps by (simp del: of_nat_add)
qed

lemma of_nat32_le: "m \<le> 100000 \<Longrightarrow> n \<le> 100000 \<Longrightarrow> (of_nat m :: u32) \<le> of_nat n \<longleftrightarrow> m \<le> n"
  by (simp add: word_le_nat_alt unat32)

lemma search_bound:
  assumes "p \<le> 1600" "n \<le> 1600"
  shows "ucast (of_nat p :: u16) < MEM_SIZE_ALIGNED - of_nat n \<longleftrightarrow> p < 1600 - n"
proof -
  have "MEM_SIZE_ALIGNED - of_nat n = of_nat (1600 - n)" using assms(2) by (simp add: of_nat_diff)
  then show ?thesis using assms(1) by (simp add: ucast16 word_less_nat_alt unat32)
qed

lemma find_block_first_fit:
  assumes "segment (ram h) pp p bs" "p + extent bs = 1600" "n \<le> 1600"
  shows "find_block (of_nat n) (of_nat p) h = Some (map_option (\<lambda>(as, _). of_nat (p + extent as)) (first_fit n bs))"
  using assms(1,2)
proof (induction bs arbitrary: pp p)
  case Nil
  then have "p \<le> 1600" "\<not> p < 1600 - n" by simp_all
  then show ?case by (subst find_block.simps) (simp add: search_bound assms(3))
next
  case (Cons b bs)
  obtain s u where b: "b = (s, u)" by (cases b)
  have hd: "header (ram h) p = \<lparr>mem_next = of_nat (p + s), mem_prev = of_nat pp, mem_used = of_bool u\<rparr>"
    and s: "20 \<le> s" and rest: "segment (ram h) p (p + s) bs" using Cons(2) b by simp_all
  have ps: "p + s \<le> 1600" "p \<le> 1600" using Cons(3) b by simp_all
  have room: "user_size (header (ram h) p) (of_nat p) = of_nat (s - 8)"
    unfolding hd using ps s by (intro user_size_offset) simp_all
  have fits: "of_nat n \<le> (of_nat (s - 8) :: u32) \<longleftrightarrow> n + 8 \<le> s"
    using assms(3) ps s by (subst of_nat32_le) auto
  show ?case
  proof (cases "p < 1600 - n")
    case True
    have "find_block (of_nat n) (of_nat p) h =
        (if \<not> u \<and> n + 8 \<le> s then Some (Some (of_nat p)) else find_block (of_nat n) (of_nat (p + s)) h)"
      by (subst find_block.simps) (simp only: search_bound [OF ps(2) assms(3)] True mem_at_offset [OF ps(2)] if_True
          Option.bind.bind_lunit room fits, simp add: hd)
    then show ?thesis using Cons(1) [OF rest] Cons(3) b
      by (auto simp: option.map_comp comp_def split_def add.assoc)
  next
    case False
    then have "extent (b # bs) < n + 8" using Cons(3) by simp
    then have "first_fit n (b # bs) = None" by (rule first_fit_small)
    then show ?thesis using False by (subst find_block.simps) (simp add: search_bound ps assms(3))
  qed
qed

lemma next_free_first:
  assumes "segment (ram h) pp p bs" "p + extent bs = 1600"
  shows "next_free (of_nat p) h = Some (of_nat (first_free p bs))"
  using assms
proof (induction bs arbitrary: pp p)
  case Nil
  then have "of_nat p = ram_end" by simp
  then show ?case by (subst next_free.simps) (simp add: mem_at_def in_ram_def)
next
  case (Cons b bs)
  obtain s u where b: "b = (s, u)" by (cases b)
  have ps: "p \<le> 1600" "p \<noteq> 1600" using Cons(2,3) b by auto
  have hd: "header (ram h) p = \<lparr>mem_next = of_nat (p + s), mem_prev = of_nat pp, mem_used = of_bool u\<rparr>"
    and rest: "segment (ram h) p (p + s) bs" using Cons(2) b by simp_all
  have "of_nat p \<noteq> ram_end" using ps of_nat16_eq [of p 1600] by simp
  then have "next_free (of_nat p) h = (if u then next_free (of_nat (p + s)) h else Some (of_nat p))"
    by (subst next_free.simps) (simp add: mem_at_offset [OF ps(1)] hd)
  then show ?case using Cons(1) [OF rest] Cons(3) b by (simp add: add.assoc)
qed

end
