(* ===== verification/Lwip_Alloc.thy ===== *)
theory Lwip_Alloc
  imports Lwip_Heap
begin

text \<open>
  The operations of the heap on layouts: allocation takes the first block that is large enough,
  freeing gives back one block and joins it with its free neighbours, trimming gives back the end
  of one. Each keeps the invariant and the data of the blocks it does not touch.
\<close>

section \<open>Sizes\<close>

text \<open>The size of the data of a block: a multiple of four, twelve at least.\<close>

definition alloc_size :: "nat \<Rightarrow> nat" where
  "alloc_size n = max 12 (4 * ((n + 3) div 4))"

lemma alloc_size: "4 dvd alloc_size n" "12 \<le> alloc_size n" "n \<le> alloc_size n"
  unfolding alloc_size_def by (simp_all add: max_def; presburger)+

lemma and_not_3: "(a :: u32) AND NOT 3 = a - take_bit 2 a"
proof -
  have "a - take_bit 2 a = a AND NOT (take_bit 2 a)"
    by (rule disjunctive_diff) (simp add: bit_simps)
  also have "\<dots> = a AND NOT (mask 2)"
    by (rule bit_eqI) (auto simp: bit_simps)
  finally show ?thesis by (simp add: mask_eq_exp_minus_1)
qed

lemma unat_align: "unat (LWIP_MEM_ALIGN_SIZE n) = 4 * ((unat n + 3) div 4)"
proof -
  define a :: u32 where "a = ucast n + 3"
  have "unat n < 65536" by (simp add: unat_u16_less)
  then have a: "unat a = unat n + 3"
    unfolding a_def by (simp add: unat_word_ariths unsigned_ucast_eq take_bit_nat_def)
  have "LWIP_MEM_ALIGN_SIZE n = a AND NOT 3" by (simp add: LWIP_MEM_ALIGN_SIZE_def a_def add.commute)
  also have "\<dots> = a - take_bit 2 a" by (rule and_not_3)
  also have "unat \<dots> = unat a - unat (take_bit 2 a)"
    by (rule unat_sub_nat) (simp add: take_bit_eq_mod unat_mod)
  also have "unat (take_bit 2 a) = unat a mod 4" by (simp add: take_bit_eq_mod unat_mod)
  finally show ?thesis unfolding a by presburger
qed

text \<open>The guard that both allocating and trimming compute first.\<close>

lemma rounded_size:
  fixes n :: u16
  defines "k \<equiv> (ucast (LWIP_MEM_ALIGN_SIZE n) :: u16)"
  defines "k' \<equiv> (if ucast k < MIN_SIZE_ALIGNED then ucast MIN_SIZE_ALIGNED else k)"
  shows "MEM_SIZE_ALIGNED < ucast k' \<or> k' < n \<longleftrightarrow> 1600 < alloc_size (unat n)"
    and "alloc_size (unat n) \<le> 1600 \<Longrightarrow> k' = of_nat (alloc_size (unat n))"
proof -
  define m where "m = unat n"
  have m: "m < 65536" by (simp add: m_def unat_u16_less)
  define z where "z = 4 * ((m + 3) div 4)"
  have z: "m \<le> z" "z < m + 4" unfolding z_def by presburger+
  have k: "unat k = z mod 65536"
    unfolding k_def by (simp add: unsigned_ucast_eq take_bit_nat_def unat_align z_def m_def)
  have k': "unat k' = (if z mod 65536 < 12 then 12 else z mod 65536)"
    unfolding k'_def using k by (simp add: word_less_nat_alt unat_ucast_16_32)
  have "MEM_SIZE_ALIGNED < ucast k' \<or> k' < n \<longleftrightarrow> 1600 < unat k' \<or> unat k' < m"
    by (simp add: word_less_nat_alt unat_ucast_16_32 m_def)
  also have "\<dots> \<longleftrightarrow> 1600 < max 12 z"
  proof (cases "z < 65536")
    case False
    then have "z - 65536 < 12" using m z by linarith
    moreover have "z mod 65536 = (z - 65536) mod 65536" using False by (simp add: le_mod_geq)
    ultimately have "unat k' = 12" using k' by simp
    then show ?thesis using False m z by simp
  qed (use k' z in auto)
  finally show *: "MEM_SIZE_ALIGNED < ucast k' \<or> k' < n \<longleftrightarrow> 1600 < alloc_size (unat n)"
    by (simp add: alloc_size_def z_def m_def)
  show "k' = of_nat (alloc_size (unat n))" if "alloc_size (unat n) \<le> 1600"
  proof -
    have "z \<le> 1600" using that by (simp add: alloc_size_def z_def m_def)
    then show ?thesis using k' that unat16 [OF that]
      by (simp add: word_unat_eq_iff alloc_size_def z_def m_def max_def)
  qed
qed

section \<open>Allocating\<close>

text \<open>The blocks that take the place of a free one.\<close>

definition taken :: "nat \<Rightarrow> nat \<Rightarrow> layout" where
  "taken n s = (if n + 28 \<le> s then [(n + 8, True), (s - n - 8, False)] else [(s, True)])"

lemma extent_taken: "n + 8 \<le> s \<Longrightarrow> extent (taken n s) = s"
  by (simp add: taken_def)

lemma split_offset:
  assumes "p + n + 8 \<le> 1600"
  shows "ucast (ucast (of_nat p :: u16) + SIZEOF_STRUCT_MEM + of_nat n) = (of_nat (p + (n + 8)) :: u16)"
proof -
  have "ucast (of_nat p :: u16) + SIZEOF_STRUCT_MEM + of_nat n = (of_nat (p + (n + 8)) :: u32)"
    using assms by (simp add: ucast16)
  moreover have "ucast (of_nat (p + (n + 8)) :: u32) = (of_nat (p + (n + 8)) :: u16)"
    using assms by (simp add: unsigned_of_nat take_bit_nat_eq_self del: of_nat_add)
  ultimately show ?thesis by (simp only:)
qed

lemma take_block_taken:
  assumes seg: "segment (ram h) 0 0 (as @ [(s, False)] @ cs)" and ext: "extent (as @ [(s, False)] @ cs) = 1600"
    and p: "p = extent as" and n: "12 \<le> n" "4 dvd n" "n + 8 \<le> s"
  obtains h' l where "take_block (of_nat n) (of_nat p) h = Some h'" "lfree h' = lfree h"
    "segment (ram h') 0 0 (as @ taken n s @ cs)" "relinked p (p + s) l (ram h) (ram h')"
proof (cases "n + 28 \<le> s")
  case False
  have hd: "header (ram h) p = \<lparr>mem_next = of_nat (p + s), mem_prev = of_nat (last_off 0 0 as), mem_used = 0\<rparr>"
    and s: "p + s \<le> 1600" "p \<le> 1600" using seg ext p by simp_all
  have "user_size (header (ram h) p) (of_nat p) = of_nat (s - 8)"
    unfolding hd using s n by (intro user_size_offset) simp_all
  moreover have "of_nat n + SIZEOF_STRUCT_MEM + MIN_SIZE_ALIGNED = of_nat (n + 20)" by simp
  moreover have "\<not> (of_nat (n + 20) :: u32) \<le> of_nat (s - 8)"
    using False s n by (subst of_nat32_le) auto
  ultimately have run: "take_block (of_nat n) (of_nat p) h = Some (h\<lparr>ram := (ram h)(p + 4 := 1)\<rparr>)"
    unfolding take_block_def mem_at_offset [OF s(2)] by (simp add: set_at_offset [OF s(2)] del: of_nat_add)
  show thesis
    by (rule that [OF run]) (use use_block [OF seg ext p, of True] False in \<open>simp_all add: taken_def\<close>)
next
  case True
  have hd: "header (ram h) p = \<lparr>mem_next = of_nat (p + s), mem_prev = of_nat (last_off 0 0 as), mem_used = 0\<rparr>"
    and s: "p + s \<le> 1600" "p \<le> 1600" using seg ext p by simp_all
  define p2 where "p2 = p + (n + 8)"
  have p2: "p2 \<le> 1600" using s True by (simp add: p2_def)
  have "user_size (header (ram h) p) (of_nat p) = of_nat (s - 8)"
    unfolding hd using s n by (intro user_size_offset) simp_all
  moreover have "of_nat n + SIZEOF_STRUCT_MEM + MIN_SIZE_ALIGNED = of_nat (n + 20)" by simp
  moreover have "(of_nat (n + 20) :: u32) \<le> of_nat (s - 8)"
    using True s n by (subst of_nat32_le) auto
  ultimately have split: "of_nat n + SIZEOF_STRUCT_MEM + MIN_SIZE_ALIGNED \<le> user_size (header (ram h) p) (of_nat p)"
    by (simp add: add.commute)
  have at2: "ucast (ucast (of_nat p :: u16) + SIZEOF_STRUCT_MEM + of_nat n) = (of_nat p2 :: u16)"
    unfolding p2_def by (rule split_offset) (use s True in simp)
  have run: "take_block (of_nat n) (of_nat p) h = Some (h\<lparr>ram := split_ram p p2 (p + s) (ram h)\<rparr>)"
    unfolding take_block_def mem_at_offset [OF s(2)] using split hd
    by (simp add: at2 set_at_offset [OF s(2)] set_at_offset [OF p2] set_at_offset [OF s(1)] ucast16_end [OF s(1)] split_ram_def Let_def del: of_nat_add)
  have "segment (split_ram p p2 (p + s) (ram h)) 0 0 (as @ [(n + 8, True), (s - n - 8, False)] @ cs)"
    using seg ext p n True by (intro split_block [where bs = "[]" and u = False]) (simp_all add: p2_def)
  then show thesis
    using True n by (intro that [OF run]) (auto simp: taken_def p2_def intro!: split_ram_relinked)
qed

lemma heap_okD:
  assumes "heap_ok h bs"
  shows "segment (ram h) 0 0 bs" "extent bs = 1600" "coalesced bs" "lfree h = of_nat (first_free 0 bs)"
    "header (ram h) 1600 = \<lparr>mem_next = 1600, mem_prev = 1600, mem_used = 1\<rparr>"
  using assms by (simp_all add: heap_ok_def)

lemma first_free_le: "first_free p bs \<le> p + extent bs"
  by (induction p bs rule: first_free.induct) auto

lemma first_free_ge: "p \<le> first_free p bs"
  by (induction p bs rule: first_free.induct) auto

lemma first_free_extent: "first_free p bs = p + extent (takeWhile snd bs)"
  by (induction p bs rule: first_free.induct) auto

lemma used_prefix: "list_all snd (takeWhile snd bs)"
  by (auto simp: list_all_iff dest: set_takeWhileD)

lemma coalesced_taken:
  "coalesced (as @ (s, False) # cs) \<Longrightarrow> coalesced (as @ taken n s @ cs)"
  by (cases as rule: rev_cases; cases cs) (auto simp: taken_def successively_append_iff)

lemma malloc_none:
  assumes ok: "heap_ok h bs" and none: "n = 0 \<or> first_fit (alloc_size (unat n)) bs = None"
  shows "mem_malloc n h = Some (h, None)"
proof (cases "n = 0 \<or> 1600 < alloc_size (unat n)")
  case True
  then show ?thesis using rounded_size(1) [of n] by (auto simp: mem_malloc_def Let_def)
next
  case False
  define k where "k = alloc_size (unat n)"
  have k: "k \<le> 1600" using False by (simp add: k_def)
  note r = rounded_size [of n, folded k_def]
  define as where "as = takeWhile snd bs"
  define cs where "cs = dropWhile snd bs"
  have bs: "bs = as @ cs" and as: "list_all snd as" by (simp_all add: as_def cs_def used_prefix)
  have ff: "first_free 0 bs = extent as" by (simp add: first_free_extent as_def)
  have "find_block (of_nat k) (of_nat (extent as)) h = Some None"
  proof (subst find_block_first_fit [where bs = cs])
    show "segment (ram h) (last_off 0 0 as) (extent as) cs" "extent as + extent cs = 1600"
      using heap_okD(1,2) [OF ok] by (simp_all add: bs)
    show "Some (map_option (\<lambda>(bs, _). of_nat (extent as + extent bs)) (first_fit k cs)) = Some None"
      using none False as by (auto simp: bs k_def first_fit_used)
  qed (rule k)
  then show ?thesis using False k r heap_okD(4) [OF ok]
    by (simp add: mem_malloc_def Let_def ff ucast16)
qed

lemma find_from_lowest:
  assumes ok: "heap_ok h bs" and k: "k \<le> 1600" and fit: "first_fit k bs = Some (as, s, cs)"
  shows "find_block (of_nat k) (lfree h) h = Some (Some (of_nat (extent as)))"
    and "of_nat (extent as) = lfree h \<longleftrightarrow> list_all snd as"
proof -
  define us where "us = takeWhile snd bs"
  define ds where "ds = dropWhile snd bs"
  have bs: "bs = us @ ds" and us: "list_all snd us" by (simp_all add: us_def ds_def used_prefix)
  have lf: "lfree h = of_nat (extent us)" using heap_okD(4) [OF ok] by (simp add: first_free_extent us_def)
  obtain as' where as: "as = us @ as'" and fit': "first_fit k ds = Some (as', s, cs)"
    using fit us by (auto simp: bs first_fit_used)
  note seg = heap_okD(1,2) [OF ok, unfolded bs]
  show "find_block (of_nat k) (lfree h) h = Some (Some (of_nat (extent as)))"
    unfolding lf by (subst find_block_first_fit [where bs = ds]) (use seg k fit' as in auto)
  have ds: "ds = as' @ (s, False) # cs" using first_fit_Some [OF fit'] by simp
  have "of_nat (extent as) = lfree h \<longleftrightarrow> extent as' = 0"
    using seg(2) unfolding lf as ds by (subst of_nat16_eq) auto
  also have "\<dots> \<longleftrightarrow> as' = []"
    using seg(1) segment_empty [of "ram h" "last_off 0 0 us" "extent us" as'] unfolding ds by simp
  also have "\<dots> \<longleftrightarrow> list_all snd as"
  proof (cases as')
    case (Cons b bs')
    then have "\<not> snd b" using ds hd_dropWhile [of snd bs] by (auto simp: ds_def)
    then show ?thesis using Cons as by simp
  qed (use us as in simp)
  finally show "of_nat (extent as) = lfree h \<longleftrightarrow> list_all snd as" .
qed

lemma first_free_replace:
  assumes "\<not> list_all snd as"
  shows "first_free 0 (as @ bs) = first_free 0 (as @ cs)"
  using assms by (simp add: first_free_append)

lemma malloc_some:
  assumes ok: "heap_ok h bs" and n: "n \<noteq> 0" and k: "k = alloc_size (unat n)"
    and fit: "first_fit k bs = Some (as, s, cs)"
  obtains h' l where "mem_malloc n h = Some (h', Some (int (extent as) + 8))"
    "heap_ok h' (as @ taken k s @ cs)" "relinked (extent as) (extent as + s) l (ram h) (ram h')"
proof -
  note D = heap_okD [OF ok]
  define p where "p = extent as"
  have bs: "bs = as @ [(s, False)] @ cs" and ks: "k + 8 \<le> s" using first_fit_Some [OF fit] by simp_all
  have ps: "p + s \<le> 1600" using D(2) by (simp add: bs p_def)
  then have k1600: "k \<le> 1600" using ks by simp
  note r = rounded_size [of n, folded k]
  obtain h' l where run: "take_block (of_nat k) (of_nat p) h = Some h'" and lf: "lfree h' = lfree h"
    and seg: "segment (ram h') 0 0 (as @ taken k s @ cs)" and rel: "relinked p (p + s) l (ram h) (ram h')"
    by (rule take_block_taken [OF D(1,2) [unfolded bs] p_def, of k]) (use ks alloc_size k in auto)
  define h'' where "h'' = (if list_all snd as then h'\<lparr>lfree := of_nat (first_free 0 (as @ taken k s @ cs))\<rparr> else h')"
  have ext: "extent (as @ taken k s @ cs) = 1600"
    using D(2) ks by (simp add: bs extent_taken)
  have "next_free (lfree h') h' = Some (of_nat (first_free 0 (as @ taken k s @ cs)))" if "list_all snd as"
  proof -
    have "next_free (of_nat p) h' = Some (of_nat (first_free p (taken k s @ cs)))"
      using seg ext by (intro next_free_first [where pp = "last_off 0 0 as"]) (simp_all add: p_def)
    then show ?thesis
      using that find_from_lowest(2) [OF ok k1600 fit] lf by (simp add: first_free_append p_def)
  qed
  moreover have guard: "\<not> (MEM_SIZE_ALIGNED < of_nat k \<or> of_nat k < n)"
    using r(1) k1600 unfolding r(2) [OF k1600] ucast16 [OF k1600] by simp
  moreover have "mem_malloc n h =
      do { h \<leftarrow> (if list_all snd as
                 then do { cur \<leftarrow> next_free (lfree h') h'; Some (h'\<lparr>lfree := cur\<rparr>) } else Some h');
           Some (h, Some (uint (of_nat p :: u16) + 8)) }"
    using find_from_lowest [OF ok k1600 fit] run n k1600 unfolding mem_malloc_def Let_def lf [symmetric] p_def
    by (simp only: if_False r(2) [OF k1600] guard ucast16 [OF k1600] Option.bind.bind_lunit option.case lf)
  ultimately have run'': "mem_malloc n h = Some (h'', Some (int p + 8))"
    using ps unat16 [of p] by (simp add: h''_def uint_nat)
  have "header (ram h') 1600 = header (ram h) 1600"
    using rel by (intro relinked_end [OF D(1,2) [unfolded bs]]) (simp_all add: p_def)
  then have "heap_ok h'' (as @ taken k s @ cs)"
    using seg ext D(3,4,5) coalesced_taken [of as s cs k] lf first_free_replace [of as "[(s, False)] @ cs" "taken k s @ cs"]
    by (auto simp: heap_ok_def h''_def bs)
  moreover have "ram h'' = ram h'" by (simp add: h''_def)
  ultimately show thesis by (intro that [OF run'' [unfolded p_def]]) (use rel in \<open>simp_all add: p_def\<close>)
qed

end
