(* ===== verification/Lwip_Free.thy ===== *)
theory Lwip_Free
  imports Lwip_Alloc
begin

text \<open>
  Freeing and trimming: the block given back becomes free, and is joined with the free blocks
  around it, so that the invariant holds again.
\<close>

section \<open>Plugging holes\<close>

lemma last_block_next:
  "segment r pp p bs \<Longrightarrow> bs \<noteq> [] \<Longrightarrow> mem_next (header r (last_off pp p bs)) = of_nat (p + extent bs)"
proof (induction r pp p bs rule: segment.induct)
  case (2 r pp p s u bs)
  then show ?case by (cases bs) (simp_all add: add.assoc)
qed simp

lemma last_off_bound: "segment r 0 0 bs \<Longrightarrow> last_off 0 0 bs \<le> extent bs"
  using last_off_le [of r 0 0 bs] by auto

lemma first_free_before:
  assumes "segment r 0 0 as" "\<not> list_all snd as"
  shows "first_free 0 (as @ bs) < extent as"
  using assms first_free_less [of as r 0 0] by (simp add: first_free_append)

text \<open>A block and the free one behind it.\<close>

fun joined :: "nat \<Rightarrow> layout \<Rightarrow> layout" where
  "joined s ((t, False) # cs) = (s + t, False) # cs"
| "joined s cs = (s, False) # cs"

lemma plug_next_joined:
  assumes seg: "segment (ram h) 0 0 (as @ (s, False) # cs)" and ext: "extent (as @ (s, False) # cs) = 1600"
    and end_used: "mem_used (header (ram h) 1600) = 1"
    and p: "p = extent as" and lf: "lfree h = of_nat l" "l \<le> p"
  obtains h' q where "plug_next (of_nat p) h = Some h'" "lfree h' = lfree h"
    "segment (ram h') 0 0 (as @ joined s cs)" "extent (as @ joined s cs) = 1600"
    "\<And>a. a < p \<or> p + 2 \<le> a \<and> a < p + s \<or> a \<in> data_bytes (p + s) cs \<Longrightarrow> ram h' a = ram h a"
    "header (ram h') 1600 = header (ram h) 1600"
proof (cases "\<exists>t ds. cs = (t, False) # ds")
  case True
  then obtain t ds where cs: "cs = (t, False) # ds" by auto
  have seg2: "segment (ram h) 0 0 (as @ [(s, False), (t, False)] @ ds)"
    and ext2: "extent (as @ [(s, False), (t, False)] @ ds) = 1600" using seg ext by (simp_all add: cs)
  have hd: "header (ram h) p = \<lparr>mem_next = of_nat (p + s), mem_prev = of_nat (last_off 0 0 as), mem_used = 0\<rparr>"
    and hd2: "header (ram h) (p + s) = \<lparr>mem_next = of_nat (p + s + t), mem_prev = of_nat p, mem_used = 0\<rparr>"
    and s: "20 \<le> s" "20 \<le> t" "p + s + t \<le> 1600" using seg2 ext2 p by simp_all
  have b: "p \<le> 1600" "p + s \<le> 1600" using s by simp_all
  have "of_nat p \<noteq> (of_nat (p + s) :: u16)" "of_nat (p + s) \<noteq> ram_end" "lfree h \<noteq> of_nat (p + s)"
    using s b lf of_nat16_eq [of p "p + s"] of_nat16_eq [of "p + s" 1600] of_nat16_eq [of l "p + s"] by simp_all
  then have step: "plug_next (of_nat p) h =
      do { h \<leftarrow> set_next (of_nat p) (of_nat (p + s + t)) h;
           if ucast (of_nat (p + s + t) :: u16) \<noteq> MEM_SIZE_ALIGNED then set_prev (of_nat (p + s + t)) (of_nat p) h else Some h }"
    unfolding plug_next_def mem_at_offset [OF b(1)] hd Option.bind.bind_lunit mem.simps mem_at_offset [OF b(2)] hd2 Let_def
    by (simp only: simp_thms if_True if_False refl)
  show thesis
  proof (rule join_blocks [OF seg2 ext2 p refl])
    fix h'
    assume run: "do { h \<leftarrow> set_next (of_nat p) (of_nat (p + s + t)) h;
           if ucast (of_nat (p + s + t) :: u16) \<noteq> MEM_SIZE_ALIGNED then set_prev (of_nat (p + s + t)) (of_nat p) h else Some h } = Some h'"
      and seg': "segment (ram h') 0 0 (as @ [(s + t, False)] @ ds)"
      and rel: "relinked p (p + s + t) p (ram h) (ram h')"
      and keep: "\<And>a. p + 2 \<le> a \<Longrightarrow> a < p + s + t \<Longrightarrow> ram h' a = ram h a" and lf': "lfree h' = lfree h"
    show thesis
    proof (rule that [OF step [unfolded run] lf'])
      show "segment (ram h') 0 0 (as @ joined s cs)" "extent (as @ joined s cs) = 1600"
        using seg' ext2 by (simp_all add: cs)
      show "header (ram h') 1600 = header (ram h) 1600"
        using p rel by (intro relinked_end [OF seg2 ext2]) (simp_all add: add.assoc)
      fix a assume "a < p \<or> p + 2 \<le> a \<and> a < p + s \<or> a \<in> data_bytes (p + s) cs"
      then consider "a < p" | "p + 2 \<le> a" "a < p + s + t" | "a \<in> data_bytes (p + s + t) ds" by (auto simp: cs)
      then show "ram h' a = ram h a"
      proof cases
        case 3
        then show ?thesis using p rel by (intro relinked_data [OF seg2 p refl]) (simp_all add: add.assoc)
      qed (use keep rel in \<open>auto simp: relinked_def\<close>)
    qed
  qed
next
  case False
  have hd: "header (ram h) p = \<lparr>mem_next = of_nat (p + s), mem_prev = of_nat (last_off 0 0 as), mem_used = 0\<rparr>"
    and b: "p \<le> 1600" "p + s \<le> 1600" using seg ext p by simp_all
  have "mem_used (header (ram h) (p + s)) = 1"
  proof (cases cs)
    case Nil
    then have "p + s = 1600" using ext p by simp
    then show ?thesis using end_used by simp
  next
    case (Cons b ds)
    then show ?thesis using False seg p by (cases b) simp
  qed
  then have "plug_next (of_nat p) h = Some h"
    unfolding plug_next_def mem_at_offset [OF b(1)] hd Option.bind.bind_lunit mem.simps mem_at_offset [OF b(2)] by simp
  moreover have "joined s cs = (s, False) # cs" using False by (cases "(s, cs)" rule: joined.cases) auto
  ultimately show thesis using seg ext by (intro that) simp_all
qed

text \<open>A free block and the free one before it.\<close>

definition merged :: "layout \<Rightarrow> nat \<Rightarrow> layout \<Rightarrow> layout" where
  "merged as s cs =
     (if as \<noteq> [] \<and> \<not> snd (last as) then butlast as @ (fst (last as) + s, False) # cs else as @ (s, False) # cs)"

lemma plug_prev_merged:
  assumes seg: "segment (ram h) 0 0 (as @ (s, False) # cs)" and ext: "extent (as @ (s, False) # cs) = 1600"
    and p: "p = extent as" and lf: "lfree h = of_nat (first_free 0 (as @ (s, False) # cs))"
  obtains h' where "plug_prev (of_nat p) h = Some h'" "lfree h' = lfree h"
    "segment (ram h') 0 0 (merged as s cs)" "extent (merged as s cs) = 1600"
    "\<And>a. a \<in> data_bytes 0 as \<or> p \<le> a \<and> a < p + s \<or> a \<in> data_bytes (p + s) cs \<Longrightarrow> ram h' a = ram h a"
    "header (ram h') 1600 = header (ram h) 1600"
proof (cases as rule: rev_cases)
  case Nil
  then have "header (ram h) 0 = \<lparr>mem_next = of_nat s, mem_prev = 0, mem_used = 0\<rparr>" "p = 0"
    using seg p by simp_all
  then have "plug_prev (of_nat p) h = Some h"
    using mem_at_offset [of 0 h] by (simp add: plug_prev_def)
  then show thesis using seg ext Nil by (intro that) (simp_all add: merged_def)
next
  case (snoc as' b)
  obtain t u where b: "b = (t, u)" by (cases b)
  define p' where "p' = extent as'"
  have pt: "p = p' + t" "last_off 0 0 as = p'" using p by (simp_all add: snoc b p'_def)
  have hd: "header (ram h) p = \<lparr>mem_next = of_nat (p + s), mem_prev = of_nat p', mem_used = 0\<rparr>"
    and hd': "header (ram h) p' = \<lparr>mem_next = of_nat (p' + t), mem_prev = of_nat (last_off 0 0 as'), mem_used = of_bool u\<rparr>"
    and s: "20 \<le> s" "20 \<le> t" "p + s \<le> 1600" using seg ext p pt by (simp_all add: snoc b p'_def)
  have bnd: "p \<le> 1600" "p' \<le> 1600" using s pt by simp_all
  have neq: "of_nat p' \<noteq> (of_nat p :: u16)" using of_nat16_eq [of p' p] bnd s pt by simp
  show thesis
  proof (cases u)
    case True
    then have "plug_prev (of_nat p) h = Some h"
      unfolding plug_prev_def mem_at_offset [OF bnd(1)] hd Option.bind.bind_lunit mem.simps mem_at_offset [OF bnd(2)] hd' by simp
    then show thesis using seg ext True by (intro that) (simp_all add: merged_def snoc b)
  next
    case False
    have seg2: "segment (ram h) 0 0 (as' @ [(t, False), (s, False)] @ cs)"
      and ext2: "extent (as' @ [(t, False), (s, False)] @ cs) = 1600" using seg ext False by (simp_all add: snoc b)
    have "\<not> list_all snd as" using False by (simp add: snoc b)
    then have "first_free 0 (as @ (s, False) # cs) < p"
      using seg unfolding p by (intro first_free_before [of "ram h"]) simp_all
    then have lf2: "lfree h \<noteq> of_nat p"
      using bnd of_nat16_eq [of "first_free 0 (as @ (s, False) # cs)" p] unfolding lf by simp
    have step: "plug_prev (of_nat p) h =
      do { h \<leftarrow> set_next (of_nat p') (of_nat (p + s)) h;
           if ucast (of_nat (p + s) :: u16) \<noteq> MEM_SIZE_ALIGNED then set_prev (of_nat (p + s)) (of_nat p') h else Some h }"
      using neq lf2 False unfolding plug_prev_def mem_at_offset [OF bnd(1)] hd Option.bind.bind_lunit mem.simps
        mem_at_offset [OF bnd(2)] hd' Let_def of_bool_def
      by (simp only: simp_thms if_True if_False refl)
    show thesis
    proof (rule join_blocks [OF seg2 ext2 p'_def refl, folded pt(1)])
      fix h'
      assume run: "do { h \<leftarrow> set_next (of_nat p') (of_nat (p + s)) h;
             if ucast (of_nat (p + s) :: u16) \<noteq> MEM_SIZE_ALIGNED then set_prev (of_nat (p + s)) (of_nat p') h else Some h } = Some h'"
        and seg': "segment (ram h') 0 0 (as' @ [(t + s, False)] @ cs)"
        and rel: "relinked p' (p + s) p' (ram h) (ram h')"
        and keep: "\<And>a. p' + 2 \<le> a \<Longrightarrow> a < p + s \<Longrightarrow> ram h' a = ram h a" and lf': "lfree h' = lfree h"
      show thesis
      proof (rule that [OF step [unfolded run] lf'])
        show "segment (ram h') 0 0 (merged as s cs)" "extent (merged as s cs) = 1600"
          using seg' ext2 False by (simp_all add: merged_def snoc b)
        show "header (ram h') 1600 = header (ram h) 1600"
          using p'_def pt rel by (intro relinked_end [OF seg2 ext2]) (simp_all add: add.assoc)
        fix a assume "a \<in> data_bytes 0 as \<or> p \<le> a \<and> a < p + s \<or> a \<in> data_bytes (p + s) cs"
        then consider "p \<le> a" "a < p + s" | "a \<in> data_bytes 0 as' \<union> data_bytes (p + s) cs"
          using False by (auto simp: snoc b)
        then show "ram h' a = ram h a"
        proof cases
          case 1
          then show ?thesis using keep [of a] s pt by simp
        next
          case 2
          then show ?thesis using p'_def pt rel by (intro relinked_data [OF seg2 p'_def refl]) (simp_all add: add.assoc)
        qed
      qed
    qed
  qed
qed

section \<open>Freeing a block\<close>

definition released :: "layout \<Rightarrow> nat \<Rightarrow> layout \<Rightarrow> layout" where
  "released as s cs = merged as (fst (hd (joined s cs))) (tl (joined s cs))"

lemma joined_Cons: "joined s cs = (fst (hd (joined s cs)), False) # tl (joined s cs)"
  by (cases "(s, cs)" rule: joined.cases) auto

lemma coalesced_released:
  assumes "coalesced (as @ (s, True) # cs)"
  shows "coalesced (released as s cs)"
proof -
  obtain s' ds where j: "joined s cs = (s', False) # ds" using joined_Cons by metis
  have "coalesced ds" "ds = [] \<or> snd (hd ds)"
    using assms j by (cases "(s, cs)" rule: joined.cases; auto simp: successively_append_iff successively_Cons)+
  moreover have "coalesced as" using assms by (simp add: successively_append_iff)
  ultimately show ?thesis
    unfolding released_def merged_def j
    by (cases as rule: rev_cases) (auto simp: successively_append_iff successively_Cons)
qed

lemma first_free_released: "first_free 0 (released as s cs) = first_free 0 (as @ (t, False) # ds)"
  unfolding released_def merged_def
  by (cases as rule: rev_cases) (auto simp: first_free_append)

lemma link_valid:
  assumes seg: "segment (ram h) 0 0 (as @ (s, u) # cs)" and ext: "extent (as @ (s, u) # cs) = 1600" and p: "p = extent as"
  shows "mem_link_valid (of_nat p) h = Some True"
proof -
  define l where "l = last_off 0 0 as"
  have hd: "header (ram h) p = \<lparr>mem_next = of_nat (p + s), mem_prev = of_nat l, mem_used = of_bool u\<rparr>"
    and b: "p \<le> 1600" "p + s \<le> 1600" using seg ext p by (simp_all add: l_def)
  have l: "l \<le> 1600" using last_off_bound [of "ram h" as] seg b p by (simp add: l_def)
  have prev: "of_nat l \<noteq> (of_nat p :: u16) \<Longrightarrow> mem_next (header (ram h) l) = of_nat p"
    using last_block_next [of "ram h" 0 0 as] seg p by (cases "as = []") (simp_all add: l_def)
  have "p + s \<noteq> 1600 \<Longrightarrow> get16 (ram h) (p + s + 2) = of_nat p"
    using segment_link_back [of "ram h" as "[(s, u)]" cs "p + s"] seg ext p by simp
  then have "of_nat (p + s) \<noteq> ram_end \<Longrightarrow> mem_prev (header (ram h) (p + s)) = of_nat p"
    using b of_nat16_eq [of "p + s" 1600] by (simp add: header_def)
  moreover have "\<not> MEM_SIZE_ALIGNED < ucast (of_nat (p + s) :: u16)" "\<not> MEM_SIZE_ALIGNED < ucast (of_nat l :: u16)"
    using b l by (simp_all add: ucast16 word_less_nat_alt unat32 del: of_nat_add)
  ultimately show ?thesis
    using prev unfolding mem_link_valid_def mem_at_offset [OF b(1)] hd Option.bind.bind_lunit mem.simps
      mem_at_offset [OF b(2)] mem_at_offset [OF l] by auto
qed

lemma freed_block:
  assumes ok: "heap_ok h (as @ (s, True) # cs)" and p: "p = extent as"
  obtains h' where "mem_free (Some (int p + 8)) h = Some h'" "heap_ok h' (released as s cs)"
    "\<And>a. a \<in> data_bytes 0 as \<or> a \<in> data_bytes (p + s) cs \<Longrightarrow> ram h' a = ram h a"
    "mem_used (header (ram h') p) = 0"
proof -
  note D = heap_okD [OF ok]
  have hd: "header (ram h) p = \<lparr>mem_next = of_nat (p + s), mem_prev = of_nat (last_off 0 0 as), mem_used = 1\<rparr>"
    and s: "20 \<le> s" "p + s \<le> 1600" "p \<le> 1600" using D(1,2) p by simp_all
  have "4 dvd p" using segment_extent_dvd [of "ram h" 0 0 as] D(1) p by simp
  then have al: "(int p + 8) mod 4 = 0" by presburger
  define h1 where "h1 = h\<lparr>ram := (ram h)(p + 4 := 0)\<rparr>"
  define h2 where "h2 = (if of_nat p < lfree h1 then h1\<lparr>lfree := of_nat p\<rparr> else h1)"
  have "mem_free (Some (int p + 8)) h = plug_holes (word_of_int (int p)) h2"
    using al s hd link_valid [OF D(1,2) p]
    by (simp add: mem_free_def Let_def mem_at_offset set_at_offset h1_def h2_def)
  then have run: "mem_free (Some (int p + 8)) h = plug_holes (of_nat p) h2" by simp
  have ram2: "ram h2 = (ram h)(p + 4 := 0)" by (simp add: h2_def h1_def)
  have seg2: "segment (ram h2) 0 0 (as @ (s, False) # cs)"
    using use_block(1) [of "ram h" as s True cs p False] D(1,2) p ram2 by simp
  have rel2: "relinked p (p + s) p (ram h) (ram h2)"
    using use_block(2) [of "ram h" as s True cs p False] D(1,2) p ram2 by simp
  have end2: "header (ram h2) 1600 = header (ram h) 1600"
    using p by (intro relinked_end [of "ram h" as "[(s, True)]" cs "p + s" p p, OF _ _ _ rel2]) (use D(1,2) in simp_all)
  have lf2: "lfree h2 = of_nat (first_free 0 (as @ (s, False) # cs))"
  proof (cases "list_all snd as")
    case True
    then have "lfree h = of_nat (first_free (p + s) cs)" "p < first_free (p + s) cs" "first_free (p + s) cs \<le> 1600"
      using D(2,4) p s first_free_le [of "p + s" cs] first_free_ge [of "p + s" cs]
      by (simp_all add: first_free_append)
    then have "of_nat p < lfree h" using s(3) by (simp add: of_nat16_less)
    then show ?thesis using True p by (simp add: h2_def h1_def first_free_append)
  next
    case False
    then have "first_free 0 (as @ (s, False) # cs) < p"
      using D(1) unfolding p by (intro first_free_before [of "ram h"]) simp_all
    then have "\<not> of_nat p < lfree h"
      using D(4) s(3) False of_nat16_less [of p "first_free 0 as"] by (simp add: first_free_append)
    then show ?thesis using D(4) False by (simp add: h2_def h1_def first_free_append)
  qed
  have le: "first_free 0 (as @ (s, False) # cs) \<le> p"
    using first_free_le [of 0 as] by (simp add: first_free_append p)
  obtain h3 where run3: "plug_next (of_nat p) h2 = Some h3" and lf3: "lfree h3 = lfree h2"
    and seg3: "segment (ram h3) 0 0 (as @ joined s cs)" "extent (as @ joined s cs) = 1600"
    and keep3: "\<And>a. a < p \<or> p + 2 \<le> a \<and> a < p + s \<or> a \<in> data_bytes (p + s) cs \<Longrightarrow> ram h3 a = ram h2 a"
    and end3: "header (ram h3) 1600 = header (ram h2) 1600"
    by (rule plug_next_joined [OF seg2 _ _ p lf2 le]) (use D(2) end2 D(5) in simp_all)
  obtain t ds where j: "joined s cs = (t, False) # ds" using joined_Cons by metis
  obtain h4 where run4: "plug_prev (of_nat p) h3 = Some h4" and lf4: "lfree h4 = lfree h3"
    and seg4: "segment (ram h4) 0 0 (merged as t ds)" "extent (merged as t ds) = 1600"
    and keep4: "\<And>a. a \<in> data_bytes 0 as \<or> p \<le> a \<and> a < p + t \<or> a \<in> data_bytes (p + t) ds \<Longrightarrow> ram h4 a = ram h3 a"
    and end4: "header (ram h4) 1600 = header (ram h3) 1600"
    by (rule plug_prev_merged [OF seg3 [unfolded j] p]) (use lf3 lf2 in \<open>simp_all add: first_free_append\<close>)
  have rl: "released as s cs = merged as t ds" by (simp add: released_def j)
  show thesis
  proof (rule that)
    show "mem_free (Some (int p + 8)) h = Some h4" using run run3 run4 by (simp add: plug_holes_def)
    show "heap_ok h4 (released as s cs)"
      unfolding heap_ok_def first_free_released [of as s cs s cs]
      using seg4 end4 end3 end2 D(5) lf4 lf3 lf2 coalesced_released [OF D(3)] rl by simp
    have later: "a \<in> data_bytes (p + t) ds" if "a \<in> data_bytes (p + s) cs" for a
      using that j by (cases "(s, cs)" rule: joined.cases) (auto simp: add.assoc)
    fix a assume "a \<in> data_bytes 0 as \<or> a \<in> data_bytes (p + s) cs"
    moreover from this have "a < p \<or> a \<in> data_bytes (p + s) cs \<and> p + s \<le> a"
      using D(1) p data_bytes_range [of "ram h" 0 0 as a] data_bytes_range [of "ram h" _ "p + s" cs a] by fastforce
    ultimately show "ram h4 a = ram h a"
      using keep4 [of a] keep3 [of a] later s ram2 by auto
  next
    have "20 \<le> t" using seg3 by (simp add: j)
    then show "mem_used (header (ram h4) p) = 0"
      using keep4 [of "p + 4"] keep3 [of "p + 4"] s by (simp add: header_def ram2)
  qed
qed

section \<open>Trimming a block\<close>

text \<open>The rest of a trimmed block joins the free block behind it, or becomes one if it can.\<close>

fun trimmed :: "nat \<Rightarrow> nat \<Rightarrow> layout \<Rightarrow> layout" where
  "trimmed k s ((t, False) # cs) =
     (if k + 8 = s then (s, True) # (t, False) # cs else (k + 8, True) # (s + t - k - 8, False) # cs)"
| "trimmed k s cs = taken k s @ cs"

lemma trimmed_cases:
  obtains "k + 8 = s" "trimmed k s cs = (s, True) # cs"
  | t ds where "k + 8 \<noteq> s" "cs = (t, False) # ds" "trimmed k s cs = (k + 8, True) # (s + t - k - 8, False) # ds"
  | "k + 8 \<noteq> s" "\<forall>t ds. cs \<noteq> (t, False) # ds" "trimmed k s cs = taken k s @ cs"
  by (cases "(k, s, cs)" rule: trimmed.cases; cases "k + 8 = s") (auto simp: taken_def)

lemma coalesced_trimmed:
  assumes "coalesced (as @ (s, True) # cs)"
  shows "coalesced (as @ trimmed k s cs)"
  using assms
  by (cases k s cs rule: trimmed_cases; cases cs)
    (auto simp: taken_def successively_append_iff successively_Cons)

text \<open>The writes of the code, in its order, are those of a split.\<close>

lemma split_writes:
  assumes "p \<le> 1600" "p2 \<le> 1600" "q \<le> 1600" "p + 20 \<le> p2" and used: "ram h (p + 4) = 1"
  shows "do { h \<leftarrow> set_used (of_nat p2) 0 h; h \<leftarrow> set_next (of_nat p2) (of_nat q) h;
              h \<leftarrow> set_prev (of_nat p2) (of_nat p) h; h \<leftarrow> set_next (of_nat p) (of_nat p2) h;
              h \<leftarrow> (if ucast (of_nat q :: u16) \<noteq> MEM_SIZE_ALIGNED then set_prev (of_nat q) (of_nat p2) h else Some h);
              Some (h, r) } = Some (h\<lparr>ram := split_ram p p2 q (ram h)\<rparr>, r)"
proof -
  define X where "X = put16 p (of_nat p2) (put16 (p2 + 2) (of_nat p) (put16 p2 (of_nat q) ((ram h)(p2 + 4 := 0))))"
  have "X (p + 4) = 1" using assms(4) used by (simp add: X_def put16_def)
  then have X: "X(p + 4 := 1) = X" by (rule fun_upd_idem)
  show ?thesis
    using X by (simp add: set_at_offset assms(1,2,3) ucast16_end split_ram_def Let_def X_def)
qed

lemma trim_step:
  assumes ok: "heap_ok h (as @ (s, True) # cs)" and p: "p = extent as" and k: "k = alloc_size (unat n)" "k \<le> 1600"
    and m2: "m2 = header (ram h) (p + s)"
  shows "mem_trim (Some (int p + 8)) n h =
     (if s < k + 8 then Some (h, None) else if k + 8 = s then Some (h, Some (int p + 8))
      else if mem_used m2 = 0
      then do {
        h \<leftarrow> set_used (of_nat (p + (k + 8))) 0 (if lfree h = of_nat (p + s) then h\<lparr>lfree := of_nat (p + (k + 8))\<rparr> else h);
        h \<leftarrow> set_next (of_nat (p + (k + 8))) (mem_next m2) h;
        h \<leftarrow> set_prev (of_nat (p + (k + 8))) (of_nat p) h;
        h \<leftarrow> set_next (of_nat p) (of_nat (p + (k + 8))) h;
        h \<leftarrow> (if ucast (mem_next m2) \<noteq> MEM_SIZE_ALIGNED
              then set_prev (mem_next m2) (of_nat (p + (k + 8))) h else Some h);
        Some (h, Some (int p + 8))
      }
      else if k + 28 \<le> s then do {
        h \<leftarrow> set_used (of_nat (p + (k + 8))) 0 (if of_nat (p + (k + 8)) < lfree h then h\<lparr>lfree := of_nat (p + (k + 8))\<rparr> else h);
        h \<leftarrow> set_next (of_nat (p + (k + 8))) (of_nat (p + s)) h;
        h \<leftarrow> set_prev (of_nat (p + (k + 8))) (of_nat p) h;
        h \<leftarrow> set_next (of_nat p) (of_nat (p + (k + 8))) h;
        h \<leftarrow> (if ucast (of_nat (p + s) :: u16) \<noteq> MEM_SIZE_ALIGNED
              then set_prev (of_nat (p + s)) (of_nat (p + (k + 8))) h else Some h);
        Some (h, Some (int p + 8))
      }
      else Some (h, Some (int p + 8)))"
proof -
  note D = heap_okD [OF ok]
  note r = rounded_size [of n, folded k(1)]
  have hd: "header (ram h) p = \<lparr>mem_next = of_nat (p + s), mem_prev = of_nat (last_off 0 0 as), mem_used = 1\<rparr>"
    and s: "20 \<le> s" "p + s \<le> 1600" "p \<le> 1600" using D(1,2) p by simp_all
  have guard: "(MEM_SIZE_ALIGNED < ucast (of_nat k :: u16) \<or> of_nat k < n) = False"
    using r(1) k(2) unfolding r(2) [OF k(2)] by simp
  have range: "(int p + 8 < 0 \<or> 1600 \<le> int p + 8) = False" "(int p + 8 < 8) = False" using s by simp_all
  have off: "word_of_int (int p + 8 - 8) = (of_nat p :: u16)" by simp
  have diff: "(of_nat (p + s) - of_nat p :: u16) = of_nat s" by simp
  have "(of_nat s - 8 :: u32) = of_nat (s - 8)" using s(1) by (simp add: of_nat_diff)
  then have sz: "ucast (ucast (of_nat s :: u16) - SIZEOF_STRUCT_MEM) = (of_nat (s - 8) :: u16)"
    using s by (simp add: ucast16 unsigned_of_nat take_bit_nat_eq_self del: of_nat_diff)
  have cmp: "(of_nat (s - 8) :: u16) < of_nat k \<longleftrightarrow> s < k + 8" "(of_nat k :: u16) = of_nat (s - 8) \<longleftrightarrow> k + 8 = s"
    using s k(2) of_nat16_less [of "s - 8" k] of_nat16_eq [of k "s - 8"] by auto
  have "of_nat k + SIZEOF_STRUCT_MEM + MIN_SIZE_ALIGNED = of_nat (k + 20)" by simp
  moreover have "(of_nat (k + 20) :: u32) \<le> of_nat (s - 8) \<longleftrightarrow> k + 28 \<le> s"
    using s k(2) by (subst of_nat32_le) auto
  ultimately have fit: "ucast (of_nat k :: u16) + SIZEOF_STRUCT_MEM + MIN_SIZE_ALIGNED \<le> ucast (of_nat (s - 8) :: u16) \<longleftrightarrow> k + 28 \<le> s"
    using s k(2) by (simp only: ucast16)
  have off2: "ucast (ucast (of_nat p :: u16) + SIZEOF_STRUCT_MEM + ucast (of_nat k :: u16)) = (of_nat (p + (k + 8)) :: u16)"
    if "\<not> s < k + 8" using split_offset [of p k] that s k(2) by (simp only: ucast16)
  show ?thesis
    unfolding mem_trim_def Let_def r(2) [OF k(2)] guard if_False option.case range off
      mem_at_offset [OF s(3)] hd Option.bind.bind_lunit mem.simps diff sz cmp mem_at_offset [OF s(2)] fit m2 [symmetric]
    by (cases "s < k + 8") (simp_all only: off2 if_True if_False simp_thms)
qed

lemma trim_too_large:
  assumes "heap_ok h (as @ (s, True) # cs)" "p = extent as" "k = alloc_size (unat n)" "s < k + 8"
  shows "mem_trim (Some (int p + 8)) n h = Some (h, None)"
proof (cases "1600 < k")
  case True
  then show ?thesis using rounded_size(1) [of n, folded assms(3)] by (simp add: mem_trim_def Let_def)
next
  case False
  then show ?thesis using trim_step [OF assms(1-3) _ refl] assms(4) by simp
qed

lemma split_heap_ok:
  assumes ok: "heap_ok h (as @ ((s, True) # bs) @ cs)" and p: "p = extent as" and q: "q = p + extent ((s, True) # bs)"
    and sizes: "p2 = p + (k + 8)" "12 \<le> k" "4 dvd k" "q = p2 + l" "20 \<le> l"
    and co: "coalesced (as @ (k + 8, True) # (l, False) # cs)"
  shows "heap_ok (h\<lparr>lfree := of_nat (first_free 0 (as @ (k + 8, True) # (l, False) # cs)), ram := split_ram p p2 q (ram h)\<rparr>)
           (as @ (k + 8, True) # (l, False) # cs)"
    and "a \<in> data_bytes 0 as \<or> a \<in> {p + 8..<p2} \<or> a \<in> data_bytes q cs \<Longrightarrow> split_ram p p2 q (ram h) a = ram h a"
proof -
  note D = heap_okD [OF ok]
  have rel: "relinked p q p2 (ram h) (split_ram p p2 q (ram h))"
    using sizes by (intro split_ram_relinked) simp_all
  have "segment (split_ram p p2 q (ram h)) 0 0 (as @ [(k + 8, True), (l, False)] @ cs)"
    using sizes by (intro split_block [OF D(1,2) p q]) simp_all
  moreover have "header (split_ram p p2 q (ram h)) 1600 = header (ram h) 1600"
    using p q rel by (intro relinked_end [OF D(1,2)]) simp_all
  moreover have "extent (as @ (k + 8, True) # (l, False) # cs) = 1600" using D(2) p q sizes by simp
  ultimately show "heap_ok (h\<lparr>lfree := of_nat (first_free 0 (as @ (k + 8, True) # (l, False) # cs)), ram := split_ram p p2 q (ram h)\<rparr>)
           (as @ (k + 8, True) # (l, False) # cs)"
    using D(5) co by (simp add: heap_ok_def del: extent_simps segment_append segment.simps)
  assume "a \<in> data_bytes 0 as \<or> a \<in> {p + 8..<p2} \<or> a \<in> data_bytes q cs"
  then show "split_ram p p2 q (ram h) a = ram h a"
    using relinked_data [OF D(1) p q rel, of a] split_ram_keeps [of p a p2 q "ram h"] sizes by auto
qed

lemma trimmed_block:
  assumes ok: "heap_ok h (as @ (s, True) # cs)" and p: "p = extent as" and k: "k = alloc_size (unat n)" "k + 8 \<le> s"
  obtains h' where "mem_trim (Some (int p + 8)) n h = Some (h', Some (int p + 8))" "heap_ok h' (as @ trimmed k s cs)"
    "\<And>a. a \<in> data_bytes 0 as \<or> a \<in> {p + 8..<p + (k + 8)} \<or> a \<in> data_bytes (p + s) cs \<Longrightarrow> ram h' a = ram h a"
proof -
  note D = heap_okD [OF ok]
  have hd: "ram h (p + 4) = 1" and s: "20 \<le> s" "p + s \<le> 1600" "p \<le> 1600" using D(1,2) p by (simp_all add: header_def)
  have k1600: "k \<le> 1600" using s k(2) by simp
  have k12: "12 \<le> k" "4 dvd k" using alloc_size k(1) by simp_all
  note step = trim_step [OF ok p k(1) k1600 refl]
  note co = coalesced_trimmed [OF D(3), of k]
  have lf: "lfree h = of_nat (if list_all snd as then first_free (p + s) cs else first_free 0 as)"
    using D(4) p by (simp add: first_free_append)
  have before: "first_free 0 as < p" if "\<not> list_all snd as"
    using first_free_before [of "ram h" as "[]"] D(1) p that by simp
  have p2: "p + (k + 8) \<le> 1600" "p + (k + 8) < p + s \<or> k + 8 = s" using s k(2) by linarith+
  show thesis
  proof (cases k s cs rule: trimmed_cases)
    case 1
    then show thesis using step ok by (intro that [of h]) simp_all
  next
    case (2 t ds)
    have ok2: "heap_ok h (as @ ((s, True) # [(t, False)]) @ ds)" using ok 2(2) by simp
    have m2: "header (ram h) (p + s) = \<lparr>mem_next = of_nat (p + s + t), mem_prev = of_nat p, mem_used = 0\<rparr>"
      and q: "p + s + t \<le> 1600" "20 \<le> t" using D(1,2) 2(2) p by simp_all
    define lf' where "lf' = first_free 0 (as @ (k + 8, True) # (s + t - k - 8, False) # ds)"
    define h1 where "h1 = (if lfree h = of_nat (p + s) then h\<lparr>lfree := of_nat (p + (k + 8))\<rparr> else h)"
    have h1: "h1 = h\<lparr>lfree := of_nat lf'\<rparr>"
      using lf before s p of_nat16_eq [of "first_free 0 as" "p + s"] 2(2) by (auto simp: h1_def lf'_def first_free_append)
    have run: "mem_trim (Some (int p + 8)) n h =
        Some (h1\<lparr>ram := split_ram p (p + (k + 8)) (p + s + t) (ram h1)\<rparr>, Some (int p + 8))"
      using split_writes [of p "p + (k + 8)" "p + s + t" h1 "Some (int p + 8)"] p2 q s k12 hd k(2) 2(1)
      unfolding step m2 h1_def [symmetric] mem.simps by (simp add: h1 del: of_nat_add)
    show thesis
      using split_heap_ok [OF ok2 p, of "p + s + t" "p + (k + 8)" k "s + t - k - 8"] k(2) q co k12 2
      by (intro that [OF run]) (simp_all add: h1 lf'_def add.assoc)
  next
    case 3
    have m2: "mem_used (header (ram h) (p + s)) \<noteq> 0"
    proof (cases cs)
      case Nil
      then have "p + s = 1600" using D(2) p by simp
      then show ?thesis using D(5) by simp
    next
      case (Cons b bs)
      then show ?thesis using 3(2) D(1) p by (cases b) simp
    qed
    show thesis
    proof (cases "k + 28 \<le> s")
      case False
      then have "trimmed k s cs = (s, True) # cs" using 3 by (simp add: taken_def)
      then show thesis using step ok m2 False k(2) by (intro that [of h]) simp_all
    next
      case True
      have ok3: "heap_ok h (as @ ((s, True) # []) @ cs)" using ok by simp
      define lf' where "lf' = first_free 0 (as @ (k + 8, True) # (s - k - 8, False) # cs)"
      define h1 where "h1 = (if of_nat (p + (k + 8)) < lfree h then h\<lparr>lfree := of_nat (p + (k + 8))\<rparr> else h)"
      have "first_free (p + s) cs \<le> 1600" "p + s \<le> first_free (p + s) cs"
        using first_free_le [of "p + s" cs] first_free_ge [of "p + s" cs] D(2) p by simp_all
      then have h1: "h1 = h\<lparr>lfree := of_nat lf'\<rparr>"
        using lf before s p of_nat16_less [of "p + (k + 8)" "first_free 0 as"]
          of_nat16_less [of "p + (k + 8)" "first_free (p + s) cs"] p2 True
        by (auto simp: h1_def lf'_def first_free_append)
      have run: "mem_trim (Some (int p + 8)) n h =
          Some (h1\<lparr>ram := split_ram p (p + (k + 8)) (p + s) (ram h1)\<rparr>, Some (int p + 8))"
        using split_writes [of p "p + (k + 8)" "p + s" h1 "Some (int p + 8)"] p2 s k12 hd k(2) m2 True
        unfolding step h1_def [symmetric] by (simp add: h1 del: of_nat_add)
      have tr: "trimmed k s cs = (k + 8, True) # (s - k - 8, False) # cs" using 3(3) True by (simp add: taken_def)
      have q3: "p + s = p + extent [(s, True)]" "p + s = p + (k + 8) + (s - k - 8)" "20 \<le> s - k - 8" using True by simp_all
      note new = split_heap_ok [OF ok3 p q3(1) refl k12 q3(2,3) co [unfolded tr]]
      show thesis
      proof (rule that [OF run])
        show "heap_ok (h1\<lparr>ram := split_ram p (p + (k + 8)) (p + s) (ram h1)\<rparr>) (as @ trimmed k s cs)"
          using new(1) unfolding h1 lf'_def tr by simp
        show "ram (h1\<lparr>ram := split_ram p (p + (k + 8)) (p + s) (ram h1)\<rparr>) a = ram h a"
          if "a \<in> data_bytes 0 as \<or> a \<in> {p + 8..<p + (k + 8)} \<or> a \<in> data_bytes (p + s) cs" for a
          using new(2) [OF that] by (simp add: h1)
      qed
    qed
  qed
qed

end
