(* ===== verification/Lwip_Store.thy ===== *)
theory Lwip_Store
  imports Lwip_Free
begin

text \<open>
  What the heap promises its clients: a store of separate blocks, each with an address and contents
  of its own. The interface is a locale; its laws are proved for the code's operations, and any
  sequence of a client's calls behaves as the store says.
\<close>

section \<open>The blocks handed out\<close>

lemma allocated_split:
  "(d, k) \<in> set (allocated p bs) \<Longrightarrow>
   \<exists>as s cs. bs = as @ (s, True) # cs \<and> d = p + extent as + 8 \<and> k = s - 8"
proof (induction p bs rule: allocated.induct)
  case (2 p s u bs)
  show ?case
  proof (cases "u \<and> (d, k) = (p + 8, s - 8)")
    case True
    then show ?thesis by (intro exI [of _ "[]"]) auto
  next
    case False
    then have "(d, k) \<in> set (allocated (p + s) bs)" using 2(2) by (auto split: if_splits)
    then obtain as t cs where "bs = as @ (t, True) # cs" "d = p + s + extent as + 8" "k = t - 8" using 2(1) by auto
    then show ?thesis by (intro exI [of _ "(s, u) # as"]) auto
  qed
qed simp

lemma allocated_range:
  assumes "segment r pp p bs" "(d, k) \<in> set (allocated p bs)"
  shows "p + 8 \<le> d \<and> d + k \<le> p + extent bs \<and> 12 \<le> k \<and> 4 dvd d - p"
proof -
  obtain as s cs where bs: "bs = as @ (s, True) # cs" and d: "d = p + extent as + 8" "k = s - 8"
    using allocated_split [OF assms(2)] by auto
  have "4 dvd extent as" "20 \<le> s" using assms(1) segment_extent_dvd [of r pp p as] by (simp_all add: bs)
  then show ?thesis using d by (auto simp: bs)
qed

lemma allocated_taken: "allocated p (taken k s) = [(p + 8, if k + 28 \<le> s then k else s - 8)]"
  by (simp add: taken_def)

lemma allocated_joined: "allocated p (joined s cs) = allocated (p + s) cs"
  by (cases "(s, cs)" rule: joined.cases) (simp_all add: add.assoc)

lemma allocated_merged: "allocated p (merged as s cs) = allocated p as @ allocated (p + extent as + s) cs"
  by (cases as rule: rev_cases) (auto simp: merged_def add.assoc)

lemma allocated_released: "allocated p (released as s cs) = allocated p as @ allocated (p + extent as + s) cs"
proof -
  obtain t ds where j: "joined s cs = (t, False) # ds" using joined_Cons by metis
  have "allocated (p + extent as) (joined s cs) = allocated (p + extent as + t) ds" unfolding j by simp
  then have "allocated (p + extent as + t) ds = allocated (p + extent as + s) cs" by (simp only: allocated_joined)
  then show ?thesis by (simp add: released_def j allocated_merged)
qed

lemma allocated_trimmed:
  assumes "k + 8 \<le> s"
  obtains k' where "k \<le> k'" "allocated p (trimmed k s cs) = (p + 8, k') # allocated (p + s) cs"
proof (cases k s cs rule: trimmed_cases)
  case 1
  then show thesis by (intro that [of k]) auto
next
  case (2 t ds)
  then show thesis using assms by (intro that [of k]) (simp_all add: add.assoc)
next
  case 3
  have "k \<le> s - 8" using assms by linarith
  with 3 show thesis
    using assms by (intro that [of "if k + 28 \<le> s then k else s - 8"]) (simp_all add: taken_def add.assoc)
qed

section \<open>A heap that holds a store\<close>

type_synonym store = "nat \<rightharpoonup> u8 list"

definition holds_block :: "heap \<Rightarrow> store \<Rightarrow> nat \<times> nat \<Rightarrow> bool" where
  "holds_block h st b \<longleftrightarrow>
     (case st (fst b) of None \<Rightarrow> False
      | Some xs \<Rightarrow> length xs \<le> snd b \<and> (\<forall>i<length xs. ram h (fst b + i) = xs ! i))"

definition holds :: "heap \<Rightarrow> store \<Rightarrow> bool" where
  "holds h st \<longleftrightarrow>
     (\<exists>bs. heap_ok h bs \<and> dom st = fst ` set (allocated 0 bs) \<and> (\<forall>b \<in> set (allocated 0 bs). holds_block h st b))"

lemma holds_block_cong:
  assumes "(d, k) \<in> set (allocated p bs)" "\<And>a. a \<in> data_bytes p bs \<Longrightarrow> ram h' a = ram h a" "st' d = st d"
  shows "holds_block h st (d, k) \<Longrightarrow> holds_block h' st' (d, k)"
proof -
  have "\<And>i. i < k \<Longrightarrow> d + i \<in> data_bytes p bs" using allocated_data [OF assms(1)] by auto
  then show "holds_block h st (d, k) \<Longrightarrow> holds_block h' st' (d, k)"
    using assms(2,3) by (auto simp: holds_block_def split: option.splits)
qed

text \<open>The blocks other than the one an operation is about.\<close>

lemma holds_others:
  assumes seg: "segment r 0 0 (as @ (s, u) # cs)" and p: "p = extent as"
    and keep: "\<And>a. a \<in> data_bytes 0 as \<or> a \<in> data_bytes (p + s) cs \<Longrightarrow> ram h' a = ram h a"
    and st: "\<And>d. d \<noteq> p + 8 \<Longrightarrow> st' d = st d"
    and b: "b \<in> set (allocated 0 as @ allocated (p + s) cs)" "holds_block h st b"
  shows "holds_block h' st' b" and "fst b \<noteq> p + 8"
proof -
  obtain d k where dk: "b = (d, k)" by (cases b)
  have parts: "segment r 0 0 as" "segment r p (p + s) cs" using seg p by simp_all
  have r: "(d, k) \<in> set (allocated 0 as) \<Longrightarrow> d + k \<le> p \<and> 12 \<le> k"
    using allocated_range [OF parts(1), of d k] p by simp
  have r2: "(d, k) \<in> set (allocated (p + s) cs) \<Longrightarrow> p + s + 8 \<le> d \<and> 20 \<le> s"
    using allocated_range [OF parts(2), of d k] seg p by simp
  show ne: "fst b \<noteq> p + 8" using r r2 b(1) dk by auto
  show "holds_block h' st' b"
    using b holds_block_cong [of d k 0 as h' h st' st] holds_block_cong [of d k "p + s" cs h' h st' st]
      keep st [of d] ne unfolding dk by auto
qed

lemma holdsE:
  assumes "holds h st" "st d = Some xs"
  obtains as s cs where "heap_ok h (as @ (s, True) # cs)" "d = extent as + 8" "length xs \<le> s - 8"
    "\<And>i. i < length xs \<Longrightarrow> ram h (d + i) = xs ! i"
    "dom st = fst ` set (allocated 0 (as @ (s, True) # cs))"
    "\<And>b. b \<in> set (allocated 0 as @ allocated (extent as + s) cs) \<Longrightarrow> holds_block h st b"
proof -
  obtain bs where ok: "heap_ok h bs" and dm: "dom st = fst ` set (allocated 0 bs)"
    and hb: "\<forall>b \<in> set (allocated 0 bs). holds_block h st b" using assms(1) by (auto simp: holds_def)
  obtain k where dk: "(d, k) \<in> set (allocated 0 bs)" using dm assms(2) by force
  then obtain as s cs where bs: "bs = as @ (s, True) # cs" and d: "d = 0 + extent as + 8" "k = s - 8"
    using allocated_split by blast
  have "holds_block h st (d, k)" using hb dk by blast
  then show thesis
    using ok dm hb d assms(2) unfolding bs by (intro that [of as s cs]) (auto simp: holds_block_def)
qed

section \<open>The interface\<close>

text \<open>
  A client sees the store through five calls. Each either leaves the store alone and says so, or
  changes the one block it is about; none fails as long as the client touches only blocks it has.
\<close>

locale block_store =
  fixes holding :: "'h \<Rightarrow> store \<Rightarrow> bool"
    and peek :: "'h \<Rightarrow> nat \<Rightarrow> u8"
    and poke :: "nat \<Rightarrow> u8 \<Rightarrow> 'h \<Rightarrow> 'h"
    and malloc :: "u16 \<Rightarrow> 'h \<Rightarrow> ('h \<times> data_ptr) option"
    and calloc :: "u16 \<Rightarrow> u16 \<Rightarrow> 'h \<Rightarrow> ('h \<times> data_ptr) option"
    and free :: "data_ptr \<Rightarrow> 'h \<Rightarrow> 'h option"
    and trim :: "data_ptr \<Rightarrow> u16 \<Rightarrow> 'h \<Rightarrow> ('h \<times> data_ptr) option"
  assumes malloc_law: "holding h st \<Longrightarrow> malloc n h = Some (h, None) \<or>
      (\<exists>h' d. malloc n h = Some (h', Some (int d)) \<and> d \<notin> dom st \<and>
        holding h' (st(d \<mapsto> map (\<lambda>i. peek h' (d + i)) [0..<unat n])))"
    and calloc_law: "holding h st \<Longrightarrow> calloc c n h = Some (h, None) \<or>
      (\<exists>h' d. calloc c n h = Some (h', Some (int d)) \<and> d \<notin> dom st \<and>
        holding h' (st(d \<mapsto> replicate (unat c * unat n) 0)))"
    and free_law: "holding h st \<Longrightarrow> d \<in> dom st \<Longrightarrow>
      \<exists>h'. free (Some (int d)) h = Some h' \<and> holding h' (st(d := None))"
    and trim_law: "holding h st \<Longrightarrow> st d = Some xs \<Longrightarrow> unat n \<le> length xs \<Longrightarrow>
      \<exists>h'. trim (Some (int d)) n h = Some (h', Some (int d)) \<and> holding h' (st(d \<mapsto> take (unat n) xs))"
    and poke_law: "holding h st \<Longrightarrow> st d = Some xs \<Longrightarrow> i < length xs \<Longrightarrow>
      holding (poke (d + i) v h) (st(d \<mapsto> xs[i := v]))"

datatype call = Malloc u16 | Calloc u16 u16 | Free nat | Trim nat u16 | Write nat nat u8

text \<open>
  A call, with the client's own record of its blocks: what it was given, and what it has written
  since. Calls on blocks the client does not have are not made.
\<close>

fun serve ::
  "('h \<Rightarrow> nat \<Rightarrow> u8) \<Rightarrow> (nat \<Rightarrow> u8 \<Rightarrow> 'h \<Rightarrow> 'h) \<Rightarrow> (u16 \<Rightarrow> 'h \<Rightarrow> ('h \<times> data_ptr) option) \<Rightarrow>
   (u16 \<Rightarrow> u16 \<Rightarrow> 'h \<Rightarrow> ('h \<times> data_ptr) option) \<Rightarrow> (data_ptr \<Rightarrow> 'h \<Rightarrow> 'h option) \<Rightarrow>
   (data_ptr \<Rightarrow> u16 \<Rightarrow> 'h \<Rightarrow> ('h \<times> data_ptr) option) \<Rightarrow> call \<Rightarrow> 'h \<times> store \<Rightarrow> ('h \<times> store) option" where
  "serve peek poke malloc calloc free trim (Malloc n) (h, st) = do {
     (h, r) \<leftarrow> malloc n h;
     Some (h, case r of None \<Rightarrow> st | Some d \<Rightarrow> st(nat d \<mapsto> map (\<lambda>i. peek h (nat d + i)) [0..<unat n]))
   }"
| "serve peek poke malloc calloc free trim (Calloc c n) (h, st) = do {
     (h, r) \<leftarrow> calloc c n h;
     Some (h, case r of None \<Rightarrow> st | Some d \<Rightarrow> st(nat d \<mapsto> replicate (unat c * unat n) 0))
   }"
| "serve peek poke malloc calloc free trim (Free d) (h, st) =
     (if d \<in> dom st then do { h \<leftarrow> free (Some (int d)) h; Some (h, st(d := None)) } else Some (h, st))"
| "serve peek poke malloc calloc free trim (Trim d n) (h, st) =
     (case st d of
        Some xs \<Rightarrow>
          if unat n \<le> length xs
          then do { (h, r) \<leftarrow> trim (Some (int d)) n h; Some (h, st(d \<mapsto> take (unat n) xs)) } else Some (h, st)
      | None \<Rightarrow> Some (h, st))"
| "serve peek poke malloc calloc free trim (Write d i v) (h, st) =
     (case st d of
        Some xs \<Rightarrow> if i < length xs then Some (poke (d + i) v h, st(d \<mapsto> xs[i := v])) else Some (h, st)
      | None \<Rightarrow> Some (h, st))"

fun all_served :: "('s \<Rightarrow> 'a \<Rightarrow> 'a option) \<Rightarrow> 's list \<Rightarrow> 'a \<Rightarrow> 'a option" where
  "all_served f [] a = Some a"
| "all_served f (c # cs) a = do { a \<leftarrow> f c a; all_served f cs a }"

context block_store
begin

abbreviation "client \<equiv> serve peek poke malloc calloc free trim"

lemma serve_holding:
  assumes "holding h st"
  shows "\<exists>h' st'. client c (h, st) = Some (h', st') \<and> holding h' st'"
proof (cases c)
  case (Malloc n)
  then show ?thesis using malloc_law [OF assms, of n] assms by auto
next
  case (Calloc c n)
  then show ?thesis using calloc_law [OF assms, of c n] assms by auto
next
  case (Free d)
  then show ?thesis using free_law [OF assms, of d] assms by (cases "st d") (auto simp: domIff)
next
  case (Trim d n)
  then show ?thesis using trim_law [OF assms, of d _ n] assms by (cases "st d") auto
next
  case (Write d i v)
  then show ?thesis using poke_law [OF assms, of d _ i v] assms by (cases "st d") auto
qed

lemma all_served_holding: "holding h st \<Longrightarrow> \<exists>h' st'. all_served client cs (h, st) = Some (h', st') \<and> holding h' st'"
proof (induction cs arbitrary: h st)
  case (Cons c cs)
  then show ?case using serve_holding [of h st c] by fastforce
qed simp

end

section \<open>The laws hold for the heap\<close>

definition poke_heap :: "nat \<Rightarrow> u8 \<Rightarrow> heap \<Rightarrow> heap" where
  "poke_heap a v h = h\<lparr>ram := (ram h)(a := v)\<rparr>"

text \<open>A block that changes, with the others as they were.\<close>

lemma holds_changed:
  assumes old: "segment r 0 0 (as @ (s, u) # cs)" and ok: "heap_ok h' bs'"
    and al: "allocated 0 bs' = allocated 0 as @ (extent as + 8, k) # allocated (extent as + s) cs"
    and others: "\<And>b. b \<in> set (allocated 0 as @ allocated (extent as + s) cs) \<Longrightarrow> holds_block h st b"
    and dm: "dom st - {extent as + 8} = fst ` set (allocated 0 as @ allocated (extent as + s) cs)"
    and keep: "\<And>a. a \<in> data_bytes 0 as \<or> a \<in> data_bytes (extent as + s) cs \<Longrightarrow> ram h' a = ram h a"
    and new: "length ys \<le> k" "\<And>i. i < length ys \<Longrightarrow> ram h' (extent as + 8 + i) = ys ! i"
  shows "holds h' (st(extent as + 8 \<mapsto> ys))"
proof -
  have "holds_block h' (st(extent as + 8 \<mapsto> ys)) b" if b: "b \<in> set (allocated 0 bs')" for b
  proof (cases "b = (extent as + 8, k)")
    case True
    then show ?thesis using new by (simp add: holds_block_def)
  next
    case False
    then have "b \<in> set (allocated 0 as @ allocated (extent as + s) cs)" using b al by auto
    then show ?thesis by (intro holds_others(1) [OF old refl keep _ _ others]) simp_all
  qed
  moreover have "dom (st(extent as + 8 \<mapsto> ys)) = fst ` set (allocated 0 bs')"
  proof -
    have "dom (st(extent as + 8 \<mapsto> ys)) = insert (extent as + 8) (dom st - {extent as + 8})" by auto
    also have "\<dots> = fst ` set (allocated 0 bs')" unfolding dm al by (simp add: image_Un)
    finally show ?thesis .
  qed
  ultimately show ?thesis using ok unfolding holds_def by blast
qed

lemma others_elsewhere:
  assumes "segment r 0 0 (as @ (s, True) # cs)"
  shows "extent as + 8 \<notin> fst ` set (allocated 0 as @ allocated (extent as + s) cs)"
  using allocated_range [of r 0 0 as] allocated_range [of r _ "extent as + s" cs] assms by fastforce

lemma dom_others:
  assumes "segment r 0 0 (as @ (s, True) # cs)" "dom st = fst ` set (allocated 0 (as @ (s, True) # cs))"
  shows "dom st - {extent as + 8} = fst ` set (allocated 0 as @ allocated (extent as + s) cs)"
  using others_elsewhere [OF assms(1)] unfolding assms(2) by auto

lemma free_holds:
  assumes "holds h st" "d \<in> dom st"
  shows "\<exists>h'. mem_free (Some (int d)) h = Some h' \<and> holds h' (st(d := None))"
proof -
  obtain xs where "st d = Some xs" using assms(2) by auto
  from assms(1) this obtain as s cs where ok: "heap_ok h (as @ (s, True) # cs)" and d: "d = extent as + 8"
    and "length xs \<le> s - 8" and "\<And>i. i < length xs \<Longrightarrow> ram h (d + i) = xs ! i"
    and dm: "dom st = fst ` set (allocated 0 (as @ (s, True) # cs))"
    and hb: "\<And>b. b \<in> set (allocated 0 as @ allocated (extent as + s) cs) \<Longrightarrow> holds_block h st b"
    by (rule holdsE) blast
  note D = heap_okD [OF ok]
  obtain h' where run: "mem_free (Some (int (extent as) + 8)) h = Some h'" and ok': "heap_ok h' (released as s cs)"
    and keep: "\<And>a. a \<in> data_bytes 0 as \<or> a \<in> data_bytes (extent as + s) cs \<Longrightarrow> ram h' a = ram h a"
    and "mem_used (header (ram h') (extent as)) = 0"
    by (rule freed_block [OF ok refl]) (rule that)
  have "holds_block h' (st(d := None)) b" if "b \<in> set (allocated 0 (released as s cs))" for b
    using that unfolding allocated_released
    by (intro holds_others(1) [OF D(1) refl keep _ _ hb]) (simp_all add: d)
  moreover have "dom (st(d := None)) = fst ` set (allocated 0 (released as s cs))"
    using dom_others [OF D(1) dm] by (simp add: allocated_released d)
  ultimately have "holds h' (st(d := None))" using ok' unfolding holds_def by blast
  then show ?thesis using run by (auto simp: d)
qed

lemma alloc_size_fits:
  assumes "n \<le> s - 8" "20 \<le> s" "4 dvd s"
  shows "alloc_size n + 8 \<le> s"
proof -
  obtain m where m: "s = 4 * m" using assms(3) by auto
  then have "(n + 3) div 4 \<le> (4 * (m - 2) + 3) div 4" using assms(1,2) by (intro div_le_mono) linarith
  then show ?thesis using assms(2) m by (simp add: alloc_size_def)
qed

lemma trim_holds:
  assumes "holds h st" "st d = Some xs" "unat n \<le> length xs"
  shows "\<exists>h'. mem_trim (Some (int d)) n h = Some (h', Some (int d)) \<and> holds h' (st(d \<mapsto> take (unat n) xs))"
proof -
  from assms(1,2) obtain as s cs where ok: "heap_ok h (as @ (s, True) # cs)" and d: "d = extent as + 8"
    and len: "length xs \<le> s - 8" and xs: "\<And>i. i < length xs \<Longrightarrow> ram h (d + i) = xs ! i"
    and dm: "dom st = fst ` set (allocated 0 (as @ (s, True) # cs))"
    and hb: "\<And>b. b \<in> set (allocated 0 as @ allocated (extent as + s) cs) \<Longrightarrow> holds_block h st b"
    by (rule holdsE) blast
  note D = heap_okD [OF ok]
  define k where "k = alloc_size (unat n)"
  have s: "20 \<le> s" "4 dvd s" using D(1) by simp_all
  then have fits: "k + 8 \<le> s" unfolding k_def using len assms(3) by (intro alloc_size_fits) simp_all
  obtain h' where run: "mem_trim (Some (int (extent as) + 8)) n h = Some (h', Some (int (extent as) + 8))"
    and ok': "heap_ok h' (as @ trimmed k s cs)"
    and keep: "\<And>a. a \<in> data_bytes 0 as \<or> a \<in> {extent as + 8..<extent as + (k + 8)} \<or> a \<in> data_bytes (extent as + s) cs
      \<Longrightarrow> ram h' a = ram h a"
    by (rule trimmed_block [OF ok refl k_def fits]) blast
  obtain k' where k': "k \<le> k'" "allocated (extent as) (trimmed k s cs) = (extent as + 8, k') # allocated (extent as + s) cs"
    by (rule allocated_trimmed [OF fits])
  have n: "unat n \<le> k" using alloc_size(3) by (simp add: k_def)
  have "holds h' (st(extent as + 8 \<mapsto> take (unat n) xs))"
  proof (rule holds_changed [OF D(1) ok' _ hb dom_others [OF D(1) dm]])
    show "allocated 0 (as @ trimmed k s cs) = allocated 0 as @ (extent as + 8, k') # allocated (extent as + s) cs"
      using k'(2) by simp
    show "length (take (unat n) xs) \<le> k'" using n k'(1) by simp
    show "ram h' (extent as + 8 + i) = take (unat n) xs ! i" if "i < length (take (unat n) xs)" for i
      using that keep [of "extent as + 8 + i"] xs [of i] n by (simp add: d)
    show "ram h' a = ram h a" if "a \<in> data_bytes 0 as \<or> a \<in> data_bytes (extent as + s) cs" for a
      using that keep by blast
  qed
  then show ?thesis using run by (auto simp: d)
qed

text \<open>Writing the data of blocks leaves the headers alone.\<close>

lemma data_bytes_ge: "a \<in> data_bytes p bs \<Longrightarrow> p + 8 \<le> a"
  by (induction p bs rule: data_bytes.induct) (fastforce split: if_splits)+

lemma segment_write:
  "segment r pp p bs \<Longrightarrow> (\<And>a. a \<notin> data_bytes p bs \<Longrightarrow> p \<le> a \<Longrightarrow> r' a = r a) \<Longrightarrow> segment r' pp p bs"
proof (induction r pp p bs rule: segment.induct)
  case (2 r pp p s u bs)
  have s: "20 \<le> s" using 2(2) by simp
  have "header r' p = header r p"
    using s by (intro header_cong 2(3)) (auto split: if_splits dest: data_bytes_ge)
  moreover have "segment r' p (p + s) bs"
    using 2(2) by (intro 2(1)) (auto intro!: 2(3) split: if_splits)
  ultimately show ?case using 2(2) by simp
qed simp

lemma heap_ok_write:
  assumes ok: "heap_ok h bs" and same: "\<And>a. a \<notin> data_bytes 0 bs \<Longrightarrow> ram g a = ram h a" "lfree g = lfree h"
  shows "heap_ok g bs"
proof -
  note D = heap_okD [OF ok]
  have "segment (ram g) 0 0 bs" using D(1) same(1) by (rule segment_write)
  moreover have "header (ram g) 1600 = header (ram h) 1600"
    using data_bytes_range [OF D(1)] D(2) by (intro header_cong same(1)) fastforce
  ultimately show ?thesis using D same(2) by (simp add: heap_ok_def)
qed

lemma write_holds:
  assumes "holds h st" "st d = Some xs" and len: "length ys = length xs"
    and out: "\<And>a. a < d \<or> d + length xs \<le> a \<Longrightarrow> ram g a = ram h a"
    and ys: "\<And>i. i < length ys \<Longrightarrow> ram g (d + i) = ys ! i" and lf: "lfree g = lfree h"
  shows "holds g (st(d \<mapsto> ys))"
proof -
  from assms(1,2) obtain as s cs where ok: "heap_ok h (as @ (s, True) # cs)" and d: "d = extent as + 8"
    and fit: "length xs \<le> s - 8" and "\<And>i. i < length xs \<Longrightarrow> ram h (d + i) = xs ! i"
    and dm: "dom st = fst ` set (allocated 0 (as @ (s, True) # cs))"
    and hb: "\<And>b. b \<in> set (allocated 0 as @ allocated (extent as + s) cs) \<Longrightarrow> holds_block h st b"
    by (rule holdsE) blast
  note D = heap_okD [OF ok]
  have s: "20 \<le> s" using D(1) by simp
  have ok': "heap_ok g (as @ (s, True) # cs)"
  proof (rule heap_ok_write [OF ok _ lf])
    fix a assume "a \<notin> data_bytes 0 (as @ (s, True) # cs)"
    then have "\<not> (d \<le> a \<and> a < d + length xs)" using fit s d by auto
    then show "ram g a = ram h a" by (intro out) auto
  qed
  have "holds g (st(extent as + 8 \<mapsto> ys))"
  proof (rule holds_changed [OF D(1) ok' _ hb dom_others [OF D(1) dm]])
    show "allocated 0 (as @ (s, True) # cs) = allocated 0 as @ (extent as + 8, s - 8) # allocated (extent as + s) cs"
      by simp
    show "ram g a = ram h a" if "a \<in> data_bytes 0 as \<or> a \<in> data_bytes (extent as + s) cs" for a
      using that data_bytes_range [of "ram h" 0 0 as a] data_bytes_ge [of a "extent as + s" cs] D(1) fit s
      by (intro out) (auto simp: d)
  qed (use len fit ys d in simp_all)
  then show ?thesis by (simp add: d)
qed

lemma poke_holds:
  assumes "holds h st" "st d = Some xs" "i < length xs"
  shows "holds (poke_heap (d + i) v h) (st(d \<mapsto> xs[i := v]))"
proof (rule write_holds [OF assms(1,2)])
  from assms(1,2) obtain as s cs where "heap_ok h (as @ (s, True) # cs)" "d = extent as + 8" "length xs \<le> s - 8"
    and xs: "\<And>i. i < length xs \<Longrightarrow> ram h (d + i) = xs ! i"
    by (rule holdsE) blast
  show "ram (poke_heap (d + i) v h) (d + j) = xs[i := v] ! j" if "j < length (xs[i := v])" for j
    using that assms(3) xs [of j] by (simp add: poke_heap_def nth_list_update)
qed (use assms(3) in \<open>auto simp: poke_heap_def\<close>)

lemma malloc_holds:
  assumes "holds h st"
  shows "mem_malloc n h = Some (h, None) \<or>
    (\<exists>h' d. mem_malloc n h = Some (h', Some (int d)) \<and> d \<notin> dom st \<and>
      holds h' (st(d \<mapsto> map (\<lambda>i. ram h' (d + i)) [0..<unat n])))"
proof -
  define k where "k = alloc_size (unat n)"
  obtain bs where ok: "heap_ok h bs" and dm: "dom st = fst ` set (allocated 0 bs)"
    and hb: "\<And>b. b \<in> set (allocated 0 bs) \<Longrightarrow> holds_block h st b" using assms unfolding holds_def by blast
  show ?thesis
  proof (cases "n = 0 \<or> first_fit k bs = None")
    case True
    then show ?thesis using malloc_none [OF ok, of n] by (simp add: k_def)
  next
    case False
    then obtain as s cs where fit: "first_fit k bs = Some (as, s, cs)" and n: "n \<noteq> 0" by auto
    have bs: "bs = as @ (s, False) # cs" and ks: "k + 8 \<le> s" using first_fit_Some [OF fit] by simp_all
    note D = heap_okD [OF ok, unfolded bs]
    obtain h' l where run: "mem_malloc n h = Some (h', Some (int (extent as) + 8))"
      and ok': "heap_ok h' (as @ taken k s @ cs)" and rel: "relinked (extent as) (extent as + s) l (ram h) (ram h')"
      by (rule malloc_some [OF ok n k_def fit])
    have keep: "ram h' a = ram h a" if "a \<in> data_bytes 0 as \<or> a \<in> data_bytes (extent as + s) cs" for a
      by (rule relinked_data [of "ram h" as "[(s, False)]" cs _ _ l]) (use D(1) rel that in simp_all)
    have others: "holds_block h st b" if "b \<in> set (allocated 0 as @ allocated (extent as + s) cs)" for b
      using hb that unfolding bs by simp
    have fresh: "extent as + 8 \<notin> dom st"
    proof
      assume "extent as + 8 \<in> dom st"
      then have "extent as + 8 \<in> fst ` set (allocated 0 as @ allocated (extent as + s) cs)" using dm unfolding bs by simp
      then obtain b where b: "fst b = extent as + 8" "b \<in> set (allocated 0 as @ allocated (extent as + s) cs)" by force
      then show False using holds_others(2) [OF D(1) refl keep refl b(2) others [OF b(2)]] by simp
    qed
    have "holds h' (st(extent as + 8 \<mapsto> map (\<lambda>i. ram h' (extent as + 8 + i)) [0..<unat n]))"
    proof (rule holds_changed [OF D(1) ok' _ others])
      show "allocated 0 (as @ taken k s @ cs) =
          allocated 0 as @ (extent as + 8, if k + 28 \<le> s then k else s - 8) # allocated (extent as + s) cs"
        using ks by (simp add: allocated_taken extent_taken)
      show "dom st - {extent as + 8} = fst ` set (allocated 0 as @ allocated (extent as + s) cs)"
        using fresh dm unfolding bs by simp
      show "length (map (\<lambda>i. ram h' (extent as + 8 + i)) [0..<unat n]) \<le> (if k + 28 \<le> s then k else s - 8)"
      proof -
        have "unat n \<le> k" "k \<le> s - 8" using alloc_size(3) [of "unat n"] ks unfolding k_def by linarith+
        then show ?thesis by simp
      qed
    qed (use keep in simp_all)
    moreover have "mem_malloc n h = Some (h', Some (int (extent as + 8)))" using run by simp
    ultimately show ?thesis using fresh by blast
  qed
qed

lemma calloc_holds:
  assumes "holds h st"
  shows "mem_calloc c n h = Some (h, None) \<or>
    (\<exists>h' d. mem_calloc c n h = Some (h', Some (int d)) \<and> d \<notin> dom st \<and>
      holds h' (st(d \<mapsto> replicate (unat c * unat n) 0)))"
proof -
  define m where "m = (ucast c * ucast n :: u32)"
  have "unat c * unat n < 65536 * 65536"
    using unat_u16_less [of c] unat_u16_less [of n] by (intro mult_strict_mono) simp_all
  then have m: "unat m = unat c * unat n" by (simp add: m_def unat_word_ariths unat_ucast_16_32)
  show ?thesis
  proof (cases "ucast (ucast m :: u16) = m")
    case False
    then show ?thesis by (simp add: mem_calloc_def Let_def m_def)
  next
    case True
    then have m16: "unat (ucast m :: u16) = unat m" by (metis unat_ucast_16_32)
    consider "mem_malloc (ucast m) h = Some (h, None)"
      | h' d where "mem_malloc (ucast m) h = Some (h', Some (int d))" "d \<notin> dom st"
          "holds h' (st(d \<mapsto> map (\<lambda>i. ram h' (d + i)) [0..<unat m]))"
      using malloc_holds [OF assms, of "ucast m"] unfolding m16 by blast
    then show ?thesis
    proof cases
      case 1
      then show ?thesis using True by (simp add: mem_calloc_def m_def)
    next
      case 2
      have "holds (fill_zero d (unat m) h') (st(d \<mapsto> map (\<lambda>i. ram h' (d + i)) [0..<unat m], d \<mapsto> replicate (unat m) 0))"
        using 2(3) by (rule write_holds) (auto simp: fill_zero_def)
      moreover have "mem_calloc c n h = Some (fill_zero d (unat m) h', Some (int d))"
        using True 2(1) by (simp add: mem_calloc_def Let_def flip: m_def)
      ultimately show ?thesis using 2(2) by (auto simp: m)
    qed
  qed
qed

interpretation lwip_heap: block_store holds "\<lambda>h. ram h" poke_heap mem_malloc mem_calloc mem_free mem_trim
  by unfold_locales (fact malloc_holds calloc_holds free_holds trim_holds poke_holds)+

end
