(* ===== verification/Lwip_Pbuf_Inv.thy ===== *)
theory Lwip_Pbuf_Inv
  imports Lwip_Pbuf Lwip_Store
begin

text \<open>
  The invariant of the packet buffers: every buffer lies in a block of the heap, in an element of its
  pool or with its owner, its payload stays inside that memory, and what is free is in no buffer.
  Every operation keeps it, whatever chains the caller builds.
\<close>

section \<open>The invariant\<close>

text \<open>Where a buffer comes from: its allocation source, or its owner.\<close>

definition kind :: "pbuf \<Rightarrow> u8" where
  "kind b = (if pb_flags b AND PBUF_FLAG_IS_CUSTOM \<noteq> 0 then 0x10 else pbuf_get_allocsrc b)"

abbreviation contiguous :: "pbuf \<Rightarrow> bool" where
  "contiguous b \<equiv> pb_type_internal b AND PBUF_TYPE_FLAG_STRUCT_DATA_CONTIGUOUS \<noteq> 0"

text \<open>The payload lies behind the header and ends within \<open>n\<close> bytes.\<close>

definition inside :: "addr \<Rightarrow> nat \<Rightarrow> pbuf \<Rightarrow> bool" where
  "inside a n b \<longleftrightarrow> contiguous b \<and>
     (\<exists>p. pb_payload b = Some p \<and> fst p = fst a \<and> snd a + 16 \<le> snd p \<and> snd p + uint (pb_len b) \<le> snd a + int n)"

definition pbuf_ok :: "store \<Rightarrow> addr \<Rightarrow> pbuf \<Rightarrow> bool" where
  "pbuf_ok s a b \<longleftrightarrow>
     (if kind b = 0x00 then fst a = Heap \<and> 0 \<le> snd a \<and> (\<exists>xs. s (nat (snd a)) = Some xs \<and> inside a (length xs) b)
      else if kind b = 0x01 then a \<in> elements MEMP_PBUF \<and> \<not> contiguous b
      else if kind b = 0x02 then a \<in> elements MEMP_PBUF_POOL \<and> inside a 608 b
      else kind b = 0x10 \<and> (\<exists>i. fst a = Extern i) \<and> \<not> contiguous b)"

definition pool_ok :: "nat \<Rightarrow> pbufs \<Rightarrow> bool" where
  "pool_ok t st \<longleftrightarrow> offers (pools st) t {a \<in> elements t. pb_at st a = None}"

definition bufs_ok :: "store \<Rightarrow> pbufs \<Rightarrow> bool" where
  "bufs_ok s st \<longleftrightarrow> holds (mem_heap st) s \<and> (\<forall>a b. pb_at st a = Some b \<longrightarrow> pbuf_ok s a b) \<and>
     pool_ok MEMP_PBUF st \<and> pool_ok MEMP_PBUF_POOL st"

definition pbufs_ok :: "pbufs \<Rightarrow> bool" where
  "pbufs_ok st \<longleftrightarrow> (\<exists>s. bufs_ok s st)"

section \<open>Regions\<close>

lemma element_region: "a \<in> elements t \<Longrightarrow> \<exists>i. a = (Element t i, 0)"
  by (auto simp: elements_def)

lemma elements_apart: "a \<in> elements MEMP_PBUF \<Longrightarrow> a \<notin> elements MEMP_PBUF_POOL"
  using elements_disjoint by fastforce

lemma bufs_okD:
  assumes "bufs_ok s st"
  shows "holds (mem_heap st) s" "\<And>a b. pb_at st a = Some b \<Longrightarrow> pbuf_ok s a b"
    "pool_ok MEMP_PBUF st" "pool_ok MEMP_PBUF_POOL st"
  using assms by (auto simp: bufs_ok_def)

text \<open>Only the headers, the pools and the heap matter.\<close>

lemma bufs_ok_cong:
  "pb_at st' = pb_at st \<Longrightarrow> mem_heap st' = mem_heap st \<Longrightarrow> pools st' = pools st \<Longrightarrow> bufs_ok s st' = bufs_ok s st"
  by (simp add: bufs_ok_def pool_ok_def)

lemma set_pb_sel [simp]: "pb_at (set_pb a b st) = (pb_at st)(a \<mapsto> b)" "pools (set_pb a b st) = pools st"
  "mem_heap (set_pb a b st) = mem_heap st" "bytes (set_pb a b st) = bytes st" "custom_freed (set_pb a b st) = custom_freed st"
  "pbuf_free_ooseq_pending (set_pb a b st) = pbuf_free_ooseq_pending st"
  by (simp_all add: set_pb_def)

text \<open>The free elements are those without a header; the interface of the pools hands them out.\<close>

lemma pool_ok_set: "a \<notin> elements t \<or> (pb_at st a = None \<longleftrightarrow> x = None) \<Longrightarrow> pools st' = pools st \<Longrightarrow>
  pb_at st' = (pb_at st)(a := x) \<Longrightarrow> pool_ok t st' = pool_ok t st"
proof -
  assume "a \<notin> elements t \<or> (pb_at st a = None \<longleftrightarrow> x = None)" "pools st' = pools st" "pb_at st' = (pb_at st)(a := x)"
  moreover from this have "{c \<in> elements t. pb_at st' c = None} = {c \<in> elements t. pb_at st c = None}" by auto
  ultimately show ?thesis by (simp add: pool_ok_def)
qed

lemma pool_taken:
  assumes "pool_ok t st" "memp_malloc t (pools st) = (Some a, ps)" "pool_ok u st"
  shows "a \<in> elements t \<and> pb_at st a = None \<and> pool_ok u (set_pb a b (st\<lparr>pools := ps\<rparr>))"
proof -
  have get: "a \<in> {c \<in> elements t. pb_at st c = None}" "offers ps t ({c \<in> elements t. pb_at st c = None} - {a})"
    using memp.get_some [OF assms(1) [unfolded pool_ok_def] assms(2)] by auto
  have "pool_ok u (set_pb a b (st\<lparr>pools := ps\<rparr>))"
  proof (cases "u = t")
    case True
    have "{c \<in> elements t. pb_at st c = None} - {a} = {c \<in> elements t. pb_at (set_pb a b (st\<lparr>pools := ps\<rparr>)) c = None}" by auto
    then show ?thesis using get(2) True by (simp add: pool_ok_def)
  next
    case False
    then have "a \<notin> elements u" using get(1) elements_disjoint by blast
    then have "{c \<in> elements u. pb_at (set_pb a b (st\<lparr>pools := ps\<rparr>)) c = None} = {c \<in> elements u. pb_at st c = None}" by auto
    then show ?thesis using memp.get_other [OF assms(3) [unfolded pool_ok_def] False] assms(2) by (simp add: pool_ok_def)
  qed
  then show ?thesis using get(1) by blast
qed

lemma pool_returned:
  assumes "a \<in> elements t" "pb_at st a \<noteq> None" "pool_ok t st" "pool_ok u st" "pb_at st' = (pb_at st)(a := None)"
    "pools st' = memp_free t (Some a) (pools st)"
  shows "pool_ok u st'"
proof (cases "u = t")
  case True
  have "insert a {c \<in> elements t. pb_at st c = None} = {c \<in> elements t. pb_at st' c = None}" using assms(1,5) by auto
  moreover have "a \<notin> {c \<in> elements t. pb_at st c = None}" using assms(2) by simp
  ultimately show ?thesis using memp.put_same [OF assms(3) [unfolded pool_ok_def], of a] assms(6) True by (simp add: pool_ok_def)
next
  case False
  then have "a \<notin> elements u" using assms(1) elements_disjoint by blast
  then have "{c \<in> elements u. pb_at st' c = None} = {c \<in> elements u. pb_at st c = None}" using assms(5) by auto
  then show ?thesis using memp.put_other [OF assms(4) [unfolded pool_ok_def] False, of a] assms(6) by (simp add: pool_ok_def)
qed

lemma pool_empty: "pool_ok t st \<Longrightarrow> memp_malloc t (pools st) = (None, ps) \<Longrightarrow> ps = pools st"
  using memp.get_none unfolding pool_ok_def by blast

text \<open>A live header that changes without leaving its memory.\<close>

lemma bufs_ok_set:
  assumes "bufs_ok s st" "pb_at st a = Some b" "pbuf_ok s a b'"
  shows "bufs_ok s (set_pb a b' st)"
  using assms pool_ok_set [of a _ st "Some b'" "set_pb a b' st"] by (auto simp: bufs_ok_def)

text \<open>A change of the fields the invariant does not look at.\<close>

lemma pbuf_ok_fields:
  assumes "pbuf_ok s a b" "pb_flags b' = pb_flags b" "pb_type_internal b' = pb_type_internal b"
    "pb_payload b' = pb_payload b" "pb_len b' \<le> pb_len b"
  shows "pbuf_ok s a b'"
proof -
  have "kind b' = kind b" using assms(2,3) by (simp add: kind_def pbuf_get_allocsrc_def)
  moreover have "inside a n b'" if "inside a n b" for n
    using that assms(3-5) unfolding inside_def word_le_def by fastforce
  ultimately show ?thesis using assms(1,3) by (auto simp: pbuf_ok_def split: if_splits)
qed

text \<open>A header in memory just taken.\<close>

lemma bufs_ok_new_element:
  assumes ok: "bufs_ok s st" and t: "t = MEMP_PBUF \<or> t = MEMP_PBUF_POOL"
    and m: "memp_malloc t (pools st) = (Some a, ps)" and b: "pbuf_ok s a b"
  shows "bufs_ok s (set_pb a b (st\<lparr>pools := ps\<rparr>)) \<and> pb_at st a = None"
proof -
  note D = bufs_okD [OF ok]
  have "pool_ok t st" using D t by auto
  note taken = pool_taken [OF this m]
  show ?thesis using taken [OF D(3)] taken [OF D(4)] D b by (auto simp: bufs_ok_def)
qed

section \<open>Freeing\<close>

lemma heap_offset:
  assumes "holds h s" "d \<in> dom s"
  shows "4 dvd d"
proof -
  obtain bs where bs: "heap_ok h bs" "dom s = fst ` set (allocated 0 bs)" using assms(1) by (auto simp: holds_def)
  then obtain k where "(d, k) \<in> set (allocated 0 bs)" using assms(2) by force
  then show ?thesis using allocated_range [OF heap_okD(1) [OF bs(1)]] by fastforce
qed

lemma pbuf_ok_kind: "pbuf_ok s a b \<Longrightarrow> kind b = 0x10 \<or> kind b = 0x02 \<or> kind b = 0x01 \<or> kind b = 0x00"
  by (simp add: pbuf_ok_def split: if_split_asm)

lemma kind_custom: "kind b = 0x10 \<longleftrightarrow> pb_flags b AND PBUF_FLAG_IS_CUSTOM \<noteq> 0"
proof -
  have "pb_type_internal b AND 0x0F \<noteq> 0x10"
  proof
    assume "pb_type_internal b AND 0x0F = 0x10"
    then have "bit (pb_type_internal b AND 0x0F) 4" by simp
    then show False by (simp add: bit_simps)
  qed
  then show ?thesis by (simp add: kind_def pbuf_get_allocsrc_def)
qed

text \<open>Giving back a buffer: the header is gone, a block of the heap is free again, and the owner of a
  custom buffer is called.\<close>

definition without_block :: "addr \<Rightarrow> pbuf \<Rightarrow> store \<Rightarrow> store" where
  "without_block a b s = (if kind b = 0x00 then s(nat (snd a) := None) else s)"

definition owner_called :: "addr \<Rightarrow> pbuf \<Rightarrow> addr list" where
  "owner_called a b = (if kind b = 0x10 then [a] else [])"

lemma dealloc_ok:
  assumes ok: "bufs_ok s st" and a: "pb_at st a = Some b0" and b: "pbuf_ok s a b"
  obtains st' where "dealloc a b st = Some st'" "bufs_ok (without_block a b s) st'" "pb_at st' = (pb_at st)(a := None)"
    "bytes st' = bytes st" "custom_freed st' = custom_freed st @ owner_called a b"
proof -
  note D = bufs_okD [OF ok]
  let ?st = "st\<lparr>pb_at := (pb_at st)(a := None)\<rparr>"
  have others: "pbuf_ok s c e" if "((pb_at st)(a := None)) c = Some e" for c e
    using that D(2) by (auto split: if_splits)
  have kept: "pool_ok u ?st" if "a \<notin> elements u" "pool_ok u st" for u
    using that pool_ok_set [of a u st None ?st] by simp
  consider (custom) "kind b = 0x10" | (pool) "kind b = 0x02" | (ref) "kind b = 0x01" | (heap) "kind b = 0x00"
    using pbuf_ok_kind [OF b] by blast
  then show thesis
  proof cases
    case custom
    have "pb_flags b AND PBUF_FLAG_IS_CUSTOM \<noteq> 0" by (rule iffD1 [OF kind_custom custom])
    moreover have "a \<notin> elements t" for t using b custom element_region by (fastforce simp: pbuf_ok_def)
    moreover have "bufs_ok s (?st\<lparr>custom_freed := custom_freed st @ [a]\<rparr>)"
      using D others kept calculation(2) by (simp add: bufs_ok_def pool_ok_def)
    ultimately show thesis
      using custom by (intro that [of "?st\<lparr>custom_freed := custom_freed st @ [a]\<rparr>"])
        (auto simp: dealloc_def Let_def without_block_def owner_called_def)
  next
    case pool
    let ?new = "?st\<lparr>pools := memp_free MEMP_PBUF_POOL (Some a) (pools st)\<rparr>"
    have "a \<in> elements MEMP_PBUF_POOL" "pb_flags b AND PBUF_FLAG_IS_CUSTOM = 0" "pbuf_get_allocsrc b = 0x02"
      using b pool by (auto simp: pbuf_ok_def kind_def split: if_splits)
    then have "dealloc a b st = Some ?new" "bufs_ok s ?new"
      using D a others pool_returned [of a MEMP_PBUF_POOL st _ ?new] by (auto simp: dealloc_def Let_def bufs_ok_def)
    then show thesis using pool by (intro that [of ?new]) (auto simp: without_block_def owner_called_def)
  next
    case ref
    let ?new = "?st\<lparr>pools := memp_free MEMP_PBUF (Some a) (pools st)\<rparr>"
    have "a \<in> elements MEMP_PBUF" "pb_flags b AND PBUF_FLAG_IS_CUSTOM = 0" "pbuf_get_allocsrc b = 0x01"
      using b ref by (auto simp: pbuf_ok_def kind_def split: if_splits)
    then have "dealloc a b st = Some ?new" "bufs_ok s ?new"
      using D a others pool_returned [of a MEMP_PBUF st _ ?new] by (auto simp: dealloc_def Let_def bufs_ok_def)
    then show thesis using ref by (intro that [of ?new]) (auto simp: without_block_def owner_called_def)
  next
    case heap
    have h: "fst a = Heap" "0 \<le> snd a" "nat (snd a) \<in> dom s" "pb_flags b AND PBUF_FLAG_IS_CUSTOM = 0" "pbuf_get_allocsrc b = 0"
      using b heap by (auto simp: pbuf_ok_def kind_def split: if_splits)
    from lwip_heap.free_law [OF D(1) h(3)] obtain h' where
      h': "mem_free (Some (snd a)) (mem_heap st) = Some h'" "holds h' (s(nat (snd a) := None))" using h(2) by auto
    let ?new = "?st\<lparr>mem_heap := h'\<rparr>"
    have "pbuf_ok (s(nat (snd a) := None)) c e" if c: "((pb_at st)(a := None)) c = Some e" for c e
    proof -
      have "c \<noteq> a" "pbuf_ok s c e" using c others by (auto split: if_splits)
      moreover have "nat (snd c) \<noteq> nat (snd a)" if "fst c = Heap" "0 \<le> snd c"
        using that h(1,2) \<open>c \<noteq> a\<close> by (auto simp: prod_eq_iff)
      ultimately show ?thesis by (auto simp: pbuf_ok_def)
    qed
    moreover have "a \<notin> elements t" for t using h(1) element_region by fastforce
    ultimately have "bufs_ok (s(nat (snd a) := None)) ?new" using D h'(2) kept by (simp add: bufs_ok_def pool_ok_def)
    moreover have "dealloc a b st = Some ?new" using h h' by (simp add: dealloc_def Let_def free_heap_def)
    ultimately show thesis using heap by (intro that [of ?new]) (auto simp: without_block_def owner_called_def)
  qed
qed

lemma free_loop_ok: "free_loop p c st = Some r \<Longrightarrow> pbufs_ok st \<Longrightarrow> pbufs_ok (snd r)"
proof (induction rule: free_loop.raw_induct [rotated, consumes 1])
  case (1 free_loop p c st r)
  show ?case
  proof (cases p)
    case None
    then show ?thesis using 1 by auto
  next
    case (Some a)
    obtain s where ok: "bufs_ok s st" using 1(3) by (auto simp: pbufs_ok_def)
    obtain b where b: "pb_at st a = Some b" using 1(2) Some by (cases "pb_at st a") auto
    define b' where "b' = b\<lparr>pb_ref := pb_ref b - 1\<rparr>"
    have b': "pbuf_ok s a b'" by (rule pbuf_ok_fields [OF bufs_okD(2) [OF ok b]]) (simp_all add: b'_def)
    then have ok': "bufs_ok s (set_pb a b' st)" by (rule bufs_ok_set [OF ok b])
    show ?thesis
    proof (cases "pb_ref b - 1 = 0")
      case True
      obtain st1 where d: "dealloc a b' (set_pb a b' st) = Some st1" "pbufs_ok st1"
        by (rule dealloc_ok [OF ok' _ b', of b']) (auto simp: pbufs_ok_def)
      have "free_loop (pb_next b') (c + 1) st1 = Some r"
        using 1(2) True d(1) by (simp add: Some b b'_def Let_def)
      then show ?thesis using 1(1) d(2) by blast
    next
      case False
      then have "r = (c, set_pb a b' st)" using 1(2) by (simp add: Some b b'_def Let_def)
      then show ?thesis using ok' by (auto simp: pbufs_ok_def)
    qed
  qed
qed

lemma free_ok: "pbuf_free p st = Some (n, st') \<Longrightarrow> pbufs_ok st \<Longrightarrow> pbufs_ok st'"
  using free_loop_ok [of p 0 st] by (fastforce simp: pbuf_free_def split: if_splits)

end
