(* ===== verification/Lwip_Pbuf_Steps.thy ===== *)
theory Lwip_Pbuf_Steps
  imports Lwip_Pbuf_Inv
begin

text \<open>Every operation on packet buffers keeps their invariant.\<close>

section \<open>Headers, lengths and links\<close>

lemma pbufs_ok_set:
  assumes "pbufs_ok st" "pb_at st a = Some b" "\<And>s. pbuf_ok s a b \<Longrightarrow> pbuf_ok s a b'"
  shows "pbufs_ok (set_pb a b' st)"
  using assms bufs_ok_set [OF _ assms(2)] bufs_okD(2) unfolding pbufs_ok_def by blast

text \<open>Fields that say nothing about memory: links, total length, reference count.\<close>

lemma pbufs_ok_fields:
  assumes "pbufs_ok st" "pb_at st a = Some b" "pb_flags b' = pb_flags b" "pb_type_internal b' = pb_type_internal b"
    "pb_payload b' = pb_payload b" "pb_len b' \<le> pb_len b"
  shows "pbufs_ok (set_pb a b' st)"
  by (rule pbufs_ok_set [OF assms(1,2)]) (rule pbuf_ok_fields [OF _ assms(3-6)])

lemma pbufs_ok_cong:
  "pb_at st' = pb_at st \<Longrightarrow> mem_heap st' = mem_heap st \<Longrightarrow> pools st' = pools st \<Longrightarrow> pbufs_ok st' = pbufs_ok st"
  using bufs_ok_cong unfolding pbufs_ok_def by metis

lemma ref_ok: "pbuf_ref p st = Some st' \<Longrightarrow> pbufs_ok st \<Longrightarrow> pbufs_ok st'"
proof (cases p)
  case (Some a)
  assume run: "pbuf_ref p st = Some st'" and ok: "pbufs_ok st"
  obtain b where b: "pb_at st a = Some b" using run Some by (cases "pb_at st a") (auto simp: pbuf_ref_def)
  have "pbufs_ok (set_pb a (b\<lparr>pb_ref := pb_ref b + 1\<rparr>) st)" by (rule pbufs_ok_fields [OF ok b]) simp_all
  then show ?thesis using run Some b by (simp add: pbuf_ref_def)
qed (simp add: pbuf_ref_def)

lemma uint_ucast_16: "x \<le> 0xFFFF \<Longrightarrow> uint (ucast (x :: u32) :: u16) = uint x"
  by (simp add: unsigned_ucast_eq take_bit_int_eq_self word_le_def)

lemma inside_grown:
  assumes "inside a n b" "pb_payload b = Some p" "snd a + 16 \<le> snd p - uint i" "i \<le> 0xFFFF"
  shows "inside a n (b\<lparr>pb_payload := Some (padd p (- uint i)), pb_len := pb_len b + ucast (i :: u32), pb_tot_len := t\<rparr>)"
proof -
  have "uint (pb_len b + ucast i) \<le> uint (pb_len b) + uint (ucast i :: u16)" by (rule uint_add_le)
  then show ?thesis using assms by (auto simp: inside_def padd_def uint_ucast_16)
qed

lemma add_header_ok:
  assumes "pbuf_add_header_impl p i force st = Some (r, st')" "pbufs_ok st"
  shows "pbufs_ok st'"
proof (cases "p = None \<or> 0xFFFF < i \<or> i = 0")
  case True
  then show ?thesis using assms by (auto simp: pbuf_add_header_impl_def split: if_splits)
next
  case False
  then obtain a where p: "p = Some a" "i \<le> 0xFFFF" "i \<noteq> 0" by auto
  obtain b where b: "pb_at st a = Some b" using assms(1) p by (cases "pb_at st a") (simp_all add: pbuf_add_header_impl_def p(2) [folded not_less])
  define grown where "grown = (\<lambda>payload. b\<lparr>pb_payload := Some payload, pb_len := pb_len b + ucast i, pb_tot_len := pb_tot_len b + ucast i\<rparr>)"
  have run: "(if (ucast i :: u16) + pb_tot_len b < ucast i then Some (1, st)
     else if contiguous b
     then do {
       payload \<leftarrow> pb_payload b;
       let payload = padd payload (- uint i);
       if fst payload \<noteq> fst a then None
       else if snd payload < snd a + uint SIZEOF_STRUCT_PBUF then Some (1, st)
       else Some (0, set_pb a (grown payload) st)
     }
     else if force then do { payload \<leftarrow> pb_payload b; Some (0, set_pb a (grown (padd payload (- uint i))) st) }
     else Some (1, st)) = Some (r, st')"
    using assms(1) unfolding grown_def pbuf_add_header_impl_def Let_def
    by (simp add: p(1,3) b p(2) [folded not_less])
  have g: "kind (grown x) = kind b" "contiguous (grown x) = contiguous b" for x
    by (simp_all add: grown_def kind_def pbuf_get_allocsrc_def)
  have "st' = st \<or> (\<exists>q. contiguous b \<and> pb_payload b = Some q \<and> snd a + 16 \<le> snd q - uint i \<and>
        st' = set_pb a (grown (padd q (- uint i))) st) \<or> (\<exists>q. \<not> contiguous b \<and> st' = set_pb a (grown q) st)"
    using run by (cases "pb_payload b") (auto simp: Let_def not_less simp del: split_paired_Ex split_paired_All split: if_splits)
  then consider "st' = st"
    | q where "contiguous b" "pb_payload b = Some q" "snd a + 16 \<le> snd q - uint i" "st' = set_pb a (grown (padd q (- uint i))) st"
    | q where "\<not> contiguous b" "st' = set_pb a (grown q) st"
    by blast
  then show ?thesis
  proof cases
    case 2
    have "inside a n (grown (padd q (- uint i)))" if "inside a n b" for n
      unfolding grown_def by (rule inside_grown [OF that 2(2,3) p(2)])
    then have "pbuf_ok s a (grown (padd q (- uint i)))" if "pbuf_ok s a b" for s
      using that 2(1) unfolding pbuf_ok_def g by (auto split: if_splits)
    then show ?thesis using pbufs_ok_set [OF assms(2) b] 2(4) by blast
  next
    case 3
    have "pbuf_ok s a (grown q)" if "pbuf_ok s a b" for s
      using that 3(1) unfolding pbuf_ok_def g by (auto simp: inside_def split: if_splits)
    then show ?thesis using pbufs_ok_set [OF assms(2) b] 3(2) by blast
  qed (use assms in simp)
qed

lemma inside_shrunk:
  assumes "inside a n b" "ucast i \<le> pb_len b" "i \<le> 0xFFFF" "pb_payload b = Some p"
  shows "inside a n (b\<lparr>pb_payload := Some (padd p (uint i)), pb_len := pb_len b - ucast (i :: u32), pb_tot_len := t\<rparr>)"
proof -
  have "uint (pb_len b - ucast i) = uint (pb_len b) - uint (ucast i :: u16)"
    using assms(2) by (simp add: uint_sub_if' word_le_def)
  moreover have "snd a + 16 \<le> snd p" using assms(1,4) by (auto simp: inside_def)
  then have "snd a + 16 \<le> snd p + uint i" using uint_ge_0 [of i] by linarith
  ultimately show ?thesis using assms by (auto simp: inside_def padd_def uint_ucast_16)
qed

lemma remove_header_ok:
  assumes "pbuf_remove_header p i st = Some (r, st')" "pbufs_ok st"
  shows "pbufs_ok st'"
proof (cases "p = None \<or> 0xFFFF < i \<or> i = 0")
  case True
  then show ?thesis using assms by (auto simp: pbuf_remove_header_def split: if_splits)
next
  case False
  then obtain a where p: "p = Some a" "i \<le> 0xFFFF" "i \<noteq> 0" by auto
  obtain b where b: "pb_at st a = Some b" using assms(1) p by (cases "pb_at st a") (simp_all add: pbuf_remove_header_def p(2) [folded not_less])
  define cut where "cut = (\<lambda>q. b\<lparr>pb_payload := Some (padd q (uint i)), pb_len := pb_len b - ucast i, pb_tot_len := pb_tot_len b - ucast i\<rparr>)"
  have g: "kind (cut x) = kind b" "contiguous (cut x) = contiguous b" for x
    by (simp_all add: cut_def kind_def pbuf_get_allocsrc_def)
  consider "st' = st" | q where "ucast i \<le> pb_len b" "pb_payload b = Some q" "st' = set_pb a (cut q) st"
    using assms(1) p b by (auto simp: pbuf_remove_header_def Let_def bind_eq_Some_conv cut_def split: if_splits)
  then show ?thesis
  proof cases
    case 2
    have "inside a n (cut q)" if "inside a n b" for n
      unfolding cut_def by (rule inside_shrunk [OF that 2(1) p(2) 2(2)])
    then have "pbuf_ok s a (cut q)" if "pbuf_ok s a b" for s
      using that unfolding pbuf_ok_def g by (auto split: if_splits)
    then show ?thesis using pbufs_ok_set [OF assms(2) b] 2(3) by blast
  qed (use assms in simp)
qed

lemma header_impl_ok: "pbuf_header_impl p i force st = Some (r, st') \<Longrightarrow> pbufs_ok st \<Longrightarrow> pbufs_ok st'"
  by (auto simp: pbuf_header_impl_def split: if_splits intro: add_header_ok remove_header_ok)

lemma free_header_ok: "pbuf_free_header p n st = Some r \<Longrightarrow> pbufs_ok st \<Longrightarrow> pbufs_ok (snd r)"
proof (induction rule: pbuf_free_header.raw_induct [rotated, consumes 1])
  case (1 free_header p n st r)
  show ?case
  proof (cases "n \<noteq> 0 \<and> p \<noteq> None")
    case False
    then show ?thesis using 1 by (auto split: if_splits)
  next
    case True
    then obtain a where p: "p = Some a" by auto
    obtain b where b: "pb_at st a = Some b" using 1(2) True p by (auto simp: bind_eq_Some_conv)
    show ?thesis
    proof (cases "pb_len b \<le> n")
      case drop: True
      then obtain m st1 where f: "pbuf_free p (set_pb a (b\<lparr>pb_next := None\<rparr>) st) = Some (m, st1)"
        and rest: "free_header (pb_next b) (n - pb_len b) st1 = Some r"
        using 1(2) True p b by (auto simp: bind_eq_Some_conv)
      have "pbufs_ok (set_pb a (b\<lparr>pb_next := None\<rparr>) st)" by (rule pbufs_ok_fields [OF 1(3) b]) simp_all
      then show ?thesis using 1(1) [OF rest] free_ok [OF f] by blast
    next
      case False
      then obtain m st1 where h: "pbuf_remove_header p (ucast n) st = Some (m, st1)"
        and rest: "free_header p 0 st1 = Some r"
        using 1(2) True p b by (auto simp: bind_eq_Some_conv)
      then show ?thesis using 1(1) [OF rest] remove_header_ok [OF h 1(3)] by blast
    qed
  qed
qed

section \<open>Chains\<close>

lemma cat_loop_ok: "cat_loop p t st = Some st' \<Longrightarrow> pbufs_ok st \<Longrightarrow> pbufs_ok st'"
proof (induction rule: cat_loop.raw_induct [rotated, consumes 1])
  case (1 cat_loop p t st st')
  obtain b tb where b: "pb_at st p = Some b" "pb_at st t = Some tb" using 1(2) by (auto simp: bind_eq_Some_conv)
  define b' where "b' = b\<lparr>pb_tot_len := pb_tot_len b + pb_tot_len tb\<rparr>"
  have ok: "pbufs_ok (set_pb p b' st)" "pbufs_ok (set_pb p (b'\<lparr>pb_next := Some t\<rparr>) st)"
    by (rule pbufs_ok_fields [OF 1(3) b(1)]; simp add: b'_def)+
  have "(case pb_next b' of Some n \<Rightarrow> cat_loop n t (set_pb p b' st) | None \<Rightarrow> Some (set_pb p (b'\<lparr>pb_next := Some t\<rparr>) st)) = Some st'"
    using 1(2) unfolding b'_def by (simp add: b Let_def)
  then show ?case using 1(1) ok by (auto split: option.splits)
qed

lemma cat_ok: "pbuf_cat h t st = Some st' \<Longrightarrow> pbufs_ok st \<Longrightarrow> pbufs_ok st'"
  by (auto simp: pbuf_cat_def split: option.splits intro: cat_loop_ok)

lemma chain_ok: "pbuf_chain h t st = Some st' \<Longrightarrow> pbufs_ok st \<Longrightarrow> pbufs_ok st'"
  by (auto simp: pbuf_chain_def bind_eq_Some_conv intro: cat_ok ref_ok)

lemma dechain_ok:
  assumes "pbuf_dechain p st = Some (q, st')" "pbufs_ok st"
  shows "pbufs_ok st'"
proof -
  obtain a b where a: "p = Some a" "pb_at st a = Some b" using assms(1) by (auto simp: pbuf_dechain_def bind_eq_Some_conv)
  show ?thesis
  proof (cases "pb_next b")
    case None
    then show ?thesis using assms a by (simp add: pbuf_dechain_def Let_def)
  next
    case (Some c)
    obtain qb where qb: "pb_at st c = Some qb" using assms(1) a Some by (auto simp: pbuf_dechain_def bind_eq_Some_conv Let_def)
    define st1 where "st1 = set_pb c (qb\<lparr>pb_tot_len := pb_tot_len b - pb_len b\<rparr>) st"
    have ok1: "pbufs_ok st1" unfolding st1_def by (rule pbufs_ok_fields [OF assms(2) qb]) simp_all
    obtain b1 where b1: "pb_at st1 a = Some b1" using a(2) by (cases "a = c") (auto simp: st1_def)
    define st2 where "st2 = set_pb a (b1\<lparr>pb_next := None, pb_tot_len := pb_len b1\<rparr>) st1"
    have ok2: "pbufs_ok st2" unfolding st2_def by (rule pbufs_ok_fields [OF ok1 b1]) simp_all
    have "\<exists>n. pbuf_free (Some c) st2 = Some (n, st')"
      using assms(1) a Some qb b1 unfolding pbuf_dechain_def st2_def st1_def
      by (auto simp: Let_def bind_eq_Some_conv)
    then show ?thesis using free_ok ok2 by blast
  qed
qed

section \<open>Shrinking\<close>

lemma shrink_loop_ok: "shrink_loop k n q st = Some r \<Longrightarrow> pbufs_ok st \<Longrightarrow>
  pbufs_ok (snd (snd r)) \<and> (\<exists>a b. fst (snd r) = Some a \<and> pb_at (snd (snd r)) a = Some b \<and> fst r \<le> pb_len b)"
proof (induction rule: shrink_loop.raw_induct [rotated, consumes 1])
  case (1 shrink_loop k n q st r)
  obtain a b where q: "q = Some a" "pb_at st a = Some b" using 1(2) by (auto simp: bind_eq_Some_conv)
  show ?case
  proof (cases "pb_len b < n")
    case True
    have "pbufs_ok (set_pb a (b\<lparr>pb_tot_len := pb_tot_len b - k\<rparr>) st)" by (rule pbufs_ok_fields [OF 1(3) q(2)]) simp_all
    then show ?thesis using 1(1,2) q True by simp
  next
    case False
    then have "r = (n, q, st)" using 1(2) q by simp
    then show ?thesis using False q 1(3) by (auto simp: not_less)
  qed
qed

lemma trim_ok:
  assumes ok: "pbufs_ok st" and b: "pb_at st a = Some b"
    and heap: "pbuf_get_allocsrc b = 0x00" "pb_flags b AND PBUF_FLAG_IS_CUSTOM = 0" and n: "n \<le> pb_len b"
  shows "\<exists>st1. trim_block a b n st = Some (Some a, st1) \<and> pb_at st1 = pb_at st \<and> bytes st1 = bytes st \<and> (\<forall>b'. pb_flags b' = pb_flags b \<longrightarrow> pb_type_internal b' = pb_type_internal b \<longrightarrow>
    pb_payload b' = pb_payload b \<longrightarrow> pb_len b' = n \<longrightarrow> pbufs_ok (set_pb a b' st1))"
proof -
  obtain s where s: "bufs_ok s st" using ok by (auto simp: pbufs_ok_def)
  note D = bufs_okD [OF s]
  have k: "kind b = 0" using heap by (simp add: kind_def)
  then obtain xs p where a: "fst a = Heap" "0 \<le> snd a" "s (nat (snd a)) = Some xs" "contiguous b"
      and p: "pb_payload b = Some p" "fst p = fst a" "snd a + 16 \<le> snd p" "snd p + uint (pb_len b) \<le> snd a + int (length xs)"
    using D(2) [OF b] by (auto simp: pbuf_ok_def inside_def)
  define d where "d = nat (snd a)"
  have d: "snd a = int d" "s d = Some xs" using a by (simp_all add: d_def)
  define m where "m = snd p - snd a + uint n"
  have m: "16 \<le> m" "m \<le> int (length xs)" using p(3,4) n uint_ge_0 [of n] unfolding m_def word_le_def by linarith+
  have "length xs \<le> 1600"
  proof -
    obtain bs where bs: "heap_ok (mem_heap st) bs" "dom s = fst ` set (allocated 0 bs)"
      "\<forall>b \<in> set (allocated 0 bs). holds_block (mem_heap st) s b" using D(1) by (auto simp: holds_def)
    then obtain k where "(d, k) \<in> set (allocated 0 bs)" using d(2) by force
    then have "holds_block (mem_heap st) s (d, k)" "d + k \<le> extent bs"
      using bs(3) allocated_range [OF heap_okD(1) [OF bs(1)]] by fastforce+
    then show ?thesis using d(2) heap_okD(2) [OF bs(1)] by (simp add: holds_block_def)
  qed
  then have "unat (word_of_int m :: u16) = nat m" using m by (simp add: unsigned_of_int take_bit_int_eq_self)
  then have w: "unat (word_of_int m :: u16) \<le> length xs" "int (unat (word_of_int m :: u16)) = m" using m by auto
  from lwip_heap.trim_law [OF D(1) d(2) w(1)] obtain h' where
    h': "mem_trim (Some (int d)) (word_of_int m) (mem_heap st) = Some (h', Some (int d))"
      "holds h' (s(d \<mapsto> take (unat (word_of_int m :: u16)) xs))" by blast
  define st1 where "st1 = st\<lparr>mem_heap := h'\<rparr>"
  have run: "trim_block a b n st = Some (Some a, st1)"
    using h'(1) p a(1) d(1) by (simp add: trim_block_def m_def st1_def prod_eq_iff)
  have "pbufs_ok (set_pb a b' st1)" if b': "pb_flags b' = pb_flags b" "pb_type_internal b' = pb_type_internal b"
      "pb_payload b' = pb_payload b" "pb_len b' = n" for b'
  proof -
    let ?s = "s(d \<mapsto> take (unat (word_of_int m :: u16)) xs)"
    have "inside a (length (take (unat (word_of_int m :: u16)) xs)) b'"
      using p w b' a(4) by (auto simp: inside_def m_def min_def)
    moreover have "kind b' = kind b" using b' by (simp add: kind_def pbuf_get_allocsrc_def)
    ultimately have "pbuf_ok ?s a b'" using a k d by (simp add: pbuf_ok_def)
    moreover have "pbuf_ok ?s c e" if "pb_at st c = Some e" "c \<noteq> a" for c e
    proof -
      have "pbuf_ok s c e" using D(2) that(1) by blast
      moreover have "nat (snd c) \<noteq> d" if "fst c = Heap" "0 \<le> snd c"
        using that a(1,2) \<open>c \<noteq> a\<close> by (auto simp: prod_eq_iff d_def)
      ultimately show ?thesis by (auto simp: pbuf_ok_def)
    qed
    ultimately have "bufs_ok ?s (set_pb a b' st1)"
      using D h'(2) b pool_ok_set [of a _ st "Some b'" "set_pb a b' st1"] by (auto simp: bufs_ok_def st1_def)
    then show ?thesis by (auto simp: pbufs_ok_def)
  qed
  then show ?thesis using run by (intro exI [of _ st1]) (auto simp: st1_def)
qed

lemma realloc_ok:
  assumes run: "pbuf_realloc p n st = Some st'" and ok: "pbufs_ok st"
  shows "pbufs_ok st'"
proof -
  obtain b where b: "deref p st = Some b" using run by (auto simp: pbuf_realloc_def bind_eq_Some_conv)
  show ?thesis
  proof (cases "pb_tot_len b \<le> n")
    case True
    then show ?thesis using run ok b by (simp add: pbuf_realloc_def)
  next
    case False
    then obtain m q st1 where s: "shrink_loop (pb_tot_len b - n) n p st = Some (m, q, st1)"
      using run b by (auto simp: pbuf_realloc_def bind_eq_Some_conv Let_def)
    then obtain a b1 where q: "q = Some a" "pb_at st1 a = Some b1" "m \<le> pb_len b1" and ok1: "pbufs_ok st1"
      using shrink_loop_ok [OF s ok] by auto
    define trim where "trim = (pbuf_get_allocsrc b1 = 0x00 \<and> m \<noteq> pb_len b1 \<and> pb_flags b1 AND PBUF_FLAG_IS_CUSTOM = 0)"
    obtain q2 st2 where t: "(if trim then trim_block a b1 m st1 else Some (Some a, st1)) = Some (q2, st2)"
      using run b False s q by (auto simp: pbuf_realloc_def bind_eq_Some_conv Let_def trim_def)
    have q2: "q2 = Some a" "pb_at st2 = pb_at st1"
      and ok2: "\<And>b'. pb_flags b' = pb_flags b1 \<Longrightarrow> pb_type_internal b' = pb_type_internal b1 \<Longrightarrow>
        pb_payload b' = pb_payload b1 \<Longrightarrow> pb_len b' = m \<Longrightarrow> pbufs_ok (set_pb a b' st2)"
      using t trim_ok [OF ok1 q(2), of m] q(3) pbufs_ok_fields [OF ok1 q(2)]
      by (auto simp: trim_def split: if_splits)
    define st3 where "st3 = set_pb a (b1\<lparr>pb_len := m, pb_tot_len := m\<rparr>) st2"
    have ok3: "pbufs_ok st3" unfolding st3_def by (rule ok2) simp_all
    have rest: "do { st \<leftarrow> (if pb_next b1 \<noteq> None then map_option snd (pbuf_free (pb_next b1) st3) else Some st3);
        b \<leftarrow> pb_at st a; Some (set_pb a (b\<lparr>pb_next := None\<rparr>) st) } = Some st'"
      using run b False s q q2 t unfolding st3_def
      by (simp add: pbuf_realloc_def Let_def trim_def [symmetric])
    then obtain st4 b4 where st4: "(if pb_next b1 \<noteq> None then map_option snd (pbuf_free (pb_next b1) st3) else Some st3) = Some st4"
      and b4: "pb_at st4 a = Some b4" and st': "st' = set_pb a (b4\<lparr>pb_next := None\<rparr>) st4"
      by (auto simp: bind_eq_Some_conv)
    have "pbufs_ok st4" using st4 ok3 free_ok [of "pb_next b1" st3] by (auto split: if_splits)
    then show ?thesis unfolding st' by (rule pbufs_ok_fields [OF _ b4]) simp_all
  qed
qed

end
