(* ===== verification/Lwip_Packet.thy ===== *)
theory Lwip_Packet
  imports Lwip_Pbuf
begin

text \<open>
  Chains of packet buffers as lists of headers, packets as byte lists, and what the operations that
  only get_bytes or copy bytes do to them.
\<close>

section \<open>Chains and packets\<close>

type_synonym links = "(addr \<times> pbuf) list"

fun chain :: "pbufs \<Rightarrow> addr option \<Rightarrow> links \<Rightarrow> bool" where
  "chain st p [] \<longleftrightarrow> p = None"
| "chain st p ((a, b) # xs) \<longleftrightarrow> p = Some a \<and> pb_at st a = Some b \<and> chain st (pb_next b) xs"

abbreviation len_of :: "pbuf \<Rightarrow> nat" where
  "len_of b \<equiv> unat (pb_len b)"

definition total :: "links \<Rightarrow> nat" where
  "total xs = sum_list (map (len_of \<circ> snd) xs)"

lemma total_simps [simp]: "total [] = 0" "total (x # xs) = len_of (snd x) + total xs" "total (xs @ ys) = total xs + total ys"
  by (simp_all add: total_def)

text \<open>The invariant stated in \<open>pbuf.h\<close>: every buffer knows the length of what starts with it. A
  buffer without memory is empty.\<close>

fun packet :: "links \<Rightarrow> bool" where
  "packet [] \<longleftrightarrow> True"
| "packet (x # xs) \<longleftrightarrow> unat (pb_tot_len (snd x)) = len_of (snd x) + total xs \<and>
     (pb_payload (snd x) = None \<longrightarrow> pb_len (snd x) = 0) \<and> packet xs"

lemma packet_total: "packet xs \<Longrightarrow> total xs < 65536"
  using unat_u16_less [of "pb_tot_len (snd (hd xs))"] by (cases xs) auto

lemma packet_append: "packet (xs @ ys) \<Longrightarrow> packet ys"
  by (induction xs) simp_all

lemma chain_fun: "chain st p xs \<Longrightarrow> chain st p ys \<Longrightarrow> xs = ys"
proof (induction xs arbitrary: p ys)
  case Nil
  then show ?case by (cases ys) auto
next
  case (Cons x xs)
  then show ?case by (cases x; cases ys) auto
qed

lemma chain_None [simp]: "chain st None xs \<longleftrightarrow> xs = []"
  by (cases xs) auto

lemma chain_Some: "chain st (Some a) xs \<longleftrightarrow> (\<exists>b ys. xs = (a, b) # ys \<and> pb_at st a = Some b \<and> chain st (pb_next b) ys)"
  by (cases xs) auto

lemma chain_same: "(\<And>a. a \<in> fst ` set xs \<Longrightarrow> pb_at st' a = pb_at st a) \<Longrightarrow> chain st' p xs = chain st p xs"
  by (induction xs arbitrary: p) auto

lemma chain_at: "chain st p xs \<Longrightarrow> (a, b) \<in> set xs \<Longrightarrow> pb_at st a = Some b"
  by (induction xs arbitrary: p) auto

lemma chain_deref: "chain st p xs \<Longrightarrow> p = Some a \<Longrightarrow> deref p st = Some (snd (hd xs)) \<and> xs \<noteq> []"
  by (cases xs) (auto simp: deref_def)

section \<open>Bytes\<close>

definition get_bytes :: "addr \<Rightarrow> nat \<Rightarrow> pbufs \<Rightarrow> u8 list" where
  "get_bytes a n st = map (\<lambda>i. bytes st (padd a (int i))) [0 ..< n]"

definition area :: "addr \<Rightarrow> nat \<Rightarrow> addr set" where
  "area a n = (\<lambda>i. padd a (int i)) ` {..< n}"

definition put_bytes :: "addr \<Rightarrow> u8 list \<Rightarrow> pbufs \<Rightarrow> pbufs" where
  "put_bytes a l st = st\<lparr>bytes := (\<lambda>x. if x \<in> area a (length l) then l ! nat (snd x - snd a) else bytes st x)\<rparr>"

lemma area_iff: "x \<in> area a n \<longleftrightarrow> fst x = fst a \<and> snd a \<le> snd x \<and> snd x < snd a + int n"
proof
  assume "fst x = fst a \<and> snd a \<le> snd x \<and> snd x < snd a + int n"
  then have "x = padd a (int (nat (snd x - snd a)))" "nat (snd x - snd a) < n"
    by (auto simp: padd_def prod_eq_iff)
  then show "x \<in> area a n" unfolding area_def by blast
qed (auto simp: area_def)

lemma area_simps [simp]: "area a 0 = {}" "area a (m + n) = area a m \<union> area (padd a (int m)) n"
  by (auto simp: area_iff)

lemma area_mono: "m \<le> n \<Longrightarrow> area a m \<subseteq> area a n"
  by (auto simp: area_iff)

lemma area_part: "k + m \<le> n \<Longrightarrow> area (padd a (int k)) m \<subseteq> area a n"
  by (auto simp: area_iff)

lemma length_get [simp]: "length (get_bytes a n st) = n"
  by (simp add: get_bytes_def)

lemma get_0 [simp]: "get_bytes a 0 st = []"
  by (simp add: get_bytes_def)

lemma nth_get: "i < n \<Longrightarrow> get_bytes a n st ! i = bytes st (padd a (int i))"
  by (simp add: get_bytes_def)

lemma get_add: "get_bytes a (m + n) st = get_bytes a m st @ get_bytes (padd a (int m)) n st"
  by (rule nth_equalityI) (auto simp: nth_get nth_append)

lemma get_cong: "(\<And>x. x \<in> area a n \<Longrightarrow> bytes st' x = bytes st x) \<Longrightarrow> get_bytes a n st' = get_bytes a n st"
  by (simp add: get_bytes_def area_def)

lemma drop_get: "k \<le> n \<Longrightarrow> drop k (get_bytes a n st) = get_bytes (padd a (int k)) (n - k) st"
  using get_add [of a k "n - k" st] by simp

lemma take_get: "k \<le> n \<Longrightarrow> take k (get_bytes a n st) = get_bytes a k st"
  using get_add [of a k "n - k" st] by simp

lemma put_sel [simp]: "pb_at (put_bytes a l st) = pb_at st" "pools (put_bytes a l st) = pools st"
  "mem_heap (put_bytes a l st) = mem_heap st" "custom_freed (put_bytes a l st) = custom_freed st"
  "pbuf_free_ooseq_pending (put_bytes a l st) = pbuf_free_ooseq_pending st"
  by (simp_all add: put_bytes_def)

lemma put_other: "x \<notin> area a (length l) \<Longrightarrow> bytes (put_bytes a l st) x = bytes st x"
  by (simp add: put_bytes_def)

lemma put_nth: "i < length l \<Longrightarrow> bytes (put_bytes a l st) (padd a (int i)) = l ! i"
  by (simp add: put_bytes_def area_iff)

lemma put_Nil [simp]: "put_bytes a [] st = st"
  by (simp add: put_bytes_def)

lemma get_put: "get_bytes a (length l) (put_bytes a l st) = l"
  by (rule nth_equalityI) (simp_all add: nth_get put_nth)

lemma get_put_other: "area a n \<inter> area c (length l) = {} \<Longrightarrow> get_bytes a n (put_bytes c l st) = get_bytes a n st"
  by (rule get_cong) (auto intro: put_other)

lemma put_append: "put_bytes (padd a (int (length l))) l' (put_bytes a l st) = put_bytes a (l @ l') st"
proof -
  have "(if x \<in> area (padd a (int (length l))) (length l') then l' ! nat (snd x - snd (padd a (int (length l))))
      else if x \<in> area a (length l) then l ! nat (snd x - snd a) else v) =
    (if x \<in> area a (length (l @ l')) then (l @ l') ! nat (snd x - snd a) else v)" for x :: addr and v
    by (auto simp: area_iff nth_append nat_less_iff nat_diff_distrib intro!: arg_cong [of _ _ "(!) l'"])
  then show ?thesis by (simp add: put_bytes_def cong: if_cong)
qed

lemma chain_put [simp]: "chain (put_bytes a l st) p xs = chain st p xs"
  by (rule chain_same) simp

lemma memcpy_get: "memcpy (Some d) (Some s) n st = Some (put_bytes d (get_bytes s n st) st)"
proof (cases "n = 0")
  case False
  obtain r k where d: "d = (r, k)" by (cases d)
  have "(\<lambda>(x, i). if x = r \<and> k \<le> i \<and> i < k + int n then bytes st (padd s (i - k)) else bytes st (x, i)) =
    (\<lambda>x. if x \<in> area (r, k) n then get_bytes s n st ! nat (snd x - k) else bytes st x)"
    by (auto simp: area_iff nth_get fun_eq_iff)
  then show ?thesis using False by (simp add: memcpy_def put_bytes_def d cong: if_cong)
qed (simp add: memcpy_def)

lemma memcpy_0 [simp]: "memcpy d s 0 st = Some st"
  by (simp add: memcpy_def)

section \<open>The bytes of a packet\<close>

definition data_area :: "pbuf \<Rightarrow> addr set" where
  "data_area b = (case pb_payload b of None \<Rightarrow> {} | Some a \<Rightarrow> area a (len_of b))"

definition data :: "pbufs \<Rightarrow> pbuf \<Rightarrow> u8 list" where
  "data st b = (case pb_payload b of None \<Rightarrow> [] | Some a \<Rightarrow> get_bytes a (len_of b) st)"

definition areas :: "links \<Rightarrow> addr set" where
  "areas xs = (\<Union>x \<in> set xs. data_area (snd x))"

definition content :: "pbufs \<Rightarrow> links \<Rightarrow> u8 list" where
  "content st xs = concat (map (data st \<circ> snd) xs)"

lemma areas_simps [simp]: "areas [] = {}" "areas (x # xs) = data_area (snd x) \<union> areas xs" "areas (xs @ ys) = areas xs \<union> areas ys"
  by (auto simp: areas_def)

lemma content_simps [simp]: "content st [] = []" "content st (x # xs) = data st (snd x) @ content st xs"
  "content st (xs @ ys) = content st xs @ content st ys"
  by (simp_all add: content_def)

lemma length_data: "pb_payload b \<noteq> None \<or> pb_len b = 0 \<Longrightarrow> length (data st b) = len_of b"
  by (auto simp: data_def split: option.splits)

lemma length_content: "packet xs \<Longrightarrow> length (content st xs) = total xs"
  by (induction xs) (auto simp: length_data)

lemma data_cong: "(\<And>x. x \<in> data_area b \<Longrightarrow> bytes st' x = bytes st x) \<Longrightarrow> data st' b = data st b"
  by (auto simp: data_def data_area_def intro: get_cong split: option.splits)

lemma content_cong: "(\<And>x. x \<in> areas xs \<Longrightarrow> bytes st' x = bytes st x) \<Longrightarrow> content st' xs = content st xs"
proof (induction xs)
  case (Cons x xs)
  then have "data st' (snd x) = data st (snd x)" by (intro data_cong) simp
  then show ?case using Cons by simp
qed simp

lemma content_put: "areas xs \<inter> area a (length l) = {} \<Longrightarrow> content (put_bytes a l st) xs = content st xs"
  by (rule content_cong) (auto intro: put_other)

section \<open>Finding a position\<close>

fun skip :: "nat \<Rightarrow> links \<Rightarrow> links \<times> nat" where
  "skip k [] = ([], k)"
| "skip k (x # xs) = (if len_of (snd x) \<le> k then skip (k - len_of (snd x)) xs else (x # xs, k))"

definition head :: "links \<Rightarrow> addr option" where
  "head xs = (case xs of [] \<Rightarrow> None | x # _ \<Rightarrow> Some (fst x))"

lemma head_simps [simp]: "head [] = None" "head (x # xs) = Some (fst x)"
  by (simp_all add: head_def)

lemma chain_head: "chain st p xs \<Longrightarrow> p = head xs"
  by (cases xs) auto

lemma skip_suffix: "skip k xs = (ys, j) \<Longrightarrow> \<exists>zs. xs = zs @ ys \<and> k = total zs + j \<and> (ys = [] \<or> j < len_of (snd (hd ys)))"
proof (induction k xs rule: skip.induct)
  case (2 k x xs)
  show ?case
  proof (cases "len_of (snd x) \<le> k")
    case True
    then obtain zs where "xs = zs @ ys" "k - len_of (snd x) = total zs + j" "ys = [] \<or> j < len_of (snd (hd ys))"
      using 2 by auto
    then show ?thesis using True by (intro exI [of _ "x # zs"]) auto
  qed (use 2 in auto)
qed simp

lemma skip_beyond: "skip k xs = ([], j) \<Longrightarrow> total xs \<le> k"
  using skip_suffix [of k xs "[]" j] by auto

lemma skip_within:
  assumes "k < total xs"
  obtains zs x ys j where "skip k xs = (x # ys, j)" "xs = zs @ x # ys" "k = total zs + j" "j < len_of (snd x)"
proof -
  obtain ys' j where s: "skip k xs = (ys', j)" by (cases "skip k xs")
  from skip_suffix [OF s] obtain zs where z: "xs = zs @ ys'" "k = total zs + j" "ys' = [] \<or> j < len_of (snd (hd ys'))" by blast
  then obtain x ys where "ys' = x # ys" using assms by (cases ys') auto
  then show thesis using s z by (intro that) auto
qed

lemma chain_append: "chain st p (xs @ ys) \<Longrightarrow> chain st (head ys) ys"
  by (induction xs arbitrary: p) (auto dest: chain_head)

lemma skip_const_is:
  "chain st p xs \<Longrightarrow> pbuf_skip_const p k st = Some (head (fst (skip (unat k) xs)), of_nat (snd (skip (unat k) xs)))"
proof (induction xs arbitrary: p k)
  case Nil
  then show ?case by (simp add: pbuf_skip_const.simps)
next
  case (Cons x xs)
  obtain a b where x: "x = (a, b)" by (cases x)
  have u: "unat (k - pb_len b) = unat k - len_of b" if "pb_len b \<le> k" using that by (simp add: unat_sub)
  show ?case
    by (subst pbuf_skip_const.simps) (use Cons in \<open>simp add: x word_le_nat_alt u\<close>)
qed

end
