(* ===== verification/Lwip_Pbuf_Reach.thy ===== *)
theory Lwip_Pbuf_Reach
  imports Lwip_Pbuf_Steps Lwip_Packet
begin

text \<open>Allocation and copying keep the invariant of the packet buffers; all reachable states have it.\<close>

section \<open>Copying only changes bytes\<close>

definition same_frame :: "pbufs \<Rightarrow> pbufs \<Rightarrow> bool" where
  "same_frame st st' \<longleftrightarrow> pb_at st' = pb_at st \<and> mem_heap st' = mem_heap st \<and> pools st' = pools st"

lemma same_frame_refl [simp]: "same_frame st st"
  by (simp add: same_frame_def)

lemma same_frame_trans [trans]: "same_frame st st' \<Longrightarrow> same_frame st' st'' \<Longrightarrow> same_frame st st''"
  by (simp add: same_frame_def)

lemma same_frame_ok: "same_frame st st' \<Longrightarrow> pbufs_ok st \<Longrightarrow> pbufs_ok st'"
  unfolding same_frame_def using pbufs_ok_cong by blast

lemma memcpy_frame: "memcpy d s n st = Some st' \<Longrightarrow> same_frame st st'"
  by (auto simp: memcpy_def same_frame_def bind_eq_Some_conv split: if_splits)

text \<open>Taking a run of the model apart, one step at a time.\<close>

lemma bind_SomeE: "m \<bind> f = Some r \<Longrightarrow> (\<And>x. m = Some x \<Longrightarrow> f x = Some r \<Longrightarrow> P) \<Longrightarrow> P"
  by (cases m) simp_all

lemma if_SomeE: "(if c then a else b) = Some r \<Longrightarrow> (c \<Longrightarrow> a = Some r \<Longrightarrow> P) \<Longrightarrow> (\<not> c \<Longrightarrow> b = Some r \<Longrightarrow> P) \<Longrightarrow> P"
  by (cases c) simp_all

lemma option_SomeE:
  "(case x of None \<Rightarrow> a | Some y \<Rightarrow> f y) = Some r \<Longrightarrow> (x = None \<Longrightarrow> a = Some r \<Longrightarrow> P) \<Longrightarrow>
   (\<And>y. x = Some y \<Longrightarrow> f y = Some r \<Longrightarrow> P) \<Longrightarrow> P"
  by (cases x) simp_all

lemmas run_elims = bind_SomeE if_SomeE option_SomeE

lemma frame_end: "same_frame st st1 \<Longrightarrow> Some (e, st1) = Some r \<Longrightarrow> same_frame st (snd r)"
  by auto

lemma copy_loop_frame: "copy_loop t f i j st = Some r \<Longrightarrow> same_frame st (snd r)"
proof (induction rule: copy_loop.raw_induct [rotated, consumes 1])
  case (1 copy_loop t f i j st r)
  show ?case
    using 1(2) unfolding Let_def case_prod_beta
    by (elim run_elims) ((erule memcpy_frame [THEN frame_end], assumption) |
      (erule memcpy_frame [THEN same_frame_trans], erule 1(1)))+
qed

lemma copy_frame: "pbuf_copy t f st = Some r \<Longrightarrow> same_frame st (snd r)"
  unfolding pbuf_copy_def by (elim run_elims) (auto dest: copy_loop_frame)

lemma copy_partial_loop_frame: "copy_partial_loop p d l n k c st = Some r \<Longrightarrow> same_frame st (snd r)"
proof (induction rule: copy_partial_loop.raw_induct [rotated, consumes 1])
  case (1 loop p d l n k c st r)
  show ?case
    using 1(2) unfolding Let_def by (elim run_elims) (auto dest!: memcpy_frame 1(1) intro: same_frame_trans)
qed

lemma copy_partial_frame: "pbuf_copy_partial p d n k st = Some r \<Longrightarrow> same_frame st (snd r)"
  by (auto simp: pbuf_copy_partial_def dest: copy_partial_loop_frame split: option.splits)

lemma get_contiguous_frame: "pbuf_get_contiguous p d m n k st = Some r \<Longrightarrow> same_frame st (snd r)"
  unfolding pbuf_get_contiguous_def case_prod_beta by (elim run_elims) (auto dest: copy_partial_frame)

lemma take_loop_frame: "take_loop p d n c st = Some st' \<Longrightarrow> same_frame st st'"
proof (induction rule: take_loop.raw_induct [rotated, consumes 1])
  case (1 loop p d n c st st')
  show ?case
    using 1(2) unfolding Let_def by (elim run_elims) (auto dest!: memcpy_frame 1(1) intro: same_frame_trans)
qed

lemma take_frame: "pbuf_take p d n st = Some r \<Longrightarrow> same_frame st (snd r)"
  unfolding pbuf_take_def prod.case by (elim run_elims) (auto dest: take_loop_frame)

lemma take_at_frame: "pbuf_take_at p d n k st = Some r \<Longrightarrow> same_frame st (snd r)"
  unfolding pbuf_take_at_def Let_def case_prod_beta
  by (elim run_elims) (auto dest!: memcpy_frame take_frame intro: same_frame_trans)

lemma put_at_frame: "pbuf_put_at p k v st = Some st' \<Longrightarrow> same_frame st st'"
  by (auto simp: pbuf_put_at_def same_frame_def bind_eq_Some_conv split: option.splits if_splits)

section \<open>Allocation\<close>

definition layers :: "u16 set" where
  "layers = {PBUF_TRANSPORT, PBUF_IP, PBUF_LINK, PBUF_RAW}"

lemma layer_align: "l \<in> layers \<Longrightarrow> unat (LWIP_MEM_ALIGN_SIZE l) = (unat l + 3) div 4 * 4 \<and> unat l \<le> 54 \<and> (unat l + 3) div 4 \<le> 14"
  by (auto simp: layers_def PBUF_TRANSPORT_def PBUF_IP_def PBUF_LINK_def PBUF_RAW_def LWIP_MEM_ALIGN_SIZE_def)

abbreviation new_pbuf :: "addr option \<Rightarrow> u16 \<Rightarrow> u16 \<Rightarrow> u16 \<Rightarrow> u8 \<Rightarrow> pbuf" where
  "new_pbuf payload tot_len len type flags \<equiv> \<lparr>pb_next = None, pb_payload = payload, pb_tot_len = tot_len, pb_len = len,
     pb_type_internal = ucast type, pb_flags = flags, pb_ref = 1, pb_if_idx = 0\<rparr>"

lemma reference_ok:
  assumes "pbuf_alloc_reference d n t st = (p, st')" "t = PBUF_REF \<or> t = PBUF_ROM" "pbufs_ok st"
  shows "pbufs_ok st'"
proof -
  obtain s where s: "bufs_ok s st" using assms(3) by (auto simp: pbufs_ok_def)
  obtain m ps where m: "memp_malloc MEMP_PBUF (pools st) = (m, ps)" by fastforce
  show ?thesis
  proof (cases m)
    case None
    then have "ps = pools st" using pool_empty [OF bufs_okD(3) [OF s]] m by blast
    then have "st' = st" using assms(1) m None by (simp add: pbuf_alloc_reference_def)
    then show ?thesis using assms(3) by simp
  next
    case (Some a)
    then have "a \<in> elements MEMP_PBUF" using pool_taken bufs_okD(3) [OF s] m by blast
    then have "pbuf_ok s a (new_pbuf d n n t 0)"
      using assms(2) by (auto simp: pbuf_ok_def kind_def pbuf_get_allocsrc_def PBUF_REF_def PBUF_ROM_def)
    from bufs_ok_new_element [OF s _ m [unfolded Some] this] have "bufs_ok s (set_pb a (new_pbuf d n n t 0) (st\<lparr>pools := ps\<rparr>))" by simp
    moreover have "st' = set_pb a (new_pbuf d n n t 0) (st\<lparr>pools := ps\<rparr>)"
      using assms(1) m Some by (simp add: pbuf_alloc_reference_def pbuf_init_alloced_pbuf_def)
    ultimately show ?thesis by (auto simp: pbufs_ok_def)
  qed
qed

lemma custom_ok:
  assumes "pbuf_alloced_custom l n t (Extern i, k) d m st = (p, st')" "pb_at st (Extern i, k) = None"
    "t = PBUF_REF \<or> t = PBUF_ROM" "pbufs_ok st"
  shows "pbufs_ok st'"
proof -
  obtain s where s: "bufs_ok s st" using assms(4) by (auto simp: pbufs_ok_def)
  have new: "pbufs_ok (set_pb (Extern i, k) (new_pbuf q n n t PBUF_FLAG_IS_CUSTOM) st)" for q
  proof -
    have "pbuf_ok s (Extern i, k) (new_pbuf q n n t PBUF_FLAG_IS_CUSTOM)"
      using assms(3) by (auto simp: pbuf_ok_def kind_def PBUF_REF_def PBUF_ROM_def)
    moreover have "(Extern i, k) \<notin> elements u" for u using element_region by blast
    moreover have "pool_ok u (set_pb (Extern i, k) b st) = pool_ok u st" for u b
      by (rule pool_ok_set [of "(Extern i, k)"]) (simp_all add: calculation(2))
    ultimately have "bufs_ok s (set_pb (Extern i, k) (new_pbuf q n n t PBUF_FLAG_IS_CUSTOM) st)"
      using s by (auto simp: bufs_ok_def)
    then show ?thesis by (auto simp: pbufs_ok_def)
  qed
  then show ?thesis using assms(1,4) by (auto simp: pbuf_alloced_custom_def pbuf_init_alloced_pbuf_def Let_def split: if_splits)
qed

text \<open>A buffer of the pool: 592 bytes behind its header, less the room for headers.\<close>

lemma pool_room:
  assumes "l \<in> layers"
  shows "unat (ucast (PBUF_POOL_BUFSIZE_ALIGNED - LWIP_MEM_ALIGN_SIZE l) :: u16) = 592 - (unat l + 3) div 4 * 4"
proof -
  have "unat (PBUF_POOL_BUFSIZE_ALIGNED - LWIP_MEM_ALIGN_SIZE l) = 592 - (unat l + 3) div 4 * 4"
    using layer_align [OF assms] by (subst unat_sub_nat) simp_all
  then show ?thesis by (simp add: unsigned_ucast_eq take_bit_nat_eq_self)
qed

lemma pool_buffer_ok:
  assumes "a \<in> elements MEMP_PBUF_POOL" "l \<in> layers" "q \<le> ucast (PBUF_POOL_BUFSIZE_ALIGNED - LWIP_MEM_ALIGN_SIZE l)"
  shows "pbuf_ok s a (new_pbuf (Some (mem_align (padd a (uint SIZEOF_STRUCT_PBUF + uint l)))) n q PBUF_POOL 0)"
proof -
  obtain i where a: "a = (Element MEMP_PBUF_POOL i, 0)" using element_region [OF assms(1)] by auto
  define v where "v = (unat l + 3) div 4 * 4"
  have v: "unat (LWIP_MEM_ALIGN_SIZE l) = v" "v \<le> 56" using layer_align [OF assms(2)] by (auto simp: v_def)
  have "unat (ucast (PBUF_POOL_BUFSIZE_ALIGNED - LWIP_MEM_ALIGN_SIZE l) :: u16) = 592 - v"
    using pool_room [OF assms(2)] by (simp add: v_def)
  then have "unat q \<le> 592 - v" using assms(3) by (simp add: word_le_nat_alt)
  then have q: "uint q \<le> 592 - int v" using v(2) uint_nat [of q] by linarith
  have "(16 + int (unat l) + 3) div 4 * 4 = 16 + int v" unfolding v_def by (simp add: zdiv_int) presburger
  then have p: "mem_align (padd a (uint SIZEOF_STRUCT_PBUF + uint l)) = (Element MEMP_PBUF_POOL i, 16 + int v)"
    by (simp add: mem_align_def a padd_def)
  let ?b = "new_pbuf (Some (Element MEMP_PBUF_POOL i, 16 + int v)) n q PBUF_POOL 0"
  have "kind ?b = 2" "contiguous ?b" by (simp_all add: kind_def pbuf_get_allocsrc_def PBUF_POOL_def)
  moreover from this(2) have "inside a 608 ?b" using q by (simp add: inside_def a)
  ultimately show ?thesis using assms(1) unfolding p by (simp add: pbuf_ok_def)
qed

lemma pool_loop_ok:
  "pool_loop l n ch st = Some r \<Longrightarrow> l \<in> layers \<Longrightarrow> pbufs_ok st \<Longrightarrow> pbufs_ok (snd r)"
proof (induction rule: pool_loop.raw_induct [rotated, consumes 1])
  case (1 pool_loop l n ch st r)
  obtain s where s: "bufs_ok s st" using 1(4) by (auto simp: pbufs_ok_def)
  obtain m ps where m: "memp_malloc MEMP_PBUF_POOL (pools st) = (m, ps)" by fastforce
  show ?case
  proof (cases m)
    case None
    then have ps: "ps = pools st" using pool_empty [OF bufs_okD(4) [OF s]] m by blast
    let ?st = "pbuf_pool_is_empty (st\<lparr>pools := ps\<rparr>)"
    have ok: "pbufs_ok ?st" using pbufs_ok_cong [of ?st st] 1(4) by (simp add: pbuf_pool_is_empty_def ps)
    have "do { st \<leftarrow> (case ch of None \<Rightarrow> Some ?st | Some (p, _) \<Rightarrow> map_option snd (pbuf_free (Some p) ?st)); Some (None, st) } = Some r"
      using 1(2) m None by (simp add: Let_def)
    then show ?thesis
      using ok by (elim run_elims) (auto dest: free_ok)
  next
    case (Some q)
    define k where "k = min n (ucast (PBUF_POOL_BUFSIZE_ALIGNED - LWIP_MEM_ALIGN_SIZE l) :: u16)"
    define b where "b = new_pbuf (Some (mem_align (padd q (uint SIZEOF_STRUCT_PBUF + uint l)))) n k PBUF_POOL 0"
    define st1 where "st1 = set_pb q b (st\<lparr>pools := ps\<rparr>)"
    have "q \<in> elements MEMP_PBUF_POOL" using pool_taken bufs_okD(4) [OF s] m Some by blast
    then have "pbuf_ok s q b" unfolding b_def using 1(3) by (rule pool_buffer_ok) (simp add: k_def)
    from bufs_ok_new_element [OF s _ m [unfolded Some] this] have ok1: "pbufs_ok st1" by (auto simp: st1_def pbufs_ok_def)
    obtain p st2 where l: "(case ch of None \<Rightarrow> Some (q, st1)
        | Some (p, l) \<Rightarrow> do { b \<leftarrow> pb_at st1 l; Some (p, set_pb l (b\<lparr>pb_next := Some q\<rparr>) st1) }) = Some (p, st2)"
      and rest: "r = (Some p, st2) \<or> pool_loop 0 (n - k) (Some (p, q)) st2 = Some r"
    proof -
      have "do { (p, st) \<leftarrow> (case ch of None \<Rightarrow> Some (q, st1)
            | Some (p, l) \<Rightarrow> do { b \<leftarrow> pb_at st1 l; Some (p, set_pb l (b\<lparr>pb_next := Some q\<rparr>) st1) });
          if 0 < n - k then pool_loop 0 (n - k) (Some (p, q)) st else Some (Some p, st) } = Some r"
        using 1(2) unfolding st1_def b_def k_def m Some Let_def pbuf_init_alloced_pbuf_def prod.case option.case .
      then show thesis by (elim bind_SomeE) (auto intro: that split: if_splits)
    qed
    have "pbufs_ok st2"
    proof (cases ch)
      case None
      then show ?thesis using l ok1 by simp
    next
      case (Some c)
      then obtain lb where "pb_at st1 (snd c) = Some lb" "st2 = set_pb (snd c) (lb\<lparr>pb_next := Some q\<rparr>) st1"
        using l by (auto simp: bind_eq_Some_conv split: prod.splits)
      then show ?thesis using pbufs_ok_fields [OF ok1] by simp
    qed
    moreover have "(0 :: u16) \<in> layers" by (simp add: layers_def PBUF_RAW_def)
    ultimately show ?thesis using rest 1(1) [of 0 "n - k" "Some (p, q)" st2 r] by (elim disjE) simp_all
  qed
qed

text \<open>The block for a buffer: header, aligned room for headers, aligned payload; the guards catch
  lengths that wrap around.\<close>

lemma unat_16_less: "unat (x :: u16) < 65536"
  using unsigned_less [of x] by simp

lemma unat_ucast_32: "unat (ucast (x :: u16) :: u32) = unat x"
  by (simp add: unsigned_ucast_eq take_bit_nat_eq_self unat_16_less order.strict_trans [OF unat_16_less])

lemma unat_ucast_16: "unat (ucast (x :: u32) :: u16) = unat x mod 65536"
  by (simp add: unsigned_ucast_eq take_bit_eq_mod)

lemma no_wrap:
  assumes "k \<le> 72" "w \<le> 65536" "w \<le> (k + w) mod 65536"
  shows "(k + w) mod 65536 = k + (w :: nat)"
proof (cases "k + w < 65536")
  case False
  then have "(k + w) mod 65536 = k + w - 65536" using assms(1,2) by (simp add: le_mod_geq)
  then show ?thesis using assms False by linarith
qed simp

lemma ram_size:
  fixes l n :: u16
  assumes "l \<in> layers"
  defines "pl \<equiv> (ucast (LWIP_MEM_ALIGN_SIZE l + LWIP_MEM_ALIGN_SIZE n) :: u16)"
  defines "al \<equiv> (ucast (LWIP_MEM_ALIGN_SIZE (ucast SIZEOF_STRUCT_PBUF) + ucast pl) :: u16)"
  assumes "\<not> ucast pl < LWIP_MEM_ALIGN_SIZE n" "\<not> ucast al < LWIP_MEM_ALIGN_SIZE n"
  shows "unat al = 16 + (unat l + 3) div 4 * 4 + (unat n + 3) div 4 * 4"
proof -
  define v where "v = (unat l + 3) div 4 * 4"
  define w where "w = (unat n + 3) div 4 * 4"
  have v: "unat (LWIP_MEM_ALIGN_SIZE l) = v" "v \<le> 56" using layer_align [OF assms(1)] by (auto simp: v_def)
  have w: "unat (LWIP_MEM_ALIGN_SIZE n) = w" "w \<le> 65536"
    using unat_align [of n] unat_16_less [of n] by (simp_all add: w_def)
  have "unat (LWIP_MEM_ALIGN_SIZE l + LWIP_MEM_ALIGN_SIZE n) = v + w"
    using v w by (subst unat_add_nat) simp_all
  then have pl: "unat pl = (v + w) mod 65536" by (simp add: pl_def unat_ucast_16)
  have "w \<le> unat pl" using assms(4) unfolding w(1) [symmetric] word_less_nat_alt unat_ucast_32 by simp
  then have pl: "unat pl = v + w" using pl v(2) w(2) no_wrap [of v w] by simp
  have "unat (LWIP_MEM_ALIGN_SIZE (ucast SIZEOF_STRUCT_PBUF)) = 16" by (simp add: unat_align)
  then have "unat (LWIP_MEM_ALIGN_SIZE (ucast SIZEOF_STRUCT_PBUF) + ucast pl) = 16 + v + w"
    using v w pl by (subst unat_add_nat) (simp_all add: unat_ucast_32)
  then have al: "unat al = (16 + v + w) mod 65536" by (simp add: al_def unat_ucast_16)
  have "w \<le> unat al" using assms(5) unfolding w(1) [symmetric] word_less_nat_alt unat_ucast_32 by simp
  then show ?thesis using al v(2) w(2) no_wrap [of "16 + v" w] unfolding v_def [symmetric] w_def [symmetric] by simp
qed

lemma alloc_ram_ok:
  assumes run: "alloc_ram l n st = Some r" and l: "l \<in> layers" and ok: "pbufs_ok st"
  shows "pbufs_ok (snd r)"
proof -
  obtain s where s: "bufs_ok s st" using ok by (auto simp: pbufs_ok_def)
  note D = bufs_okD [OF s]
  define pl where "pl = (ucast (LWIP_MEM_ALIGN_SIZE l + LWIP_MEM_ALIGN_SIZE n) :: u16)"
  define al where "al = (ucast (LWIP_MEM_ALIGN_SIZE (ucast SIZEOF_STRUCT_PBUF) + ucast pl) :: u16)"
  show ?thesis
  proof (cases "ucast pl < LWIP_MEM_ALIGN_SIZE n \<or> ucast al < LWIP_MEM_ALIGN_SIZE n")
    case True
    then show ?thesis using run ok unfolding alloc_ram_def Let_def al_def pl_def by (elim run_elims) auto
  next
    case False
    then have size: "unat al = 16 + (unat l + 3) div 4 * 4 + (unat n + 3) div 4 * 4"
      unfolding al_def pl_def by (intro ram_size [OF l]) auto
    obtain h x where m: "mem_malloc al (mem_heap st) = Some (h, x)"
      and rest: "(case x of None \<Rightarrow> Some (None, st\<lparr>mem_heap := h\<rparr>) | Some d \<Rightarrow>
        Some (Some (Heap, d), set_pb (Heap, d) (new_pbuf (Some (mem_align (padd (Heap, d) (uint SIZEOF_STRUCT_PBUF + uint l)))) n n PBUF_RAM 0)
          (st\<lparr>mem_heap := h\<rparr>))) = Some r"
      using run False unfolding alloc_ram_def Let_def al_def [symmetric] pl_def [symmetric] pbuf_init_alloced_pbuf_def
      by (elim if_SomeE bind_SomeE) (blast, simp only: split_paired_all prod.case)
    from lwip_heap.malloc_law [OF D(1), of al] m consider "x = None" "h = mem_heap st"
      | d where "x = Some (int d)" "d \<notin> dom s" "holds h (s(d \<mapsto> map (\<lambda>i. ram h (d + i)) [0..<unat al]))" by auto
    then show ?thesis
    proof cases
      case 1
      then show ?thesis using rest ok by auto
    next
      case 2
      define s' where "s' = s(d \<mapsto> map (\<lambda>i. ram h (d + i)) [0..<unat al])"
      define v where "v = (unat l + 3) div 4 * 4"
      obtain j where j: "d = 4 * j" using heap_offset [OF 2(3), of d] by auto
      have "(int d + 16 + uint l + 3) div 4 * 4 = int d + 16 + int v" unfolding v_def j by (simp add: zdiv_int) presburger
      then have p: "mem_align (padd (Heap, int d) (uint SIZEOF_STRUCT_PBUF + uint l)) = (Heap, int d + 16 + int v)"
        by (simp add: mem_align_def padd_def add.assoc)
      let ?b = "new_pbuf (Some (Heap, int d + 16 + int v)) n n PBUF_RAM 0"
      have "uint n \<le> int ((unat n + 3) div 4 * 4)" by (simp add: zdiv_int)
      then have "inside (Heap, int d) (unat al) ?b" using size by (simp add: inside_def PBUF_RAM_def v_def)
      then have "pbuf_ok s' (Heap, int d) ?b" by (simp add: pbuf_ok_def kind_def pbuf_get_allocsrc_def PBUF_RAM_def s'_def)
      moreover have "pbuf_ok s' c e" if "pb_at st c = Some e" for c e
      proof -
        have "pbuf_ok s c e" using D(2) that by blast
        then show ?thesis using 2(2) by (auto simp: pbuf_ok_def s'_def)
      qed
      moreover have "(Heap, i) \<notin> elements t" for i t using element_region by fastforce
      ultimately have "bufs_ok s' (set_pb (Heap, int d) ?b (st\<lparr>mem_heap := h\<rparr>))"
        using D 2(3) pool_ok_set [of "(Heap, int d)" _ st "Some ?b" "set_pb (Heap, int d) ?b (st\<lparr>mem_heap := h\<rparr>)"]
        by (auto simp: bufs_ok_def s'_def)
      then show ?thesis using rest 2(1) p by (auto simp: pbufs_ok_def)
    qed
  qed
qed

lemma alloc_ok: "pbuf_alloc l n t st = Some r \<Longrightarrow> l \<in> layers \<Longrightarrow> pbufs_ok st \<Longrightarrow> pbufs_ok (snd r)"
  unfolding pbuf_alloc_def Let_def
  by (elim run_elims) (auto dest: reference_ok [OF prod.collapse [symmetric], rotated] pool_loop_ok alloc_ram_ok)

lemma clone_ok: "pbuf_clone l t p st = Some r \<Longrightarrow> l \<in> layers \<Longrightarrow> pbufs_ok st \<Longrightarrow> pbufs_ok (snd r)"
  unfolding pbuf_clone_def case_prod_beta
  by (elim run_elims) (auto dest!: alloc_ok copy_frame intro: same_frame_ok)

lemma coalesce_ok: "pbuf_coalesce p l st = Some r \<Longrightarrow> l \<in> layers \<Longrightarrow> pbufs_ok st \<Longrightarrow> pbufs_ok (snd r)"
  unfolding pbuf_coalesce_def case_prod_beta
  by (elim run_elims) (auto dest!: clone_ok dest: free_ok)

section \<open>Separate memory\<close>

text \<open>Blocks of the heap do not overlap, so neither do the payloads of two buffers.\<close>

lemma allocated_apart:
  assumes "segment r pp p bs" "(d, k) \<in> set (allocated p bs)" "(e, m) \<in> set (allocated p bs)" "d \<noteq> e"
  shows "d + k \<le> e \<or> e + m \<le> d"
proof -
  obtain as s cs where bs: "bs = as @ (s, True) # cs" and d: "d = p + extent as + 8" "k = s - 8"
    using allocated_split [OF assms(2)] by auto
  then have seg: "segment r pp p as" "segment r (p + extent as) (p + extent as + s) cs" "20 \<le> s"
    using assms(1) by (auto simp: bs)
  have "(e, m) \<in> set (allocated p as) \<or> (e, m) \<in> set (allocated (p + extent as + s) cs)"
    using assms(3,4) d by (auto simp: bs add.assoc)
  then show ?thesis using allocated_range [OF seg(1)] allocated_range [OF seg(2)] seg(3) d by fastforce
qed

lemma store_apart:
  assumes "holds h s" "s d = Some xs" "s e = Some ys" "d \<noteq> e"
  shows "d + length xs \<le> e \<or> e + length ys \<le> d"
proof -
  obtain bs where bs: "heap_ok h bs" "dom s = fst ` set (allocated 0 bs)" "\<forall>b \<in> set (allocated 0 bs). holds_block h s b"
    using assms(1) by (auto simp: holds_def)
  obtain k m where k: "(d, k) \<in> set (allocated 0 bs)" "(e, m) \<in> set (allocated 0 bs)" using bs(2) assms(2,3) by force
  then have "length xs \<le> k" "length ys \<le> m" using bs(3) assms(2,3) by (force simp: holds_block_def)+
  then show ?thesis using allocated_apart [OF heap_okD(1) [OF bs(1)] k assms(4)] by linarith
qed

lemma store_range:
  assumes "holds h s" "s d = Some xs"
  shows "8 \<le> d \<and> d + length xs \<le> 1600"
proof -
  obtain bs where bs: "heap_ok h bs" "dom s = fst ` set (allocated 0 bs)" "\<forall>b \<in> set (allocated 0 bs). holds_block h s b"
    using assms(1) by (auto simp: holds_def)
  obtain k where k: "(d, k) \<in> set (allocated 0 bs)" using bs(2) assms(2) by force
  then have "length xs \<le> k" using bs(3) assms(2) by (force simp: holds_block_def)
  then show ?thesis using allocated_range [OF heap_okD(1) [OF bs(1)] k] heap_okD(2) [OF bs(1)] by simp
qed

text \<open>The memory of a buffer that holds its own payload.\<close>

lemma contiguous_memory:
  assumes "pbuf_ok s a b" "contiguous b" "holds h s"
  obtains "kind b = 0x02" "a \<in> elements MEMP_PBUF_POOL" "inside a 608 b"
    | xs where "kind b = 0x00" "fst a = Heap" "0 \<le> snd a" "s (nat (snd a)) = Some xs" "inside a (length xs) b"
  using assms by (auto simp: pbuf_ok_def split: if_splits)

lemma inside_area:
  assumes "inside a n b" "pb_payload b = Some p"
  shows "area p (unat (pb_len b)) \<subseteq> area (padd a 16) (n - 16)"
  using assms uint_ge_0 [of "pb_len b"] by (auto simp: inside_def area_iff)

lemma payloads_apart_ok:
  assumes "bufs_ok s st" "pb_at st a = Some b" "pb_at st c = Some e" "contiguous b" "contiguous e" "a \<noteq> c"
  shows "data_area b \<inter> data_area e = {}"
proof -
  note D = bufs_okD [OF assms(1)]
  have own: "\<exists>n. data_area b \<subseteq> area (padd a 16) (n - 16) \<and>
      (fst a = Heap \<and> 0 \<le> snd a \<and> (\<exists>xs. s (nat (snd a)) = Some xs \<and> n = length xs) \<or> (\<exists>i. a = (Element MEMP_PBUF_POOL i, 0)))"
    if b: "pb_at st a = Some b" "contiguous b" for a b
    using contiguous_memory [OF D(2) [OF b(1)] b(2) D(1)]
  proof cases
    case 1
    then show ?thesis using inside_area [OF 1(3)] element_region [OF 1(2)] unfolding data_area_def inside_def by fastforce
  next
    case (2 xs)
    then show ?thesis using inside_area [OF 2(5)] unfolding data_area_def inside_def by fastforce
  qed
  obtain n m where n: "data_area b \<subseteq> area (padd a 16) (n - 16)" "data_area e \<subseteq> area (padd c 16) (m - 16)"
    and ac: "fst a = Heap \<and> 0 \<le> snd a \<and> (\<exists>xs. s (nat (snd a)) = Some xs \<and> n = length xs) \<or> (\<exists>i. a = (Element MEMP_PBUF_POOL i, 0))"
      "fst c = Heap \<and> 0 \<le> snd c \<and> (\<exists>xs. s (nat (snd c)) = Some xs \<and> m = length xs) \<or> (\<exists>i. c = (Element MEMP_PBUF_POOL i, 0))"
    using own [OF assms(2,4)] own [OF assms(3,5)] by blast
  have "area (padd a 16) (n - 16) \<inter> area (padd c 16) (m - 16) = {}"
  proof (cases "fst a = fst c")
    case True
    then have h: "fst a = Heap" "fst c = Heap" "0 \<le> snd a" "0 \<le> snd c" using ac assms(6) by auto
    then obtain xs ys where xs: "s (nat (snd a)) = Some xs" "n = length xs" "s (nat (snd c)) = Some ys" "m = length ys"
      using ac by auto
    have "nat (snd a) \<noteq> nat (snd c)" using h assms(6) by (auto simp: prod_eq_iff)
    from store_apart [OF D(1) xs(1,3) this] show ?thesis using xs h by (auto simp: area_iff)
  qed (auto simp: area_iff)
  then show ?thesis using n by blast
qed

end
