(* ===== verification/Lwip_Chain.thy ===== *)
theory Lwip_Chain
  imports Lwip_Pbuf_Reach
begin

text \<open>
  What the operations on whole chains do: freeing, joining, and cutting at the end and at the front.
\<close>

section \<open>Chains\<close>

lemma chain_distinct: "chain st p xs \<Longrightarrow> distinct (map fst xs)"
proof (induction xs arbitrary: p)
  case (Cons x xs)
  obtain a b where x: "x = (a, b)" by (cases x)
  then have c: "chain st (Some a) (x # xs)" "chain st (pb_next b) xs" using Cons.prems by simp_all
  have "a \<notin> fst ` set xs"
  proof
    assume "a \<in> fst ` set xs"
    then obtain us e vs where xs: "xs = us @ (a, e) # vs" by (auto dest: split_list)
    then have "chain st (Some a) ((a, e) # vs)" using chain_append [of st "pb_next b" us "(a, e) # vs"] c(2) by simp
    from chain_fun [OF this c(1)] have "length ((a, e) # vs) = length (x # xs)" by simp
    then show False by (simp add: xs)
  qed
  then show ?case using Cons.IH [OF c(2)] by (simp add: x)
qed simp

lemma chain_set_other: "chain st p xs \<Longrightarrow> a \<notin> fst ` set xs \<Longrightarrow> chain (set_pb a b st) p xs"
  by (erule iffD2 [OF chain_same, rotated]) auto

lemma data_fields [simp]: "data st (b\<lparr>pb_tot_len := n\<rparr>) = data st b" "data st (b\<lparr>pb_next := p\<rparr>) = data st b"
  "data_area (b\<lparr>pb_tot_len := n\<rparr>) = data_area b" "data_area (b\<lparr>pb_next := p\<rparr>) = data_area b"
  by (simp_all add: data_def data_area_def cong: option.case_cong)

section \<open>Freeing\<close>

text \<open>The buffers held by no one else are freed, up to the first that is; that one loses a reference.\<close>

definition freed :: "links \<Rightarrow> links" where
  "freed xs = takeWhile (\<lambda>x. pb_ref (snd x) = 1) xs"

fun unreferenced :: "links \<Rightarrow> (addr \<Rightarrow> pbuf option) \<Rightarrow> addr \<Rightarrow> pbuf option" where
  "unreferenced [] f = f"
| "unreferenced ((a, b) # xs) f =
     (if pb_ref b = 1 then unreferenced xs (f(a := None)) else f(a \<mapsto> b\<lparr>pb_ref := pb_ref b - 1\<rparr>))"

lemma unreferenced_other: "a \<notin> fst ` set xs \<Longrightarrow> unreferenced xs f a = f a"
  by (induction xs f rule: unreferenced.induct) auto

lemma unreferenced_all: "list_all (\<lambda>x. pb_ref (snd x) = 1) xs \<Longrightarrow>
  unreferenced (xs @ ys) f = unreferenced ys (\<lambda>a. if a \<in> fst ` set xs then None else f a)"
proof (induction xs arbitrary: f)
  case (Cons x xs)
  obtain a b where x: "x = (a, b)" by (cases x)
  then have ref: "pb_ref b = 1" "list_all (\<lambda>x. pb_ref (snd x) = 1) xs" using Cons.prems by simp_all
  have "(\<lambda>c. if c \<in> fst ` set xs then None else (f(a := None)) c) = (\<lambda>c. if c \<in> fst ` set (x # xs) then None else f c)"
    by (auto simp: x)
  then show ?case using Cons.IH [OF ref(2), of "f(a := None)"] by (simp only: x append_Cons unreferenced.simps ref(1) if_True simp_thms)
qed simp

text \<open>What this gives back to the heap and to the owners of buffers of their own.\<close>

definition heap_blocks :: "links \<Rightarrow> nat set" where
  "heap_blocks xs = (\<lambda>x. nat (snd (fst x))) ` {x \<in> set xs. kind (snd x) = 0x00}"

definition owners_called :: "links \<Rightarrow> addr list" where
  "owners_called xs = map fst (filter (\<lambda>x. kind (snd x) = 0x10) xs)"

lemma heap_blocks_insert:
  "heap_blocks ((a, b) # xs) = (if kind b = 0x00 then insert (nat (snd a)) (heap_blocks xs) else heap_blocks xs)"
  by (force simp: heap_blocks_def)

lemma heap_blocks_Cons: "s |` (- heap_blocks ((a, b) # xs)) = without_block a b s |` (- heap_blocks xs)"
  by (simp add: heap_blocks_insert without_block_def restrict_map_def fun_eq_iff)

lemma no_blocks [simp]: "heap_blocks [] = {}" "owners_called [] = []" "s |` UNIV = s"
  by (simp_all add: heap_blocks_def owners_called_def restrict_map_def)

lemma owners_called_Cons: "owners_called ((a, b) # xs) = owner_called a b @ owners_called xs"
  by (simp add: owners_called_def owner_called_def)

lemma free_loop_is:
  assumes "chain st p xs" "bufs_ok s st"
  shows "\<exists>st'. free_loop p c st = Some (c + of_nat (length (freed xs)), st') \<and> bytes st' = bytes st \<and>
    pb_at st' = unreferenced xs (pb_at st) \<and> bufs_ok (s |` (- heap_blocks (freed xs))) st' \<and>
    custom_freed st' = custom_freed st @ owners_called (freed xs)"
  using assms
proof (induction xs arbitrary: p c s st)
  case Nil
  then show ?case by (subst free_loop.simps) (simp add: freed_def)
next
  case (Cons x xs)
  obtain a b where x: "x = (a, b)" by (cases x)
  then have p: "p = Some a" and b: "pb_at st a = Some b" and c: "chain st (pb_next b) xs" using Cons.prems(1) by simp_all
  have a: "a \<notin> fst ` set xs" using chain_distinct [OF Cons.prems(1)] x by simp
  define b' where "b' = b\<lparr>pb_ref := pb_ref b - 1\<rparr>"
  have kind: "kind b' = kind b" by (simp add: b'_def kind_def pbuf_get_allocsrc_def)
  have ok': "pbuf_ok s a b'" by (rule pbuf_ok_fields [OF bufs_okD(2) [OF Cons.prems(2) b]]) (simp_all add: b'_def)
  then have s': "bufs_ok s (set_pb a b' st)" by (rule bufs_ok_set [OF Cons.prems(2) b])
  show ?case
  proof (cases "pb_ref b = 1")
    case True
    obtain st1 where d: "dealloc a b' (set_pb a b' st) = Some st1" and ok1: "bufs_ok (without_block a b' s) st1"
      and at: "pb_at st1 = (pb_at (set_pb a b' st))(a := None)" and by1: "bytes st1 = bytes (set_pb a b' st)"
      and own: "custom_freed st1 = custom_freed (set_pb a b' st) @ owner_called a b'"
      by (rule dealloc_ok [OF s' _ ok', of b']) auto
    have at1: "pb_at st1 = (pb_at st)(a := None)" using at by simp
    have f: "freed (x # xs) = (a, b) # freed xs" using True by (simp add: x freed_def)
    have same: "without_block a b' s = without_block a b s" "owner_called a b' = owner_called a b"
      by (simp_all add: without_block_def owner_called_def kind)
    have "chain st1 (pb_next b) xs" by (rule iffD2 [OF chain_same c]) (use a in \<open>auto simp: at1\<close>)
    from Cons.IH [OF this ok1, of "c + 1"] obtain st' where
      st': "free_loop (pb_next b) (c + 1) st1 = Some (c + 1 + of_nat (length (freed xs)), st')" "bytes st' = bytes st1"
        "pb_at st' = unreferenced xs (pb_at st1)" "bufs_ok (without_block a b' s |` (- heap_blocks (freed xs))) st'"
        "custom_freed st' = custom_freed st1 @ owners_called (freed xs)" by blast
    have "free_loop p c st = Some (c + of_nat (length (freed (x # xs))), st')"
      using st'(1) d True by (subst free_loop.simps) (simp add: p b Let_def b'_def f add.assoc)
    moreover have "pb_at st' = unreferenced (x # xs) (pb_at st)" using st'(3) at1 True by (simp add: x)
    moreover have "bufs_ok (s |` (- heap_blocks (freed (x # xs)))) st'" using st'(4) by (simp only: f heap_blocks_Cons same)
    moreover have "custom_freed st' = custom_freed st @ owners_called (freed (x # xs))"
      using st'(5) own by (simp add: f owners_called_Cons same)
    ultimately show ?thesis using st'(2) by1 by auto
  next
    case False
    then have "free_loop p c st = Some (c, set_pb a b' st)"
      by (subst free_loop.simps) (simp add: p b Let_def b'_def)
    then show ?thesis using False s' by (auto simp: freed_def x b'_def)
  qed
qed

lemma free_gives_back:
  assumes "chain st p xs" "bufs_ok s st"
  shows "\<exists>st'. pbuf_free p st = Some (of_nat (length (freed xs)), st') \<and> bytes st' = bytes st \<and>
    pb_at st' = unreferenced xs (pb_at st) \<and> bufs_ok (s |` (- heap_blocks (freed xs))) st' \<and>
    custom_freed st' = custom_freed st @ owners_called (freed xs)"
proof (cases p)
  case None
  then show ?thesis using assms by (simp add: pbuf_free_def freed_def)
next
  case (Some a)
  then show ?thesis using free_loop_is [OF assms, of 0] by (simp add: pbuf_free_def)
qed

lemma free_is:
  assumes "chain st p xs" "pbufs_ok st"
  shows "\<exists>st'. pbuf_free p st = Some (of_nat (length (freed xs)), st') \<and> pbufs_ok st' \<and> bytes st' = bytes st \<and>
    pb_at st' = unreferenced xs (pb_at st)"
proof -
  obtain s where "bufs_ok s st" using assms(2) by (auto simp: pbufs_ok_def)
  from free_gives_back [OF assms(1) this] show ?thesis by (auto simp: pbufs_ok_def)
qed

section \<open>Joining\<close>

text \<open>The first chain with the buffers of the second behind it.\<close>

fun joined_to :: "addr \<Rightarrow> u16 \<Rightarrow> links \<Rightarrow> links" where
  "joined_to t n [] = []"
| "joined_to t n ((a, b) # xs) =
     (a, b\<lparr>pb_tot_len := pb_tot_len b + n, pb_next := (if xs = [] then Some t else pb_next b)\<rparr>) # joined_to t n xs"

lemma joined_to_simps [simp]: "map fst (joined_to t n xs) = map fst xs" "joined_to t n xs = [] \<longleftrightarrow> xs = []"
  "total (joined_to t n xs) = total xs" "areas (joined_to t n xs) = areas xs" "content st (joined_to t n xs) = content st xs"
  by (induction t n xs rule: joined_to.induct) simp_all

lemma packet_joined:
  assumes "packet xs" "packet ys" "total xs + total ys < 65536" "unat n = total ys"
  shows "packet (joined_to t n xs @ ys)"
  using assms
proof (induction t n xs rule: joined_to.induct)
  case (2 t n a b xs)
  have "unat (pb_tot_len b + n) = unat (pb_tot_len b) + unat n" using 2 by (intro unat_add_nat) simp_all
  then show ?case using 2 by simp
qed simp

lemma cat_loop_is:
  assumes "chain st (Some p) xs" "chain st (Some t) ys" "fst ` set xs \<inter> fst ` set ys = {}" "ys \<noteq> []"
  shows "\<exists>st'. cat_loop p t st = Some st' \<and> bytes st' = bytes st \<and>
    chain st' (Some p) (joined_to t (pb_tot_len (snd (hd ys))) xs @ ys) \<and>
    (\<forall>a. a \<notin> fst ` set xs \<longrightarrow> pb_at st' a = pb_at st a)"
  using assms
proof (induction xs arbitrary: p st)
  case (Cons x xs)
  obtain b where x: "x = (p, b)" and b: "pb_at st p = Some b" and c: "chain st (pb_next b) xs"
    using Cons.prems(1) by (cases x) auto
  obtain tb where tb: "pb_at st t = Some tb" "tb = snd (hd ys)" "t = fst (hd ys)"
    using Cons.prems(2,4) by (cases ys) auto
  have p: "p \<notin> fst ` set xs" "p \<notin> fst ` set ys" using chain_distinct [OF Cons.prems(1)] Cons.prems(3) x by auto
  define b' where "b' = b\<lparr>pb_tot_len := pb_tot_len b + pb_tot_len tb\<rparr>"
  show ?case
  proof (cases "pb_next b")
    case None
    then have xs: "xs = []" using c by simp
    let ?st = "set_pb p (b'\<lparr>pb_next := Some t\<rparr>) st"
    have "cat_loop p t st = Some ?st" by (subst cat_loop.simps) (simp add: b tb(1) None b'_def Let_def)
    moreover have "chain ?st (Some t) ys" using Cons.prems(2) p by (intro chain_set_other)
    ultimately show ?thesis by (intro exI [of _ ?st]) (auto simp: x xs b'_def tb(2))
  next
    case (Some q)
    let ?st = "set_pb p b' st"
    have "chain ?st (Some q) xs" "chain ?st (Some t) ys"
      using c Some Cons.prems(2) p by (auto intro: chain_set_other)
    from Cons.IH [OF this] Cons.prems(3,4) obtain st' where
      st': "cat_loop q t ?st = Some st'" "bytes st' = bytes ?st" "chain st' (Some q) (joined_to t (pb_tot_len tb) xs @ ys)"
        "\<forall>a. a \<notin> fst ` set xs \<longrightarrow> pb_at st' a = pb_at ?st a" by (auto simp: tb(2))
    have "xs \<noteq> []" using c Some by auto
    have "cat_loop p t st = Some st'" using st'(1) by (subst cat_loop.simps) (simp add: b tb(1) Some b'_def Let_def)
    moreover have "pb_at st' p = Some b'" using st'(4) [rule_format, of p] p by simp
    ultimately show ?thesis
      using st' \<open>xs \<noteq> []\<close> Some by (intro exI [of _ st']) (auto simp: x b'_def tb(2))
  qed
qed simp

lemma cat_is:
  assumes "chain st (Some h) xs" "chain st (Some t) ys" "packet xs" "packet ys" "fst ` set xs \<inter> fst ` set ys = {}"
    and "total xs + total ys < 65536"
  obtains st' zs where "pbuf_cat (Some h) (Some t) st = Some st'" "bytes st' = bytes st" "chain st' (Some h) (zs @ ys)"
    "packet (zs @ ys)" "map fst zs = map fst xs" "content st' (zs @ ys) = content st xs @ content st ys"
    "\<And>a. a \<notin> fst ` set xs \<Longrightarrow> pb_at st' a = pb_at st a"
proof -
  obtain y ys' where ys: "ys = y # ys'" using assms(2) by (cases ys) auto
  let ?zs = "joined_to t (pb_tot_len (snd (hd ys))) xs"
  from cat_loop_is [OF assms(1,2,5)] ys obtain st' where
    st': "cat_loop h t st = Some st'" "bytes st' = bytes st" "chain st' (Some h) (?zs @ ys)"
      "\<forall>a. a \<notin> fst ` set xs \<longrightarrow> pb_at st' a = pb_at st a" by blast
  have "packet (?zs @ ys)" using assms by (intro packet_joined) (simp_all add: ys)
  moreover have "content st' (?zs @ ys) = content st (?zs @ ys)" by (rule content_cong) (simp add: st'(2))
  ultimately show thesis using st'(1-3) st'(4) [rule_format] by (intro that [of st' ?zs]) (simp_all add: pbuf_cat_def)
qed

section \<open>Shortening\<close>

text \<open>The buffers before the one where the new end is.\<close>

definition shrunk :: "u16 \<Rightarrow> links \<Rightarrow> links" where
  "shrunk k xs = map (\<lambda>(a, b). (a, b\<lparr>pb_tot_len := pb_tot_len b - k\<rparr>)) xs"

lemma shrunk_simps [simp]: "shrunk k [] = []" "shrunk k ((a, b) # xs) = (a, b\<lparr>pb_tot_len := pb_tot_len b - k\<rparr>) # shrunk k xs"
  "fst ` set (shrunk k xs) = fst ` set xs"
  by (auto simp: shrunk_def image_image case_prod_beta)

lemma shrunk_content [simp]: "content st (shrunk k xs) = content st xs" "total (shrunk k xs) = total xs"
  by (induction xs) auto

lemma shrink_loop_is:
  assumes "chain st p xs" "packet xs" "xs \<noteq> []" "unat n \<le> total xs"
  shows "\<exists>us a b vs m st'. xs = us @ (a, b) # vs \<and> unat n = total us + unat m \<and> m \<le> pb_len b \<and>
    shrink_loop k n p st = Some (m, Some a, st') \<and> bytes st' = bytes st \<and> chain st' p (shrunk k us @ (a, b) # vs) \<and>
    (\<forall>c. c \<notin> fst ` set us \<longrightarrow> pb_at st' c = pb_at st c)"
  using assms
proof (induction xs arbitrary: p n st)
  case (Cons x xs)
  obtain a b where x: "x = (a, b)" by (cases x)
  then have p: "p = Some a" "pb_at st a = Some b" "chain st (pb_next b) xs" using Cons.prems(1) by auto
  show ?case
  proof (cases "pb_len b < n")
    case False
    have "shrink_loop k n p st = Some (n, Some a, st)" by (subst shrink_loop.simps) (simp add: p False)
    then show ?thesis using Cons.prems(1) False
      by (intro exI [of _ "[]"] exI [of _ a] exI [of _ b] exI [of _ xs] exI [of _ n] exI [of _ st]) (simp add: x not_less)
  next
    case True
    let ?st = "set_pb a (b\<lparr>pb_tot_len := pb_tot_len b - k\<rparr>) st"
    have u: "unat (n - pb_len b) = unat n - len_of b" "len_of b < unat n"
      using True by (simp_all add: unat_sub_nat word_less_nat_alt)
    have a: "a \<notin> fst ` set xs" using chain_distinct [OF Cons.prems(1)] by (simp add: x)
    have "chain ?st (pb_next b) xs" using p(3) a by (rule chain_set_other)
    moreover have "packet xs" "xs \<noteq> []" "unat (n - pb_len b) \<le> total xs" using Cons.prems u by (auto simp: x)
    ultimately obtain us c d vs m st' where IH: "xs = us @ (c, d) # vs" "unat (n - pb_len b) = total us + unat m" "m \<le> pb_len d"
      "shrink_loop k (n - pb_len b) (pb_next b) ?st = Some (m, Some c, st')" "bytes st' = bytes ?st"
      "chain st' (pb_next b) (shrunk k us @ (c, d) # vs)" "\<forall>c. c \<notin> fst ` set us \<longrightarrow> pb_at st' c = pb_at ?st c"
      using Cons.IH [of ?st "pb_next b" "n - pb_len b"] by blast
    have run: "shrink_loop k n p st = Some (m, Some c, st')" using IH(4) by (subst shrink_loop.simps) (simp add: p True)
    have "a \<notin> fst ` set us" using a by (auto simp: IH(1))
    then have "pb_at st' a = Some (b\<lparr>pb_tot_len := pb_tot_len b - k\<rparr>)" using IH(7) [rule_format, of a] by simp
    then have "chain st' p (shrunk k (x # us) @ (c, d) # vs)" using IH(6) by (simp add: x p(1))
    moreover have "x # xs = (x # us) @ (c, d) # vs" "unat n = total (x # us) + unat m" using IH(1,2) u by (simp_all add: x)
    moreover have "\<forall>c. c \<notin> fst ` set (x # us) \<longrightarrow> pb_at st' c = pb_at st c" using IH(7) by (simp add: x)
    moreover have "bytes st' = bytes st" using IH(5) by simp
    ultimately show ?thesis using run IH(3) by blast
  qed
qed simp

lemma packet_shrunk:
  assumes "packet (us @ (a, b) # vs)" "k \<le> total ((a, b) # vs)" "unat k' = k" "unat m = total ((a, b) # vs) - k"
    and "pb_tot_len b' = m" "pb_len b' = m" "pb_payload b' = None \<longrightarrow> m = 0"
  shows "packet (shrunk k' us @ [(a, b')])"
  using assms(1)
proof (induction us)
  case Nil
  then show ?case using assms(5-7) by simp
next
  case (Cons x us)
  obtain c d where x: "x = (c, d)" by (cases x)
  have "unat (pb_tot_len d) = len_of d + total us + total ((a, b) # vs)" using Cons.prems by (simp add: x)
  then have "unat (pb_tot_len d - k') = len_of d + total us + unat m"
    using assms(2-4) by (subst unat_sub_nat) simp_all
  then show ?case using Cons assms(6) by (simp add: x)
qed

lemma chain_cut:
  "chain st p (us @ (a, b) # vs) \<Longrightarrow> pb_at st' a = Some b' \<Longrightarrow> pb_next b' = None \<Longrightarrow>
   (\<And>c. c \<in> fst ` set us \<Longrightarrow> pb_at st' c = pb_at st c) \<Longrightarrow> chain st' p (us @ [(a, b')])"
  by (induction us arbitrary: p) auto

lemma length_prefix: "packet (us @ vs) \<Longrightarrow> length (content st us) = total us"
  by (induction us) (auto simp: length_data)

lemma data_shorter:
  assumes "n \<le> pb_len b"
  shows "data st (b\<lparr>pb_len := n, pb_tot_len := m, pb_next := q\<rparr>) = take (unat n) (data st b)"
proof (cases "pb_payload b")
  case (Some a)
  then show ?thesis using assms by (simp add: data_def take_get word_le_nat_alt)
qed (simp add: data_def)

text \<open>A packet shortened to \<open>n\<close> bytes keeps the first \<open>n\<close>.\<close>

lemma realloc_is:
  assumes ok: "pbufs_ok st" and c: "chain st p xs" "packet xs" "xs \<noteq> []"
  shows "\<exists>st' ys. pbuf_realloc p n st = Some st' \<and> chain st' p ys \<and> packet ys \<and> content st' ys = take (unat n) (content st xs)"
proof -
  obtain a0 b0 xs' where xs: "xs = (a0, b0) # xs'" using c(3) by (cases xs) auto
  then have p: "deref p st = Some b0" "unat (pb_tot_len b0) = total xs" using c(1,2) by (auto simp: deref_def)
  show ?thesis
  proof (cases "pb_tot_len b0 \<le> n")
    case True
    then have "total xs \<le> unat n" using p(2) by (simp add: word_le_nat_alt)
    then have "take (unat n) (content st xs) = content st xs" using c(2) by (simp add: length_content)
    then show ?thesis using c p True by (intro exI [of _ st] exI [of _ xs]) (simp add: pbuf_realloc_def)
  next
    case False
    define k where "k = pb_tot_len b0 - n"
    have n: "unat n < total xs" "unat k = total xs - unat n"
      using False p(2) unfolding k_def by (simp_all add: word_le_nat_alt unat_sub_nat)
    obtain us a b vs m st1 where s: "xs = us @ (a, b) # vs" "unat n = total us + unat m" "m \<le> pb_len b"
      "shrink_loop k n p st = Some (m, Some a, st1)" "bytes st1 = bytes st" "chain st1 p (shrunk k us @ (a, b) # vs)"
      using shrink_loop_is [OF c, of n k] n by auto
    have ok1: "pbufs_ok st1" using shrink_loop_ok [OF s(4) ok] by simp
    have b: "pb_at st1 a = Some b" "chain st1 (pb_next b) vs"
      using chain_at [OF s(6), of a b] chain_append [OF s(6)] by auto
    define trim where "trim = (pbuf_get_allocsrc b = 0x00 \<and> m \<noteq> pb_len b \<and> pb_flags b AND PBUF_FLAG_IS_CUSTOM = 0)"
    have "\<exists>st2. (if trim then trim_block a b m st1 else Some (Some a, st1)) = Some (Some a, st2) \<and>
        pb_at st2 = pb_at st1 \<and> bytes st2 = bytes st1 \<and> pbufs_ok (set_pb a (b\<lparr>pb_len := m, pb_tot_len := m\<rparr>) st2)"
      using trim_ok [OF ok1 b(1) _ _ s(3)] pbufs_ok_fields [OF ok1 b(1)] s(3) by (auto simp: trim_def)
    then obtain st2 where t: "(if trim then trim_block a b m st1 else Some (Some a, st1)) = Some (Some a, st2)"
      "pb_at st2 = pb_at st1" "bytes st2 = bytes st1" "pbufs_ok (set_pb a (b\<lparr>pb_len := m, pb_tot_len := m\<rparr>) st2)" by blast
    define st3 where "st3 = set_pb a (b\<lparr>pb_len := m, pb_tot_len := m\<rparr>) st2"
    have vs: "a \<notin> fst ` set vs" "a \<notin> fst ` set us" "fst ` set us \<inter> fst ` set vs = {}" using chain_distinct [OF c(1)] by (auto simp: s(1))
    have c3: "chain st3 (pb_next b) vs" by (rule iffD2 [OF chain_same b(2)]) (use vs in \<open>auto simp: st3_def t(2)\<close>)
    obtain st4 where st4: "(if pb_next b \<noteq> None then map_option snd (pbuf_free (pb_next b) st3) else Some st3) = Some st4"
      "bytes st4 = bytes st3" "pb_at st4 = unreferenced vs (pb_at st3)"
      using free_is [OF c3] t(4) c3 by (cases "pb_next b") (auto simp: st3_def)
    have a4: "pb_at st4 a = Some (b\<lparr>pb_len := m, pb_tot_len := m\<rparr>)" using st4(3) vs(1) by (simp add: unreferenced_other st3_def)
    define b' where "b' = b\<lparr>pb_len := m, pb_tot_len := m, pb_next := None\<rparr>"
    define st5 where "st5 = set_pb a b' st4"
    have "pbuf_realloc p n st = Some st5"
      using t(1) st4(1) p False s(4) b(1) a4 unfolding pbuf_realloc_def trim_def st5_def b'_def
      by (simp add: k_def [symmetric] st3_def [symmetric] t(2))
    moreover have "chain st5 p (shrunk k us @ [(a, b')])"
    proof (rule chain_cut [OF s(6)])
      show "pb_at st5 c = pb_at st1 c" if "c \<in> fst ` set (shrunk k us)" for c
      proof -
        have "c \<noteq> a" "c \<notin> fst ` set vs" using that vs by auto
        then show ?thesis using st4(3) by (simp add: st5_def unreferenced_other st3_def t(2))
      qed
    qed (simp_all add: st5_def b'_def)
    moreover have "packet (shrunk k us @ [(a, b')])"
    proof (rule packet_shrunk [OF c(2) [unfolded s(1)]])
      have m: "unat m \<le> len_of b" using s(3) by (simp add: word_le_nat_alt)
      show "total ((a, b) # vs) - unat m \<le> total ((a, b) # vs)" by simp
      show "unat k = total ((a, b) # vs) - unat m" using n(2) s(2) m by (simp add: s(1))
      show "unat m = total ((a, b) # vs) - (total ((a, b) # vs) - unat m)" using m by simp
      show "pb_payload b' = None \<longrightarrow> m = 0" using packet_append [OF c(2) [unfolded s(1)]] s(3) by (auto simp: b'_def)
    qed (simp_all add: b'_def)
    moreover have "content st5 (shrunk k us @ [(a, b')]) = take (unat n) (content st xs)"
    proof -
      have "content st5 (shrunk k us @ [(a, b')]) = content st (shrunk k us @ [(a, b')])"
        by (rule content_cong) (simp add: st5_def st4(2) st3_def t(3) s(5))
      also have "\<dots> = content st us @ take (unat m) (data st b)" using data_shorter [OF s(3)] by (simp add: b'_def)
      also have "\<dots> = take (unat n) (content st xs)"
        using length_prefix [OF c(2) [unfolded s(1)], of st] length_data [of b st] packet_append [OF c(2) [unfolded s(1)]] s(2,3)
        by (auto simp: s(1) word_le_nat_alt)
      finally show ?thesis .
    qed
    ultimately show ?thesis by blast
  qed
qed

text \<open>Without its first \<open>n\<close> bytes a packet keeps the rest.\<close>

lemma remove_header_is:
  assumes "pb_at st a = Some b" "n \<le> pb_len b" "pb_payload b = Some p" "n \<noteq> 0"
  shows "pbuf_remove_header (Some a) (ucast n) st = Some (0, set_pb a (b\<lparr>pb_payload := Some (padd p (uint n)),
    pb_len := pb_len b - n, pb_tot_len := pb_tot_len b - n\<rparr>) st)"
proof -
  have u: "unat (ucast n :: u32) = unat n" "ucast (ucast n :: u32) = n"
    by (simp_all add: unat_ucast_32) (rule bit_word_eqI, simp add: bit_simps)
  then have "\<not> 0xFFFF < (ucast n :: u32)" using unat_16_less [of n] by (simp add: word_less_nat_alt)
  moreover have "(ucast n :: u32) \<noteq> 0" using u(1) assms(4) by (metis unat_0 unat_eq_zero)
  moreover have "uint (ucast n :: u32) = uint n" using u(1) by (metis uint_nat)
  ultimately show ?thesis using assms u(2) by (simp add: pbuf_remove_header_def Let_def)
qed

lemma data_behind:
  assumes "pb_payload b = Some p" "n \<le> pb_len b"
  shows "data st (b\<lparr>pb_payload := Some (padd p (uint n)), pb_len := pb_len b - n, pb_tot_len := m\<rparr>) = drop (unat n) (data st b)"
proof -
  have "unat (pb_len b - n) = len_of b - unat n" "unat n \<le> len_of b" using assms(2) by (simp_all add: unat_sub_nat word_le_nat_alt)
  then show ?thesis using assms(1) by (simp add: data_def drop_get)
qed

lemma free_header_is:
  assumes "pbufs_ok st" "chain st p xs" "packet xs"
  shows "\<exists>q ys st'. pbuf_free_header p n st = Some (q, st') \<and> bytes st' = bytes st \<and> chain st' q ys \<and> packet ys \<and>
    content st' ys = drop (unat n) (content st xs)"
  using assms
proof (induction xs arbitrary: p n st)
  case Nil
  then show ?case by (intro exI [of _ None] exI [of _ "[]"] exI [of _ st]) (subst pbuf_free_header.simps, simp)
next
  case (Cons x xs)
  obtain a b where x: "x = (a, b)" by (cases x)
  then have p: "p = Some a" "pb_at st a = Some b" "chain st (pb_next b) xs" using Cons.prems(2) by auto
  have a: "a \<notin> fst ` set xs" using chain_distinct [OF Cons.prems(2)] by (simp add: x)
  have len: "length (data st b) = len_of b" using Cons.prems(3) by (auto simp: x length_data)
  consider (none) "n = 0" | (all) "n \<noteq> 0" "pb_len b \<le> n" | (part) "n \<noteq> 0" "\<not> pb_len b \<le> n" by blast
  then show ?case
  proof cases
    case none
    then have "pbuf_free_header p n st = Some (p, st)" by (subst pbuf_free_header.simps) simp
    then show ?thesis using Cons.prems none by fastforce
  next
    case all
    define st1 where "st1 = set_pb a (b\<lparr>pb_next := None\<rparr>) st"
    have ok1: "pbufs_ok st1" unfolding st1_def by (rule pbufs_ok_fields [OF Cons.prems(1) p(2)]) simp_all
    have c1: "chain st1 (Some a) [(a, b\<lparr>pb_next := None\<rparr>)]" by (simp add: st1_def)
    from free_is [OF c1 ok1] obtain m st2 where
      f: "pbuf_free (Some a) st1 = Some (m, st2)" "pbufs_ok st2" "bytes st2 = bytes st1"
        "pb_at st2 = unreferenced [(a, b\<lparr>pb_next := None\<rparr>)] (pb_at st1)" by blast
    have "pb_at st2 c = pb_at st c" if "c \<in> fst ` set xs" for c
    proof -
      have "c \<noteq> a" using that a by blast
      then show ?thesis by (simp add: f(4) st1_def)
    qed
    then have c2: "chain st2 (pb_next b) xs" by (rule iffD2 [OF chain_same p(3)])
    have by2: "bytes st2 = bytes st" using f(3) by (simp add: st1_def)
    from Cons.IH [OF f(2) c2, of "n - pb_len b"] Cons.prems(3) obtain q ys st' where
      IH: "pbuf_free_header (pb_next b) (n - pb_len b) st2 = Some (q, st')" "bytes st' = bytes st2" "chain st' q ys" "packet ys"
        "content st' ys = drop (unat (n - pb_len b)) (content st2 xs)" by auto
    have "pbuf_free_header p n st = Some (q, st')"
      using IH(1) f(1) by (subst pbuf_free_header.simps) (simp add: p all st1_def [symmetric])
    moreover have "content st2 xs = content st xs" by (rule content_cong) (simp add: by2)
    moreover have "unat (n - pb_len b) = unat n - len_of b" "len_of b \<le> unat n" using all(2) by (simp_all add: unat_sub_nat word_le_nat_alt)
    ultimately show ?thesis using IH(2-5) by2 len by (intro exI [of _ q] exI [of _ ys] exI [of _ st']) (simp add: x)
  next
    case part
    then have lt: "unat n < len_of b" by (simp add: word_le_nat_alt)
    then obtain pay where pay: "pb_payload b = Some pay" using Cons.prems(3) by (cases "pb_payload b") (auto simp: x)
    define b' where "b' = b\<lparr>pb_payload := Some (padd pay (uint n)), pb_len := pb_len b - n, pb_tot_len := pb_tot_len b - n\<rparr>"
    define st1 where "st1 = set_pb a b' st"
    have le: "n \<le> pb_len b" using part(2) by simp
    have "pbuf_remove_header (Some a) (ucast n) st = Some (0, st1)"
      unfolding st1_def b'_def by (rule remove_header_is [OF p(2) le pay part(1)])
    then have "pbuf_free_header p n st = pbuf_free_header p 0 st1" by (subst pbuf_free_header.simps) (simp add: p part)
    also have "\<dots> = Some (p, st1)" by (subst pbuf_free_header.simps) simp
    finally have run: "pbuf_free_header p n st = Some (p, st1)" .
    have "chain st1 p ((a, b') # xs)" using chain_set_other [OF p(3) a] by (simp add: p(1) st1_def b'_def)
    moreover have "unat (pb_tot_len b) = len_of b + total xs" using Cons.prems(3) by (simp add: x)
    then have "packet ((a, b') # xs)" using Cons.prems(3) lt by (simp add: x b'_def unat_sub_nat)
    moreover have "content st1 ((a, b') # xs) = content st ((a, b') # xs)" by (rule content_cong) (simp add: st1_def)
    then have "content st1 ((a, b') # xs) = drop (unat n) (content st (x # xs))"
      using data_behind [OF pay le] lt len by (simp add: x b'_def)
    moreover have "bytes st1 = bytes st" by (simp add: st1_def)
    ultimately show ?thesis using run by blast
  qed
qed

end
