(* ===== verification/Lwip_Packet_Search.thy ===== *)
theory Lwip_Packet_Search
  imports Lwip_Packet
begin

text \<open>Reading single bytes of a packet, comparing and searching.\<close>

section \<open>Single bytes\<close>

lemma packet_split:
  assumes "packet (zs @ x # ys)" "j < len_of (snd x)"
  obtains pa where "pb_payload (snd x) = Some pa" "length (data st (snd x)) = len_of (snd x)"
    "total zs = length (content st zs)" "packet (x # ys)"
proof -
  have x: "packet (x # ys)" using packet_append assms(1) by blast
  then obtain pa where pa: "pb_payload (snd x) = Some pa" using assms(2) by fastforce
  have "total zs = length (content st zs)" using assms(1) by (induction zs) (auto simp: length_data)
  then show thesis using x pa by (intro that) (simp_all add: length_data)
qed

lemma content_nth:
  assumes "packet (zs @ x # ys)" "j < len_of (snd x)" "pb_payload (snd x) = Some pa"
  shows "content st (zs @ x # ys) ! (total zs + j) = bytes st (padd pa (int j))"
proof -
  obtain pa' where "length (data st (snd x)) = len_of (snd x)" "total zs = length (content st zs)"
    by (rule packet_split [OF assms(1,2), of st]) (rule that)
  moreover have "data st (snd x) ! j = bytes st (padd pa (int j))" using assms by (simp add: data_def nth_get)
  ultimately show ?thesis using assms(2) by (simp add: nth_append)
qed

lemma offset_small: "packet xs \<Longrightarrow> xs \<noteq> [] \<Longrightarrow> j \<le> len_of (snd (hd xs)) \<Longrightarrow> unat (of_nat j :: u16) = j"
  using unat_u16_less [of "pb_len (snd (hd xs))"] by (simp add: unat_of_nat take_bit_nat_eq_self)

lemma try_get_at_is:
  assumes "chain st p xs" "packet xs"
  shows "pbuf_try_get_at p k st = Some (if unat k < total xs then uint (content st xs ! unat k) else - 1)"
proof (cases "unat k < total xs")
  case True
  obtain zs x ys j where s: "skip (unat k) xs = (x # ys, j)" and xs: "xs = zs @ x # ys" and k: "unat k = total zs + j"
    and j: "j < len_of (snd x)"
    by (rule skip_within [OF True]) (rule that)
  obtain a b where x: "x = (a, b)" by (cases x)
  obtain pa where pa: "pb_payload (snd x) = Some pa" and pk: "packet (x # ys)"
    by (rule packet_split [OF assms(2) [unfolded xs] j, of st]) (rule that)
  have u: "unat (of_nat j :: u16) = j" using offset_small [OF pk] j by simp
  then have ui: "uint (of_nat j :: u16) = int j" by (metis of_nat_unat)
  have at: "pb_at st a = Some b" using assms(1) by (intro chain_at) (auto simp: xs x)
  have "bytes st (padd pa (int j)) = content st xs ! unat k"
    unfolding xs k by (rule content_nth [OF assms(2) [unfolded xs] j pa, symmetric])
  then show ?thesis
    using True s j pa at u skip_const_is [OF assms(1), of k]
    by (simp add: pbuf_try_get_at_def x word_less_nat_alt ui)
next
  case False
  obtain ys j where s: "skip (unat k) xs = (ys, j)" by (cases "skip (unat k) xs")
  then have "ys = []"
    using False skip_suffix [OF s] by (cases ys) auto
  then show ?thesis using False s skip_const_is [OF assms(1), of k] by (simp add: pbuf_try_get_at_def)
qed

lemma get_at_is:
  assumes "chain st p xs" "packet xs"
  shows "pbuf_get_at p k st = Some (if unat k < total xs then content st xs ! unat k else 0)"
  by (simp add: pbuf_get_at_def try_get_at_is [OF assms])

section \<open>Comparing\<close>

definition agree :: "'a list \<Rightarrow> 'a list \<Rightarrow> nat" where
  "agree as bs = length (takeWhile (\<lambda>(a, b). a = b) (zip as bs))"

lemma agree_simps [simp]: "agree [] bs = 0" "agree as [] = 0"
  "agree (a # as) (b # bs) = (if a = b then Suc (agree as bs) else 0)"
  by (simp_all add: agree_def)

lemma agree_le: "length as = length bs \<Longrightarrow> agree as bs \<le> length as"
  by (induction as bs rule: list_induct2) auto

lemma agree_all: "length as = length bs \<Longrightarrow> agree as bs = length as \<longleftrightarrow> as = bs"
  by (induction as bs rule: list_induct2) auto

lemma memcmp_skip_eq: "chain st p xs \<Longrightarrow> memcmp_skip p k st = pbuf_skip_const p k st"
proof (induction xs arbitrary: p k)
  case Nil
  then show ?case by (simp add: pbuf_skip_const.simps memcmp_skip.simps)
next
  case (Cons x xs)
  then show ?case by (cases x) (subst pbuf_skip_const.simps, subst memcmp_skip.simps, simp)
qed

lemma memcmp_loop_is:
  assumes c: "chain st q ys" "packet ys" and n: "unat start + unat n \<le> total ys" and i: "unat i \<le> unat n"
  shows "memcmp_loop q start s2 n i st =
    Some (let a = agree (drop (unat i) (take (unat n) (drop (unat start) (content st ys)))) (drop (unat i) (get_bytes s2 (unat n) st))
          in if a = unat n - unat i then 0 else of_nat (unat i + a + 1))"
  using i
proof (induction "unat n - unat i" arbitrary: i)
  case 0
  then show ?case by (subst memcmp_loop.simps) (simp add: word_less_nat_alt)
next
  case (Suc m)
  define A where "A = take (unat n) (drop (unat start) (content st ys))"
  define B where "B = get_bytes s2 (unat n) st"
  have len: "length A = unat n" "length B = unat n" using n length_content [OF c(2)] by (simp_all add: A_def B_def)
  have lt: "unat i < unat n" using Suc.hyps(2) by linarith
  have small: "unat start + unat n < 65536" using n packet_total [OF c(2)] by linarith
  have i1: "unat (i + 1) = unat i + 1" using lt unat_u16_less [of n] by (subst unat_add_nat) simp_all
  have si: "unat (start + i) = unat start + unat i" using lt small by (subst unat_add_nat) simp_all
  have get: "pbuf_get_at q (start + i) st = Some (A ! unat i)"
    using get_at_is [OF c] lt n by (simp add: si A_def length_content [OF c(2)])
  have b: "bytes st (padd s2 (uint i)) = B ! unat i" using lt by (simp add: B_def nth_get)
  have dA: "drop (unat i) A = A ! unat i # drop (unat i + 1) A" using len lt by (simp add: Cons_nth_drop_Suc)
  have dB: "drop (unat i) B = B ! unat i # drop (unat i + 1) B" using len lt by (simp add: Cons_nth_drop_Suc)
  have "uint i + 1 \<le> 0xFFFF" using lt unat_u16_less [of n] uint_nat [of i] by linarith
  then have wi: "word_of_int (min (uint i + 1) 0xFFFF) = (of_nat (unat i + 1) :: u16)"
    by (simp add: min_absorb1)
  have step: "memcmp_loop q start s2 n (i + 1) st =
      Some (let a = agree (drop (unat i + 1) A) (drop (unat i + 1) B) in if a = unat n - (unat i + 1) then 0 else of_nat (unat i + 1 + a + 1))"
    using Suc.hyps(1) [of "i + 1"] Suc.hyps(2) lt unfolding i1 A_def B_def by simp
  show ?case
  proof (cases "A ! unat i = B ! unat i")
    case True
    then show ?thesis
      unfolding A_def [symmetric] B_def [symmetric] dA dB
      by (subst memcmp_loop.simps) (use lt step get b in \<open>auto simp: word_less_nat_alt Let_def\<close>)
  next
    case False
    then show ?thesis
      unfolding A_def [symmetric] B_def [symmetric] dA dB
      by (subst memcmp_loop.simps) (use lt get b wi in \<open>simp add: word_less_nat_alt Let_def\<close>)
  qed
qed

lemma skip_rest:
  assumes "chain st p xs" "packet xs" "skip k xs = (ys, j)" "k \<le> total xs"
  shows "chain st (head ys) ys \<and> packet ys \<and> drop j (content st ys) = drop k (content st xs) \<and> total ys - j = total xs - k \<and> j \<le> total ys"
proof -
  from skip_suffix [OF assms(3)] obtain zs where z: "xs = zs @ ys" "k = total zs + j" "ys = [] \<or> j < len_of (snd (hd ys))" by blast
  have "length (content st zs) = total zs" using assms(2) unfolding z(1) by (induction zs) (auto simp: length_data)
  then have "drop k (content st xs) = drop j (content st ys)" unfolding z(1,2) by simp
  moreover have "j \<le> total ys" using z assms(4) by (cases ys) auto
  ultimately show ?thesis using assms(1,2) z packet_append chain_append by auto
qed

lemma memcmp_is:
  assumes c: "chain st p xs" "packet xs" "xs \<noteq> []"
  shows "pbuf_memcmp p k s2 n st = Some (if total xs < unat k + unat n then 0xffff
    else let a = agree (take (unat n) (drop (unat k) (content st xs))) (get_bytes s2 (unat n) st)
         in if a = unat n then 0 else of_nat (a + 1))"
proof -
  obtain x xs' where xs: "xs = x # xs'" using c(3) by (cases xs) auto
  have d: "deref p st = Some (snd x)" using c(1) by (cases x) (auto simp: xs deref_def)
  have tot: "unat (pb_tot_len (snd x)) = total xs" using c(2) by (simp add: xs)
  show ?thesis
  proof (cases "total xs < unat k + unat n")
    case False
    obtain ys j where s: "skip (unat k) xs = (ys, j)" by (cases "skip (unat k) xs")
    then have r: "chain st (head ys) ys" "packet ys" "drop j (content st ys) = drop (unat k) (content st xs)"
        "total ys - j = total xs - unat k" "j \<le> total ys"
      using skip_rest [OF c(1,2) s] False by auto
    then have "unat (of_nat j :: u16) = j" using packet_total [OF r(2)] by (simp add: unat_of_nat take_bit_nat_eq_self)
    then have "memcmp_loop (head ys) (of_nat j) s2 n 0 st = Some (let a = agree (take (unat n) (drop (unat k) (content st xs))) (get_bytes s2 (unat n) st)
         in if a = unat n then 0 else of_nat (a + 1))"
      using memcmp_loop_is [OF r(1,2), of "of_nat j" n 0 s2] False r by (simp add: Let_def)
    then show ?thesis
      using False d tot s by (simp add: pbuf_memcmp_def memcmp_skip_eq [OF c(1)] skip_const_is [OF c(1)])
  qed (simp add: pbuf_memcmp_def d tot)
qed

section \<open>Searching\<close>

definition occurs :: "u8 list \<Rightarrow> u8 list \<Rightarrow> nat \<Rightarrow> bool" where
  "occurs m s k \<longleftrightarrow> k + length m \<le> length s \<and> take (length m) (drop k s) = m"

lemma memcmp_0:
  assumes c: "chain st p xs" "packet xs" "xs \<noteq> []" and "unat k + unat n \<le> total xs"
  shows "\<exists>r. pbuf_memcmp p k s2 n st = Some r \<and> (r = 0 \<longleftrightarrow> occurs (get_bytes s2 (unat n) st) (content st xs) (unat k))"
proof -
  define A where "A = take (unat n) (drop (unat k) (content st xs))"
  define B where "B = get_bytes s2 (unat n) st"
  have len: "length A = unat n" "length B = unat n" "length (content st xs) = total xs"
    using assms(4) length_content [OF c(2)] by (simp_all add: A_def B_def)
  have "of_nat (agree A B + 1) \<noteq> (0 :: u16)" if "agree A B \<noteq> unat n"
  proof -
    have "agree A B + 1 < 65536" using that agree_le [of A B] len unat_u16_less [of n] by simp
    then have "unat (of_nat (agree A B + 1) :: u16) = agree A B + 1" by (simp only: unat_of_nat) (simp add: take_bit_nat_eq_self)
    then show ?thesis by (metis add_is_0 one_neq_zero unat_0)
  qed
  then show ?thesis
    using assms(4) len agree_all [of A B]
    by (auto simp: memcmp_is [OF c] occurs_def Let_def A_def [symmetric] B_def [symmetric] not_less)
qed

lemma memfind_loop_is:
  assumes c: "chain st p xs" "packet xs" "xs \<noteq> []" and n: "unat n \<le> total xs"
    and m: "unat m = total xs - unat n" and i: "unat i \<le> unat m"
  shows "memfind_loop p mem n m i st =
    Some (case find (occurs (get_bytes mem (unat n) st) (content st xs)) [unat i ..< total xs + 1 - unat n] of
        None \<Rightarrow> 0xFFFF | Some k \<Rightarrow> of_nat k)"
  using i
proof (induction "unat m - unat i" arbitrary: i rule: less_induct)
  case less
  define occ where "occ = occurs (get_bytes mem (unat n) st) (content st xs)"
  have up: "[unat i ..< total xs + 1 - unat n] = unat i # [unat i + 1 ..< total xs + 1 - unat n]"
    using less.prems m n by (simp add: upt_conv_Cons)
  have "unat i + unat n \<le> total xs" using less.prems m n by linarith
  from memcmp_0 [OF c this, of mem] obtain r where r: "pbuf_memcmp p i mem n st = Some r" "r = 0 \<longleftrightarrow> occ (unat i)"
    unfolding occ_def by blast
  show ?case
  proof (cases "occ (unat i)")
    case True
    then show ?thesis
      by (subst memfind_loop.simps) (use r less.prems up in \<open>simp add: word_le_nat_alt occ_def [symmetric]\<close>)
  next
    case False
    have n0: "unat n \<noteq> 0"
    proof
      assume "unat n = 0"
      then show False using False less.prems m by (simp add: occ_def occurs_def length_content [OF c(2)])
    qed
    have i1: "unat (i + 1) = unat i + 1"
      using less.prems m n0 n packet_total [OF c(2)] by (subst unat_add_nat) simp_all
    show ?thesis
    proof (cases "unat i = unat m")
      case True
      then have emp: "[unat i + 1 ..< total xs + 1 - unat n] = []" using m by simp
      have "memfind_loop p mem n m (i + 1) st = Some 0xFFFF"
        by (subst memfind_loop.simps) (use True i1 in \<open>simp add: word_le_nat_alt\<close>)
      then show ?thesis
        unfolding up emp by (subst memfind_loop.simps) (use r False less.prems in \<open>simp add: word_le_nat_alt occ_def [symmetric]\<close>)
    next
      case False': False
      have "memfind_loop p mem n m (i + 1) st = Some (case find occ [unat i + 1 ..< total xs + 1 - unat n] of
          None \<Rightarrow> 0xFFFF | Some k \<Rightarrow> of_nat k)"
        using less.hyps [of "i + 1"] less.prems False' unfolding i1 occ_def by simp
      then show ?thesis
        by (subst memfind_loop.simps) (use r False less.prems up in \<open>simp add: word_le_nat_alt occ_def [symmetric]\<close>)
    qed
  qed
qed

lemma memfind_is:
  assumes c: "chain st p xs" "packet xs" "xs \<noteq> []"
  shows "pbuf_memfind p mem n start st =
    Some (case find (occurs (get_bytes mem (unat n) st) (content st xs)) [unat start ..< total xs + 1 - unat n] of
        None \<Rightarrow> 0xFFFF | Some k \<Rightarrow> of_nat k)"
proof -
  obtain x xs' where xs: "xs = x # xs'" using c(3) by (cases xs) auto
  have d: "deref p st = Some (snd x)" using c(1) by (cases x) (auto simp: xs deref_def)
  have tot: "unat (pb_tot_len (snd x)) = total xs" using c(2) by (simp add: xs)
  show ?thesis
  proof (cases "unat n + unat start \<le> total xs")
    case True
    have "unat (pb_tot_len (snd x) - n) = total xs - unat n" using True tot by (subst unat_sub_nat) simp_all
    then show ?thesis
      using True memfind_loop_is [OF c, of n "pb_tot_len (snd x) - n" start mem] by (simp add: pbuf_memfind_def d tot)
  next
    case False
    then have "[unat start ..< total xs + 1 - unat n] = []" by simp
    then show ?thesis using False by (simp add: pbuf_memfind_def d tot)
  qed
qed

text \<open>A string in memory, without its terminating zero.\<close>

definition string_at :: "addr \<Rightarrow> u8 list \<Rightarrow> pbufs \<Rightarrow> bool" where
  "string_at s str st \<longleftrightarrow> get_bytes s (length str + 1) st = str @ [0] \<and> 0 \<notin> set str"

lemma strlen_is:
  assumes "string_at s str st" "n \<le> length str"
  shows "strlen s n st = Some (length str)"
  using assms(2)
proof (induction "length str - n" arbitrary: n)
  case 0
  then have n: "n = length str" by simp
  have "bytes st (padd s (int n)) = (str @ [0]) ! n"
    using assms(1) nth_get [of n "length str + 1" s st] n by (simp add: string_at_def)
  then show ?case unfolding n by (subst strlen.simps) simp
next
  case (Suc m)
  then have "bytes st (padd s (int n)) = (str @ [0]) ! n"
    using assms(1) nth_get [of n "length str + 1" s st] by (simp add: string_at_def)
  then have "bytes st (padd s (int n)) \<noteq> 0" using Suc assms(1) by (auto simp: string_at_def nth_append in_set_conv_nth)
  then show ?case using Suc by (subst strlen.simps) simp
qed

lemma strstr_is:
  assumes c: "chain st p xs" "packet xs" "xs \<noteq> []" and s: "string_at s str st" "str \<noteq> []"
    and len: "total xs < 0xFFFF" "length str < 0xFFFF"
  shows "pbuf_strstr p (Some s) st =
    Some (case find (occurs str (content st xs)) [0 ..< total xs + 1 - length str] of None \<Rightarrow> 0xFFFF | Some k \<Rightarrow> of_nat k)"
proof -
  obtain x xs' where xs: "xs = x # xs'" using c(3) by (cases xs) auto
  have d: "deref p st = Some (snd x)" using c(1) by (cases x) (auto simp: xs deref_def)
  have tot: "unat (pb_tot_len (snd x)) = total xs" using c(2) by (simp add: xs)
  then have t: "pb_tot_len (snd x) \<noteq> 0xFFFF" using len(1) by auto
  have "bytes st s = (str @ [0]) ! 0"
    using s nth_get [of 0 "length str + 1" s st] by (simp add: string_at_def)
  then have nz: "bytes st s \<noteq> 0" using s by (auto simp: string_at_def nth_append in_set_conv_nth)
  have l: "unat (of_nat (length str) :: u16) = length str" using len(2) by (simp add: unat_of_nat take_bit_nat_eq_self)
  have "get_bytes s (length str) st = str"
    using s take_get [of "length str" "length str + 1" s st] by (simp add: string_at_def)
  then show ?thesis
    using memfind_is [OF c, of s "of_nat (length str)" 0] d t nz len(2) strlen_is [OF s(1), of 0]
    by (simp add: pbuf_strstr_def l)
qed

end
