(* ===== verification/Lwip_Packet_Copy.thy ===== *)
theory Lwip_Packet_Copy
  imports Lwip_Packet_Search
begin

text \<open>Copying between packets and plain memory, and from packet to packet.\<close>

section \<open>Out of a packet\<close>

lemma memcpy_data:
  assumes "pb_payload b = None \<longrightarrow> pb_len b = 0" "k + n \<le> len_of b"
  shows "memcpy (Some d) (map_option (\<lambda>a. padd a (int k)) (pb_payload b)) n st =
    Some (put_bytes d (take n (drop k (data st b))) st)"
proof (cases "pb_payload b")
  case None
  then show ?thesis using assms by (simp add: data_def)
next
  case (Some a)
  then have "get_bytes (padd a (int k)) n st = take n (drop k (data st b))"
    using assms(2) by (simp add: data_def drop_get take_get)
  then show ?thesis by (simp add: Some memcpy_get)
qed

lemma copy_partial_loop_is:
  assumes "chain st p xs" "packet xs"
    and "unat left + unat n < 65536" "areas xs \<inter> area (padd d (uint left)) (min (unat n) (total xs - unat k)) = {}"
  shows "copy_partial_loop p d left n k tot st =
    Some (tot + of_nat (min (unat n) (total xs - unat k)),
      put_bytes (padd d (uint left)) (take (unat n) (drop (unat k) (content st xs))) st)"
  using assms
proof (induction xs arbitrary: p left n k tot st)
  case Nil
  then show ?case by (subst copy_partial_loop.simps) simp
next
  case (Cons x xs)
  obtain a b where x: "x = (a, b)" by (cases x)
  have at: "p = Some a" "pb_at st a = Some b" "chain st (pb_next b) xs" using Cons.prems(1) by (simp_all add: x)
  have pk: "packet xs" "pb_payload b = None \<longrightarrow> pb_len b = 0" using Cons.prems(2) by (simp_all add: x)
  have ld: "length (data st b) = len_of b" using pk(2) by (intro length_data) auto
  show ?case
  proof (cases "n = 0")
    case True
    then show ?thesis by (subst copy_partial_loop.simps) simp
  next
    case n: False
    show ?thesis
    proof (cases "k \<noteq> 0 \<and> pb_len b \<le> k")
      case True
      then have k: "unat (k - pb_len b) = unat k - len_of b" "len_of b \<le> unat k"
        by (simp_all add: unat_sub word_le_nat_alt)
      have "copy_partial_loop p d left n k tot st = copy_partial_loop (pb_next b) d left n (k - pb_len b) tot st"
        by (subst copy_partial_loop.simps) (use n True at in \<open>simp add: deref_def\<close>)
      also have "\<dots> = Some (tot + of_nat (min (unat n) (total xs - (unat k - len_of b))),
          put_bytes (padd d (uint left)) (take (unat n) (drop (unat k - len_of b) (content st xs))) st)"
      proof -
        have "total (x # xs) - unat k = total xs - (unat k - len_of b)" using k(2) by (simp add: x)
        then have "areas xs \<inter> area (padd d (uint left)) (min (unat n) (total xs - (unat k - len_of b))) = {}"
          using Cons.prems(4) by (simp add: Int_Un_distrib2)
        then show ?thesis using Cons.IH [OF at(3) pk(1) Cons.prems(3), of "k - pb_len b" tot] unfolding k(1) by simp
      qed
      finally show ?thesis using k ld by (simp add: x add.commute)
    next
      case False
      then have k: "unat k \<le> len_of b" by (auto simp: word_le_nat_alt)
      define m where "m = (if n < pb_len b - k then n else pb_len b - k)"
      have bk: "unat (pb_len b - k) = len_of b - unat k" using k by (rule unat_sub_nat)
      have m: "unat m = min (unat n) (len_of b - unat k)"
        by (auto simp: m_def word_less_nat_alt bk)
      have nm: "unat (n - m) = unat n - (len_of b - unat k)" using m by (subst unat_sub_nat) auto
      have lm: "unat (left + m) = unat left + unat m" using Cons.prems(3) m by (subst unat_add_nat) auto
      then have ulm: "uint (left + m) = uint left + int (unat m)" by (metis of_nat_add of_nat_unat)
      define l where "l = take (unat m) (drop (unat k) (data st b))"
      have l: "length l = unat m" using m ld by (simp add: l_def)
      let ?st = "put_bytes (padd d (uint left)) l st"
      have sum: "unat m + min (unat n - (len_of b - unat k)) (total xs) = min (unat n) (total (x # xs) - unat k)"
        using m k by (simp add: x)
      have split: "area (padd d (uint left)) (min (unat n) (total (x # xs) - unat k)) =
          area (padd d (uint left)) (unat m) \<union> area (padd d (uint (left + m))) (min (unat n - (len_of b - unat k)) (total xs))"
        unfolding sum [symmetric] area_simps by (simp add: ulm)
      have dis: "areas xs \<inter> area (padd d (uint left)) (unat m) = {}"
        "areas xs \<inter> area (padd d (uint (left + m))) (min (unat n - (len_of b - unat k)) (total xs)) = {}"
        using Cons.prems(4) unfolding split by auto
      have "memcpy (Some (padd d (uint left))) (map_option (\<lambda>a. padd a (uint k)) (pb_payload b)) (unat m) st = Some ?st"
        using memcpy_data [OF pk(2), of "unat k" "unat m" "padd d (uint left)" st] m k by (simp add: l_def)
      then have "copy_partial_loop p d left n k tot st = copy_partial_loop (pb_next b) d (left + m) (n - m) 0 (tot + m) ?st"
        by (subst copy_partial_loop.simps) (use n False at in \<open>auto simp: deref_def m_def [symmetric]\<close>)
      also have "\<dots> = Some (tot + m + of_nat (min (unat (n - m)) (total xs - unat (0 :: u16))),
          put_bytes (padd d (uint (left + m))) (take (unat (n - m)) (drop (unat (0 :: u16)) (content ?st xs))) ?st)"
        using at(3) pk Cons.prems(3) dis(2) by (intro Cons.IH) (simp_all add: lm nm m)
      also have "content ?st xs = content st xs" using dis(1) by (intro content_put) (simp add: l)
      also have "tot + m + of_nat (min (unat (n - m)) (total xs - unat (0 :: u16))) = tot + of_nat (min (unat n) (total (x # xs) - unat k))"
        unfolding sum [symmetric] by (simp add: nm add.assoc)
      also have "padd d (uint (left + m)) = padd (padd d (uint left)) (int (length l))" by (simp add: l ulm)
      also have "put_bytes (padd (padd d (uint left)) (int (length l))) (take (unat (n - m)) (drop (unat (0 :: u16)) (content st xs))) ?st =
          put_bytes (padd d (uint left)) (l @ take (unat n - (len_of b - unat k)) (content st xs)) st"
        unfolding put_append by (simp only: nm) simp
      also have "l @ take (unat n - (len_of b - unat k)) (content st xs) = take (unat n) (drop (unat k) (content st (x # xs)))"
        using k ld m by (auto simp: x l_def min_def)
      finally show ?thesis .
    qed
  qed
qed

lemma copy_partial_is:
  assumes "chain st p xs" "packet xs" "areas xs \<inter> area d (min (unat n) (total xs - unat k)) = {}" "xs \<noteq> []"
  shows "pbuf_copy_partial p (Some d) n k st =
    Some (of_nat (min (unat n) (total xs - unat k)), put_bytes d (take (unat n) (drop (unat k) (content st xs))) st)"
proof -
  obtain a where "p = Some a" using assms(1,4) by (cases xs) auto
  then show ?thesis
    using copy_partial_loop_is [OF assms(1,2), of 0 n d k 0] assms(3) unat_u16_less [of n]
    by (simp add: pbuf_copy_partial_def)
qed

section \<open>Into a packet\<close>

fun separate :: "links \<Rightarrow> bool" where
  "separate [] \<longleftrightarrow> True"
| "separate (x # xs) \<longleftrightarrow> data_area (snd x) \<inter> areas xs = {} \<and> separate xs"

lemma separate_append: "separate (xs @ ys) \<longleftrightarrow> separate xs \<and> separate ys \<and> areas xs \<inter> areas ys = {}"
  by (induction xs) auto

text \<open>Nothing but bytes of the given area has changed.\<close>

definition only_bytes :: "addr set \<Rightarrow> pbufs \<Rightarrow> pbufs \<Rightarrow> bool" where
  "only_bytes A st st' \<longleftrightarrow> (\<exists>f. st' = st\<lparr>bytes := f\<rparr>) \<and> (\<forall>x. x \<notin> A \<longrightarrow> bytes st' x = bytes st x)"

lemma only_bytes_refl: "only_bytes A st st"
  by (auto simp: only_bytes_def intro!: exI [of _ "bytes st"])

lemma only_bytes_trans: "only_bytes A st st' \<Longrightarrow> only_bytes B st' st'' \<Longrightarrow> only_bytes (A \<union> B) st st''"
  by (auto simp: only_bytes_def)

lemma only_bytes_mono: "only_bytes A st st' \<Longrightarrow> A \<subseteq> B \<Longrightarrow> only_bytes B st st'"
  by (auto simp: only_bytes_def)

lemma only_bytes_put: "only_bytes (area a (length l)) st (put_bytes a l st)"
  unfolding only_bytes_def by (auto simp: put_other) (auto simp: put_bytes_def)

lemma only_bytes_chain: "only_bytes A st st' \<Longrightarrow> chain st' p xs = chain st p xs"
  by (rule chain_same) (auto simp: only_bytes_def)

lemma only_bytes_content: "only_bytes A st st' \<Longrightarrow> A \<inter> areas xs = {} \<Longrightarrow> content st' xs = content st xs"
  by (rule content_cong) (auto simp: only_bytes_def)

lemma only_bytes_at: "only_bytes A st st' \<Longrightarrow> pb_at st' = pb_at st"
  by (auto simp: only_bytes_def)

lemma only_bytes_get: "only_bytes A st st' \<Longrightarrow> A \<inter> area a n = {} \<Longrightarrow> get_bytes a n st' = get_bytes a n st"
  by (rule get_cong) (auto simp: only_bytes_def)

text \<open>Bytes written into the payload of one buffer.\<close>

lemma put_data:
  assumes "pb_payload b = Some a" "k + length l \<le> len_of b"
  shows "data (put_bytes (padd a (int k)) l st) b = take k (data st b) @ l @ drop (k + length l) (data st b)"
    and "only_bytes (data_area b) st (put_bytes (padd a (int k)) l st)"
proof -
  let ?st = "put_bytes (padd a (int k)) l st"
  have "len_of b = k + (length l + (len_of b - k - length l))" using assms(2) by simp
  then have "get_bytes a (len_of b) ?st = get_bytes a k ?st @ get_bytes (padd a (int k)) (length l) ?st @
      get_bytes (padd a (int k + int (length l))) (len_of b - k - length l) ?st"
    by (metis get_add padd_simps(2))
  also have "get_bytes (padd a (int k)) (length l) ?st = l" by (rule get_put)
  also have "get_bytes a k ?st = get_bytes a k st" by (rule get_put_other) (auto simp: area_iff)
  also have "get_bytes (padd a (int k + int (length l))) (len_of b - k - length l) ?st =
      get_bytes (padd a (int k + int (length l))) (len_of b - k - length l) st"
    by (rule get_put_other) (auto simp: area_iff)
  also have "get_bytes a k st = take k (data st b)" using assms by (simp add: data_def take_get)
  also have "get_bytes (padd a (int k + int (length l))) (len_of b - k - length l) st = drop (k + length l) (data st b)"
    using assms by (simp add: data_def drop_get)
  finally show "data ?st b = take k (data st b) @ l @ drop (k + length l) (data st b)" using assms(1) by (simp add: data_def)
  show "only_bytes (data_area b) st ?st"
    by (rule only_bytes_mono [OF only_bytes_put]) (use assms area_part in \<open>auto simp: data_area_def\<close>)
qed

lemma memcpy_into:
  assumes "pb_payload b = None \<longrightarrow> pb_len b = 0" "k + n \<le> len_of b"
  obtains st' where "memcpy (map_option (\<lambda>a. padd a (int k)) (pb_payload b)) (Some s) n st = Some st'"
    "data st' b = take k (data st b) @ get_bytes s n st @ drop (k + n) (data st b)" "only_bytes (data_area b) st st'"
proof (cases "pb_payload b")
  case None
  then have "n = 0" "data st b = []" using assms by (simp_all add: data_def)
  then show thesis by (intro that [of st]) (simp_all add: only_bytes_refl)
next
  case (Some a)
  then show thesis
    using put_data [OF Some, of k "get_bytes s n st"] assms(2)
    by (intro that [of "put_bytes (padd a (int k)) (get_bytes s n st) st"]) (simp_all add: memcpy_get)
qed

lemma take_loop_is:
  assumes "chain st p xs" "packet xs" "separate xs" "n \<le> total xs" "areas xs \<inter> area (padd d (int c)) n = {}"
  shows "\<exists>st'. take_loop p d n c st = Some st' \<and> only_bytes (areas xs) st st' \<and>
    content st' xs = get_bytes (padd d (int c)) n st @ drop n (content st xs)"
  using assms
proof (induction xs arbitrary: p n c st)
  case Nil
  then show ?case by (subst take_loop.simps) (simp add: only_bytes_refl)
next
  case (Cons x xs)
  obtain a b where x: "x = (a, b)" by (cases x)
  have at: "p = Some a" "pb_at st a = Some b" "chain st (pb_next b) xs" using Cons.prems(1) by (simp_all add: x)
  have pk: "packet xs" "pb_payload b = None \<longrightarrow> pb_len b = 0" using Cons.prems(2) by (simp_all add: x)
  have ld: "length (data st b) = len_of b" using pk(2) by (intro length_data) auto
  show ?case
  proof (cases "n = 0")
    case True
    then show ?thesis by (subst take_loop.simps) (simp add: only_bytes_refl)
  next
    case False
    define m where "m = (if len_of b < n then len_of b else n)"
    have m: "m = min n (len_of b)" by (auto simp: m_def)
    obtain st1 where run: "memcpy (map_option (\<lambda>a. padd a (int 0)) (pb_payload b)) (Some (padd d (int c))) m st = Some st1"
      and d1: "data st1 b = take 0 (data st b) @ get_bytes (padd d (int c)) m st @ drop (0 + m) (data st b)"
      and o1: "only_bytes (data_area b) st st1"
      by (rule memcpy_into [OF pk(2), of 0 m]) (use m in auto)
    have run: "memcpy (pb_payload b) (Some (padd d (int c))) m st = Some st1"
      using run by (simp add: map_option.identity [unfolded id_def])
    have nm: "n = m + (n - m)" using m by simp
    have dis: "areas xs \<inter> area (padd d (int (c + m))) (n - m) = {}" "data_area b \<inter> area (padd d (int (c + m))) (n - m) = {}"
      using Cons.prems(5) area_part [of m "n - m" n "padd d (int c)"] nm by (auto simp: x)
    have "\<exists>st'. take_loop (pb_next b) d (n - m) (c + m) st1 = Some st' \<and> only_bytes (areas xs) st1 st' \<and>
        content st' xs = get_bytes (padd d (int (c + m))) (n - m) st1 @ drop (n - m) (content st1 xs)"
      using at(3) pk(1) Cons.prems dis(1) m by (intro Cons.IH) (auto simp: only_bytes_chain [OF o1] x)
    then obtain st' where st': "take_loop (pb_next b) d (n - m) (c + m) st1 = Some st'" "only_bytes (areas xs) st1 st'"
      "content st' xs = get_bytes (padd d (int (c + m))) (n - m) st1 @ drop (n - m) (content st1 xs)" by blast
    have sep: "data_area b \<inter> areas xs = {}" using Cons.prems(3) by (simp add: x)
    have "get_bytes (padd d (int (c + m))) (n - m) st1 = get_bytes (padd d (int (c + m))) (n - m) st"
      by (rule only_bytes_get [OF o1 dis(2)])
    moreover have "content st1 xs = content st xs" by (rule only_bytes_content [OF o1 sep])
    moreover have "data st' b = data st1 b" by (rule data_cong) (use st'(2) sep in \<open>auto simp: only_bytes_def\<close>)
    moreover have "get_bytes (padd d (int c)) n st = get_bytes (padd d (int c)) m st @ get_bytes (padd d (int (c + m))) (n - m) st"
      by (subst nm, subst get_add) simp
    moreover have "drop m (data st b) @ drop (n - m) (content st xs) = drop n (data st b @ content st xs) \<or> m = n"
      using ld m by auto
    moreover have "n - m = 0 \<or> drop m (data st b) = []" using ld m by auto
    ultimately have "content st' (x # xs) = get_bytes (padd d (int c)) n st @ drop n (content st (x # xs))"
      using st'(3) d1 m ld by (auto simp: x min_def split: if_splits)
    moreover have "take_loop p d n c st = Some st'"
      by (subst take_loop.simps) (use False at run st'(1) in \<open>simp add: deref_def m_def\<close>)
    moreover have "only_bytes (areas (x # xs)) st st'" using only_bytes_trans [OF o1 st'(2)] by (simp add: x)
    ultimately show ?thesis by blast
  qed
qed

lemma take_is:
  assumes "chain st p xs" "packet xs" "separate xs" "xs \<noteq> []" "unat n \<le> total xs" "areas xs \<inter> area d (unat n) = {}"
  shows "\<exists>st'. pbuf_take p (Some d) n st = Some (ERR_OK, st') \<and> only_bytes (areas xs) st st' \<and>
    content st' xs = get_bytes d (unat n) st @ drop (unat n) (content st xs)"
proof -
  obtain a b xs' where xs: "xs = (a, b) # xs'" using assms(4) by (cases xs) auto
  have p: "p = Some a" "pb_at st a = Some b" "n \<le> pb_tot_len b"
    using assms(1,2,5) by (simp_all add: xs word_le_nat_alt)
  then show ?thesis using take_loop_is [OF assms(1-3,5), of d 0] assms(6) by (auto simp: pbuf_take_def)
qed

text \<open>Bytes written into one buffer of a packet.\<close>

lemma content_replaced:
  assumes pk: "packet (zs @ x # ys)" and sep: "separate (zs @ x # ys)" and j: "j + length l \<le> len_of (snd x)"
    and o: "only_bytes (data_area (snd x)) st st'"
    and d: "data st' (snd x) = take j (data st (snd x)) @ l @ drop (j + length l) (data st (snd x))"
  shows "content st' (zs @ x # ys) =
    take (total zs + j) (content st (zs @ x # ys)) @ l @ drop (total zs + j + length l) (content st (zs @ x # ys))"
proof -
  have "content st' zs = content st zs" "content st' ys = content st ys"
    using only_bytes_content [OF o] sep by (auto simp: separate_append)
  moreover have "length (content st zs) = total zs" using pk by (induction zs) (auto simp: length_data)
  moreover have "length (data st (snd x)) = len_of (snd x)" using packet_append [OF pk] by (intro length_data) auto
  ultimately show ?thesis using d j by simp
qed

lemma put_single: "put_bytes a [v] st = st\<lparr>bytes := (bytes st)(a := v)\<rparr>"
proof -
  have "area a (length [v]) = {a}" by (auto simp: area_def)
  then have "(\<lambda>x. if x \<in> area a (length [v]) then [v] ! nat (snd x - snd a) else bytes st x) = (bytes st)(a := v)" by auto
  then show ?thesis by (simp add: put_bytes_def)
qed

lemma put_at_is:
  assumes c: "chain st p xs" "packet xs" "separate xs"
  shows "\<exists>st'. pbuf_put_at p k v st = Some st' \<and> only_bytes (areas xs) st st' \<and>
    content st' xs = (content st xs)[unat k := v]"
proof (cases "unat k < total xs")
  case True
  obtain zs x ys j where s: "skip (unat k) xs = (x # ys, j)" and xs: "xs = zs @ x # ys" and k: "unat k = total zs + j"
    and j: "j < len_of (snd x)"
    by (rule skip_within [OF True]) (rule that)
  obtain a b where x: "x = (a, b)" by (cases x)
  obtain pa where pa: "pb_payload (snd x) = Some pa" and pk: "packet (x # ys)"
    by (rule packet_split [OF c(2) [unfolded xs] j, of st]) (rule that)
  have u: "unat (of_nat j :: u16) = j" using offset_small [OF pk] j by simp
  then have ui: "uint (of_nat j :: u16) = int j" by (metis of_nat_unat)
  have at: "pb_at st a = Some b" using c(1) by (intro chain_at) (auto simp: xs x)
  let ?st = "put_bytes (padd pa (int j)) [v] st"
  have "data ?st (snd x) = take j (data st (snd x)) @ [v] @ drop (j + length [v]) (data st (snd x))"
    "only_bytes (data_area (snd x)) st ?st"
    by (rule put_data [OF pa]; use j in simp)+
  then have "content ?st xs = take (unat k) (content st xs) @ [v] @ drop (unat k + 1) (content st xs)"
    using content_replaced [OF c(2) [unfolded xs] c(3) [unfolded xs], of j "[v]" st ?st] j by (simp add: xs k)
  also have "\<dots> = (content st xs)[unat k := v]"
    using True by (simp add: upd_conv_take_nth_drop length_content [OF c(2)])
  finally have "content ?st xs = (content st xs)[unat k := v]" .
  moreover have "only_bytes (areas xs) st ?st"
    by (rule only_bytes_mono [OF \<open>only_bytes (data_area (snd x)) st ?st\<close>]) (auto simp: xs)
  moreover have "?st = st\<lparr>bytes := (bytes st)(padd pa (int j) := v)\<rparr>"
    by (rule put_single)
  then have "pbuf_put_at p k v st = Some ?st"
    using s j pa at u ui skip_const_is [OF c(1), of k]
    by (simp add: pbuf_put_at_def pbuf_skip_def x word_less_nat_alt)
  ultimately show ?thesis by blast
next
  case False
  obtain ys j where s: "skip (unat k) xs = (ys, j)" by (cases "skip (unat k) xs")
  then have "ys = []" using False skip_suffix [OF s] by (cases ys) auto
  then have "pbuf_put_at p k v st = Some st"
    using s skip_const_is [OF c(1), of k] by (simp add: pbuf_put_at_def pbuf_skip_def)
  then show ?thesis using False by (simp add: only_bytes_refl list_update_beyond length_content [OF c(2)])
qed

text \<open>Data put at an offset: as for the whole packet, but the offset must lie inside.\<close>

lemma take_at_is:
  assumes c: "chain st p xs" "packet xs" "separate xs" and a: "areas xs \<inter> area d (unat n) = {}"
  shows "if unat k < total xs \<and> unat k + unat n \<le> total xs
    then \<exists>st'. pbuf_take_at p d n k st = Some (ERR_OK, st') \<and> only_bytes (areas xs) st st' \<and>
      content st' xs = take (unat k) (content st xs) @ get_bytes d (unat n) st @ drop (unat k + unat n) (content st xs)
    else pbuf_take_at p d n k st = Some (ERR_MEM, st)"
proof (cases "unat k < total xs")
  case True
  obtain zs x ys j where s: "skip (unat k) xs = (x # ys, j)" and xs: "xs = zs @ x # ys" and k: "unat k = total zs + j"
    and j: "j < len_of (snd x)"
    by (rule skip_within [OF True]) (rule that)
  obtain q b where x: "x = (q, b)" by (cases x)
  have pk: "packet (x # ys)" using packet_append c(2) xs by blast
  have u: "unat (of_nat j :: u16) = j" using offset_small [OF pk] j by simp
  then have ui: "uint (of_nat j :: u16) = int j" by (metis of_nat_unat)
  have cx: "chain st (Some q) (x # ys)" using chain_append c(1) unfolding xs by (force simp: x)
  then have at: "pb_at st q = Some b" "chain st (pb_next b) ys" by (simp_all add: x)
  have tot: "unat (pb_tot_len b) = len_of b + total ys" using pk by (simp add: x)
  have run: "pbuf_take_at p d n k st =
    (if j + unat n \<le> unat (pb_tot_len b)
     then do {
       let m = min (pb_len b - of_nat j) n;
       st \<leftarrow> memcpy (map_option (\<lambda>p. padd p (int j)) (pb_payload b)) (Some d) (unat m) st;
       if 0 < n - m then do { b \<leftarrow> pb_at st q; pbuf_take (pb_next b) (Some (padd d (uint m))) (n - m) st }
       else Some (ERR_OK, st)
     }
     else Some (ERR_MEM, st))"
    using s at skip_const_is [OF c(1), of k] by (simp add: pbuf_take_at_def pbuf_skip_def x u ui Let_def)
  show ?thesis
  proof (cases "j + unat n \<le> unat (pb_tot_len b)")
    case fits: True
    define m where "m = min (pb_len b - of_nat j) n"
    have "unat (pb_len b - of_nat j) = len_of b - j" using j by (subst unat_sub_nat) (simp_all add: u x)
    then have m: "unat m = min (len_of b - j) (unat n)"
      by (auto simp: m_def min_def word_le_nat_alt)
    have nm: "unat (n - m) = unat n - unat m" using m by (intro unat_sub_nat) simp
    have pl: "pb_payload b = None \<longrightarrow> pb_len b = 0" "j + unat m \<le> len_of b" using pk m j by (simp_all add: x)
    obtain st1 where cp: "memcpy (map_option (\<lambda>p. padd p (int j)) (pb_payload b)) (Some d) (unat m) st = Some st1"
      and d1: "data st1 b = take j (data st b) @ get_bytes d (unat m) st @ drop (j + unat m) (data st b)"
      and o1: "only_bytes (data_area b) st st1"
      by (rule memcpy_into [OF pl, of d st]) (rule that)
    let ?new = "take (unat k) (content st xs) @ get_bytes d (unat n) st @ drop (unat k + unat n) (content st xs)"
    have c1: "content st1 xs = take (unat k) (content st xs) @ get_bytes d (unat m) st @ drop (unat k + unat m) (content st xs)"
      using content_replaced [OF c(2) [unfolded xs] c(3) [unfolded xs], of j "get_bytes d (unat m) st" st st1] d1 o1 pl(2)
      by (simp add: xs k x)
    have part: "only_bytes (areas xs) st st1" by (rule only_bytes_mono [OF o1]) (auto simp: xs x)
    have run': "pbuf_take_at p d n k st =
        (if 0 < n - m then do { b \<leftarrow> pb_at st1 q; pbuf_take (pb_next b) (Some (padd d (uint m))) (n - m) st1 }
         else Some (ERR_OK, st1))"
      using run fits cp unfolding Let_def m_def [symmetric] by simp
    have goal: "unat k + unat n \<le> total xs" using fits tot k by (simp add: xs x)
    show ?thesis
    proof (cases "n = m")
      case True
      then show ?thesis using run' c1 part goal \<open>unat k < total xs\<close> by simp
    next
      case False
      then have lt: "unat m < unat n" using m by (metis min.cobounded2 nat_less_le word_unat_eq_iff)
      then have m': "unat m = len_of b - j" using m by simp
      have n0: "0 < n - m" using False by (simp add: word_greater_zero_iff)
      have ys: "ys \<noteq> []" "unat (n - m) \<le> total ys" using fits lt m' j unfolding tot nm by (auto simp: x)
      have um: "padd d (uint m) = padd d (int (unat m))" by simp
      have dis: "areas ys \<inter> area (padd d (uint m)) (unat (n - m)) = {}"
        using a area_part [of "unat m" "unat (n - m)" "unat n" d] lt nm unfolding um xs by auto
      have sep: "separate ys" "data_area b \<inter> areas ys = {}" "areas zs \<inter> areas ys = {}" using c(3) by (auto simp: xs x separate_append)
      obtain st2 where t: "pbuf_take (pb_next b) (Some (padd d (uint m))) (n - m) st1 = Some (ERR_OK, st2)"
        "only_bytes (areas ys) st1 st2"
        "content st2 ys = get_bytes (padd d (uint m)) (unat (n - m)) st1 @ drop (unat (n - m)) (content st1 ys)"
        using take_is [of st1 "pb_next b" ys "n - m" "padd d (uint m)"] at(2) pk sep ys dis
        by (auto simp: only_bytes_chain [OF o1])
      have "pb_at st1 q = Some b" using at only_bytes_at [OF o1] by simp
      then have res: "pbuf_take_at p d n k st = Some (ERR_OK, st2)"
        using run' t(1) n0 by simp
      have lz: "length (content st zs) = total zs" using c(2) unfolding xs by (induction zs) (auto simp: length_data)
      have lb: "length (data st b) = len_of b" using pl(1) by (intro length_data) auto
      have sz: "areas ys \<inter> areas zs = {}" "data_area b \<inter> areas zs = {}" using c(3) by (auto simp: xs x separate_append)
      have "content st2 zs = content st zs"
        using only_bytes_content [OF t(2) sz(1)] only_bytes_content [OF o1 sz(2)] by simp
      moreover have "data st2 b = data st1 b" by (rule data_cong) (use t(2) sep(2) in \<open>auto simp: only_bytes_def\<close>)
      moreover have "content st1 ys = content st ys" by (rule only_bytes_content [OF o1 sep(2)])
      moreover have "get_bytes (padd d (uint m)) (unat (n - m)) st1 = get_bytes (padd d (uint m)) (unat (n - m)) st"
        using a area_part [of "unat m" "unat (n - m)" "unat n" d] lt nm unfolding um xs
        by (intro only_bytes_get [OF o1]) (auto simp: x)
      moreover have "get_bytes d (unat n) st = get_bytes d (unat m) st @ get_bytes (padd d (uint m)) (unat (n - m)) st"
        using get_add [of d "unat m" "unat (n - m)" st] lt nm unfolding um by simp
      ultimately have "content st2 xs = ?new"
        using t(3) d1 lz lb m' nm j lt by (simp add: xs x k add.commute)
      moreover have "only_bytes (areas xs) st st2"
        by (rule only_bytes_mono [OF only_bytes_trans [OF o1 t(2)]]) (auto simp: xs x)
      ultimately show ?thesis using res goal \<open>unat k < total xs\<close> by auto
    qed
  next
    case False
    then have "\<not> unat k + unat n \<le> total xs" using k tot by (simp add: xs x)
    then show ?thesis using run False by simp
  qed
next
  case False
  obtain ys j where s: "skip (unat k) xs = (ys, j)" by (cases "skip (unat k) xs")
  then have "ys = []" using False skip_suffix [OF s] by (cases ys) auto
  then show ?thesis
    using s skip_const_is [OF c(1), of k] False by (simp add: pbuf_take_at_def pbuf_skip_def)
qed

end
