(* ===== verification/Lwip_Packet_Clone.thy ===== *)
theory Lwip_Packet_Clone
  imports Lwip_Packet_Copy
begin

text \<open>Copying a packet into a packet, whatever the buffers of the two are.\<close>

text \<open>Not a queue of packets: behind a buffer that is not the last there are bytes.\<close>

fun single :: "links \<Rightarrow> bool" where
  "single [] \<longleftrightarrow> True"
| "single (x # xs) \<longleftrightarrow> (xs = [] \<or> 0 < total xs) \<and> single xs"

lemma queue_check:
  assumes "chain st p (x # xs)" "packet (x # xs)" "single (x # xs)"
  shows "deref p st = Some (snd x)" "\<not> (pb_len (snd x) = pb_tot_len (snd x) \<and> pb_next (snd x) \<noteq> None)"
proof -
  show "deref p st = Some (snd x)" using assms(1) by (cases x) (auto simp: deref_def)
  show "\<not> (pb_len (snd x) = pb_tot_len (snd x) \<and> pb_next (snd x) \<noteq> None)"
  proof
    assume "pb_len (snd x) = pb_tot_len (snd x) \<and> pb_next (snd x) \<noteq> None"
    then have "total xs = 0" "xs \<noteq> []" using assms(1,2) by (cases x; auto)+
    then show False using assms(3) by simp
  qed
qed

lemma memcpy_between:
  assumes t: "pb_payload t = None \<longrightarrow> pb_len t = 0" "i + n \<le> len_of t"
    and f: "pb_payload f = None \<longrightarrow> pb_len f = 0" "j + n \<le> len_of f"
  obtains st' where
    "memcpy (map_option (\<lambda>a. padd a (int i)) (pb_payload t)) (map_option (\<lambda>a. padd a (int j)) (pb_payload f)) n st = Some st'"
    "data st' t = take i (data st t) @ take n (drop j (data st f)) @ drop (i + n) (data st t)" "only_bytes (data_area t) st st'"
proof (cases "n = 0")
  case True
  then show thesis by (intro that [of st]) (simp_all add: only_bytes_refl)
next
  case False
  then obtain a where a: "pb_payload f = Some a" using f by fastforce
  have "get_bytes (padd a (int j)) n st = take n (drop j (data st f))"
    using f(2) by (simp add: data_def a drop_get take_get)
  moreover obtain st' where
    "memcpy (map_option (\<lambda>a. padd a (int i)) (pb_payload t)) (Some (padd a (int j))) n st = Some st'"
    "data st' t = take i (data st t) @ get_bytes (padd a (int j)) n st @ drop (i + n) (data st t)"
    "only_bytes (data_area t) st st'"
    by (rule memcpy_into [OF t, of "padd a (int j)" st]) (rule that)
  ultimately show thesis by (intro that [of st']) (simp_all add: a)
qed

text \<open>One round of the loop, with what is left of the two chains.\<close>

lemma copy_round:
  assumes ct: "chain st p_to ts" "packet ts" "single ts" and cf: "chain st p_from fs" "packet fs" "single fs"
    and ts: "ts = t # ts'" and fs: "fs = f # fs'"
    and off: "i \<le> len_of (snd t)" "j \<le> len_of (snd f)" "total fs - j \<le> total ts - i"
    and n: "n = min (len_of (snd f) - j) (len_of (snd t) - i)"
    and cp: "memcpy (map_option (\<lambda>a. padd a (int i)) (pb_payload (snd t)))
      (map_option (\<lambda>a. padd a (int j)) (pb_payload (snd f))) n st = Some st1"
    and at: "pb_at st1 = pb_at st"
  shows "copy_loop p_to p_from i j st =
    (if len_of (snd f) \<le> j + n
     then (if fs' = [] then Some (ERR_OK, st1)
           else if i + n = len_of (snd t) then copy_loop (head ts') (head fs') 0 0 st1
           else copy_loop p_to (head fs') (i + n) 0 st1)
     else copy_loop (head ts') p_from 0 (j + n) st1)"
proof -
  have d: "deref p st1 = deref p st" for p by (simp add: deref_def at cong: option.case_cong)
  obtain ta tb fa fb where tp: "t = (ta, tb)" and fp: "f = (fa, fb)" by (cases t; cases f)
  have t: "deref p_to st = Some (snd t)" "\<not> (pb_len (snd t) = pb_tot_len (snd t) \<and> pb_next (snd t) \<noteq> None)"
    using queue_check ct unfolding ts by blast+
  have "p_to = Some ta" and "chain st (pb_next tb) ts'" using ct(1) by (simp_all add: ts tp)
  moreover from this(2) have "pb_next tb = head ts'" by (rule chain_head)
  ultimately have t: "deref p_to st = Some (snd t)" "\<not> (pb_len (snd t) = pb_tot_len (snd t) \<and> pb_next (snd t) \<noteq> None)"
    "pb_next (snd t) = head ts'" "p_to \<noteq> None" "chain st (head ts') ts'"
    using t by (simp_all add: tp)
  have f: "deref p_from st = Some (snd f)" "\<not> (pb_len (snd f) = pb_tot_len (snd f) \<and> pb_next (snd f) \<noteq> None)"
    using queue_check cf unfolding fs by blast+
  have "p_from = Some fa" and "chain st (pb_next fb) fs'" using cf(1) by (simp_all add: fs fp)
  moreover from this(2) have "pb_next fb = head fs'" by (rule chain_head)
  ultimately have f: "deref p_from st = Some (snd f)" "\<not> (pb_len (snd f) = pb_tot_len (snd f) \<and> pb_next (snd f) \<noteq> None)"
    "pb_next (snd f) = head fs'" "p_from \<noteq> None" "chain st (head fs') fs'"
    using f by (simp_all add: fp)
  have t': "\<exists>b. deref (head ts') st = Some b \<and> \<not> (pb_len b = pb_tot_len b \<and> pb_next b \<noteq> None)" if "ts' \<noteq> []"
    using that queue_check [of st "head ts'" "hd ts'" "tl ts'"] t(5) ct by (cases ts') (auto simp: ts)
  have f': "\<exists>b. deref (head fs') st = Some b \<and> \<not> (pb_len b = pb_tot_len b \<and> pb_next b \<noteq> None)" if "fs' \<noteq> []"
    using that queue_check [of st "head fs'" "hd fs'" "tl fs'"] f(5) cf by (cases fs') (auto simp: fs)
  have hd: "head xs = None \<longleftrightarrow> xs = []" for xs by (cases xs) simp_all
  have len: "(if len_of (snd f) - j \<le> len_of (snd t) - i then len_of (snd f) - j else len_of (snd t) - i) = n"
    using n by auto
  show ?thesis
  proof (cases "len_of (snd f) \<le> j + n")
    case adv: True
    then have nf: "j + n = len_of (snd f)" using n off by simp
    show ?thesis
    proof (cases "i + n = len_of (snd t)")
      case True
      have "ts' \<noteq> []" if "fs' \<noteq> []"
      proof
        assume "ts' = []"
        then have "total fs' = 0" using off nf True unfolding ts fs by simp
        then show False using that cf(3) by (simp add: fs)
      qed
      then show ?thesis
        using t' f' adv True
        by (subst copy_loop.simps) (auto simp: t f d len cp Let_def hd)
    next
      case False
      then show ?thesis
        using f' adv t(2) by (subst copy_loop.simps) (auto simp: t(1,3,4) f d len cp Let_def hd)
    qed
  next
    case False
    then have nt: "i + n = len_of (snd t)" using n off by auto
    have "ts' \<noteq> []"
    proof
      assume "ts' = []"
      then show False using off nt False unfolding ts fs by simp
    qed
    then show ?thesis
      using t' False nt f(2) by (subst copy_loop.simps) (auto simp: t f(1,3,4) d len cp Let_def hd)
  qed
qed

lemma copy_loop_is:
  assumes "chain st p_to ts" "packet ts" "single ts" "separate ts"
    and "chain st p_from fs" "packet fs" "single fs" "areas ts \<inter> areas fs = {}"
    and "ts \<noteq> []" "fs \<noteq> []" "i \<le> len_of (snd (hd ts))" "j \<le> len_of (snd (hd fs))" "total fs - j \<le> total ts - i"
  shows "\<exists>st'. copy_loop p_to p_from i j st = Some (ERR_OK, st') \<and> only_bytes (areas ts) st st' \<and>
    content st' ts = take i (content st ts) @ drop j (content st fs) @ drop (i + (total fs - j)) (content st ts)"
  using assms
proof (induction "length ts + length fs" arbitrary: p_to p_from ts fs i j st rule: less_induct)
  case less
  obtain t ts' f fs' where ts: "ts = t # ts'" and fs: "fs = f # fs'" using less.prems(9,10) by (cases ts; cases fs) auto
  define n where "n = min (len_of (snd f) - j) (len_of (snd t) - i)"
  have pt: "pb_payload (snd t) = None \<longrightarrow> pb_len (snd t) = 0" "i + n \<le> len_of (snd t)"
    and pf: "pb_payload (snd f) = None \<longrightarrow> pb_len (snd f) = 0" "j + n \<le> len_of (snd f)"
    using less.prems(2,6,11,12) by (auto simp: ts fs n_def)
  have lt: "length (data st (snd t)) = len_of (snd t)" and lf: "length (data st (snd f)) = len_of (snd f)"
    using pt(1) pf(1) by (auto intro!: length_data)
  obtain st1 where cp: "memcpy (map_option (\<lambda>a. padd a (int i)) (pb_payload (snd t)))
      (map_option (\<lambda>a. padd a (int j)) (pb_payload (snd f))) n st = Some st1"
    and d1: "data st1 (snd t) = take i (data st (snd t)) @ take n (drop j (data st (snd f))) @ drop (i + n) (data st (snd t))"
    and o1: "only_bytes (data_area (snd t)) st st1"
    by (rule memcpy_between [OF pt pf, of st]) (rule that)
  have sep: "data_area (snd t) \<inter> areas ts' = {}" "data_area (snd t) \<inter> areas fs = {}" "areas ts' \<inter> areas fs = {}"
    "areas ts \<inter> areas fs' = {}" "areas ts' \<inter> areas fs' = {}"
    using less.prems(4,8) by (auto simp: ts fs)
  have c1: "content st1 ts' = content st ts'" "content st1 fs = content st fs" "content st1 fs' = content st fs'"
    using only_bytes_content [OF o1, of ts'] only_bytes_content [OF o1, of fs] only_bytes_content [OF o1, of fs'] sep
    by (auto simp: fs)
  have part: "only_bytes (areas ts) st st1" by (rule only_bytes_mono [OF o1]) (auto simp: ts)
  have pk: "packet ts'" "packet fs'" "single ts'" "single fs'" "separate ts'" using less.prems by (simp_all add: ts fs)
  have hc: "chain st1 (head ts') ts'" "chain st1 (head fs') fs'"
    using chain_append [of st p_to "[t]" ts'] chain_append [of st p_from "[f]" fs'] less.prems(1,5) only_bytes_chain [OF o1]
    by (simp_all add: ts fs)
  note round = copy_round [OF less.prems(1-3,5-7) ts fs _ _ less.prems(13) n_def cp only_bytes_at [OF o1]]
  have off: "i \<le> len_of (snd t)" "j \<le> len_of (snd f)" "total fs - j \<le> total ts - i"
    using less.prems(11-13) by (simp_all add: ts fs)
  note round = round [OF off(1,2)]
  have tf: "total fs = len_of (snd f) + total fs'" "total ts = len_of (snd t) + total ts'" by (simp_all add: ts fs)
  have keep: "data st' (snd t) = data st1 (snd t)" if "only_bytes (areas ts') st1 st'" for st'
    by (rule data_cong) (use that sep(1) in \<open>auto simp: only_bytes_def\<close>)
  show ?case
  proof (cases "len_of (snd f) \<le> j + n")
    case adv: True
    then have nf: "j + n = len_of (snd f)" using pf(2) by simp
    show ?thesis
    proof (cases "fs' = []")
      case True
      then have "copy_loop p_to p_from i j st = Some (ERR_OK, st1)" using round adv by simp
      moreover have "content st1 ts = take i (content st ts) @ drop j (content st fs) @ drop (i + (total fs - j)) (content st ts)"
      proof -
        have "len_of (snd f) - j = n" using nf by simp
        then show ?thesis using d1 c1(1) lt lf pt(2) True by (simp add: ts fs)
      qed
      ultimately show ?thesis using part by blast
    next
      case more: False
      show ?thesis
      proof (cases "i + n = len_of (snd t)")
        case True
        have "ts' \<noteq> []"
        proof
          assume "ts' = []"
          then have "total fs' = 0" using off(3) nf True unfolding tf by simp
          then show False using more less.prems(7) by (simp add: fs)
        qed
        moreover have "total fs' \<le> total ts'" using off nf True unfolding tf by simp
        ultimately have "\<exists>st'. copy_loop (head ts') (head fs') 0 0 st1 = Some (ERR_OK, st') \<and> only_bytes (areas ts') st1 st' \<and>
            content st' ts' = take 0 (content st1 ts') @ drop 0 (content st1 fs') @ drop (0 + (total fs' - 0)) (content st1 ts')"
          using hc pk sep more by (intro less.hyps) (simp_all add: ts fs)
        then obtain st' where st': "copy_loop (head ts') (head fs') 0 0 st1 = Some (ERR_OK, st')" "only_bytes (areas ts') st1 st'"
          "content st' ts' = content st fs' @ drop (total fs') (content st ts')" using c1 by auto
        have "content st' ts = take i (content st ts) @ drop j (content st fs) @ drop (i + (total fs - j)) (content st ts)"
        proof -
          have "i + (total fs - j) = len_of (snd t) + total fs'" using nf True unfolding tf by simp
          then show ?thesis using st'(3) keep [OF st'(2)] d1 nf True lt lf off(1,2) by (simp add: ts fs)
        qed
        moreover have "only_bytes (areas ts) st st'"
          by (rule only_bytes_mono [OF only_bytes_trans [OF part st'(2)]]) (auto simp: ts)
        ultimately show ?thesis using round adv more True st'(1) by auto
      next
        case False
        have "i + n \<le> len_of (snd t)" "total fs' \<le> total ts - (i + n)" using pt(2) off nf unfolding tf by auto
        then have "\<exists>st'. copy_loop p_to (head fs') (i + n) 0 st1 = Some (ERR_OK, st') \<and> only_bytes (areas ts) st1 st' \<and>
            content st' ts = take (i + n) (content st1 ts) @ drop 0 (content st1 fs') @ drop (i + n + (total fs' - 0)) (content st1 ts)"
          using hc pk sep more less.prems(1-4) only_bytes_chain [OF o1] by (intro less.hyps) (simp_all add: ts fs)
        then obtain st' where st': "copy_loop p_to (head fs') (i + n) 0 st1 = Some (ERR_OK, st')" "only_bytes (areas ts) st1 st'"
          "content st' ts = take (i + n) (content st1 ts) @ content st fs' @ drop (i + n + total fs') (content st1 ts)" using c1 by auto
        define A where "A = take i (data st (snd t)) @ take n (drop j (data st (snd f)))"
        have lA: "length A = i + n" using lt lf pt(2) pf(2) by (simp add: A_def)
        have "content st1 ts = A @ drop (i + n) (content st ts)" using d1 c1(1) lt pt(2) by (simp add: ts A_def)
        then have "content st' ts = A @ content st fs' @ drop (i + n + total fs') (content st ts)"
          using st'(3) lA by (simp add: add.commute)
        moreover have "i + (total fs - j) = i + n + total fs'" using nf unfolding tf by simp
        moreover have "A @ content st fs' = take i (content st ts) @ drop j (content st fs)"
          using nf lf lt off(1,2) by (simp add: A_def ts fs)
        ultimately have "content st' ts = take i (content st ts) @ drop j (content st fs) @ drop (i + (total fs - j)) (content st ts)"
          by (metis append.assoc)
        moreover have "only_bytes (areas ts) st st'" using only_bytes_trans [OF part st'(2)] by simp
        ultimately show ?thesis using round adv more False st'(1) by auto
      qed
    qed
  next
    case stay: False
    then have nt: "i + n = len_of (snd t)" using n_def off by auto
    have "ts' \<noteq> []"
    proof
      assume "ts' = []"
      then show False using off nt stay unfolding tf by simp
    qed
    moreover have "j + n \<le> len_of (snd f)" "total fs - (j + n) \<le> total ts'" using stay off nt unfolding tf by auto
    ultimately have "\<exists>st'. copy_loop (head ts') p_from 0 (j + n) st1 = Some (ERR_OK, st') \<and> only_bytes (areas ts') st1 st' \<and>
        content st' ts' = take 0 (content st1 ts') @ drop (j + n) (content st1 fs) @ drop (0 + (total fs - (j + n))) (content st1 ts')"
      using hc pk sep less.prems(5-7) only_bytes_chain [OF o1] by (intro less.hyps) (simp_all add: ts fs)
    then obtain st' where st': "copy_loop (head ts') p_from 0 (j + n) st1 = Some (ERR_OK, st')" "only_bytes (areas ts') st1 st'"
      "content st' ts' = drop (j + n) (content st fs) @ drop (total fs - (j + n)) (content st ts')" using c1 by auto
    have "drop j (content st fs) = take n (drop j (data st (snd f))) @ drop (j + n) (content st fs)"
      using lf stay by (simp add: fs) (metis append_take_drop_id drop_drop add.commute)
    then have "content st' ts = take i (content st ts) @ drop j (content st fs) @ drop (i + (total fs - j)) (content st ts)"
    proof -
      assume e: "drop j (content st fs) = take n (drop j (data st (snd f))) @ drop (j + n) (content st fs)"
      have "i + (total fs - j) = len_of (snd t) + (total fs - (j + n))" using nt stay unfolding tf by simp
      then have "drop (i + (total fs - j)) (content st ts) = drop (total fs - (j + n)) (content st ts')"
        using lt by (simp add: ts)
      moreover have "take i (content st ts) = take i (data st (snd t))" using lt off(1) by (simp add: ts)
      moreover have "content st' ts = data st1 (snd t) @ content st' ts'" using keep [OF st'(2)] by (simp add: ts)
      ultimately show ?thesis using st'(3) d1 nt lt unfolding e by simp
    qed
    moreover have "only_bytes (areas ts) st st'"
      by (rule only_bytes_mono [OF only_bytes_trans [OF part st'(2)]]) (auto simp: ts)
    ultimately show ?thesis using round stay st'(1) by auto
  qed
qed

lemma copy_is:
  assumes t: "chain st p_to ts" "packet ts" "single ts" "separate ts" "ts \<noteq> []"
    and f: "chain st p_from fs" "packet fs" "single fs" "fs \<noteq> []" and a: "areas ts \<inter> areas fs = {}"
  shows "if total fs \<le> total ts
    then \<exists>st'. pbuf_copy p_to p_from st = Some (ERR_OK, st') \<and> only_bytes (areas ts) st st' \<and>
      content st' ts = content st fs @ drop (total fs) (content st ts)
    else pbuf_copy p_to p_from st = Some (ERR_ARG, st)"
proof -
  obtain x ts' y fs' where xs: "ts = x # ts'" "fs = y # fs'" using t(5) f(4) by (cases ts; cases fs) auto
  have d: "deref p_to st = Some (snd x)" "deref p_from st = Some (snd y)" "p_to \<noteq> None" "p_from \<noteq> None"
    using t(1) f(1) queue_check(1) [of st p_to x ts'] queue_check(1) [of st p_from y fs'] t f
    by (auto simp: xs) (cases x; cases y; simp)+
  have "pb_tot_len (snd y) \<le> pb_tot_len (snd x) \<longleftrightarrow> total fs \<le> total ts"
    using t(2) f(2) by (simp add: xs word_le_nat_alt)
  then show ?thesis
    using d copy_loop_is [OF t(1-4) f(1-3) a t(5) f(4), of 0 0] by (auto simp: pbuf_copy_def)
qed

end
