(* ===== verification/Lwip_Chain_Alloc.thy ===== *)
theory Lwip_Chain_Alloc
  imports Lwip_Chain Lwip_Packet_Clone
begin

text \<open>
  What allocation makes of the memory it gets: a chain of new buffers for exactly the length asked
  for, or nothing; and, put together with copying and freeing, cloning and coalescing.
\<close>

section \<open>Allocating\<close>

text \<open>A chain just made: every buffer is held once and has memory of its own.\<close>

definition made :: "u16 \<Rightarrow> pbufs \<Rightarrow> links \<Rightarrow> bool" where
  "made n st xs \<longleftrightarrow> packet xs \<and> single xs \<and> total xs = unat n \<and>
     (\<forall>(a, b) \<in> set xs. pb_at st a = None \<and> pb_ref b = 1 \<and> contiguous b \<and> pb_payload b \<noteq> None)"

lemma alloc_ram_is:
  assumes "pbufs_ok st"
  shows "alloc_ram l n st = Some (None, st) \<or>
    (\<exists>a b st'. alloc_ram l n st = Some (Some a, st') \<and> bytes st' = bytes st \<and> pb_at st' = (pb_at st)(a \<mapsto> b) \<and>
      pb_next b = None \<and> made n st [(a, b)])"
proof -
  obtain s where s: "bufs_ok s st" using assms by (auto simp: pbufs_ok_def)
  note D = bufs_okD [OF s]
  define pl where "pl = (ucast (LWIP_MEM_ALIGN_SIZE l + LWIP_MEM_ALIGN_SIZE n) :: u16)"
  define al where "al = (ucast (LWIP_MEM_ALIGN_SIZE (ucast SIZEOF_STRUCT_PBUF) + ucast pl) :: u16)"
  show ?thesis
  proof (cases "ucast pl < LWIP_MEM_ALIGN_SIZE n \<or> ucast al < LWIP_MEM_ALIGN_SIZE n")
    case True
    then show ?thesis unfolding alloc_ram_def Let_def al_def pl_def by simp
  next
    case False
    from lwip_heap.malloc_law [OF D(1), of al] consider "mem_malloc al (mem_heap st) = Some (mem_heap st, None)"
      | h d where "mem_malloc al (mem_heap st) = Some (h, Some (int d))" "d \<notin> dom s" by blast
    then show ?thesis
    proof cases
      case 1
      have "alloc_ram l n st = Some (None, st)"
        using False 1 unfolding alloc_ram_def Let_def al_def [symmetric] pl_def [symmetric] by simp
      then show ?thesis by blast
    next
      case 2
      let ?b = "new_pbuf (Some (mem_align (padd (Heap, int d) (uint SIZEOF_STRUCT_PBUF + uint l)))) n n PBUF_RAM 0"
      have "alloc_ram l n st = Some (Some (Heap, int d), set_pb (Heap, int d) ?b (st\<lparr>mem_heap := h\<rparr>))"
        using False 2 unfolding alloc_ram_def Let_def al_def [symmetric] pl_def [symmetric] pbuf_init_alloced_pbuf_def by simp
      moreover have "pb_at st (Heap, int d) = None"
      proof (rule ccontr)
        assume "pb_at st (Heap, int d) \<noteq> None"
        then obtain e where "pb_at st (Heap, int d) = Some e" by blast
        from D(2) [OF this] show False using 2(2) element_region by (fastforce simp: pbuf_ok_def split: if_splits)
      qed
      then have "made n st [((Heap, int d), ?b)]" by (simp add: made_def PBUF_RAM_def)
      ultimately show ?thesis by fastforce
    qed
  qed
qed

text \<open>One element of the pool, and how many there are.\<close>

abbreviation free_elements :: "pbufs \<Rightarrow> nat" where
  "free_elements st \<equiv> length (pools st ! MEMP_PBUF_POOL)"

lemma pool_element:
  fixes n :: u16
  assumes ok: "pbufs_ok st" and l: "l \<in> layers" and m: "memp_malloc MEMP_PBUF_POOL (pools st) = (Some q, ps)"
  defines "k \<equiv> min n (ucast (PBUF_POOL_BUFSIZE_ALIGNED - LWIP_MEM_ALIGN_SIZE l) :: u16)"
  defines "b \<equiv> new_pbuf (Some (mem_align (padd q (uint SIZEOF_STRUCT_PBUF + uint l)))) n k PBUF_POOL 0"
  shows "pbufs_ok (set_pb q b (st\<lparr>pools := ps\<rparr>))" "pb_at st q = None"
    "free_elements st = Suc (length (ps ! MEMP_PBUF_POOL))" "0 < n \<Longrightarrow> 0 < k"
    "unat k = min (unat n) (592 - (unat l + 3) div 4 * 4)"
proof -
  obtain s where s: "bufs_ok s st" using ok by (auto simp: pbufs_ok_def)
  have pool: "pool_ok MEMP_PBUF_POOL st" "length (pools st) = MEMP_MAX"
    using bufs_okD(4) [OF s] by (auto simp: pool_ok_def offers_def)
  have "q \<in> elements MEMP_PBUF_POOL" using pool_taken [OF pool(1) m pool(1)] by blast
  then have "pbuf_ok s q b" unfolding b_def using l by (rule pool_buffer_ok) (simp add: k_def)
  from bufs_ok_new_element [OF s _ m this] show "pbufs_ok (set_pb q b (st\<lparr>pools := ps\<rparr>))" "pb_at st q = None"
    by (auto simp: pbufs_ok_def)
  show "free_elements st = Suc (length (ps ! MEMP_PBUF_POOL))"
    using m pool(2) by (auto simp: memp_malloc_def do_memp_malloc_pool_def split: list.splits)
  show "unat k = min (unat n) (592 - (unat l + 3) div 4 * 4)"
    using pool_room [OF l] by (simp add: k_def min_def word_le_nat_alt)
  show "0 < n \<Longrightarrow> 0 < k" using pool_room [OF l] layer_align [OF l] by (simp add: k_def min_def word_less_nat_alt)
qed

text \<open>The loop behind a chain whose last buffer is \<open>q\<close>: it adds what is missing, or gives all back.\<close>

abbreviation dropped :: "links \<Rightarrow> (addr \<Rightarrow> pbuf option) \<Rightarrow> addr \<Rightarrow> pbuf option" where
  "dropped xs f \<equiv> (\<lambda>a. if a \<in> fst ` set xs then None else f a)"

lemma free_all:
  assumes "chain st (Some p) xs" "pbufs_ok st" "list_all (\<lambda>x. pb_ref (snd x) = 1) xs"
  shows "\<exists>st' c. pbuf_free (Some p) st = Some (c, st') \<and> pbufs_ok st' \<and> bytes st' = bytes st \<and> pb_at st' = dropped xs (pb_at st)"
proof -
  have "unreferenced xs (pb_at st) = dropped xs (pb_at st)" using unreferenced_all [OF assms(3), of "[]"] by simp
  then show ?thesis using free_is [OF assms(1,2)] by auto
qed

lemma chain_extend:
  "chain st p (us @ [(q, b)]) \<Longrightarrow> chain st' (Some e) ys \<Longrightarrow> pb_at st' q = Some (b\<lparr>pb_next := Some e\<rparr>) \<Longrightarrow>
   (\<And>a. a \<in> fst ` set us \<Longrightarrow> pb_at st' a = pb_at st a) \<Longrightarrow> chain st' p (us @ (q, b\<lparr>pb_next := Some e\<rparr>) # ys)"
  by (induction us arbitrary: p) auto

lemma made_more:
  assumes "made (n - k) st' ys" "k \<le> n" "k < n" "pb_len b = k" "pb_tot_len b = n" "pb_ref b = 1" "contiguous b" "pb_payload b \<noteq> None"
    and "pb_at st e = None" "\<And>a. a \<in> fst ` set ys \<Longrightarrow> pb_at st' a = None \<Longrightarrow> pb_at st a = None"
  shows "made n st ((e, b\<lparr>pb_next := q\<rparr>) # ys)"
proof -
  have "unat (n - k) = unat n - unat k" "unat k < unat n" using assms(2,3) by (simp_all add: unat_sub word_less_nat_alt)
  moreover have ys: "packet ys" "single ys" "total ys = unat (n - k)" and
    new: "\<And>a c. (a, c) \<in> set ys \<Longrightarrow> pb_at st' a = None \<and> pb_ref c = 1 \<and> contiguous c \<and> pb_payload c \<noteq> None"
    using assms(1) unfolding made_def by auto
  ultimately have "packet ((e, b\<lparr>pb_next := q\<rparr>) # ys)" "single ((e, b\<lparr>pb_next := q\<rparr>) # ys)"
      "total ((e, b\<lparr>pb_next := q\<rparr>) # ys) = unat n"
    using assms(4-8) by auto
  moreover have "pb_at st a = None \<and> pb_ref c = 1 \<and> contiguous c \<and> pb_payload c \<noteq> None"
    if "(a, c) \<in> set ((e, b\<lparr>pb_next := q\<rparr>) # ys)" for a c
  proof (cases "(a, c) \<in> set ys")
    case True
    note c = new [OF True]
    have "a \<in> fst ` set ys" using True by force
    from assms(10) [OF this] c show ?thesis by simp
  next
    case False
    then have "a = e" "c = b\<lparr>pb_next := q\<rparr>" using that by auto
    then show ?thesis using assms(6-9) by simp
  qed
  ultimately show ?thesis unfolding made_def by blast
qed

lemma pool_loop_is:
  assumes "chain st (Some p) (us @ [(q, b)])" "pbufs_ok st" "list_all (\<lambda>x. pb_ref (snd x) = 1) (us @ [(q, b)])" "0 < n"
  shows "\<exists>r st'. pool_loop 0 n (Some (p, q)) st = Some (r, st') \<and> pbufs_ok st' \<and> bytes st' = bytes st \<and>
    (r = None \<and> pb_at st' = dropped (us @ [(q, b)]) (pb_at st) \<or>
     (\<exists>ys. r = Some p \<and> made n st ys \<and> chain st' (Some p) (us @ (q, b\<lparr>pb_next := head ys\<rparr>) # ys) \<and>
        (\<forall>a. a \<notin> insert q (fst ` set ys) \<longrightarrow> pb_at st' a = pb_at st a))) \<and>
    (unat n \<le> 592 * free_elements st \<longrightarrow> r \<noteq> None)"
  using assms
proof (induction "free_elements st" arbitrary: us q b n st rule: less_induct)
  case less
  obtain m ps where m: "memp_malloc MEMP_PBUF_POOL (pools st) = (m, ps)" by fastforce
  show ?case
  proof (cases m)
    case None
    then have ps: "ps = pools st" using m by (auto simp: memp_malloc_def do_memp_malloc_pool_def split: list.splits)
    let ?st = "pbuf_pool_is_empty (st\<lparr>pools := ps\<rparr>)"
    have same: "pb_at ?st = pb_at st" "bytes ?st = bytes st" "pbufs_ok ?st"
      using pbufs_ok_cong [of ?st st] less.prems(2) by (simp_all add: pbuf_pool_is_empty_def ps)
    have "chain ?st (Some p) (us @ [(q, b)])" by (rule iffD2 [OF chain_same less.prems(1)]) (simp add: same)
    from free_all [OF this same(3) less.prems(3)] obtain st' c where
      st': "pbuf_free (Some p) ?st = Some (c, st')" "pbufs_ok st'" "bytes st' = bytes st" "pb_at st' = dropped (us @ [(q, b)]) (pb_at st)"
      unfolding same by blast
    have "pool_loop 0 n (Some (p, q)) st = Some (None, st')" by (subst pool_loop.simps) (simp add: m None st'(1))
    moreover have "pools st ! MEMP_PBUF_POOL = []" "0 < unat n" using m None less.prems(4)
      by (auto simp: memp_malloc_def do_memp_malloc_pool_def word_less_nat_alt split: list.splits)
    ultimately show ?thesis using st' by auto
  next
    case (Some e)
    define k where "k = min n (ucast (PBUF_POOL_BUFSIZE_ALIGNED - LWIP_MEM_ALIGN_SIZE 0) :: u16)"
    define be where "be = new_pbuf (Some (mem_align (padd e (uint SIZEOF_STRUCT_PBUF + uint (0 :: u16))))) n k PBUF_POOL 0"
    define st1 where "st1 = set_pb e be (st\<lparr>pools := ps\<rparr>)"
    have l0: "(0 :: u16) \<in> layers" by (simp add: layers_def PBUF_RAW_def)
    have el: "pbufs_ok st1" "pb_at st e = None" "free_elements st = Suc (length (ps ! MEMP_PBUF_POOL))" "0 < n \<Longrightarrow> 0 < k"
        "unat k = min (unat n) (592 - (unat (0 :: u16) + 3) div 4 * 4)"
      unfolding st1_def be_def k_def using pool_element [OF less.prems(2) l0 m [unfolded Some]] by blast+
    have k: "0 < k" "k \<le> n" using el(4) less.prems(4) by (auto simp: k_def)
    define st2 where "st2 = set_pb q (b\<lparr>pb_next := Some e\<rparr>) st1"
    have qb: "pb_at st q = Some b" "q \<noteq> e" "q \<notin> fst ` set us" "pb_next b = None"
      using chain_at [OF less.prems(1), of q b] el(2) chain_distinct [OF less.prems(1)] chain_append [OF less.prems(1)] by auto
    have ok2: "pbufs_ok st2" unfolding st2_def by (rule pbufs_ok_fields [OF el(1), of q b]) (use qb in \<open>simp_all add: st1_def\<close>)
    have run: "pool_loop 0 n (Some (p, q)) st = (if 0 < n - k then pool_loop 0 (n - k) (Some (p, e)) st2 else Some (Some p, st2))"
      by (subst pool_loop.simps) (simp add: m Some Let_def k_def [symmetric, simplified] pbuf_init_alloced_pbuf_def
        be_def [symmetric, simplified] st1_def [symmetric] qb st2_def [symmetric])
    have be: "pb_next be = None" "pb_len be = k" "pb_tot_len be = n" "pb_ref be = 1" "contiguous be" "pb_payload be \<noteq> None"
      by (simp_all add: be_def PBUF_POOL_def)
    have e: "e \<notin> fst ` set (us @ [(q, b)])" using el(2) less.prems(1) chain_at by force
    have at2: "pb_at st2 = (pb_at st)(e \<mapsto> be, q \<mapsto> b\<lparr>pb_next := Some e\<rparr>)" by (simp add: st2_def st1_def)
    have c2: "chain st2 (Some p) ((us @ [(q, b\<lparr>pb_next := Some e\<rparr>)]) @ [(e, be)])"
      using chain_extend [OF less.prems(1), of st2 e "[(e, be)]"] e be(1) qb(3) by (force simp: at2)
    show ?thesis
    proof (cases "0 < n - k")
      case False
      then have "n = k" by (simp add: word_greater_zero_iff)
      then have "made n st [(e, be)]" using be el(2) by (auto simp: made_def)
      then show ?thesis using run False ok2 c2 at2 
        by (intro exI [of _ "Some p"] exI [of _ st2]) (auto simp: st2_def st1_def intro!: exI [of _ "[(e, be)]"])
    next
      case True
      have "pools st2 = ps" by (simp add: st2_def st1_def)
      from less.hyps [OF _ c2 ok2 _ True] obtain r st' where
        IH: "pool_loop 0 (n - k) (Some (p, e)) st2 = Some (r, st')" "pbufs_ok st'" "bytes st' = bytes st2"
          "r = None \<and> pb_at st' = dropped ((us @ [(q, b\<lparr>pb_next := Some e\<rparr>)]) @ [(e, be)]) (pb_at st2) \<or>
           (\<exists>ys. r = Some p \<and> made (n - k) st2 ys \<and>
             chain st' (Some p) ((us @ [(q, b\<lparr>pb_next := Some e\<rparr>)]) @ (e, be\<lparr>pb_next := head ys\<rparr>) # ys) \<and>
             (\<forall>a. a \<notin> insert e (fst ` set ys) \<longrightarrow> pb_at st' a = pb_at st2 a))"
          "unat (n - k) \<le> 592 * free_elements st2 \<longrightarrow> r \<noteq> None"
        using el(3) be less.prems(3) by (auto simp: \<open>pools st2 = ps\<close>)
      have "unat (n - k) = unat n - unat k" using k(2) by (simp add: unat_sub)
      then have room: "unat n \<le> 592 * free_elements st \<longrightarrow> r \<noteq> None"
        using IH(5) el(3,5) \<open>pools st2 = ps\<close> by (simp split: if_splits) 
      have run': "pool_loop 0 n (Some (p, q)) st = Some (r, st')" "bytes st' = bytes st"
        using run True IH(1,3) by (simp_all add: st2_def st1_def)
      from IH(4) show ?thesis
      proof (elim disjE exE conjE)
        assume "r = None" "pb_at st' = dropped ((us @ [(q, b\<lparr>pb_next := Some e\<rparr>)]) @ [(e, be)]) (pb_at st2)"
        moreover have "dropped ((us @ [(q, b\<lparr>pb_next := Some e\<rparr>)]) @ [(e, be)]) (pb_at st2) = dropped (us @ [(q, b)]) (pb_at st)"
          using el(2) by (auto simp: at2 fun_eq_iff)
        ultimately show ?thesis using run' IH(2) room by simp
      next
        fix ys assume ys: "r = Some p" "made (n - k) st2 ys"
          "chain st' (Some p) ((us @ [(q, b\<lparr>pb_next := Some e\<rparr>)]) @ (e, be\<lparr>pb_next := head ys\<rparr>) # ys)"
          "\<forall>a. a \<notin> insert e (fst ` set ys) \<longrightarrow> pb_at st' a = pb_at st2 a"
        let ?ys = "(e, be\<lparr>pb_next := head ys\<rparr>) # ys"
        have "k < n" using True k(2) by (cases "k = n") (simp_all add: order_less_le)
        have "made n st ?ys"
          by (rule made_more [OF ys(2) k(2) \<open>k < n\<close> be(2-6) el(2)]) (auto simp: at2 split: if_splits)
        moreover have "\<forall>a. a \<notin> insert q (fst ` set ?ys) \<longrightarrow> pb_at st' a = pb_at st a" using ys(4) by (auto simp: at2)
        ultimately show ?thesis using run' IH(2) ys(1,3) room by (intro exI [of _ r] exI [of _ st']) (auto intro!: exI [of _ ?ys])
      qed
    qed
  qed
qed

lemma pool_alloc_is:
  assumes "pbufs_ok st" "l \<in> layers"
  shows "\<exists>r st'. pool_loop l n None st = Some (r, st') \<and> bytes st' = bytes st \<and>
    (r = None \<and> pb_at st' = pb_at st \<or>
     (\<exists>xs. r \<noteq> None \<and> made n st xs \<and> chain st' r xs \<and> (\<forall>a. a \<notin> fst ` set xs \<longrightarrow> pb_at st' a = pb_at st a))) \<and>
    (0 < free_elements st \<longrightarrow> unat n + (unat l + 3) div 4 * 4 \<le> 592 * free_elements st \<longrightarrow> r \<noteq> None)"
proof -
  obtain m ps where m: "memp_malloc MEMP_PBUF_POOL (pools st) = (m, ps)" by fastforce
  show ?thesis
  proof (cases m)
    case None
    moreover have "free_elements st = 0" using m None by (auto simp: memp_malloc_def do_memp_malloc_pool_def split: list.splits)
    ultimately show ?thesis by (subst pool_loop.simps) (simp add: m pbuf_pool_is_empty_def)
  next
    case (Some q)
    define k where "k = min n (ucast (PBUF_POOL_BUFSIZE_ALIGNED - LWIP_MEM_ALIGN_SIZE l) :: u16)"
    define b where "b = new_pbuf (Some (mem_align (padd q (uint SIZEOF_STRUCT_PBUF + uint l)))) n k PBUF_POOL 0"
    define st1 where "st1 = set_pb q b (st\<lparr>pools := ps\<rparr>)"
    have el: "pbufs_ok st1" "pb_at st q = None" "0 < n \<Longrightarrow> 0 < k" "free_elements st = Suc (length (ps ! MEMP_PBUF_POOL))"
        "unat k = min (unat n) (592 - (unat l + 3) div 4 * 4)"
      unfolding st1_def b_def k_def using pool_element [OF assms m [unfolded Some]] by blast+
    have b: "pb_next b = None" "pb_len b = k" "pb_tot_len b = n" "pb_ref b = 1" "contiguous b" "pb_payload b \<noteq> None"
      by (simp_all add: b_def PBUF_POOL_def)
    have c1: "chain st1 (Some q) ([] @ [(q, b)])" using b(1) by (simp add: st1_def)
    have run: "pool_loop l n None st = (if 0 < n - k then pool_loop 0 (n - k) (Some (q, q)) st1 else Some (Some q, st1))"
      by (subst pool_loop.simps) (simp add: m Some Let_def k_def [symmetric, simplified] pbuf_init_alloced_pbuf_def
        b_def [symmetric, simplified] st1_def [symmetric])
    show ?thesis
    proof (cases "0 < n - k")
      case False
      then have "n = k" by (simp add: word_greater_zero_iff)
      then have "made n st [(q, b)]" using b el(2) by (auto simp: made_def)
      then show ?thesis using run False c1
        by (intro exI [of _ "Some q"] exI [of _ st1]) (auto simp: st1_def intro!: exI [of _ "[(q, b)]"])
    next
      case True
      have "k \<le> n" by (simp add: k_def)
      then have "k < n" using True by (cases "k = n") (simp_all add: order_less_le)
      from pool_loop_is [OF c1 el(1) _ True] b(4) obtain r st' where
        st': "pool_loop 0 (n - k) (Some (q, q)) st1 = Some (r, st')" "bytes st' = bytes st1"
        and out: "r = None \<and> pb_at st' = dropped ([] @ [(q, b)]) (pb_at st1) \<or>
          (\<exists>ys. r = Some q \<and> made (n - k) st1 ys \<and> chain st' (Some q) ([] @ (q, b\<lparr>pb_next := head ys\<rparr>) # ys) \<and>
            (\<forall>a. a \<notin> insert q (fst ` set ys) \<longrightarrow> pb_at st' a = pb_at st1 a))"
        and free: "unat (n - k) \<le> 592 * free_elements st1 \<longrightarrow> r \<noteq> None" by auto
      have "unat (n - k) = unat n - unat k" using \<open>k \<le> n\<close> by (simp add: unat_sub)
      moreover have "free_elements st1 = length (ps ! MEMP_PBUF_POOL)" by (simp add: st1_def)
      ultimately have "unat (n - k) \<le> 592 * free_elements st1" if "unat n + (unat l + 3) div 4 * 4 \<le> 592 * free_elements st"
        using that el(4,5) layer_align [OF assms(2)] by linarith
      then have room: "unat n + (unat l + 3) div 4 * 4 \<le> 592 * free_elements st \<longrightarrow> r \<noteq> None" using free by blast
      have run': "pool_loop l n None st = Some (r, st')" "bytes st' = bytes st" using run True st' by (simp_all add: st1_def)
      from out show ?thesis
      proof (elim disjE exE conjE)
        assume "r = None" "pb_at st' = dropped ([] @ [(q, b)]) (pb_at st1)"
        then show ?thesis using run' el(2) room by (auto simp: st1_def fun_eq_iff)
      next
        fix ys assume ys: "r = Some q" "made (n - k) st1 ys" "chain st' (Some q) ([] @ (q, b\<lparr>pb_next := head ys\<rparr>) # ys)"
          "\<forall>a. a \<notin> insert q (fst ` set ys) \<longrightarrow> pb_at st' a = pb_at st1 a"
        let ?xs = "(q, b\<lparr>pb_next := head ys\<rparr>) # ys"
        have "made n st ?xs"
          by (rule made_more [OF ys(2) \<open>k \<le> n\<close> \<open>k < n\<close> b(2-6) el(2)]) (auto simp: st1_def split: if_splits)
        moreover have "\<forall>a. a \<notin> fst ` set ?xs \<longrightarrow> pb_at st' a = pb_at st a" using ys(4) by (auto simp: st1_def)
        ultimately show ?thesis using run' ys(1,3) room by (intro exI [of _ r] exI [of _ st']) (auto intro!: exI [of _ ?xs])
      qed
    qed
  qed
qed

text \<open>Memory of its own, or none; and if none, no buffer has changed.\<close>

lemma alloc_is:
  assumes "pbufs_ok st" "l \<in> layers" "t = PBUF_RAM \<or> t = PBUF_POOL"
  shows "\<exists>p st'. pbuf_alloc l n t st = Some (p, st') \<and> bytes st' = bytes st \<and>
    (p = None \<and> pb_at st' = pb_at st \<or>
     (\<exists>xs. p \<noteq> None \<and> made n st xs \<and> chain st' p xs \<and> (\<forall>a. a \<notin> fst ` set xs \<longrightarrow> pb_at st' a = pb_at st a) \<and>
        (t = PBUF_RAM \<longrightarrow> length xs = 1))) \<and>
    (t = PBUF_POOL \<longrightarrow> 0 < free_elements st \<longrightarrow> unat n + (unat l + 3) div 4 * 4 \<le> 592 * free_elements st \<longrightarrow> p \<noteq> None)"
  using assms(3)
proof
  assume t: "t = PBUF_POOL"
  then have "pbuf_alloc l n t st = pool_loop l n None st"
    by (simp add: pbuf_alloc_def PBUF_POOL_def PBUF_REF_def PBUF_ROM_def)
  moreover have "PBUF_POOL \<noteq> PBUF_RAM" by (simp add: PBUF_POOL_def PBUF_RAM_def)
  ultimately show ?thesis using pool_alloc_is [OF assms(1,2), of n] t by auto
next
  assume t: "t = PBUF_RAM"
  then have run: "pbuf_alloc l n t st = alloc_ram l n st"
    by (simp add: pbuf_alloc_def PBUF_POOL_def PBUF_REF_def PBUF_ROM_def PBUF_RAM_def)
  from alloc_ram_is [OF assms(1), of l n] show ?thesis
  proof (elim disjE exE conjE)
    fix a b st' assume r: "alloc_ram l n st = Some (Some a, st')" "bytes st' = bytes st" "pb_at st' = (pb_at st)(a \<mapsto> b)"
      "pb_next b = None" "made n st [(a, b)]"
    then have "chain st' (Some a) [(a, b)]" "\<forall>c. c \<notin> fst ` set [(a, b)] \<longrightarrow> pb_at st' c = pb_at st c" by auto
    moreover have "t \<noteq> PBUF_POOL" by (simp add: t PBUF_POOL_def PBUF_RAM_def)
    ultimately show ?thesis using run r
      by (intro exI [of _ "Some a"] exI [of _ st'] conjI disjI2 exI [of _ "[(a, b)]"]) simp_all
  qed (use run t in \<open>simp add: PBUF_POOL_def PBUF_RAM_def\<close>)
qed

section \<open>Cloning\<close>

text \<open>A buffer refers to memory of its own or to memory that is neither heap nor pool.\<close>

definition own_data :: "pbuf \<Rightarrow> bool" where
  "own_data b \<longleftrightarrow> contiguous b \<or> (\<forall>p. pb_payload b = Some p \<longrightarrow> (\<exists>i. fst p = Extern i))"

lemma own_data_apart:
  assumes "bufs_ok s st" "pb_at st a = Some b" "pb_at st c = Some e" "a \<noteq> c" "contiguous b" "own_data e"
  shows "data_area b \<inter> data_area e = {}"
proof (cases "contiguous e")
  case True
  then show ?thesis using payloads_apart_ok [OF assms(1-3,5) _ assms(4)] by blast
next
  case False
  then have e: "pb_payload e = Some p \<Longrightarrow> \<exists>i. fst p = Extern i" for p using assms(6) by (auto simp: own_data_def)
  have "\<exists>i. fst p \<noteq> Extern i \<and> (\<forall>j. fst p \<noteq> Extern j)" if p: "pb_payload b = Some p" for p
    using contiguous_memory [OF bufs_okD(2) [OF assms(1,2)] assms(5) bufs_okD(1) [OF assms(1)]]
  proof cases
    case 1
    then show ?thesis using p element_region [OF 1(2)] by (auto simp: inside_def)
  next
    case (2 xs)
    then show ?thesis using p by (auto simp: inside_def)
  qed
  then show ?thesis using e by (fastforce simp: data_area_def area_iff split: option.splits)
qed

lemma areas_apart:
  assumes "bufs_ok s st" "\<And>a b. (a, b) \<in> set xs \<Longrightarrow> pb_at st a = Some b \<and> contiguous b"
    and "\<And>a b. (a, b) \<in> set ys \<Longrightarrow> pb_at st a = Some b \<and> own_data b" "fst ` set xs \<inter> fst ` set ys = {}"
  shows "areas xs \<inter> areas ys = {}"
proof -
  have "data_area (snd x) \<inter> data_area (snd y) = {}" if "x \<in> set xs" "y \<in> set ys" for x y
  proof -
    have "fst x \<noteq> fst y" using assms(4) that by blast
    moreover have "pb_at st (fst x) = Some (snd x)" "contiguous (snd x)" "pb_at st (fst y) = Some (snd y)" "own_data (snd y)"
      using assms(2) [of "fst x" "snd x"] assms(3) [of "fst y" "snd y"] that by simp_all
    ultimately show ?thesis by (intro own_data_apart [OF assms(1)])
  qed
  then show ?thesis unfolding areas_def by blast
qed

lemma made_separate:
  assumes "pbufs_ok st'" "made n st xs" "chain st' p xs"
  shows "separate xs"
proof -
  obtain s where s: "bufs_ok s st'" using assms(1) by (auto simp: pbufs_ok_def)
  have "separate ys" if "set ys \<subseteq> set xs" "distinct (map fst ys)" for ys
    using that
  proof (induction ys)
    case (Cons y ys)
    have "areas [y] \<inter> areas ys = {}"
      by (rule areas_apart [OF s]) (use Cons.prems assms(2) chain_at [OF assms(3)] in \<open>auto simp: made_def own_data_def\<close>)
    then show ?case using Cons by simp
  qed simp
  then show ?thesis using chain_distinct [OF assms(3)] by simp
qed

lemma clone_is:
  assumes ok: "pbufs_ok st" and l: "l \<in> layers" "t = PBUF_RAM \<or> t = PBUF_POOL"
    and c: "chain st p fs" "packet fs" "single fs" "fs \<noteq> []" and own: "\<forall>x \<in> set fs. own_data (snd x)"
  shows "\<exists>q st'. pbuf_clone l t p st = Some (q, st') \<and> chain st' p fs \<and> content st' fs = content st fs \<and>
    (q = None \<or>
     (\<exists>xs. chain st' q xs \<and> packet xs \<and> content st' xs = content st fs \<and> (\<forall>a \<in> fst ` set xs. pb_at st a = None) \<and>
        (t = PBUF_RAM \<longrightarrow> length xs = 1))) \<and>
    (t = PBUF_POOL \<longrightarrow> 0 < free_elements st \<longrightarrow> total fs + (unat l + 3) div 4 * 4 \<le> 592 * free_elements st \<longrightarrow> q \<noteq> None)"
proof -
  obtain a b fs' where fs: "fs = (a, b) # fs'" using c(4) by (cases fs) auto
  then have p: "p = Some a" "pb_at st a = Some b" using c(1) by auto
  define n where "n = pb_tot_len b"
  have n: "unat n = total fs" using c(2) by (simp add: fs n_def)
  obtain q st1 where run: "pbuf_alloc l n t st = Some (q, st1)" and by1: "bytes st1 = bytes st" and
    out: "q = None \<and> pb_at st1 = pb_at st \<or>
      (\<exists>xs. q \<noteq> None \<and> made n st xs \<and> chain st1 q xs \<and> (\<forall>a. a \<notin> fst ` set xs \<longrightarrow> pb_at st1 a = pb_at st a) \<and> (t = PBUF_RAM \<longrightarrow> length xs = 1))"
    and room: "t = PBUF_POOL \<longrightarrow> 0 < free_elements st \<longrightarrow> total fs + (unat l + 3) div 4 * 4 \<le> 592 * free_elements st \<longrightarrow> q \<noteq> None"
    using alloc_is [OF ok l, of n] unfolding n by blast
  have clone: "pbuf_clone l t p st = (case q of None \<Rightarrow> Some (None, st1) | Some _ \<Rightarrow> do { (err, st) \<leftarrow> pbuf_copy q p st1; Some (q, st) })"
    using run by (simp add: pbuf_clone_def p deref_def n_def split: option.splits)
  have content1: "content st1 xs = content st xs" for xs by (rule content_cong) (simp add: by1)
  from out show ?thesis
  proof (elim disjE exE conjE)
    assume "q = None" "pb_at st1 = pb_at st"
    then have "pbuf_clone l t p st = Some (None, st1)" "chain st1 p fs"
      using clone c(1) by (auto intro: iffD2 [OF chain_same])
    then show ?thesis using content1 room \<open>q = None\<close> by blast
  next
    fix xs assume xs: "q \<noteq> None" "made n st xs" "chain st1 q xs" "\<forall>a. a \<notin> fst ` set xs \<longrightarrow> pb_at st1 a = pb_at st a"
      "t = PBUF_RAM \<longrightarrow> length xs = 1"
    have ok1: "pbufs_ok st1" using alloc_ok [OF run l(1) ok] by simp
    then obtain s where s: "bufs_ok s st1" by (auto simp: pbufs_ok_def)
    have new: "\<And>x. x \<in> fst ` set xs \<Longrightarrow> pb_at st x = None" using xs(2) by (auto simp: made_def)
    have apart: "fst ` set xs \<inter> fst ` set fs = {}" using new chain_at [OF c(1)] by fastforce
    have c1: "chain st1 p fs" by (rule iffD2 [OF chain_same c(1)]) (use xs(4) apart in blast)
    have sep: "areas xs \<inter> areas fs = {}"
      by (rule areas_apart [OF s]) (use xs(2,3) own c1 apart in \<open>auto simp: made_def dest: chain_at bspec\<close>)
    have m: "packet xs" "single xs" "total xs = total fs" "xs \<noteq> []" using xs(1-3) n by (auto simp: made_def)
    from copy_is [OF xs(3) m(1,2) made_separate [OF ok1 xs(2,3)] m(4) c1 c(2,3,4) sep] m(3)
    obtain st' where st': "pbuf_copy q p st1 = Some (ERR_OK, st')" "only_bytes (areas xs) st1 st'"
      "content st' xs = content st1 fs @ drop (total fs) (content st1 xs)" by auto
    have "pbuf_clone l t p st = Some (q, st')" using clone xs(1) st'(1) by auto
    moreover have "content st' xs = content st fs" using st'(3) m(1,3) by (simp add: length_content content1)
    moreover have "content st' fs = content st fs" using only_bytes_content [OF st'(2) sep] by (simp add: content1)
    moreover have "chain st' q xs" "chain st' p fs" using only_bytes_chain [OF st'(2)] xs(3) c1 by auto
    ultimately show ?thesis using m(1) new xs(5) room
      by (intro exI [of _ q] exI [of _ st'] conjI disjI2 exI [of _ xs] ballI) assumption+
  qed
qed

text \<open>A chain becomes one buffer with the same bytes, if there is memory for it.\<close>

lemma coalesce_is:
  assumes ok: "pbufs_ok st" and l: "l \<in> layers"
    and c: "chain st p fs" "packet fs" "single fs" "fs \<noteq> []" and own: "\<forall>x \<in> set fs. own_data (snd x)"
  shows "\<exists>q st' xs. pbuf_coalesce p l st = Some (q, st') \<and> chain st' q xs \<and> packet xs \<and> content st' xs = content st fs \<and>
    (length xs = 1 \<and> (q = p \<longleftrightarrow> length fs = 1) \<or> q = p \<and> xs = fs)"
proof -
  obtain a b fs' where fs: "fs = (a, b) # fs'" using c(4) by (cases fs) auto
  then have p: "p = Some a" "pb_at st a = Some b" "chain st (pb_next b) fs'" using c(1) by auto
  show ?thesis
  proof (cases "pb_next b = None")
    case True
    then have "pbuf_coalesce p l st = Some (p, st)" using p by (simp add: pbuf_coalesce_def deref_def)
    then show ?thesis using c by blast
  next
    case False
    then obtain e0 where nx: "pb_next b = Some e0" by blast
    then have two: "length fs \<noteq> 1" using p(3) by (cases fs') (auto simp: fs)
    obtain q st1 where run: "pbuf_clone l PBUF_RAM p st = Some (q, st1)" and c1: "chain st1 p fs" "content st1 fs = content st fs"
      and out: "q = None \<or> (\<exists>xs. chain st1 q xs \<and> packet xs \<and> content st1 xs = content st fs \<and>
        (\<forall>a \<in> fst ` set xs. pb_at st a = None) \<and> (PBUF_RAM = PBUF_RAM \<longrightarrow> length xs = 1))"
      using clone_is [OF ok l disjI1 [OF refl] c own] by blast
    show ?thesis
    proof (cases q)
      case None
      then have "pbuf_coalesce p l st = Some (p, st1)" using p nx run by (simp add: pbuf_coalesce_def deref_def)
      then show ?thesis using c1 c(2) by blast
    next
      case (Some e)
      then obtain xs where xs: "chain st1 q xs" "packet xs" "content st1 xs = content st fs" "\<forall>a \<in> fst ` set xs. pb_at st a = None"
        "length xs = 1" using out by auto
      have ok1: "pbufs_ok st1" using clone_ok [OF run l ok] by simp
      from free_is [OF c1(1) ok1] obtain m st' where
        f: "pbuf_free p st1 = Some (m, st')" "bytes st' = bytes st1" "pb_at st' = unreferenced fs (pb_at st1)" by blast
      have apart: "fst ` set xs \<inter> fst ` set fs = {}" using xs(4) chain_at [OF c(1)] by fastforce
      have "pbuf_coalesce p l st = Some (q, st')" using p nx run Some f(1) by (simp add: pbuf_coalesce_def deref_def)
      moreover have "chain st' q xs"
        by (rule iffD2 [OF chain_same xs(1)]) (use apart f(3) unreferenced_other in fastforce)
      moreover have "content st' xs = content st1 xs" by (rule content_cong) (simp add: f(2))
      moreover have "q \<noteq> p" using apart chain_head [OF xs(1)] xs(5) p(1) by (cases xs) (auto simp: fs)
      ultimately show ?thesis using xs two by auto
    qed
  qed
qed

end
