(* ===== verification/Lwip_Props.thy ===== *)
theory Lwip_Props
  imports Lwip_Store
begin

text \<open>
  The properties of the heap of the TCP/IP stack: it starts as one free block, allocation is first
  fit, a block is freed once and its space is joined with the free space around it, and to its
  clients the heap is a store of separate blocks whatever they do.
\<close>

section \<open>Initialisation\<close>

lemma mem_init_ok:
  obtains h' where "mem_init h = Some h'" "heap_ok h' [(1600, False)]"
proof -
  define r where "r = put16 (1600 + 2) 1600 (put16 1600 1600 ((put16 (0 + 2) 0 (put16 0 1600 (ram h)))(0 + 4 := 0, 1600 + 4 := 1)))"
  have run: "mem_init h = Some (h\<lparr>ram := r, lfree := 0\<rparr>)"
    unfolding mem_init_def r_def set_next_def set_prev_def set_used_def in_ram_def by simp
  have "header r 0 = \<lparr>mem_next = 1600, mem_prev = 0, mem_used = 0\<rparr>"
    and "header r 1600 = \<lparr>mem_next = 1600, mem_prev = 1600, mem_used = 1\<rparr>"
    unfolding r_def by (simp_all add: header_def get16_def put16_def hi8_def lo8_def be16_def)
  then show thesis using run by (intro that [OF run]) (simp add: heap_ok_def)
qed

lemma data_bytes_joined: "data_bytes p (joined s cs) = data_bytes (p + s) cs"
  by (cases "(s, cs)" rule: joined.cases) (simp_all add: add.assoc)

lemma data_bytes_merged: "data_bytes p (merged as s cs) = data_bytes p as \<union> data_bytes (p + extent as + s) cs"
  by (cases as rule: rev_cases) (auto simp: merged_def add.assoc)

lemma data_bytes_released: "data_bytes p (released as s cs) = data_bytes p as \<union> data_bytes (p + extent as + s) cs"
proof -
  obtain t ds where j: "joined s cs = (t, False) # ds" using joined_Cons by metis
  have "data_bytes (p + extent as) (joined s cs) = data_bytes (p + extent as + t) ds" unfolding j by simp
  then have "data_bytes (p + extent as + t) ds = data_bytes (p + extent as + s) cs" by (simp only: data_bytes_joined)
  then show ?thesis by (simp add: released_def j data_bytes_merged)
qed

lemma all_free:
  assumes "heap_ok h bs" "allocated 0 bs = []"
  shows "bs = [(1600, False)]"
proof -
  have unused: "\<not> u" if "(s, u) \<in> set bs" for s u
  proof
    assume u
    obtain as cs where "bs = as @ (s, u) # cs" using split_list [OF \<open>(s, u) \<in> set bs\<close>] by blast
    then show False using assms(2) \<open>u\<close> by simp
  qed
  note D = heap_okD [OF assms(1)]
  obtain s u cs where bs: "bs = (s, u) # cs" using D(2) by (cases bs) auto
  have "cs = []"
  proof (rule ccontr)
    assume "cs \<noteq> []"
    then obtain t v ds where "cs = (t, v) # ds" by (cases cs) auto
    then show False using D(3) unused [of s u] unused [of t v] by (simp add: bs)
  qed
  then show ?thesis using D(2) unused [of s u] by (simp add: bs)
qed

lemma alloc_size_le_1592: "alloc_size n \<le> 1592 \<longleftrightarrow> n \<le> 1592"
  unfolding alloc_size_def by (simp add: max_def; presburger)

section \<open>Properties\<close>

text \<open>C14: whatever the array holds before, and whatever blocks the client asks for, clears, frees,
  trims and fills, in any order: no header outside the array is ever accessed, every search ends,
  and each of the client's blocks holds what the client has put there.\<close>

theorem heap_served:
  "\<exists>h0 h' st. mem_init h = Some h0 \<and>
     all_served (serve (\<lambda>h. ram h) poke_heap mem_malloc mem_calloc mem_free mem_trim) calls (h0, Map.empty) = Some (h', st) \<and>
     holds h' st"
proof -
  obtain h0 where h0: "mem_init h = Some h0" "heap_ok h0 [(1600, False)]" by (rule mem_init_ok)
  then have "holds h0 Map.empty" unfolding holds_def by (intro exI [of _ "[(1600, False)]"]) simp
  from lwip_heap.all_served_holding [OF this, of calls] h0(1) show ?thesis by blast
qed

text \<open>C27: allocation is first fit. The request is rounded up to a multiple of four and to twelve
  bytes at least; the first free block with that much room is taken, its rest becoming a free block
  if it can hold twelve bytes; if there is none the null pointer is returned and the heap is as it
  was. The data in use is not touched.\<close>

theorem mem_malloc_first_fit:
  assumes "heap_ok h bs" "n \<noteq> 0"
  shows "case first_fit (alloc_size (unat n)) bs of
      None \<Rightarrow> mem_malloc n h = Some (h, None)
    | Some (as, s, cs) \<Rightarrow>
        \<exists>h'. mem_malloc n h = Some (h', Some (int (extent as) + 8)) \<and>
          heap_ok h' (as @ taken (alloc_size (unat n)) s @ cs) \<and> (\<forall>a \<in> data_bytes 0 bs. ram h' a = ram h a)"
proof (cases "first_fit (alloc_size (unat n)) bs")
  case None
  then show ?thesis using malloc_none [OF assms(1)] by simp
next
  case (Some f)
  obtain as s cs where f: "f = (as, s, cs)" by (cases f)
  note fit = Some [unfolded f]
  have bs: "bs = as @ [(s, False)] @ cs" using first_fit_Some [OF fit] by simp
  obtain h' l where run: "mem_malloc n h = Some (h', Some (int (extent as) + 8))"
    and ok: "heap_ok h' (as @ taken (alloc_size (unat n)) s @ cs)"
    and rel: "relinked (extent as) (extent as + s) l (ram h) (ram h')"
    by (rule malloc_some [OF assms refl fit])
  have "ram h' a = ram h a" if "a \<in> data_bytes 0 bs" for a
    using that relinked_data [OF heap_okD(1) [OF assms(1), unfolded bs] refl _ rel, of a] by (simp add: bs)
  then show ?thesis using run ok by (simp add: fit)
qed

theorem mem_malloc_first_fit_witness:
  "\<exists>h h'. mem_init \<lparr>ram = \<lambda>_. 0, lfree = 0\<rparr> = Some h \<and> mem_malloc 97 h = Some (h', Some 8) \<and>
     heap_ok h' [(108, True), (1492, False)]"
proof -
  obtain h where h: "mem_init \<lparr>ram = \<lambda>_. 0, lfree = 0\<rparr> = Some h" "heap_ok h [(1600, False)]" by (rule mem_init_ok)
  have "alloc_size 97 = 100" by (simp add: alloc_size_def)
  then show ?thesis using mem_malloc_first_fit [OF h(2), of 97] h(1) by (auto simp: taken_def)
qed

text \<open>Freeing gives back exactly the block it is called with and keeps the data of all others;
  freeing the block a second time does nothing.\<close>

theorem mem_free_once:
  assumes "heap_ok h bs" "(d, k) \<in> set (allocated 0 bs)"
  shows "\<exists>h' bs'. mem_free (Some (int d)) h = Some h' \<and> mem_free (Some (int d)) h' = Some h' \<and>
     heap_ok h' bs' \<and> set (allocated 0 bs') = set (allocated 0 bs) - {(d, k)} \<and>
     (\<forall>a \<in> data_bytes 0 bs'. ram h' a = ram h a)"
proof -
  obtain as s cs where bs: "bs = as @ (s, True) # cs" and d: "d = extent as + 8" and k: "k = s - 8"
    using allocated_split [OF assms(2)] by auto
  note ok = assms(1) [unfolded bs]
  obtain h' where run: "mem_free (Some (int (extent as) + 8)) h = Some h'" and ok': "heap_ok h' (released as s cs)"
    and keep: "\<And>a. a \<in> data_bytes 0 as \<or> a \<in> data_bytes (extent as + s) cs \<Longrightarrow> ram h' a = ram h a"
    and unused: "mem_used (header (ram h') (extent as)) = 0"
    by (rule freed_block [OF ok refl]) (rule that)
  note D = heap_okD [OF ok]
  have p: "extent as \<le> 1600" "extent as + 20 \<le> 1600" "4 dvd extent as"
    using D(1,2) segment_extent_dvd [of "ram h" 0 0 as] by simp_all
  then have "(int (extent as) + 8) mod 4 = 0" by presburger
  then have "mem_free (Some (int (extent as) + 8)) h' = Some h'"
    using p unused by (simp add: mem_free_def Let_def mem_at_offset)
  moreover have "set (allocated 0 (released as s cs)) = set (allocated 0 bs) - {(d, k)}"
    using others_elsewhere [OF D(1)] by (force simp: allocated_released bs d k)
  moreover have "\<forall>a \<in> data_bytes 0 (released as s cs). ram h' a = ram h a"
    using keep by (auto simp: data_bytes_released)
  ultimately show ?thesis using run ok' unfolding d by (intro exI [of _ h'] exI [of _ "released as s cs"]) simp
qed

theorem mem_free_once_witness:
  "\<exists>h h' bs. heap_ok h [(108, True), (1492, False)] \<and> mem_free (Some 8) h = Some h' \<and>
     mem_free (Some 8) h' = Some h' \<and> heap_ok h' bs \<and> allocated 0 bs = []"
proof -
  obtain h0 where h0: "heap_ok h0 [(1600, False)]" by (rule mem_init_ok)
  have "alloc_size 97 = 100" by (simp add: alloc_size_def)
  then obtain h where h: "heap_ok h [(108, True), (1492, False)]"
    using malloc_some [OF h0, of 97 100 "[]" 1600 "[]"] by (auto simp: taken_def)
  from mem_free_once [OF h, of 8 100] h show ?thesis by fastforce
qed

text \<open>Once all blocks are freed the whole array is one free block again, so that every request
  that ever fitted fits.\<close>

theorem heap_recovered:
  assumes "holds h Map.empty"
  shows "(\<exists>h'. mem_malloc n h = Some (h', Some 8)) \<longleftrightarrow> 0 < n \<and> n \<le> 1592"
proof -
  obtain bs where "heap_ok h bs" "allocated 0 bs = []" using assms by (auto simp: holds_def)
  then have ok: "heap_ok h [(1600, False)]" using all_free by blast
  show ?thesis
  proof (cases "n = 0 \<or> 1592 < alloc_size (unat n)")
    case True
    then have "mem_malloc n h = Some (h, None)" by (intro malloc_none [OF ok]) auto
    then show ?thesis using True alloc_size_le_1592 [of "unat n"] by (auto simp: word_le_nat_alt not_le word_gt_0)
  next
    case False
    then have "first_fit (alloc_size (unat n)) [(1600, False)] = Some ([], 1600, [])" "n \<noteq> 0" by simp_all
    from malloc_some [OF ok this(2) refl this(1)] obtain h' where "mem_malloc n h = Some (h', Some 8)" by auto
    then show ?thesis using False alloc_size_le_1592 [of "unat n"] by (simp add: word_le_nat_alt word_gt_0)
  qed
qed

theorem heap_recovered_witness:
  "\<exists>h. mem_init \<lparr>ram = \<lambda>_. 0, lfree = 0\<rparr> = Some h \<and> (\<exists>h'. mem_malloc 1592 h = Some (h', Some 8)) \<and>
     \<not> (\<exists>h'. mem_malloc 1593 h = Some (h', Some 8))"
proof -
  obtain h where h: "mem_init \<lparr>ram = \<lambda>_. 0, lfree = 0\<rparr> = Some h" "heap_ok h [(1600, False)]" by (rule mem_init_ok)
  then have "holds h Map.empty" unfolding holds_def by (intro exI [of _ "[(1600, False)]"]) simp
  from heap_recovered [OF this, of 1592] heap_recovered [OF this, of 1593] h(1) show ?thesis by simp
qed

end
