(* ===== verification/Lwip_Pbuf_Props.thy ===== *)
theory Lwip_Pbuf_Props
  imports Lwip_Chain_Alloc Lwip_Packet_Search Lwip_Props
begin

text \<open>
  The properties of the packet buffers: whatever the modules above call, every buffer stays in its
  own memory and the pools hold exactly what is free; to its users a chain of buffers is one sequence
  of bytes.
\<close>

section \<open>Reachable states\<close>

text \<open>The calls of the interface, in any order. A header has room for one of the layers, a buffer of
  the caller is none already, and its payload is elsewhere; payloads may be written at any time.\<close>

inductive pbuf_step :: "pbufs \<Rightarrow> pbufs \<Rightarrow> bool" where
  "pbuf_alloc l n t st = Some (p, st') \<Longrightarrow> l \<in> layers \<Longrightarrow> pbuf_step st st'"
| "pbuf_alloc_reference d n t st = (p, st') \<Longrightarrow> t = PBUF_REF \<or> t = PBUF_ROM \<Longrightarrow> pbuf_step st st'"
| "pbuf_alloced_custom l n t (Extern i, k) d m st = (p, st') \<Longrightarrow> pb_at st (Extern i, k) = None \<Longrightarrow>
     t = PBUF_REF \<or> t = PBUF_ROM \<Longrightarrow> pbuf_step st st'"
| "pbuf_realloc p n st = Some st' \<Longrightarrow> pbuf_step st st'"
| "pbuf_add_header p i st = Some (e, st') \<Longrightarrow> pbuf_step st st'"
| "pbuf_add_header_force p i st = Some (e, st') \<Longrightarrow> pbuf_step st st'"
| "pbuf_remove_header p i st = Some (e, st') \<Longrightarrow> pbuf_step st st'"
| "pbuf_header p j st = Some (e, st') \<Longrightarrow> pbuf_step st st'"
| "pbuf_header_force p j st = Some (e, st') \<Longrightarrow> pbuf_step st st'"
| "pbuf_free_header p n st = Some (q, st') \<Longrightarrow> pbuf_step st st'"
| "pbuf_free p st = Some (c, st') \<Longrightarrow> pbuf_step st st'"
| "pbuf_ref p st = Some st' \<Longrightarrow> pbuf_step st st'"
| "pbuf_cat p q st = Some st' \<Longrightarrow> pbuf_step st st'"
| "pbuf_chain p q st = Some st' \<Longrightarrow> pbuf_step st st'"
| "pbuf_dechain p st = Some (q, st') \<Longrightarrow> pbuf_step st st'"
| "pbuf_copy p q st = Some (e, st') \<Longrightarrow> pbuf_step st st'"
| "pbuf_copy_partial p d n k st = Some (c, st') \<Longrightarrow> pbuf_step st st'"
| "pbuf_get_contiguous p d m n k st = Some (q, st') \<Longrightarrow> pbuf_step st st'"
| "pbuf_take p d n st = Some (e, st') \<Longrightarrow> pbuf_step st st'"
| "pbuf_take_at p a n k st = Some (e, st') \<Longrightarrow> pbuf_step st st'"
| "pbuf_put_at p k v st = Some st' \<Longrightarrow> pbuf_step st st'"
| "pbuf_clone l t p st = Some (q, st') \<Longrightarrow> l \<in> layers \<Longrightarrow> pbuf_step st st'"
| "pbuf_coalesce p l st = Some (q, st') \<Longrightarrow> l \<in> layers \<Longrightarrow> pbuf_step st st'"
| "pbuf_step st (st\<lparr>bytes := f\<rparr>)"

inductive pbuf_reach :: "pbufs \<Rightarrow> bool" where
  "mem_init h = Some h0 \<Longrightarrow> length tabs = MEMP_MAX \<Longrightarrow>
   pbuf_reach \<lparr>pb_at = Map.empty, bytes = f, mem_heap = h0, pools = memp_init tabs,
     pbuf_free_ooseq_pending = 0, custom_freed = []\<rparr>"
| "pbuf_reach st \<Longrightarrow> pbuf_step st st' \<Longrightarrow> pbuf_reach st'"

lemma pbuf_step_ok: "pbuf_step st st' \<Longrightarrow> pbufs_ok st \<Longrightarrow> pbufs_ok st'"
proof (induction rule: pbuf_step.induct)
  case (24 st f)
  then show ?case using pbufs_ok_cong [of "st\<lparr>bytes := f\<rparr>" st] by simp
qed (auto dest!: copy_frame copy_partial_frame get_contiguous_frame take_frame take_at_frame put_at_frame
  dest: alloc_ok clone_ok coalesce_ok free_header_ok same_frame_ok
  simp: pbuf_add_header_def pbuf_add_header_force_def pbuf_header_def pbuf_header_force_def
  intro: reference_ok custom_ok realloc_ok add_header_ok remove_header_ok header_impl_ok free_ok ref_ok
    cat_ok chain_ok dechain_ok)

lemma pbuf_reach_ok: "pbuf_reach st \<Longrightarrow> pbufs_ok st"
proof (induction rule: pbuf_reach.induct)
  case (1 h h0 tabs f)
  obtain h' where "mem_init h = Some h'" "heap_ok h' [(1600, False)]" by (rule mem_init_ok)
  then have "holds h0 Map.empty" using 1(1) unfolding holds_def by (intro exI [of _ "[(1600, False)]"]) simp
  moreover have "offers (memp_init tabs) t (elements t)" if "t < MEMP_MAX" for t using 1(2) that by (rule memp_init_ok)
  ultimately have "bufs_ok Map.empty \<lparr>pb_at = Map.empty, bytes = f, mem_heap = h0, pools = memp_init tabs,
      pbuf_free_ooseq_pending = 0, custom_freed = []\<rparr>"
    by (simp add: bufs_ok_def pool_ok_def)
  then show ?case unfolding pbufs_ok_def by blast
next
  case (2 st st')
  then show ?case using pbuf_step_ok by blast
qed

text \<open>An example: two buffers of the caller, of two and of three bytes, in one chain.\<close>

abbreviation zero_heap :: heap where
  "zero_heap \<equiv> \<lparr>ram = \<lambda>_. 0, lfree = 0\<rparr>"

definition fresh :: "heap \<Rightarrow> pbufs" where
  "fresh h = \<lparr>pb_at = Map.empty, bytes = \<lambda>_. 0, mem_heap = h, pools = memp_init (replicate 9 []),
     pbuf_free_ooseq_pending = 0, custom_freed = []\<rparr>"

abbreviation first_buf :: pbuf where
  "first_buf \<equiv> (new_pbuf (Some (Extern 2, 0)) 2 2 PBUF_REF PBUF_FLAG_IS_CUSTOM)\<lparr>pb_tot_len := 5, pb_next := Some (Extern 4, 0)\<rparr>"

abbreviation second_buf :: pbuf where
  "second_buf \<equiv> new_pbuf (Some (Extern 3, 0)) 3 3 PBUF_REF PBUF_FLAG_IS_CUSTOM"

definition two_links :: links where
  "two_links = [((Extern 0, 0), first_buf), ((Extern 4, 0), second_buf)]"

definition two_bufs :: "heap \<Rightarrow> pbufs" where
  "two_bufs h = (fresh h)\<lparr>pb_at := [(Extern 0, 0) \<mapsto> first_buf, (Extern 4, 0) \<mapsto> second_buf],
     bytes := (\<lambda>(r, i). if r = Extern 2 then 7 else if r = Extern 3 then word_of_int i else 0)\<rparr>"

lemma fresh_pools:
  "memp_init (replicate 9 []) ! MEMP_PBUF_POOL = map (\<lambda>i. (Element MEMP_PBUF_POOL i, 0)) (rev [0 ..< 16])"
  "memp_init (replicate 9 []) ! MEMP_PBUF = map (\<lambda>i. (Element MEMP_PBUF i, 0)) (rev [0 ..< 16])"
  "length (memp_init (replicate 9 [])) = 9"
  by (simp_all add: memp_init_def memp_init_pool_def memp_pools_def upt_rec eval_nat_numeral)


lemma fresh_reach: "mem_init h = Some h0 \<Longrightarrow> pbuf_reach (fresh h0)"
  unfolding fresh_def by (rule pbuf_reach.intros(1)) simp_all

lemma two_bufs_reach:
  assumes "mem_init h = Some h0"
  shows "pbuf_reach (two_bufs h0)"
proof -
  let ?s1 = "set_pb (Extern 0, 0) (new_pbuf (Some (Extern 2, 0)) 2 2 PBUF_REF PBUF_FLAG_IS_CUSTOM) (fresh h0)"
  have "pbuf_alloced_custom 0 2 PBUF_REF (Extern 0, 0) (Some (Extern 2, 0)) 2 (fresh h0) = (Some (Extern 0, 0), ?s1)"
    by (simp add: pbuf_alloced_custom_def pbuf_init_alloced_pbuf_def LWIP_MEM_ALIGN_SIZE_def padd_def)
  then have s1: "pbuf_reach ?s1"
    by (intro pbuf_reach.intros(2) [OF fresh_reach [OF assms]] pbuf_step.intros(3)) (auto simp: fresh_def)
  let ?s2 = "set_pb (Extern 4, 0) second_buf ?s1"
  have "pbuf_alloced_custom 0 3 PBUF_REF (Extern 4, 0) (Some (Extern 3, 0)) 3 ?s1 = (Some (Extern 4, 0), ?s2)"
    by (simp add: pbuf_alloced_custom_def pbuf_init_alloced_pbuf_def LWIP_MEM_ALIGN_SIZE_def padd_def)
  then have s2: "pbuf_reach ?s2"
    by (intro pbuf_reach.intros(2) [OF s1] pbuf_step.intros(3)) (auto simp: fresh_def)
  let ?s3 = "set_pb (Extern 0, 0) first_buf ?s2"
  have "pbuf_cat (Some (Extern 0, 0)) (Some (Extern 4, 0)) ?s2 = Some ?s3"
    unfolding pbuf_cat_def by (simp, subst cat_loop.simps) (simp add: Let_def)
  then have s3: "pbuf_reach ?s3" by (intro pbuf_reach.intros(2) [OF s2] pbuf_step.intros(13))
  have "two_bufs h0 = ?s3\<lparr>bytes := (\<lambda>(r, i). if r = Extern 2 then 7 else if r = Extern 3 then word_of_int i else 0)\<rparr>"
    by (simp add: two_bufs_def set_pb_def fresh_def fun_upd_twist fun_upd_upd)
  then show ?thesis using pbuf_reach.intros(2) [OF s3 pbuf_step.intros(24)] by simp
qed

text \<open>And one of two kinds: four bytes on the heap, and behind them a buffer of the caller.\<close>

definition mixed_links :: links where
  "mixed_links =
     [((Heap, 8), (new_pbuf (Some (Heap, 24)) 4 4 PBUF_RAM 0)\<lparr>pb_tot_len := 7, pb_next := Some (Extern 4, 0)\<rparr>),
      ((Extern 4, 0), second_buf)]"

lemma mixed_bufs:
  obtains st where "pbuf_reach st" "chain st (Some (Heap, 8)) mixed_links" "custom_freed st = []"
proof -
  obtain h0 where h0: "mem_init zero_heap = Some h0" "heap_ok h0 [(1600, False)]" by (rule mem_init_ok)
  have "alloc_size (unat (20 :: u16)) = 20" by (simp add: alloc_size_def)
  then have "first_fit (alloc_size (unat (20 :: u16))) [(1600, False)] = Some ([], 1600, [])" by simp
  from malloc_some [OF h0(2) _ refl this] obtain h1 where h1: "mem_malloc 20 h0 = Some (h1, Some 8)" by auto
  let ?b = "new_pbuf (Some (Heap, 24)) 4 4 PBUF_RAM 0"
  let ?s1 = "set_pb (Heap, 8) ?b ((fresh h0)\<lparr>mem_heap := h1\<rparr>)"
  have "alloc_ram 0 4 (fresh h0) = Some (Some (Heap, 8), ?s1)"
    by (simp add: alloc_ram_def LWIP_MEM_ALIGN_SIZE_def fresh_def h1 pbuf_init_alloced_pbuf_def mem_align_def padd_def Let_def)
  then have "pbuf_alloc PBUF_RAW 4 PBUF_RAM (fresh h0) = Some (Some (Heap, 8), ?s1)"
    by (simp add: pbuf_alloc_def PBUF_RAW_def PBUF_RAM_def PBUF_POOL_def PBUF_REF_def PBUF_ROM_def)
  then have s1: "pbuf_reach ?s1"
    by (intro pbuf_reach.intros(2) [OF fresh_reach [OF h0(1)]] pbuf_step.intros(1)) (assumption, simp add: layers_def)
  let ?s2 = "set_pb (Extern 4, 0) second_buf ?s1"
  have "pbuf_alloced_custom 0 3 PBUF_REF (Extern 4, 0) (Some (Extern 3, 0)) 3 ?s1 = (Some (Extern 4, 0), ?s2)"
    by (simp add: pbuf_alloced_custom_def pbuf_init_alloced_pbuf_def LWIP_MEM_ALIGN_SIZE_def padd_def)
  then have s2: "pbuf_reach ?s2"
    by (intro pbuf_reach.intros(2) [OF s1] pbuf_step.intros(3)) (auto simp: fresh_def)
  let ?s3 = "set_pb (Heap, 8) (?b\<lparr>pb_tot_len := 7, pb_next := Some (Extern 4, 0)\<rparr>) ?s2"
  have "pbuf_cat (Some (Heap, 8)) (Some (Extern 4, 0)) ?s2 = Some ?s3"
    unfolding pbuf_cat_def by (simp, subst cat_loop.simps) (simp add: Let_def)
  then have "pbuf_reach ?s3" by (intro pbuf_reach.intros(2) [OF s2] pbuf_step.intros(13))
  then show thesis by (rule that) (simp_all add: mixed_links_def fresh_def)
qed

lemma two_bufs_chain: "chain (two_bufs h) (Some (Extern 0, 0)) two_links" "packet two_links" "single two_links" "separate two_links"
  "two_links \<noteq> []" "list_all (\<lambda>x. pb_ref (snd x) = 1) two_links" "total two_links = 5"
  "fst ` set two_links = {(Extern 0, 0), (Extern 4, 0)}"
  by (auto simp: two_bufs_def two_links_def data_area_def area_iff)

lemma two_bufs_content: "content (two_bufs h) two_links = [7, 7, 0, 1, 2]"
  by (simp add: data_def get_bytes_def two_bufs_def two_links_def padd_def upt_rec [of 0] upt_rec [of "Suc 0"] upt_rec [of "Suc (Suc 0)"])

lemma some_heap: obtains h0 where "mem_init \<lparr>ram = \<lambda>_. 0, lfree = 0\<rparr> = Some h0"
  using mem_init_ok by blast

section \<open>Properties\<close>

text \<open>C15: a buffer's type fixes where it lives, and its data stay there. In every state
  the modules above can bring about, a buffer of the heap or of the pool has its payload behind its
  header and inside the array of the heap, or inside the 608 bytes of its element, and shares no byte
  of it with another such buffer; one that refers to other memory is an element of the other pool or
  belongs to its owner; and the lists of the two pools hold every element that is no buffer, once.\<close>

theorem buffers_well_typed:
  assumes "pbuf_reach st"
  shows "(\<forall>a b. pb_at st a = Some b \<longrightarrow>
      (if kind b = 0x00 then fst a = Heap \<and> inside a (1600 - nat (snd a)) b
       else if kind b = 0x01 then a \<in> elements MEMP_PBUF \<and> \<not> contiguous b
       else if kind b = 0x02 then a \<in> elements MEMP_PBUF_POOL \<and> inside a 608 b
       else kind b = 0x10 \<and> (\<exists>i. fst a = Extern i) \<and> \<not> contiguous b)) \<and>
    (\<forall>a b c e. pb_at st a = Some b \<longrightarrow> pb_at st c = Some e \<longrightarrow> a \<noteq> c \<longrightarrow> contiguous b \<longrightarrow> contiguous e \<longrightarrow>
      data_area b \<inter> data_area e = {}) \<and>
    (\<forall>t \<in> {MEMP_PBUF, MEMP_PBUF_POOL}.
      distinct (pools st ! t) \<and> set (pools st ! t) = {a \<in> elements t. pb_at st a = None})"
proof -
  obtain s where s: "bufs_ok s st" using pbuf_reach_ok [OF assms] by (auto simp: pbufs_ok_def)
  note D = bufs_okD [OF s]
  have heap: "inside a (1600 - nat (snd a)) b" if "s (nat (snd a)) = Some xs" "inside a (length xs) b" "0 \<le> snd a" for xs a b
  proof -
    have "length xs \<le> 1600 - nat (snd a)" using store_range [OF D(1) that(1)] by linarith
    then show ?thesis using that(2) unfolding inside_def by fastforce
  qed
  have "if kind b = 0x00 then fst a = Heap \<and> inside a (1600 - nat (snd a)) b
      else if kind b = 0x01 then a \<in> elements MEMP_PBUF \<and> \<not> contiguous b
      else if kind b = 0x02 then a \<in> elements MEMP_PBUF_POOL \<and> inside a 608 b
      else kind b = 0x10 \<and> (\<exists>i. fst a = Extern i) \<and> \<not> contiguous b" if "pb_at st a = Some b" for a b
    using D(2) [OF that] by (auto simp: pbuf_ok_def intro: heap split: if_splits)
  moreover have "distinct (pools st ! t) \<and> set (pools st ! t) = {a \<in> elements t. pb_at st a = None}"
    if "t \<in> {MEMP_PBUF, MEMP_PBUF_POOL}" for t
    using that D(3,4) by (auto simp: pool_ok_def offers_def)
  moreover have "data_area b \<inter> data_area e = {}"
    if "pb_at st a = Some b" "pb_at st c = Some e" "a \<noteq> c" "contiguous b" "contiguous e" for a b c e
    using that(1,2,4,5,3) by (rule payloads_apart_ok [OF s])
  ultimately show ?thesis by (intro conjI [OF _ conjI] allI impI ballI)
qed

theorem buffers_well_typed_witness:
  "\<exists>(st :: pbufs) b. pb_at st (Element MEMP_PBUF_POOL 15, 0) = Some b \<and> inside (Element MEMP_PBUF_POOL 15, 0) 608 b \<and>
     set (pools st ! MEMP_PBUF_POOL) = {a \<in> elements MEMP_PBUF_POOL. pb_at st a = None}"
proof -
  obtain h0 where h0: "mem_init \<lparr>ram = \<lambda>_. 0, lfree = 0\<rparr> = Some h0" by (rule some_heap)
  let ?b = "new_pbuf (Some (Element MEMP_PBUF_POOL 15, 16)) 10 10 PBUF_POOL 0"
  define ps where "ps = (pools (fresh h0))[MEMP_PBUF_POOL := map (\<lambda>i. (Element MEMP_PBUF_POOL i, 0)) (rev [0 ..< 15])]"
  let ?st = "set_pb (Element MEMP_PBUF_POOL 15, 0) ?b ((fresh h0)\<lparr>pools := ps\<rparr>)"
  have "[0 ..< 16] = [0 ..< 15] @ [15 :: nat]" using upt_Suc_append [of 0 15] by simp
  then have m: "memp_malloc MEMP_PBUF_POOL (pools (fresh h0)) = (Some (Element MEMP_PBUF_POOL 15, 0), ps)"
    by (simp add: memp_malloc_def do_memp_malloc_pool_def fresh_def fresh_pools ps_def)
  have "min 10 (ucast (PBUF_POOL_BUFSIZE_ALIGNED - LWIP_MEM_ALIGN_SIZE 0)) = (10 :: u16)"
    by (simp add: LWIP_MEM_ALIGN_SIZE_def)
  then have "pool_loop PBUF_RAW 10 None (fresh h0) = Some (Some (Element MEMP_PBUF_POOL 15, 0), ?st)"
    by (subst pool_loop.simps) (simp add: m PBUF_RAW_def Let_def pbuf_init_alloced_pbuf_def mem_align_def padd_def)
  then have "pbuf_alloc PBUF_RAW 10 PBUF_POOL (fresh h0) = Some (Some (Element MEMP_PBUF_POOL 15, 0), ?st)"
    by (simp add: pbuf_alloc_def PBUF_POOL_def PBUF_REF_def PBUF_ROM_def)
  then have r: "pbuf_reach ?st"
    by (intro pbuf_reach.intros(2) [OF fresh_reach [OF h0]] pbuf_step.intros(1)) (assumption, simp add: layers_def)
  have "kind ?b = 0x02" by (simp add: kind_def pbuf_get_allocsrc_def PBUF_POOL_def)
  with buffers_well_typed [OF r, THEN conjunct1, rule_format, of "(Element MEMP_PBUF_POOL 15, 0)" ?b]
  have "inside (Element MEMP_PBUF_POOL 15, 0) 608 ?b" by simp
  moreover have "set (pools ?st ! MEMP_PBUF_POOL) = {a \<in> elements MEMP_PBUF_POOL. pb_at ?st a = None}"
    using buffers_well_typed [OF r, THEN conjunct2, THEN conjunct2, THEN bspec, of MEMP_PBUF_POOL] by blast
  moreover have "pb_at ?st (Element MEMP_PBUF_POOL 15, 0) = Some ?b" by simp
  ultimately show ?thesis by blast
qed

text \<open>C29: freeing a chain frees its buffers up to the first that is referenced from elsewhere, which
  loses one reference; the rest and all other buffers are untouched. The elements are back in their
  pools, the blocks of the heap are given back to it, each of which was allocated before, while all
  other blocks stay with their contents, the owner of each custom buffer is called, in the order of
  the chain, and the result is the number of buffers freed, modulo 256.\<close>

theorem chain_freed:
  assumes "pbuf_reach st" "chain st p (ys @ zs)" "list_all (\<lambda>x. pb_ref (snd x) = 1) ys"
    and "case zs of [] \<Rightarrow> True | z # _ \<Rightarrow> pb_ref (snd z) \<noteq> 1"
  shows "\<exists>st'. pbuf_free p st = Some (of_nat (length ys), st') \<and> bytes st' = bytes st \<and>
    (\<forall>a. pb_at st' a = (if a \<in> fst ` set ys then None
      else case zs of [] \<Rightarrow> pb_at st a
        | z # _ \<Rightarrow> if a = fst z then Some ((snd z)\<lparr>pb_ref := pb_ref (snd z) - 1\<rparr>) else pb_at st a)) \<and>
    (\<forall>t \<in> {MEMP_PBUF, MEMP_PBUF_POOL}. set (pools st' ! t) = set (pools st ! t) \<union> (elements t \<inter> fst ` set ys)) \<and>
    (\<exists>s. holds (mem_heap st) s \<and> heap_blocks ys \<subseteq> dom s \<and> holds (mem_heap st') (s |` (- heap_blocks ys))) \<and>
    custom_freed st' = custom_freed st @ map fst (filter (\<lambda>x. pb_flags (snd x) AND PBUF_FLAG_IS_CUSTOM \<noteq> 0) ys)"
proof -
  have ok: "pbufs_ok st" using pbuf_reach_ok [OF assms(1)] .
  then obtain s where s: "bufs_ok s st" by (auto simp: pbufs_ok_def)
  have f: "freed (ys @ zs) = ys" using assms(3,4) by (cases zs) (auto simp: freed_def list_all_iff takeWhile_append2)
  obtain st' where st': "pbuf_free p st = Some (of_nat (length ys), st')" "bufs_ok (s |` (- heap_blocks ys)) st'"
    "bytes st' = bytes st" "pb_at st' = unreferenced (ys @ zs) (pb_at st)" "custom_freed st' = custom_freed st @ owners_called ys"
    using free_gives_back [OF assms(2) s] unfolding f by blast
  then have ok': "pbufs_ok st'" by (auto simp: pbufs_ok_def)
  have blocks: "heap_blocks ys \<subseteq> dom s"
  proof -
    have "nat (snd a) \<in> dom s" if "(a, b) \<in> set ys" "kind b = 0x00" for a b
      using bufs_okD(2) [OF s, of a b] chain_at [OF assms(2), of a b] that by (auto simp: pbuf_ok_def)
    then show ?thesis unfolding heap_blocks_def by (intro image_subsetI) (simp only: mem_Collect_eq prod.collapse, metis prod.collapse)
  qed
  have owners: "owners_called ys = map fst (filter (\<lambda>x. pb_flags (snd x) AND PBUF_FLAG_IS_CUSTOM \<noteq> 0) ys)"
    by (simp add: owners_called_def kind_custom)
  have at: "pb_at st' a = (if a \<in> fst ` set ys then None
      else case zs of [] \<Rightarrow> pb_at st a
        | z # _ \<Rightarrow> if a = fst z then Some ((snd z)\<lparr>pb_ref := pb_ref (snd z) - 1\<rparr>) else pb_at st a)" for a
  proof (cases zs)
    case Nil
    then show ?thesis using st'(4) unreferenced_all [OF assms(3), of zs] by simp
  next
    case (Cons z zs')
    then have "fst z \<notin> fst ` set ys" "pb_ref (snd z) \<noteq> 1" using chain_distinct [OF assms(2)] assms(4) by auto
    then show ?thesis using st'(4) unreferenced_all [OF assms(3), of zs] Cons by (cases z) auto
  qed
  have pools: "set (pools st' ! t) = set (pools st ! t) \<union> (elements t \<inter> fst ` set ys)" if "t \<in> {MEMP_PBUF, MEMP_PBUF_POOL}" for t
  proof -
    have pool: "set (pools s ! t) = {a \<in> elements t. pb_at s a = None}" if "pbufs_ok s" for s
      using that \<open>t \<in> {MEMP_PBUF, MEMP_PBUF_POOL}\<close> by (auto simp: pbufs_ok_def bufs_ok_def pool_ok_def offers_def)
    have "pb_at st' a = None \<longleftrightarrow> pb_at st a = None \<or> a \<in> fst ` set ys" for a
    proof (cases zs)
      case (Cons z zs')
      then have "pb_at st (fst z) = Some (snd z)" using chain_at [OF assms(2), of "fst z" "snd z"] by simp
      then show ?thesis using Cons by (auto simp: at)
    qed (simp add: at)
    then show ?thesis using pool [OF ok] pool [OF ok'] by auto
  qed
  show ?thesis
    by (intro exI [of _ st'] conjI allI ballI exI [of _ s] st'(1,3) at pools blocks bufs_okD(1) [OF s] bufs_okD(1) [OF st'(2)]
        st'(5) [unfolded owners])
qed

theorem chain_freed_witness:
  "\<exists>st st' s. chain st (Some (Heap, 8)) mixed_links \<and> pbuf_free (Some (Heap, 8)) st = Some (2, st') \<and>
     pb_at st' (Heap, 8) = None \<and> pb_at st' (Extern 4, 0) = None \<and> holds (mem_heap st) s \<and> 8 \<in> dom s \<and>
     holds (mem_heap st') (s |` (- {8})) \<and> custom_freed st' = [(Extern 4, 0)]"
proof -
  obtain st where st: "pbuf_reach st" "chain st (Some (Heap, 8)) mixed_links" "custom_freed st = []" by (rule mixed_bufs)
  have ones: "list_all (\<lambda>x. pb_ref (snd x) = 1) mixed_links" and len: "of_nat (length mixed_links) = (2 :: u8)"
    by (simp_all add: mixed_links_def)
  have blocks: "heap_blocks mixed_links = {8}"
    and own: "map fst (filter (\<lambda>x. pb_flags (snd x) AND PBUF_FLAG_IS_CUSTOM \<noteq> 0) mixed_links) = [(Extern 4, 0)]"
    and at: "(Heap, 8) \<in> fst ` set mixed_links" "(Extern 4, 0) \<in> fst ` set mixed_links"
    by (simp_all add: mixed_links_def heap_blocks_insert kind_def pbuf_get_allocsrc_def PBUF_RAM_def)
  from chain_freed [OF st(1), where p = "Some (Heap, 8)" and ys = mixed_links and zs = "[]"] st(2) ones
  obtain st' s where "pbuf_free (Some (Heap, 8)) st = Some (of_nat (length mixed_links), st')"
    "\<forall>a. pb_at st' a = (if a \<in> fst ` set mixed_links then None else pb_at st a)" "holds (mem_heap st) s"
    "heap_blocks mixed_links \<subseteq> dom s" "holds (mem_heap st') (s |` (- heap_blocks mixed_links))"
    "custom_freed st' = custom_freed st @ map fst (filter (\<lambda>x. pb_flags (snd x) AND PBUF_FLAG_IS_CUSTOM \<noteq> 0) mixed_links)"
    by auto
  then show ?thesis using st(2,3) at unfolding blocks own len
    by (intro exI [of _ st] exI [of _ st'] exI [of _ s]) simp
qed

text \<open>C30: a chain can be cut at both ends at any place: what is left is a packet again, and
  its bytes are the first \<open>n\<close> of the old ones, or all but the first \<open>n\<close>.\<close>

theorem chain_trimmed:
  assumes "pbuf_reach st" "chain st p xs" "packet xs" "xs \<noteq> []"
  shows "(\<exists>st' ys. pbuf_realloc p n st = Some st' \<and> chain st' p ys \<and> packet ys \<and>
      content st' ys = take (unat n) (content st xs)) \<and>
    (\<exists>q st' ys. pbuf_free_header p n st = Some (q, st') \<and> chain st' q ys \<and> packet ys \<and>
      content st' ys = drop (unat n) (content st xs))"
  using realloc_is [OF pbuf_reach_ok [OF assms(1)] assms(2-4)] free_header_is [OF pbuf_reach_ok [OF assms(1)] assms(2,3)] by blast

theorem chain_trimmed_witness:
  "\<exists>st. chain st (Some (Extern 0, 0)) two_links \<and>
     (\<exists>st' ys. pbuf_realloc (Some (Extern 0, 0)) 3 st = Some st' \<and> chain st' (Some (Extern 0, 0)) ys \<and> content st' ys = [7, 7, 0]) \<and>
     (\<exists>q st' ys. pbuf_free_header (Some (Extern 0, 0)) 3 st = Some (q, st') \<and> chain st' q ys \<and> content st' ys = [1, 2])"
proof -
  obtain h0 where h0: "mem_init \<lparr>ram = \<lambda>_. 0, lfree = 0\<rparr> = Some h0" by (rule some_heap)
  have "take (unat (3 :: u16)) (content (two_bufs h0) two_links) = [7, 7, 0]"
    "drop (unat (3 :: u16)) (content (two_bufs h0) two_links) = [1, 2]" unfolding two_bufs_content by simp_all
  with chain_trimmed [OF two_bufs_reach [OF h0] two_bufs_chain (1,2,5), of 3] two_bufs_chain (1) [of h0]
  show ?thesis by (intro exI [of _ "two_bufs h0"]) fastforce
qed

text \<open>C28: a byte, a comparison and a search in a chain are those of its bytes in one piece:
  reading behind the end gives 0, the comparison the place of the first difference, counted from 1,
  or 0xffff if the chain is too short, and the search the first occurrence of the pattern.\<close>

theorem packet_searched:
  assumes "chain st p xs" "packet xs" "xs \<noteq> []"
  shows "pbuf_get_at p k st = Some (if unat k < total xs then content st xs ! unat k else 0) \<and>
    pbuf_memcmp p k mem n st = Some (if total xs < unat k + unat n then 0xffff
      else let a = agree (take (unat n) (drop (unat k) (content st xs))) (get_bytes mem (unat n) st)
           in if a = unat n then 0 else of_nat (a + 1)) \<and>
    pbuf_memfind p mem n k st =
      Some (case find (occurs (get_bytes mem (unat n) st) (content st xs)) [unat k ..< total xs + 1 - unat n] of
        None \<Rightarrow> 0xFFFF | Some i \<Rightarrow> of_nat i)"
  using get_at_is [OF assms(1,2)] memcmp_is [OF assms] memfind_is [OF assms] by blast

theorem packet_searched_witness:
  "chain (two_bufs zero_heap) (Some (Extern 0, 0)) two_links \<and> get_bytes (Extern 3, 0) 2 (two_bufs zero_heap) = [0, 1] \<and>
   pbuf_memfind (Some (Extern 0, 0)) (Extern 3, 0) 2 1 (two_bufs zero_heap) = Some 2"
proof -
  have pat: "get_bytes (Extern 3, 0) 2 (two_bufs zero_heap) = [0, 1]"
    by (simp add: get_bytes_def two_bufs_def padd_def upt_rec [of 0] upt_rec [of "Suc 0"])
  have "[1 ..< 4] = [1, 2, 3 :: nat]" by (simp add: upt_rec)
  then have "find (occurs [0, 1] (content (two_bufs zero_heap) two_links)) [1 ..< 4] = Some 2"
    unfolding two_bufs_content by (simp add: occurs_def)
  moreover have "total two_links + 1 - unat (2 :: u16) = 4" "unat (1 :: u16) = 1" by (simp_all add: two_bufs_chain)
  ultimately have "(case find (occurs (get_bytes (Extern 3, 0) (unat (2 :: u16)) (two_bufs zero_heap)) (content (two_bufs zero_heap) two_links))
      [unat (1 :: u16) ..< total two_links + 1 - unat (2 :: u16)] of None \<Rightarrow> 0xFFFF | Some i \<Rightarrow> of_nat i) = (2 :: u16)"
    using pat by simp
  then have "pbuf_memfind (Some (Extern 0, 0)) (Extern 3, 0) 2 1 (two_bufs zero_heap) = Some 2"
    using packet_searched [OF two_bufs_chain (1) [of zero_heap] two_bufs_chain (2,5), THEN conjunct2, THEN conjunct2, of "(Extern 3, 0)" 2 1] by simp
  then show ?thesis using pat two_bufs_chain (1) by blast
qed

text \<open>C17: bytes written into a chain at any place within it are read back from there,
  wherever the bounds between its buffers are, and all others stay.\<close>

theorem packet_rewritten:
  assumes "chain st p xs" "packet xs" "separate xs" "xs \<noteq> []" "unat k < total xs" "unat k + unat n \<le> total xs"
    and "areas xs \<inter> area src (unat n) = {}" "areas xs \<inter> area dst (unat n) = {}"
  shows "\<exists>st' st''. pbuf_take_at p src n k st = Some (ERR_OK, st') \<and>
    content st' xs = take (unat k) (content st xs) @ get_bytes src (unat n) st @ drop (unat k + unat n) (content st xs) \<and>
    pbuf_copy_partial p (Some dst) n k st' = Some (n, st'') \<and> get_bytes dst (unat n) st'' = get_bytes src (unat n) st \<and>
    content st'' xs = content st' xs"
proof -
  from take_at_is [OF assms(1-3,7), of k] assms(5,6) obtain st' where
    st': "pbuf_take_at p src n k st = Some (ERR_OK, st')" "only_bytes (areas xs) st st'"
      "content st' xs = take (unat k) (content st xs) @ get_bytes src (unat n) st @ drop (unat k + unat n) (content st xs)" by auto
  let ?l = "get_bytes src (unat n) st"
  have c: "chain st' p xs" using only_bytes_chain [OF st'(2)] assms(1) by simp
  have m: "min (unat n) (total xs - unat k) = unat n" using assms(6) by simp
  have l: "take (unat n) (drop (unat k) (content st' xs)) = ?l"
    using st'(3) assms(5) length_content [OF assms(2), of st] by simp
  have "pbuf_copy_partial p (Some dst) n k st' = Some (n, put_bytes dst ?l st')"
    using copy_partial_is [OF c assms(2) _ assms(4), of dst n k] assms(8) by (simp add: m l)
  moreover have "get_bytes dst (unat n) (put_bytes dst ?l st') = ?l" using get_put [of dst ?l st'] by simp
  moreover have "content (put_bytes dst ?l st') xs = content st' xs" by (rule content_put) (simp add: assms(8))
  ultimately show ?thesis using st'(1,3) by blast
qed

theorem packet_rewritten_witness:
  "\<exists>st' st''. pbuf_take_at (Some (Extern 0, 0)) (Extern 5, 0) 2 1 (two_bufs zero_heap) = Some (ERR_OK, st') \<and>
     content st' two_links = [7, 0, 0, 1, 2] \<and>
     pbuf_copy_partial (Some (Extern 0, 0)) (Some (Extern 6, 0)) 2 1 st' = Some (2, st'') \<and>
     get_bytes (Extern 6, 0) 2 st'' = [0, 0]"
proof -
  have "get_bytes (Extern 5, 0) 2 (two_bufs zero_heap) = [0, 0]"
    by (simp add: get_bytes_def two_bufs_def padd_def upt_rec [of 0] upt_rec [of "Suc 0"])
  moreover have "areas two_links \<inter> area (Extern 5, 0) 2 = {}" "areas two_links \<inter> area (Extern 6, 0) 2 = {}"
    by (auto simp: two_links_def data_area_def area_iff)
  ultimately show ?thesis
    using packet_rewritten [OF two_bufs_chain (1,2,4,5), of 1 2 "(Extern 5, 0)" "(Extern 6, 0)" zero_heap]
    unfolding two_bufs_content two_bufs_chain (7) by auto
qed

text \<open>C16: a clone of a packet, in one block of the heap or in buffers of the pool, has its bytes and
  shares no buffer with it; if there is no memory for it, the result is null; in both cases the
  packet is as it was. Of the pool there is memory enough if its free elements have room for the
  bytes and the headers. As the rules of the stack demand, the chain is one packet and no queue
  (\<open>single\<close>), and its data lie in its buffers or in memory of the caller.\<close>

theorem packet_cloned:
  assumes "pbuf_reach st" "l \<in> layers" "t = PBUF_RAM \<or> t = PBUF_POOL"
    and "chain st p xs" "packet xs" "single xs" "xs \<noteq> []" "\<forall>x \<in> set xs. own_data (snd x)"
  shows "\<exists>q st'. pbuf_clone l t p st = Some (q, st') \<and> chain st' p xs \<and> content st' xs = content st xs \<and>
    (q = None \<or>
     (\<exists>ys. chain st' q ys \<and> packet ys \<and> content st' ys = content st xs \<and> fst ` set ys \<inter> fst ` set xs = {})) \<and>
    (t = PBUF_POOL \<longrightarrow> 0 < free_elements st \<longrightarrow> total xs + (unat l + 3) div 4 * 4 \<le> 592 * free_elements st \<longrightarrow> q \<noteq> None)"
proof -
  obtain q st' where r: "pbuf_clone l t p st = Some (q, st')" "chain st' p xs" "content st' xs = content st xs"
    and out: "q = None \<or> (\<exists>ys. chain st' q ys \<and> packet ys \<and> content st' ys = content st xs \<and>
      (\<forall>a \<in> fst ` set ys. pb_at st a = None) \<and> (t = PBUF_RAM \<longrightarrow> length ys = 1))"
    and room: "t = PBUF_POOL \<longrightarrow> 0 < free_elements st \<longrightarrow> total xs + (unat l + 3) div 4 * 4 \<le> 592 * free_elements st \<longrightarrow> q \<noteq> None"
    using clone_is [OF pbuf_reach_ok [OF assms(1)] assms(2-8)] by blast
  have "fst ` set ys \<inter> fst ` set xs = {}" if "\<forall>a \<in> fst ` set ys. pb_at st a = None" for ys
    using that chain_at [OF assms(4)] by fastforce
  then have "q = None \<or> (\<exists>ys. chain st' q ys \<and> packet ys \<and> content st' ys = content st xs \<and> fst ` set ys \<inter> fst ` set xs = {})"
    using out by metis
  with r room show ?thesis by (intro exI [of _ q] exI [of _ st'] conjI)
qed

theorem packet_cloned_witness:
  "\<exists>st q st' ys. content st two_links = [7, 7, 0, 1, 2] \<and> pbuf_clone PBUF_RAW PBUF_POOL (Some (Extern 0, 0)) st = Some (q, st') \<and>
     chain st' q ys \<and> content st' ys = [7, 7, 0, 1, 2]"
proof -
  obtain h0 where h0: "mem_init \<lparr>ram = \<lambda>_. 0, lfree = 0\<rparr> = Some h0" by (rule some_heap)
  have l: "PBUF_RAW \<in> layers" and own: "\<forall>x \<in> set two_links. own_data (snd x)"
    by (simp_all add: layers_def own_data_def two_links_def)
  have room: "0 < free_elements (two_bufs h0)" "total two_links + (unat PBUF_RAW + 3) div 4 * 4 \<le> 592 * free_elements (two_bufs h0)"
    by (simp_all add: two_bufs_def fresh_def fresh_pools two_bufs_chain PBUF_RAW_def)
  then obtain q st' where q: "pbuf_clone PBUF_RAW PBUF_POOL (Some (Extern 0, 0)) (two_bufs h0) = Some (q, st')"
    and "q = None \<or> (\<exists>ys. chain st' q ys \<and> packet ys \<and> content st' ys = content (two_bufs h0) two_links \<and>
      fst ` set ys \<inter> fst ` set two_links = {})" "q \<noteq> None"
    using packet_cloned [OF two_bufs_reach [OF h0] l disjI2 [OF refl] two_bufs_chain (1,2,3,5) own]
    by (elim exE conjE) (rule that, assumption, assumption, drule mp, rule refl, drule mp, assumption, drule mp, assumption)
  then obtain ys where "chain st' q ys" "content st' ys = [7, 7, 0, 1, 2]" unfolding two_bufs_content by (elim disjE exE conjE) auto
  then show ?thesis using two_bufs_content [of h0] q
    by (intro exI [of _ "two_bufs h0"] exI [of _ q] exI [of _ st'] exI [of _ ys] conjI)
qed

end
