(* ===== verification/Lwip_Timeouts.thy ===== *)
theory Lwip_Timeouts
  imports Prelude
begin

text \<open>
  \<open>lib/LwIP/src/core/timeouts.c\<close>: the timers of the TCP/IP stack, a list ordered by due time that
  the main loop polls. Times are milliseconds in 32 bits and wrap around. The clock and the lists of
  connections that a handler looks at are arguments; the three timer functions of the protocols
  (TCP, reassembly, ARP) are entries of the trace of calls.
\<close>

section \<open>Timers\<close>

abbreviation LWIP_MAX_TIMEOUT :: u32 where "LWIP_MAX_TIMEOUT \<equiv> 0x7fffffff"

definition TIME_LESS_THAN :: "u32 \<Rightarrow> u32 \<Rightarrow> bool" where
  "TIME_LESS_THAN t compare_to \<longleftrightarrow> LWIP_MAX_TIMEOUT < t - compare_to"

abbreviation TCP_TMR_INTERVAL :: u32 where "TCP_TMR_INTERVAL \<equiv> 250"
abbreviation IP_TMR_INTERVAL :: u32 where "IP_TMR_INTERVAL \<equiv> 1000"
abbreviation ARP_TMR_INTERVAL :: u32 where "ARP_TMR_INTERVAL \<equiv> 1000"

datatype tmr_handler = tcp_tmr | ip_reass_tmr | etharp_tmr

record cyclic_timer =
  interval_ms :: u32
  cyclic_handler :: tmr_handler

definition lwip_cyclic_timers :: "cyclic_timer list" where
  "lwip_cyclic_timers =
     [\<lparr>interval_ms = TCP_TMR_INTERVAL, cyclic_handler = tcp_tmr\<rparr>,
      \<lparr>interval_ms = IP_TMR_INTERVAL, cyclic_handler = ip_reass_tmr\<rparr>,
      \<lparr>interval_ms = ARP_TMR_INTERVAL, cyclic_handler = etharp_tmr\<rparr>]"

text \<open>
  The handlers that are registered in this build: the TCP timer, without an argument, and the
  timer function of the entry of the array that its argument points to.
\<close>

datatype timeout_handler = Tcpip_tcp_timer | Lwip_cyclic_timer cyclic_timer

record sys_timeo =
  timeo_time :: u32
  timeo_h :: timeout_handler

record timeouts =
  next_timeout :: "sys_timeo list"
  current_timeout_due_time :: u32
  tcpip_tcp_timer_active :: bool
  memp_free_timeouts :: nat

text \<open>What the code reads while it runs: the clock, and whether there are TCP connections.\<close>

record reading =
  sys_now :: u32
  tcp_pcbs :: bool

section \<open>Registering\<close>

fun insert_timeout :: "sys_timeo \<Rightarrow> sys_timeo list \<Rightarrow> sys_timeo list" where
  "insert_timeout e [] = [e]"
| "insert_timeout e (t # ts) =
     (if TIME_LESS_THAN (timeo_time e) (timeo_time t) then e # t # ts else t # insert_timeout e ts)"

definition sys_timeout_abs :: "u32 \<Rightarrow> timeout_handler \<Rightarrow> timeouts \<Rightarrow> timeouts" where
  "sys_timeout_abs abs_time handler s =
     (if memp_free_timeouts s = 0 then s
      else s\<lparr>next_timeout := insert_timeout \<lparr>timeo_time = abs_time, timeo_h = handler\<rparr> (next_timeout s),
             memp_free_timeouts := memp_free_timeouts s - 1\<rparr>)"

definition sys_timeout :: "u32 \<Rightarrow> u32 \<Rightarrow> timeout_handler \<Rightarrow> timeouts \<Rightarrow> timeouts" where
  "sys_timeout now msecs handler s = sys_timeout_abs (now + msecs) handler s"

fun remove_timeout :: "timeout_handler \<Rightarrow> sys_timeo list \<Rightarrow> sys_timeo list option" where
  "remove_timeout handler [] = None"
| "remove_timeout handler (t # ts) =
     (if timeo_h t = handler then Some ts else map_option (\<lambda>us. t # us) (remove_timeout handler ts))"

definition sys_untimeout :: "timeout_handler \<Rightarrow> timeouts \<Rightarrow> timeouts" where
  "sys_untimeout handler s =
     (case remove_timeout handler (next_timeout s) of
        None \<Rightarrow> s
      | Some ts \<Rightarrow> s\<lparr>next_timeout := ts, memp_free_timeouts := memp_free_timeouts s + 1\<rparr>)"

definition tcp_timer_needed :: "reading \<Rightarrow> timeouts \<Rightarrow> timeouts" where
  "tcp_timer_needed r s =
     (if \<not> tcpip_tcp_timer_active s \<and> tcp_pcbs r
      then sys_timeout (sys_now r) TCP_TMR_INTERVAL Tcpip_tcp_timer (s\<lparr>tcpip_tcp_timer_active := True\<rparr>)
      else s)"

text \<open>The timers of the array are started at once, the first, which is TCP's, on demand.\<close>

fun start_cyclic :: "u32 list \<Rightarrow> cyclic_timer list \<Rightarrow> timeouts \<Rightarrow> timeouts" where
  "start_cyclic (now # nows) (c # cs) s =
     start_cyclic nows cs (sys_timeout now (interval_ms c) (Lwip_cyclic_timer c) s)"
| "start_cyclic _ _ s = s"

definition sys_timeouts_init :: "u32 \<Rightarrow> u32 \<Rightarrow> timeouts \<Rightarrow> timeouts" where
  "sys_timeouts_init now1 now2 s = start_cyclic [now1, now2] (drop 1 lwip_cyclic_timers) s"

text \<open>The static variables before initialisation, with the pool as it is configured.\<close>

definition timeouts0 :: timeouts where
  "timeouts0 = \<lparr>next_timeout = [], current_timeout_due_time = 0, tcpip_tcp_timer_active = False,
                memp_free_timeouts = 3\<rparr>"

section \<open>Handlers\<close>

definition tcpip_tcp_timer :: "reading \<Rightarrow> timeouts \<Rightarrow> timeouts \<times> tmr_handler" where
  "tcpip_tcp_timer r s =
     (if tcp_pcbs r then sys_timeout (sys_now r) TCP_TMR_INTERVAL Tcpip_tcp_timer s
      else s\<lparr>tcpip_tcp_timer_active := False\<rparr>, tcp_tmr)"

definition lwip_cyclic_timer :: "cyclic_timer \<Rightarrow> reading \<Rightarrow> timeouts \<Rightarrow> timeouts \<times> tmr_handler" where
  "lwip_cyclic_timer cyclic r s =
     (let now = sys_now r;
          next_timeout_time = current_timeout_due_time s + interval_ms cyclic
      in if TIME_LESS_THAN next_timeout_time now
         then sys_timeout_abs (now + interval_ms cyclic) (Lwip_cyclic_timer cyclic) s
         else sys_timeout_abs next_timeout_time (Lwip_cyclic_timer cyclic) s, cyclic_handler cyclic)"

fun call_handler :: "timeout_handler \<Rightarrow> reading \<Rightarrow> timeouts \<Rightarrow> timeouts \<times> tmr_handler" where
  "call_handler Tcpip_tcp_timer r s = tcpip_tcp_timer r s"
| "call_handler (Lwip_cyclic_timer c) r s = lwip_cyclic_timer c r s"

section \<open>Polling\<close>

text \<open>
  The loop, with what each handler it calls will read. It returns \<open>None\<close> when more handlers are
  called than readings are given.
\<close>

fun check_loop :: "u32 \<Rightarrow> reading list \<Rightarrow> timeouts \<Rightarrow> (timeouts \<times> tmr_handler list) option" where
  "check_loop now rs s =
     (case next_timeout s of
        [] \<Rightarrow> Some (s, [])
      | t # ts \<Rightarrow>
          if TIME_LESS_THAN now (timeo_time t) then Some (s, [])
          else case rs of
            [] \<Rightarrow> None
          | r # rs' \<Rightarrow>
              (let (s', c) = call_handler (timeo_h t) r
                     (s\<lparr>next_timeout := ts, current_timeout_due_time := timeo_time t,
                        memp_free_timeouts := memp_free_timeouts s + 1\<rparr>)
               in map_option (\<lambda>(s, cs). (s, c # cs)) (check_loop now rs' s')))"

declare check_loop.simps [simp del]

definition sys_check_timeouts :: "u32 \<Rightarrow> reading list \<Rightarrow> timeouts \<Rightarrow> (timeouts \<times> tmr_handler list) option" where
  "sys_check_timeouts now rs s = check_loop now rs s"

definition sys_restart_timeouts :: "u32 \<Rightarrow> timeouts \<Rightarrow> timeouts" where
  "sys_restart_timeouts now s =
     (case next_timeout s of
        [] \<Rightarrow> s
      | t # ts \<Rightarrow>
          (let base = timeo_time t
           in s\<lparr>next_timeout := map (\<lambda>t. t\<lparr>timeo_time := (timeo_time t - base) + now\<rparr>) (t # ts)\<rparr>))"

definition sys_timeouts_sleeptime :: "u32 \<Rightarrow> timeouts \<Rightarrow> u32" where
  "sys_timeouts_sleeptime now s =
     (case next_timeout s of
        [] \<Rightarrow> 0xFFFFFFFF
      | t # ts \<Rightarrow> if TIME_LESS_THAN (timeo_time t) now then 0 else timeo_time t - now)"

end
