(* ===== verification/Lwip_Timeouts_Props.thy ===== *)
theory Lwip_Timeouts_Props
  imports Lwip_Timeouts
begin

text \<open>
  Properties of the timers: the list is ordered across the wrap-around of the clock, each timer has
  one place in it and always gets it, a poll ends with no timer overdue, and a cyclic timer that is
  polled in time is called once per interval without drift.
\<close>

section \<open>Times relative to a base\<close>

text \<open>Times are compared correctly as long as they lie in half of the clock's range.\<close>

definition due :: "u32 \<Rightarrow> sys_timeo \<Rightarrow> nat" where
  "due base t = unat (timeo_time t - base)"

lemma TIME_LESS_THAN_base:
  assumes "unat (a - base) < 2 ^ 31" "unat (b - base) < 2 ^ 31"
  shows "TIME_LESS_THAN a b \<longleftrightarrow> unat (a - base) < unat (b - base)"
proof -
  define x where "x = a - base"
  define y where "y = b - base"
  have ab: "a - b = x - y" by (simp add: x_def y_def)
  have b: "uint x < 2147483648" "uint y < 2147483648" "0 \<le> uint x" "0 \<le> uint y"
    and u: "int (unat x) = uint x" "int (unat y) = uint y"
  proof -
    show u: "int (unat x) = uint x" "int (unat y) = uint y" by simp_all
    have "unat x < 2147483648" "unat y < 2147483648" using assms by (simp_all add: x_def y_def)
    with u show "uint x < 2147483648" "uint y < 2147483648" by linarith+
  qed simp_all
  have "TIME_LESS_THAN a b \<longleftrightarrow> 2147483647 < uint (x - y)"
    by (simp add: TIME_LESS_THAN_def ab word_less_def)
  also have "uint (x - y) = (if uint y \<le> uint x then uint x - uint y else uint x - uint y + 4294967296)"
    using uint_sub_if' [of x y] by simp
  also have "2147483647 < \<dots> \<longleftrightarrow> uint x < uint y"
    by (rule if_split [THEN iffD2], use b in linarith)
  also have "\<dots> \<longleftrightarrow> unat x < unat y" unfolding u [symmetric] by (rule of_nat_less_iff)
  finally show ?thesis by (simp only: x_def y_def)
qed

definition ordered :: "u32 \<Rightarrow> sys_timeo list \<Rightarrow> bool" where
  "ordered base ts \<longleftrightarrow> sorted (map (due base) ts) \<and> (\<forall>t \<in> set ts. due base t < 2 ^ 31)"

lemma ordered_simps [simp]:
  "ordered base []"
  "ordered base (t # ts) \<longleftrightarrow> (\<forall>u \<in> set ts. due base t \<le> due base u) \<and> due base t < 2 ^ 31 \<and> ordered base ts"
  by (auto simp: ordered_def)

text \<open>A new timer is put behind all that are due no later than it.\<close>

lemma insert_timeout_place:
  assumes "ordered base ts" "due base e < 2 ^ 31"
  shows "insert_timeout e ts = takeWhile (\<lambda>t. due base t \<le> due base e) ts @ e # dropWhile (\<lambda>t. due base t \<le> due base e) ts"
  using assms(1)
proof (induction ts)
  case (Cons t ts)
  have "TIME_LESS_THAN (timeo_time e) (timeo_time t) \<longleftrightarrow> due base e < due base t"
    unfolding due_def using Cons(2) assms(2) by (intro TIME_LESS_THAN_base) (simp_all add: due_def)
  then show ?case using Cons by auto
qed simp

lemma mset_insert_timeout [simp]: "set (insert_timeout e ts) = insert e (set ts)"
  "length (insert_timeout e ts) = Suc (length ts)"
  "distinct (map timeo_h (insert_timeout e ts)) \<longleftrightarrow> timeo_h e \<notin> timeo_h ` set ts \<and> distinct (map timeo_h ts)"
  by (induction ts) auto

lemma sum_insert_timeout [simp]: "sum_list (map f (insert_timeout e ts)) = (f e + sum_list (map f ts) :: nat)"
  by (induction ts) auto

lemma ordered_insert_timeout:
  assumes "ordered base ts" "due base e < 2 ^ 31"
  shows "ordered base (insert_timeout e ts)"
  using assms(1)
proof (induction ts)
  case (Cons t ts)
  have "TIME_LESS_THAN (timeo_time e) (timeo_time t) \<longleftrightarrow> due base e < due base t"
    unfolding due_def using Cons(2) assms(2) by (intro TIME_LESS_THAN_base) (simp_all add: due_def)
  then show ?case using Cons assms(2) by (auto dest: order_trans less_imp_le)
qed (use assms(2) in simp)

text \<open>What is overdue stays in front of a timer that is not.\<close>

lemma takeWhile_insert_timeout:
  assumes "ordered base ts" "due base e < 2 ^ 31" "n < due base e"
  shows "takeWhile (\<lambda>t. due base t \<le> n) (insert_timeout e ts) = takeWhile (\<lambda>t. due base t \<le> n) ts"
  using assms(1)
proof (induction ts)
  case (Cons t ts)
  have "TIME_LESS_THAN (timeo_time e) (timeo_time t) \<longleftrightarrow> due base e < due base t"
    unfolding due_def using Cons(2) assms(2) by (intro TIME_LESS_THAN_base) (simp_all add: due_def)
  then show ?case using Cons assms(3) by auto
qed (use assms(3) in simp)

section \<open>Each timer has one place\<close>

abbreviation "ip_reass_timer \<equiv> \<lparr>interval_ms = IP_TMR_INTERVAL, cyclic_handler = ip_reass_tmr\<rparr>"
abbreviation "etharp_timer \<equiv> \<lparr>interval_ms = ARP_TMR_INTERVAL, cyclic_handler = etharp_tmr\<rparr>"

definition timers_ok :: "timeouts \<Rightarrow> bool" where
  "timers_ok s \<longleftrightarrow>
     distinct (map timeo_h (next_timeout s)) \<and> memp_free_timeouts s + length (next_timeout s) = 3 \<and>
     timeo_h ` set (next_timeout s) =
       {Lwip_cyclic_timer ip_reass_timer, Lwip_cyclic_timer etharp_timer} \<union>
       (if tcpip_tcp_timer_active s then {Tcpip_tcp_timer} else {})"

lemma distinct_handlers_length:
  "distinct (map timeo_h ts) \<Longrightarrow> length ts = card (timeo_h ` set ts)"
  by (metis distinct_card length_map set_map)

lemma init_ok: "timers_ok (sys_timeouts_init now1 now2 timeouts0)"
  by (auto simp: timers_ok_def sys_timeouts_init_def lwip_cyclic_timers_def timeouts0_def sys_timeout_def sys_timeout_abs_def)

lemma needed_ok:
  assumes "timers_ok s"
  shows "timers_ok (tcp_timer_needed r s)"
proof (cases "\<not> tcpip_tcp_timer_active s \<and> tcp_pcbs r")
  case True
  then have h: "timeo_h ` set (next_timeout s) = {Lwip_cyclic_timer ip_reass_timer, Lwip_cyclic_timer etharp_timer}"
    and d: "distinct (map timeo_h (next_timeout s))" using assms by (simp_all add: timers_ok_def)
  have "length (next_timeout s) = 2" unfolding distinct_handlers_length [OF d] h by simp
  then show ?thesis
    using True h d assms by (auto simp: tcp_timer_needed_def timers_ok_def sys_timeout_def sys_timeout_abs_def)
next
  case False
  then have "tcp_timer_needed r s = s" unfolding tcp_timer_needed_def by (rule if_not_P)
  then show ?thesis using assms by simp
qed

text \<open>The state in which a handler is called, and the one it leaves.\<close>

definition popped :: "sys_timeo \<Rightarrow> sys_timeo list \<Rightarrow> timeouts \<Rightarrow> timeouts" where
  "popped t ts s = s\<lparr>next_timeout := ts, current_timeout_due_time := timeo_time t,
                     memp_free_timeouts := Suc (memp_free_timeouts s)\<rparr>"

definition next_due :: "sys_timeo \<Rightarrow> reading \<Rightarrow> u32" where
  "next_due t r =
     (case timeo_h t of
        Tcpip_tcp_timer \<Rightarrow> sys_now r + TCP_TMR_INTERVAL
      | Lwip_cyclic_timer c \<Rightarrow>
          if TIME_LESS_THAN (timeo_time t + interval_ms c) (sys_now r) then sys_now r + interval_ms c
          else timeo_time t + interval_ms c)"

definition tmr_of :: "sys_timeo \<Rightarrow> tmr_handler" where
  "tmr_of t = (case timeo_h t of Tcpip_tcp_timer \<Rightarrow> tcp_tmr | Lwip_cyclic_timer c \<Rightarrow> cyclic_handler c)"

lemma call_handler_popped:
  "call_handler (timeo_h t) r (popped t ts s) =
     (if timeo_h t = Tcpip_tcp_timer \<and> \<not> tcp_pcbs r then (popped t ts s)\<lparr>tcpip_tcp_timer_active := False\<rparr>
      else (popped t ts s)\<lparr>next_timeout := insert_timeout (t\<lparr>timeo_time := next_due t r\<rparr>) ts,
                           memp_free_timeouts := memp_free_timeouts s\<rparr>, tmr_of t)"
proof (cases "timeo_h t")
  case Tcpip_tcp_timer
  then have e: "\<lparr>timeo_time = a, timeo_h = Tcpip_tcp_timer\<rparr> = t\<lparr>timeo_time := a\<rparr>" for a by (cases t) simp
  show ?thesis unfolding Tcpip_tcp_timer
    by (simp add: Tcpip_tcp_timer e tcpip_tcp_timer_def popped_def sys_timeout_def sys_timeout_abs_def next_due_def tmr_of_def)
next
  case (Lwip_cyclic_timer c)
  then have e: "\<lparr>timeo_time = a, timeo_h = Lwip_cyclic_timer c\<rparr> = t\<lparr>timeo_time := a\<rparr>" for a by (cases t) simp
  show ?thesis unfolding Lwip_cyclic_timer
    by (simp add: Lwip_cyclic_timer e lwip_cyclic_timer_def popped_def sys_timeout_abs_def next_due_def tmr_of_def Let_def)
qed

lemma next_timeout_handler:
  "next_timeout (fst (call_handler (timeo_h t) r (popped t ts s))) =
     (if timeo_h t = Tcpip_tcp_timer \<and> \<not> tcp_pcbs r then ts else insert_timeout (t\<lparr>timeo_time := next_due t r\<rparr>) ts)"
  unfolding call_handler_popped by (simp add: popped_def)

lemma check_loop_step:
  assumes "next_timeout s = t # ts" "\<not> TIME_LESS_THAN now (timeo_time t)"
  shows "check_loop now (r # rs) s =
     map_option (\<lambda>(s, cs). (s, tmr_of t # cs)) (check_loop now rs (fst (call_handler (timeo_h t) r (popped t ts s))))"
  using assms by (subst check_loop.simps) (simp add: call_handler_popped flip: popped_def)

lemma handler_ok:
  assumes "timers_ok s" "next_timeout s = t # ts"
  shows "timers_ok (fst (call_handler (timeo_h t) r (popped t ts s)))"
proof -
  have d: "timeo_h t \<notin> timeo_h ` set ts" "distinct (map timeo_h ts)"
    and n: "memp_free_timeouts s + Suc (length ts) = 3"
    and h: "insert (timeo_h t) (timeo_h ` set ts) =
       {Lwip_cyclic_timer ip_reass_timer, Lwip_cyclic_timer etharp_timer} \<union>
       (if tcpip_tcp_timer_active s then {Tcpip_tcp_timer} else {})"
    using assms by (simp_all add: timers_ok_def)
  show ?thesis
  proof (cases "timeo_h t = Tcpip_tcp_timer \<and> \<not> tcp_pcbs r")
    case True
    then have "timeo_h ` set ts = {Lwip_cyclic_timer ip_reass_timer, Lwip_cyclic_timer etharp_timer}"
    proof -
      have "Tcpip_tcp_timer \<in> insert (timeo_h t) (timeo_h ` set ts)" using True by simp
      then have "tcpip_tcp_timer_active s" unfolding h by (simp split: if_splits)
      then have "insert Tcpip_tcp_timer (timeo_h ` set ts) =
          insert Tcpip_tcp_timer {Lwip_cyclic_timer ip_reass_timer, Lwip_cyclic_timer etharp_timer}"
        using h True by (simp add: insert_commute)
      then show ?thesis using d(1) True by (subst (asm) insert_ident) simp_all
    qed
    moreover have "fst (call_handler (timeo_h t) r (popped t ts s)) = (popped t ts s)\<lparr>tcpip_tcp_timer_active := False\<rparr>"
      unfolding call_handler_popped fst_conv by (rule if_P [OF True])
    ultimately show ?thesis using d n by (simp add: timers_ok_def popped_def)
  next
    case False
    then have "fst (call_handler (timeo_h t) r (popped t ts s)) =
        (popped t ts s)\<lparr>next_timeout := insert_timeout (t\<lparr>timeo_time := next_due t r\<rparr>) ts,
                         memp_free_timeouts := memp_free_timeouts s\<rparr>"
      unfolding call_handler_popped fst_conv by (rule if_not_P)
    moreover have "timers_ok ((popped t ts s)\<lparr>next_timeout := insert_timeout (t\<lparr>timeo_time := next_due t r\<rparr>) ts,
                         memp_free_timeouts := memp_free_timeouts s\<rparr>)"
      using d n unfolding timers_ok_def by (simp add: popped_def h)
    ultimately show ?thesis by (simp only:)
  qed
qed

lemma check_loop_ok:
  "check_loop now rs s = Some (s', cs) \<Longrightarrow> timers_ok s \<Longrightarrow> timers_ok s'"
proof (induction rs arbitrary: s s' cs)
  case Nil
  then show ?case by (subst (asm) check_loop.simps) (simp split: list.splits if_splits)
next
  case (Cons r rs)
  show ?case
  proof (cases "next_timeout s = [] \<or> TIME_LESS_THAN now (timeo_time (hd (next_timeout s)))")
    case True
    then show ?thesis using Cons(2,3) by (subst (asm) check_loop.simps) (auto split: list.splits)
  next
    case False
    then obtain t ts where ts: "next_timeout s = t # ts" "\<not> TIME_LESS_THAN now (timeo_time t)"
      by (cases "next_timeout s") auto
    then show ?thesis
      using Cons(1) Cons(2) handler_ok [OF Cons(3) ts(1), of r] by (auto simp: check_loop_step [OF ts])
  qed
qed

section \<open>A poll\<close>

definition since :: "u32 \<Rightarrow> u32 \<Rightarrow> nat" where
  "since base now = unat (now - base)"

lemma since_add: "since base a + unat i < 2 ^ 32 \<Longrightarrow> since base (a + i) = since base a + unat i"
proof -
  assume "since base a + unat i < 2 ^ 32"
  then have "unat ((a - base) + i) = unat (a - base) + unat i" by (intro unat_add_nat) (simp add: since_def)
  moreover have "a + i - base = (a - base) + i" by simp
  ultimately show ?thesis by (simp only: since_def)
qed

lemma due_since: "due base t = since base (timeo_time t)"
  by (simp add: due_def since_def)

lemma expired:
  assumes "due base t < 2 ^ 31" "since base now < 2 ^ 30"
  shows "TIME_LESS_THAN now (timeo_time t) \<longleftrightarrow> since base now < due base t"
  using assms unfolding due_def since_def by (intro TIME_LESS_THAN_base) simp_all

lemma timers_ok_interval:
  assumes "timers_ok s" "t \<in> set (next_timeout s)" "timeo_h t = Lwip_cyclic_timer c"
  shows "interval_ms c = 1000"
proof -
  have "Lwip_cyclic_timer c \<in> timeo_h ` set (next_timeout s)" using assms(2,3) by (metis imageI)
  then show ?thesis using assms(1) by (auto simp: timers_ok_def split: if_splits)
qed

text \<open>A reading taken while the poll runs: the clock does not run back, and not too far ahead.\<close>

definition sane_reading :: "u32 \<Rightarrow> u32 \<Rightarrow> reading \<Rightarrow> bool" where
  "sane_reading base now r \<longleftrightarrow> since base now \<le> since base (sys_now r) \<and> since base (sys_now r) < 2 ^ 30"

lemma cyclic_late:
  assumes "due base t \<le> since base now" "sane_reading base now r"
  shows "since base (timeo_time t + 1000) = due base t + 1000"
    and "since base (sys_now r + 1000) = since base (sys_now r) + 1000"
    and "TIME_LESS_THAN (timeo_time t + 1000) (sys_now r) \<longleftrightarrow> due base t + 1000 < since base (sys_now r)"
proof -
  have b: "since base (timeo_time t) + 1000 < 2 ^ 31" "since base (sys_now r) + 1000 < 2 ^ 31"
    using assms by (simp_all add: sane_reading_def due_since)
  then show sums: "since base (timeo_time t + 1000) = due base t + 1000"
      "since base (sys_now r + 1000) = since base (sys_now r) + 1000"
    using since_add [of base _ 1000] by (simp_all add: due_since)
  show "TIME_LESS_THAN (timeo_time t + 1000) (sys_now r) \<longleftrightarrow> due base t + 1000 < since base (sys_now r)"
    using TIME_LESS_THAN_base [of "timeo_time t + 1000" base "sys_now r"] sums(1) b by (simp add: since_def due_since)
qed

lemma since_next_due:
  assumes "\<And>c. timeo_h t = Lwip_cyclic_timer c \<Longrightarrow> interval_ms c = 1000"
    and "due base t \<le> since base now" "sane_reading base now r"
  shows "since base (next_due t r) =
     (case timeo_h t of
        Tcpip_tcp_timer \<Rightarrow> since base (sys_now r) + 250
      | Lwip_cyclic_timer c \<Rightarrow>
          if due base t + 1000 < since base (sys_now r) then since base (sys_now r) + 1000 else due base t + 1000)"
proof (cases "timeo_h t")
  case Tcpip_tcp_timer
  then show ?thesis using assms(3) since_add [of base "sys_now r" 250] by (simp add: next_due_def sane_reading_def)
next
  case (Lwip_cyclic_timer c)
  then have "interval_ms c = 1000" by (rule assms(1))
  then show ?thesis using Lwip_cyclic_timer cyclic_late [OF assms(2,3)] by (simp add: next_due_def)
qed

text \<open>Rounds a timer can still need: none if it is not due, and a second one if it is overdue.\<close>

definition rounds :: "u32 \<Rightarrow> nat \<Rightarrow> sys_timeo \<Rightarrow> nat" where
  "rounds base n t = (if due base t < n then 2 else if due base t = n then 1 else 0)"

lemma rounds_0 [simp]: "rounds base n t = 0 \<longleftrightarrow> n < due base t"
  by (simp add: rounds_def)

lemma handler_rounds:
  assumes ok: "timers_ok s" and ts: "next_timeout s = t # ts" and ord: "ordered base (t # ts)"
    and late: "due base t \<le> since base now" and now: "since base now < 2 ^ 30" and r: "sane_reading base now r"
  defines "s' \<equiv> fst (call_handler (timeo_h t) r (popped t ts s))"
  shows "ordered base (next_timeout s')"
    and "sum_list (map (rounds base (since base now)) (next_timeout s')) < sum_list (map (rounds base (since base now)) (t # ts))"
proof -
  have i: "interval_ms c = 1000" if "timeo_h t = Lwip_cyclic_timer c" for c
    using timers_ok_interval [OF ok _ that] ts by simp
  note nd = since_next_due [OF i late r]
  have d: "due base (t\<lparr>timeo_time := next_due t r\<rparr>) = since base (next_due t r)" by (simp add: due_since)
  have "since base (next_due t r) < 2 ^ 31"
    using nd late r unfolding sane_reading_def by (simp split: timeout_handler.splits if_splits)
  then show "ordered base (next_timeout s')"
    using ord unfolding s'_def next_timeout_handler by (auto intro!: ordered_insert_timeout simp: d)
  have "rounds base (since base now) (t\<lparr>timeo_time := next_due t r\<rparr>) < rounds base (since base now) t"
    using nd late r unfolding sane_reading_def rounds_def d by (simp split: timeout_handler.splits if_splits)
  then show "sum_list (map (rounds base (since base now)) (next_timeout s')) < sum_list (map (rounds base (since base now)) (t # ts))"
    unfolding s'_def next_timeout_handler by auto
qed

lemma check_loop_returns:
  assumes "timers_ok s" "ordered base (next_timeout s)" "since base now < 2 ^ 30"
    and "\<And>r. r \<in> set rs \<Longrightarrow> sane_reading base now r"
    and "sum_list (map (rounds base (since base now)) (next_timeout s)) \<le> length rs"
  shows "\<exists>s' cs. check_loop now rs s = Some (s', cs) \<and> ordered base (next_timeout s') \<and>
     (\<forall>t \<in> set (next_timeout s'). since base now < due base t)"
  using assms(1,2,4,5)
proof (induction rs arbitrary: s)
  case Nil
  have "since base now < due base t" if "t \<in> set (next_timeout s)" for t
    using Nil(4) that by simp
  moreover have "check_loop now [] s = Some (s, [])"
    using Nil(2) calculation expired [OF _ assms(3)]
    by (subst check_loop.simps) (auto split: list.splits)
  ultimately show ?case using Nil(2) by blast
next
  case (Cons r rs)
  show ?case
  proof (cases "next_timeout s")
    case Nil
    then show ?thesis by (subst check_loop.simps) simp
  next
    case (Cons t ts)
    note ord = Cons.prems(2) [unfolded Cons]
    have e: "TIME_LESS_THAN now (timeo_time t) \<longleftrightarrow> since base now < due base t"
      using ord by (intro expired assms(3)) simp
    show ?thesis
    proof (cases "since base now < due base t")
      case True
      then show ?thesis using ord e Cons by (subst check_loop.simps) auto
    next
      case False
      define s1 where "s1 = fst (call_handler (timeo_h t) r (popped t ts s))"
      have r: "sane_reading base now r" using Cons.prems(3) by simp
      have "due base t \<le> since base now" using False by simp
      note h = handler_rounds [OF Cons.prems(1) Cons ord this assms(3) r, folded s1_def]
      have "\<exists>s' cs. check_loop now rs s1 = Some (s', cs) \<and> ordered base (next_timeout s') \<and>
          (\<forall>t \<in> set (next_timeout s'). since base now < due base t)"
        using h Cons.prems(3,4) handler_ok [OF Cons.prems(1) Cons, of r] Cons
        by (intro Cons.IH) (simp_all add: s1_def)
      then show ?thesis
        using check_loop_step [OF Cons] False e by (auto simp flip: s1_def)
    qed
  qed
qed

section \<open>Polling in time\<close>

lemma tmr_of_inj:
  assumes "timers_ok s" "t \<in> set (next_timeout s)" "u \<in> set (next_timeout s)" "tmr_of t = tmr_of u"
  shows "t = u"
proof -
  have h: "timeo_h v \<in> {Lwip_cyclic_timer ip_reass_timer, Lwip_cyclic_timer etharp_timer, Tcpip_tcp_timer}"
    if "v \<in> set (next_timeout s)" for v
  proof -
    have "timeo_h v \<in> timeo_h ` set (next_timeout s)" using that by (rule imageI)
    then show ?thesis using assms(1) unfolding timers_ok_def by (auto split: if_splits)
  qed
  have "timeo_h t = timeo_h u" using h [OF assms(2)] h [OF assms(3)] assms(4) by (auto simp: tmr_of_def)
  moreover have "inj_on timeo_h (set (next_timeout s))" using assms(1) by (simp add: timers_ok_def distinct_map)
  ultimately show ?thesis using assms(2,3) by (simp add: inj_on_def)
qed

abbreviation later :: "sys_timeo \<Rightarrow> sys_timeo" where
  "later t \<equiv> t\<lparr>timeo_time := timeo_time t + 1000\<rparr>"

lemma check_loop_timely:
  assumes "check_loop now rs s = Some (s', cs)" "timers_ok s" "ordered base (next_timeout s)"
    and now: "since base now < 2 ^ 30"
    and "\<And>r. r \<in> set rs \<Longrightarrow> sane_reading base now r"
    and "t \<in> set (next_timeout s)" and c: "timeo_h t = Lwip_cyclic_timer c"
    and "due base t \<le> since base now \<Longrightarrow> \<forall>r \<in> set rs. since base (sys_now r) < due base t + 1000"
  shows "count_list cs (tmr_of t) = (if due base t \<le> since base now then 1 else 0) \<and>
     (if due base t \<le> since base now then later t else t) \<in> set (next_timeout s')"
  using assms(1-3,5-8)
proof (induction rs arbitrary: s t cs)
  case Nil
  obtain u us where us: "next_timeout s = u # us" using Nil(5) by (cases "next_timeout s") auto
  have "TIME_LESS_THAN now (timeo_time u)" "s' = s" "cs = []"
    using Nil(1) us by (subst (asm) check_loop.simps, auto split: if_splits)+
  moreover have "TIME_LESS_THAN now (timeo_time u) \<longleftrightarrow> since base now < due base u"
    using Nil(3) us by (intro expired now) simp
  moreover have "due base u \<le> due base t" using Nil(3,5) us by auto
  ultimately show ?case using Nil(5) by simp
next
  case (Cons r rs)
  obtain u us where us: "next_timeout s = u # us" using Cons.prems(5) by (cases "next_timeout s") auto
  note ord = Cons.prems(3) [unfolded us]
  have e: "TIME_LESS_THAN now (timeo_time u) \<longleftrightarrow> since base now < due base u"
    using ord by (intro expired now) simp
  show ?case
  proof (cases "since base now < due base u")
    case True
    then have "s' = s" "cs = []"
      using Cons.prems(1) us e by (subst (asm) check_loop.simps, auto)+
    moreover have "due base u \<le> due base t" using ord Cons.prems(5) us by auto
    ultimately show ?thesis using True Cons.prems(5) by simp
  next
    case False
    define s1 where "s1 = fst (call_handler (timeo_h u) r (popped u us s))"
    have r: "sane_reading base now r" using Cons.prems(4) by simp
    have late: "due base u \<le> since base now" using False by simp
    note h = handler_rounds(1) [OF Cons.prems(2) us ord late now r, folded s1_def]
    have ok1: "timers_ok s1" using handler_ok [OF Cons.prems(2) us] by (simp add: s1_def)
    obtain cs1 where run1: "check_loop now rs s1 = Some (s', cs1)" and cs: "cs = tmr_of u # cs1"
      using Cons.prems(1) check_loop_step [OF us, of now r rs] False e by (auto simp flip: s1_def)
    note IH = Cons.IH [OF run1 ok1 h Cons.prems(4)]
    show ?thesis
    proof (cases "u = t")
      case True
      have R: "since base (sys_now r) < due base t + 1000" using Cons.prems(7) late True by simp
      have i: "interval_ms c' = 1000" if "timeo_h t = Lwip_cyclic_timer c'" for c'
        using timers_ok_interval [OF Cons.prems(2,5) that] .
      have "next_due t r = timeo_time t + 1000"
        using R cyclic_late(3) [OF late r] i [OF Cons.prems(6)] Cons.prems(6) True by (simp add: next_due_def)
      then have later: "later t \<in> set (next_timeout s1)"
        unfolding s1_def next_timeout_handler using True Cons.prems(6) by simp
      have "due base (later t) = due base t + 1000"
        using cyclic_late(1) [OF late r] True by (simp add: due_since)
      then have "since base now < due base (later t)" using R r by (simp add: sane_reading_def)
      then show ?thesis using IH [OF _ later] Cons.prems(6) True late cs
        by (simp add: tmr_of_def)
    next
      case False
      then have "t \<in> set (next_timeout s1)"
        using Cons.prems(5) us unfolding s1_def next_timeout_handler by auto
      moreover have "tmr_of u \<noteq> tmr_of t"
        using tmr_of_inj [OF Cons.prems(2), of u t] Cons.prems(5) us False by auto
      ultimately show ?thesis using IH [of t] Cons.prems(4,6,7) cs by simp
    qed
  qed
qed

section \<open>Runs\<close>

text \<open>The states the timers reach: initialised, then polled, rebased, and asked for the TCP timer.\<close>

inductive timers_reach :: "timeouts \<Rightarrow> bool" where
  init: "timers_reach (sys_timeouts_init now1 now2 timeouts0)"
| needed: "timers_reach s \<Longrightarrow> timers_reach (tcp_timer_needed r s)"
| poll: "timers_reach s \<Longrightarrow> sys_check_timeouts now rs s = Some (s', cs) \<Longrightarrow> timers_reach s'"
| restart: "timers_reach s \<Longrightarrow> timers_reach (sys_restart_timeouts now s)"

lemma restart_ok: "timers_ok s \<Longrightarrow> timers_ok (sys_restart_timeouts now s)"
  by (cases "next_timeout s")
    (simp_all add: timers_ok_def sys_restart_timeouts_def Let_def image_image comp_def)

lemma timers_reach_ok: "timers_reach s \<Longrightarrow> timers_ok s"
  by (induction rule: timers_reach.induct)
    (auto simp: init_ok needed_ok restart_ok sys_check_timeouts_def intro: check_loop_ok)

text \<open>
  What happens between two polls and in them. The times are those of a clock that does not wrap
  around; the code reads it modulo \<open>2 ^ 32\<close>.
\<close>

datatype timer_event = Needed nat bool | Poll nat "(nat \<times> bool) list"

definition reading_at :: "nat \<times> bool \<Rightarrow> reading" where
  "reading_at x = \<lparr>sys_now = of_nat (fst x), tcp_pcbs = snd x\<rparr>"

fun run_timers :: "timer_event list \<Rightarrow> timeouts \<Rightarrow> (timeouts \<times> tmr_handler list) option" where
  "run_timers [] s = Some (s, [])"
| "run_timers (Needed t b # es) s = run_timers es (tcp_timer_needed (reading_at (t, b)) s)"
| "run_timers (Poll now rs # es) s =
     (case sys_check_timeouts (of_nat now) (map reading_at rs) s of
        None \<Rightarrow> None
      | Some (s', cs) \<Rightarrow> map_option (\<lambda>(s, ds). (s, cs @ ds)) (run_timers es s'))"

text \<open>
  The clock does not run back, and every poll, its handlers included, is over within a second of the
  start of the poll before it. Two readings for each of the three timers are always enough.
\<close>

fun polled_in_time :: "nat \<Rightarrow> timer_event list \<Rightarrow> bool" where
  "polled_in_time n [] \<longleftrightarrow> True"
| "polled_in_time n (Needed t b # es) \<longleftrightarrow> n \<le> t \<and> t \<le> n + 1000 \<and> polled_in_time n es"
| "polled_in_time n (Poll now rs # es) \<longleftrightarrow>
     n \<le> now \<and> now \<le> n + 1000 \<and> 6 \<le> length rs \<and> (\<forall>x \<in> set rs. now \<le> fst x \<and> fst x \<le> n + 1000) \<and>
     polled_in_time now es"

fun last_poll :: "nat \<Rightarrow> timer_event list \<Rightarrow> nat" where
  "last_poll n [] = n"
| "last_poll n (Needed t b # es) = last_poll n es"
| "last_poll n (Poll now rs # es) = last_poll now es"

lemma rounds_bound: "sum_list (map (rounds base n) ts) \<le> 2 * length ts"
  by (induction ts) (auto simp: rounds_def)

lemma needed_keeps:
  assumes "timers_ok s" "ordered base (next_timeout s)" "since base (sys_now r) < 2 ^ 30"
  shows "ordered base (next_timeout (tcp_timer_needed r s))"
    and "t \<in> set (next_timeout s) \<Longrightarrow> t \<in> set (next_timeout (tcp_timer_needed r s))"
proof -
  have "since base (sys_now r + 250) = since base (sys_now r) + 250"
    using assms(3) since_add [of base "sys_now r" 250] by simp
  then have "due base \<lparr>timeo_time = sys_now r + 250, timeo_h = h\<rparr> < 2 ^ 31" for h
    using assms(3) by (simp add: due_since)
  then show "ordered base (next_timeout (tcp_timer_needed r s))"
    using assms(2) by (auto simp: tcp_timer_needed_def sys_timeout_def sys_timeout_abs_def intro: ordered_insert_timeout)
  show "t \<in> set (next_timeout s) \<Longrightarrow> t \<in> set (next_timeout (tcp_timer_needed r s))"
    by (simp add: tcp_timer_needed_def sys_timeout_def sys_timeout_abs_def)
qed

text \<open>Readings a short while apart, and the list seen from a later time at which nothing is due.\<close>

lemma since_of_nat:
  assumes "n \<le> m" "m \<le> n + 2000"
  shows "since (of_nat n) (of_nat m) = m - n"
proof -
  have "(of_nat m - of_nat n :: u32) = of_nat (m - n)" using assms(1) by (simp add: of_nat_diff)
  moreover have "unat (of_nat (m - n) :: u32) = m - n" using assms by (intro unat_of_nat_32) simp
  ultimately show ?thesis by (simp only: since_def)
qed

lemma rebase:
  assumes "ordered b ts" "\<forall>t \<in> set ts. since b now < due b t"
  shows "ordered now ts"
proof -
  have d: "due now t = due b t - since b now" if "t \<in> set ts" for t
  proof -
    have "timeo_time t - now = (timeo_time t - b) - (now - b)" by simp
    moreover have "unat (now - b) \<le> unat (timeo_time t - b)" using assms(2) that by (auto simp: since_def due_def)
    ultimately show ?thesis by (simp only: due_def since_def unat_sub_nat)
  qed
  have "sorted (map (due now) ts)"
  proof -
    have "map (due now) ts = map (\<lambda>n. n - since b now) (map (due b) ts)" using d by simp
    moreover have "sorted (map (\<lambda>n. n - k) ns)" if "sorted ns" for k and ns :: "nat list"
      using that by (induction ns) (auto intro: diff_le_mono)
    moreover have "sorted (map (due b) ts)" using assms(1) by (simp only: ordered_def)
    ultimately show ?thesis by (simp only:)
  qed
  then show ?thesis using assms(1) d by (auto simp: ordered_def intro: le_less_trans [OF diff_le_self])
qed

text \<open>A cyclic timer that is due within a second of the last poll stays so, one call per second.\<close>

lemma polled_count:
  assumes "timers_ok s" "ordered (of_nat n) (next_timeout s)" "polled_in_time n evs"
    and "t \<in> set (next_timeout s)" "timeo_h t = Lwip_cyclic_timer c" "timeo_time t = of_nat d" "n < d" "d \<le> n + 1000"
  shows "\<exists>s' cs. run_timers evs s = Some (s', cs) \<and>
     last_poll n evs < d + 1000 * count_list cs (tmr_of t) \<and>
     d + 1000 * count_list cs (tmr_of t) \<le> last_poll n evs + 1000"
  using assms
proof (induction evs arbitrary: s n t d)
  case Nil
  then show ?case by simp
next
  case (Cons e evs)
  have due: "due (of_nat n) t = d - n" using since_of_nat [of n d] Cons.prems(6-8) by (simp add: due_since)
  show ?case
  proof (cases e)
    case (Needed m b)
    then have m: "n \<le> m" "m \<le> n + 1000" "polled_in_time n evs" using Cons.prems(3) by simp_all
    then have "since (of_nat n) (sys_now (reading_at (m, b))) < 2 ^ 30" by (simp add: reading_at_def since_of_nat)
    then show ?thesis
      using Cons.IH [of "tcp_timer_needed (reading_at (m, b)) s" n t d]
        needed_keeps [OF Cons.prems(1,2)] needed_ok Cons.prems m Needed by simp
  next
    case (Poll now rs)
    note pt = Cons.prems(3) [unfolded Poll, simplified]
    have now: "since (of_nat n) (of_nat now) = now - n" using pt by (intro since_of_nat) auto
    have "now - n \<le> 1000" using pt by (simp add: le_diff_conv)
    then have small: "since (of_nat n) (of_nat now) < 2 ^ 30" unfolding now by simp
    have read: "sane_reading (of_nat n) (of_nat now) r \<and> since (of_nat n) (sys_now r) \<le> 1000"
      if "r \<in> set (map reading_at rs)" for r
    proof -
      have "r \<in> reading_at ` set rs" using that by (simp only: set_map)
      then obtain x where "r = reading_at x" "x \<in> set rs" by (rule imageE)
      moreover from this have "now \<le> fst x" "fst x \<le> n + 1000" using pt by auto
      moreover from this have "now - n \<le> fst x - n" "fst x - n \<le> 1000" by linarith+
      moreover from calculation have "since (of_nat n) (of_nat (fst x)) = fst x - n" using pt by (intro since_of_nat) auto
      ultimately show ?thesis using now by (simp add: reading_at_def sane_reading_def)
    qed
    have "length (next_timeout s) \<le> 3" using Cons.prems(1) by (simp add: timers_ok_def)
    then have enough: "sum_list (map (rounds (of_nat n) (since (of_nat n) (of_nat now))) (next_timeout s)) \<le> length (map reading_at rs)"
      using rounds_bound [of "of_nat n" "since (of_nat n) (of_nat now)" "next_timeout s"] pt unfolding length_map by linarith
    obtain s1 cs where run: "check_loop (of_nat now) (map reading_at rs) s = Some (s1, cs)"
      and ord1: "ordered (of_nat n) (next_timeout s1)"
      and late1: "\<forall>t \<in> set (next_timeout s1). since (of_nat n) (of_nat now) < due (of_nat n) t"
      using check_loop_returns [OF Cons.prems(1,2) small _ enough] read by blast
    have ok1: "timers_ok s1" using check_loop_ok [OF run Cons.prems(1)] .
    have ord2: "ordered (of_nat now) (next_timeout s1)" by (rule rebase [OF ord1 late1])
    define t1 where "t1 = (if d \<le> now then later t else t)"
    have dn: "due (of_nat n) t \<le> since (of_nat n) (of_nat now) \<longleftrightarrow> d \<le> now"
      using due now pt Cons.prems(7) by (auto simp: le_diff_conv)
    have "count_list cs (tmr_of t) = (if due (of_nat n) t \<le> since (of_nat n) (of_nat now) then 1 else 0) \<and>
        (if due (of_nat n) t \<le> since (of_nat n) (of_nat now) then later t else t) \<in> set (next_timeout s1)"
    proof (rule check_loop_timely [OF run Cons.prems(1,2) small _ Cons.prems(4,5)])
      show "\<forall>r \<in> set (map reading_at rs). since (of_nat n) (sys_now r) < due (of_nat n) t + 1000"
        using read due Cons.prems(7) by fastforce
    qed (use read in blast)
    then have cnt: "count_list cs (tmr_of t) = (if d \<le> now then 1 else 0)" and mem: "t1 \<in> set (next_timeout s1)"
      by (simp_all only: dn t1_def)
    define d1 where "d1 = d + 1000 * count_list cs (tmr_of t)"
    have same: "timeo_h t1 = Lwip_cyclic_timer c" "tmr_of t1 = tmr_of t" "timeo_time t1 = of_nat d1"
      using Cons.prems(5,6) cnt by (simp_all add: t1_def tmr_of_def d1_def)
    have "now < d1" "d1 \<le> now + 1000" using pt Cons.prems(7,8) unfolding d1_def cnt by (auto split: if_splits)
    then obtain s' cs' where "run_timers evs s1 = Some (s', cs')"
      "last_poll now evs < d1 + 1000 * count_list cs' (tmr_of t1)"
      "d1 + 1000 * count_list cs' (tmr_of t1) \<le> last_poll now evs + 1000"
      using Cons.IH [OF ok1 ord2 _ mem same(1,3)] pt by blast
    then show ?thesis
      using run by (simp add: Poll sys_check_timeouts_def d1_def same(2) algebra_simps)
  qed
qed

lemma init_timers:
  assumes "start \<le> start'" "start' < start + 1000"
  defines "s \<equiv> sys_timeouts_init (of_nat start) (of_nat start') timeouts0"
  defines "t1 \<equiv> \<lparr>timeo_time = of_nat (start + 1000), timeo_h = Lwip_cyclic_timer ip_reass_timer\<rparr>"
  defines "t2 \<equiv> \<lparr>timeo_time = of_nat (start' + 1000), timeo_h = Lwip_cyclic_timer etharp_timer\<rparr>"
  shows "ordered (of_nat start') (next_timeout s)" "set (next_timeout s) = {t1, t2}"
proof -
  have d: "due (of_nat start) t1 = 1000" "due (of_nat start) t2 = start' + 1000 - start"
    using since_of_nat [of start "start + 1000"] since_of_nat [of start "start' + 1000"] assms(1,2)
    by (simp_all only: due_since t1_def t2_def sys_timeo.simps)
  have n: "next_timeout s = insert_timeout t2 [t1]"
    by (simp add: s_def t1_def t2_def sys_timeouts_init_def lwip_cyclic_timers_def timeouts0_def sys_timeout_def
        sys_timeout_abs_def ac_simps)
  show set: "set (next_timeout s) = {t1, t2}" unfolding n by auto
  have "ordered (of_nat start) (next_timeout s)"
    unfolding n using d assms(1,2) by (intro ordered_insert_timeout) simp_all
  moreover have "since (of_nat start) (of_nat start') = start' - start" using assms(1,2) by (intro since_of_nat) simp_all
  moreover have "start' - start < 1000" "start' - start < start' + 1000 - start" using assms(1,2) by linarith+
  ultimately have "since (of_nat start) (of_nat start') < due (of_nat start) t1"
    "since (of_nat start) (of_nat start') < due (of_nat start) t2" by (simp_all only: d)
  then show "ordered (of_nat start') (next_timeout s)"
    by (intro rebase [OF \<open>ordered (of_nat start) (next_timeout s)\<close>]) (simp only: set, blast)
qed

section \<open>Properties\<close>

text \<open>C34: each of the three timers is in the list once at most, the two protocol timers always and
  the TCP timer exactly while its flag is set, so that the pool never runs out of entries.\<close>

theorem timers_never_exhausted:
  assumes "timers_reach s"
  shows "distinct (map timeo_h (next_timeout s)) \<and>
     timeo_h ` set (next_timeout s) =
       {Lwip_cyclic_timer ip_reass_timer, Lwip_cyclic_timer etharp_timer} \<union>
       (if tcpip_tcp_timer_active s then {Tcpip_tcp_timer} else {}) \<and>
     memp_free_timeouts s = (if tcpip_tcp_timer_active s then 0 else 1)"
proof -
  note ok = timers_reach_ok [OF assms, unfolded timers_ok_def]
  then have d: "distinct (map timeo_h (next_timeout s))" and h: "timeo_h ` set (next_timeout s) =
       {Lwip_cyclic_timer ip_reass_timer, Lwip_cyclic_timer etharp_timer} \<union>
       (if tcpip_tcp_timer_active s then {Tcpip_tcp_timer} else {})" by simp_all
  have "length (next_timeout s) = (if tcpip_tcp_timer_active s then 3 else 2)"
    unfolding distinct_handlers_length [OF d] h by simp
  then show ?thesis using ok d h by (simp split: if_splits)
qed

theorem timers_never_exhausted_witness:
  "memp_free_timeouts (tcp_timer_needed \<lparr>sys_now = 5, tcp_pcbs = True\<rparr> (sys_timeouts_init 0 1 timeouts0)) = 0"
  using timers_never_exhausted
    [OF timers_reach.needed [OF timers_reach.init [of 0 1]], of "\<lparr>sys_now = 5, tcp_pcbs = True\<rparr>"]
  by (simp add: tcp_timer_needed_def sys_timeout_def sys_timeout_abs_def sys_timeouts_init_def lwip_cyclic_timers_def
      timeouts0_def)

text \<open>A poll calls handlers that register themselves again, and yet ends: two calls for each
  timer are enough, no timer is left that is due, and the order by due time is kept, also when the
  clock wraps around.\<close>

theorem poll_ends:
  assumes "timers_reach s" "ordered base (next_timeout s)" "since base now < 2 ^ 30"
    and "\<forall>r \<in> set rs. sane_reading base now r" "2 * length (next_timeout s) \<le> length rs"
  shows "\<exists>s' cs. sys_check_timeouts now rs s = Some (s', cs) \<and> ordered base (next_timeout s') \<and>
     (\<forall>t \<in> set (next_timeout s'). since base now < due base t)"
  unfolding sys_check_timeouts_def
  using assms rounds_bound [of base "since base now" "next_timeout s"]
  by (intro check_loop_returns timers_reach_ok) auto

theorem poll_ends_witness:
  "\<exists>s' cs. sys_check_timeouts 5 (replicate 4 \<lparr>sys_now = 7, tcp_pcbs = False\<rparr>)
       (sys_timeouts_init 0xFFFFFC18 0xFFFFFC18 timeouts0) = Some (s', cs) \<and>
     (\<forall>t \<in> set (next_timeout s'). 1005 < due 0xFFFFFC18 t)"
proof -
  define s where "s = sys_timeouts_init 0xFFFFFC18 0xFFFFFC18 timeouts0"
  have n: "length (next_timeout s) = 2" and o: "ordered 0xFFFFFC18 (next_timeout s)"
    using init_timers(1) [of "0xFFFFFC18" "0xFFFFFC18"]
    by (simp_all add: s_def since_def sys_timeouts_init_def lwip_cyclic_timers_def timeouts0_def sys_timeout_def
        sys_timeout_abs_def)
  have r: "\<forall>r \<in> set (replicate 4 \<lparr>sys_now = 7, tcp_pcbs = False\<rparr>). sane_reading 0xFFFFFC18 5 r"
    by (simp add: sane_reading_def since_def)
  have "since 0xFFFFFC18 5 = 1005" by (simp add: since_def)
  then show ?thesis
    using poll_ends [OF _ o _ r] timers_reach.init [of "0xFFFFFC18" "0xFFFFFC18"] n
    unfolding s_def by fastforce
qed

text \<open>C18: if every poll is over within a second of the poll before it, then however long the system
  runs, wherever its clock wraps around, whenever the polls happen and whatever the TCP timer does,
  the reassembly and the ARP timer have been called once for each full second since they were
  started: delays of single polls do not add up.\<close>

theorem protocol_timers_keep_pace:
  assumes "start \<le> start'" "start' < start + 1000" "polled_in_time start' evs"
  shows "\<exists>s cs. run_timers evs (sys_timeouts_init (of_nat start) (of_nat start') timeouts0) = Some (s, cs) \<and>
     count_list cs ip_reass_tmr = (last_poll start' evs - start) div 1000 \<and>
     count_list cs etharp_tmr = (last_poll start' evs - start') div 1000"
proof -
  note i = init_timers [OF assms(1,2)]
  define t1 where "t1 = \<lparr>timeo_time = of_nat (start + 1000), timeo_h = Lwip_cyclic_timer ip_reass_timer\<rparr>"
  define t2 where "t2 = \<lparr>timeo_time = of_nat (start' + 1000), timeo_h = Lwip_cyclic_timer etharp_timer\<rparr>"
  note count = polled_count [OF init_ok i(1) assms(3)]
  have m: "t1 \<in> set (next_timeout (sys_timeouts_init (of_nat start) (of_nat start') timeouts0))"
    "t2 \<in> set (next_timeout (sys_timeouts_init (of_nat start) (of_nat start') timeouts0))" using i(2) by (simp_all add: t1_def t2_def)
  have h: "timeo_h t1 = Lwip_cyclic_timer ip_reass_timer" "timeo_h t2 = Lwip_cyclic_timer etharp_timer"
    "tmr_of t1 = ip_reass_tmr" "tmr_of t2 = etharp_tmr"
    "timeo_time t1 = of_nat (start + 1000)" "timeo_time t2 = of_nat (start' + 1000)" by (simp_all add: t1_def t2_def tmr_of_def)
  obtain s cs where run: "run_timers evs (sys_timeouts_init (of_nat start) (of_nat start') timeouts0) = Some (s, cs)"
    and c1: "last_poll start' evs < start + 1000 + 1000 * count_list cs ip_reass_tmr"
      "start + 1000 + 1000 * count_list cs ip_reass_tmr \<le> last_poll start' evs + 1000"
    using count [OF m(1) h(1,5)] h(3) assms(1,2) by auto
  have c2: "last_poll start' evs < start' + 1000 + 1000 * count_list cs etharp_tmr"
      "start' + 1000 + 1000 * count_list cs etharp_tmr \<le> last_poll start' evs + 1000"
    using count [OF m(2) h(2,6)] h(4) run by auto
  have "count_list cs ip_reass_tmr = (last_poll start' evs - start) div 1000"
    using c1 by (intro div_nat_eqI [symmetric]) simp_all
  moreover have "count_list cs etharp_tmr = (last_poll start' evs - start') div 1000"
    using c2 by (intro div_nat_eqI [symmetric]) simp_all
  ultimately show ?thesis using run by auto
qed

text \<open>A witness across the end of the clock's range.\<close>

theorem protocol_timers_keep_pace_witness:
  "\<exists>s cs. run_timers [Poll 4294967190 (replicate 6 (4294967191, False)), Needed 4294967300 True,
                      Poll 4294968140 (replicate 6 (4294968150, True)),
                      Poll 4294968990 (replicate 6 (4294968995, True))]
       (sys_timeouts_init 4294966290 4294966293 timeouts0) = Some (s, cs) \<and>
     count_list cs ip_reass_tmr = 2 \<and> count_list cs etharp_tmr = 2"
  using protocol_timers_keep_pace [of 4294966290 4294966293
      "[Poll 4294967190 (replicate 6 (4294967191, False)), Needed 4294967300 True,
        Poll 4294968140 (replicate 6 (4294968150, True)), Poll 4294968990 (replicate 6 (4294968995, True))]"]
  by simp

end
