(* ===== verification/Lwip_Chksum.thy ===== *)
theory Lwip_Chksum
  imports Prelude
begin

text \<open>
  \<open>lib/LwIP/src/core/inet_chksum.c\<close>: the Internet checksum in the three versions the file has, over a
  buffer, a chain of packet buffers, and with the pseudo header of TCP and UDP. A buffer is its
  address, which decides on the alignment, and its bytes; a 16 or 32 bit word is read from memory
  with the low byte first.
\<close>

section \<open>Words\<close>

definition FOLD_U32T :: "u32 \<Rightarrow> u32" where
  "FOLD_U32T u = drop_bit 16 u + (u AND 0x0000ffff)"

definition SWAP_BYTES_IN_WORD :: "u32 \<Rightarrow> u32" where
  "SWAP_BYTES_IN_WORD w = push_bit 8 (w AND 0xff) OR drop_bit 8 (w AND 0xff00)"

definition lwip_htons :: "u16 \<Rightarrow> u16" where
  "lwip_htons x = push_bit 8 (x AND 0x00ff) OR drop_bit 8 (x AND 0xff00)"

definition load16 :: "u8 \<Rightarrow> u8 \<Rightarrow> u16" where
  "load16 a b = be16 b a"

definition load32 :: "u8 \<Rightarrow> u8 \<Rightarrow> u8 \<Rightarrow> u8 \<Rightarrow> u32" where
  "load32 a b c d = push_bit 16 (ucast (load16 c d)) OR ucast (load16 a b)"

section \<open>The three versions\<close>

text \<open>Version 1: the first byte of a pair is the more significant one.\<close>

fun chksum1_loop :: "u8 list \<Rightarrow> u32 \<Rightarrow> u32" where
  "chksum1_loop (a # b # bs) acc =
     (let src = push_bit 8 (ucast a :: u16); src = src OR ucast b in chksum1_loop bs (acc + ucast src))"
| "chksum1_loop [a] acc = (let src = push_bit 8 (ucast a :: u16) in acc + ucast src)"
| "chksum1_loop [] acc = acc"

definition lwip_standard_chksum_1 :: "u8 list \<Rightarrow> u16" where
  "lwip_standard_chksum_1 data =
     (let acc = chksum1_loop data 0;
          acc = drop_bit 16 acc + (acc AND 0x0000ffff);
          acc = (if acc AND 0xffff0000 \<noteq> 0 then drop_bit 16 acc + (acc AND 0x0000ffff) else acc)
      in lwip_htons (ucast acc))"

text \<open>Version 2, the one in the build: pairs at even addresses, the odd bytes at the ends apart.\<close>

fun sum_u16 :: "u8 list \<Rightarrow> u32 \<Rightarrow> u32 \<times> u8 list" where
  "sum_u16 (a # b # bs) s = sum_u16 bs (s + ucast (load16 a b))"
| "sum_u16 bs s = (s, bs)"

text \<open>The bytes of \<open>t\<close>: the first byte at an odd address, and the one left over.\<close>

definition end_bytes :: "u8 \<Rightarrow> u8 list \<Rightarrow> u16" where
  "end_bytes first left = load16 (case left of [] \<Rightarrow> 0 | b # _ \<Rightarrow> b) first"

definition lwip_standard_chksum :: "u32 \<Rightarrow> u8 list \<Rightarrow> u16" where
  "lwip_standard_chksum pb data =
     (let odd = pb AND 1 \<noteq> 0;
          (first, data) = (if odd \<and> data \<noteq> [] then (hd data, tl data) else (0, data));
          (sum, left) = sum_u16 data 0;
          sum = sum + ucast (end_bytes first left);
          sum = FOLD_U32T sum;
          sum = FOLD_U32T sum;
          sum = (if odd then SWAP_BYTES_IN_WORD sum else sum)
      in ucast sum)"

text \<open>Version 3: eight bytes at a time, adding the carries back.\<close>

fun sum_u32 :: "u8 list \<Rightarrow> u32 \<Rightarrow> u32 \<times> u8 list" where
  "sum_u32 (a # b # c # d # e # f # g # h # bs) s =
     (let tmp = s + load32 a b c d;
          tmp = (if tmp < s then tmp + 1 else tmp);
          s = tmp + load32 e f g h;
          s = (if s < tmp then s + 1 else s)
      in sum_u32 bs s)"
| "sum_u32 bs s = (s, bs)"

definition lwip_standard_chksum_3 :: "u32 \<Rightarrow> u8 list \<Rightarrow> u16" where
  "lwip_standard_chksum_3 pb data =
     (let odd = pb AND 1 \<noteq> 0;
          (first, ps, data) = (if odd \<and> data \<noteq> [] then (hd data, pb + 1, tl data) else (0, pb, data));
          (sum, data) = (if ps AND 3 \<noteq> 0 \<and> 1 < length data
            then (ucast (load16 (data ! 0) (data ! 1)), drop 2 data) else (0, data));
          (sum, data) = sum_u32 data sum;
          sum = FOLD_U32T sum;
          (sum, left) = sum_u16 data sum;
          sum = sum + ucast (end_bytes first left);
          sum = FOLD_U32T sum;
          sum = FOLD_U32T sum;
          sum = (if odd then SWAP_BYTES_IN_WORD sum else sum)
      in ucast sum)"

section \<open>Buffers and chains\<close>

text \<open>A packet buffer: the address of its payload, and the payload's \<open>len\<close> bytes.\<close>

type_synonym chain = "(u32 \<times> u8 list) list"

definition inet_chksum :: "u32 \<Rightarrow> u8 list \<Rightarrow> u16" where
  "inet_chksum pb data = NOT (lwip_standard_chksum pb data)"

text \<open>The loop over the chain, with the accumulator and whether it is byte-swapped.\<close>

fun chain_loop :: "chain \<Rightarrow> u32 \<Rightarrow> bool \<Rightarrow> u32 \<times> bool" where
  "chain_loop [] acc swapped = (acc, swapped)"
| "chain_loop ((pb, data) # q) acc swapped =
     (let acc = acc + ucast (lwip_standard_chksum pb data);
          acc = FOLD_U32T acc
      in if length data mod 2 \<noteq> 0 then chain_loop q (SWAP_BYTES_IN_WORD acc) (\<not> swapped)
         else chain_loop q acc swapped)"

definition inet_chksum_pbuf :: "chain \<Rightarrow> u16" where
  "inet_chksum_pbuf p =
     (let (acc, swapped) = chain_loop p 0 False;
          acc = (if swapped then SWAP_BYTES_IN_WORD acc else acc)
      in ucast (NOT (acc AND 0xffff)))"

text \<open>What is added after the loop: protocol and length, in network order.\<close>

definition pseudo_end :: "u32 \<times> bool \<Rightarrow> u8 \<Rightarrow> u16 \<Rightarrow> u16" where
  "pseudo_end acc_swapped proto proto_len =
     (let (acc, swapped) = acc_swapped;
          acc = (if swapped then SWAP_BYTES_IN_WORD acc else acc);
          acc = acc + ucast (lwip_htons (ucast proto));
          acc = acc + ucast (lwip_htons proto_len);
          acc = FOLD_U32T acc;
          acc = FOLD_U32T acc
      in ucast (NOT (acc AND 0xffff)))"

definition inet_cksum_pseudo_base :: "chain \<Rightarrow> u8 \<Rightarrow> u16 \<Rightarrow> u32 \<Rightarrow> u16" where
  "inet_cksum_pseudo_base p proto proto_len acc = pseudo_end (chain_loop p acc False) proto proto_len"

text \<open>The two addresses, as they lie in memory, folded to 16 bits.\<close>

definition pseudo_addresses :: "u32 \<Rightarrow> u32 \<Rightarrow> u32" where
  "pseudo_addresses src dest =
     (let acc = src AND 0xffff;
          acc = acc + (drop_bit 16 src AND 0xffff);
          acc = acc + (dest AND 0xffff);
          acc = acc + (drop_bit 16 dest AND 0xffff)
      in FOLD_U32T (FOLD_U32T acc))"

definition inet_chksum_pseudo :: "chain \<Rightarrow> u8 \<Rightarrow> u16 \<Rightarrow> u32 \<Rightarrow> u32 \<Rightarrow> u16" where
  "inet_chksum_pseudo p proto proto_len src dest =
     inet_cksum_pseudo_base p proto proto_len (pseudo_addresses src dest)"

definition ip_chksum_pseudo :: "chain \<Rightarrow> u8 \<Rightarrow> u16 \<Rightarrow> u32 \<Rightarrow> u32 \<Rightarrow> u16" where
  "ip_chksum_pseudo p proto proto_len src dest = inet_chksum_pseudo p proto proto_len src dest"

text \<open>The checksum over the first bytes of a chain only; the swap follows the length of the buffer.\<close>

fun partial_loop :: "chain \<Rightarrow> u16 \<Rightarrow> u32 \<Rightarrow> bool \<Rightarrow> u32 \<times> bool" where
  "partial_loop [] chksum_len acc swapped = (acc, swapped)"
| "partial_loop ((pb, data) # q) chksum_len acc swapped =
     (if chksum_len = 0 then (acc, swapped)
      else (let chklen = (of_nat (length data) :: u16);
                chklen = (if chksum_len < chklen then chksum_len else chklen);
                acc = acc + ucast (lwip_standard_chksum pb (take (unat chklen) data));
                chksum_len = chksum_len - chklen;
                acc = FOLD_U32T acc
            in if length data mod 2 \<noteq> 0 then partial_loop q chksum_len (SWAP_BYTES_IN_WORD acc) (\<not> swapped)
               else partial_loop q chksum_len acc swapped))"

definition inet_cksum_pseudo_partial_base :: "chain \<Rightarrow> u8 \<Rightarrow> u16 \<Rightarrow> u16 \<Rightarrow> u32 \<Rightarrow> u16" where
  "inet_cksum_pseudo_partial_base p proto proto_len chksum_len acc =
     pseudo_end (partial_loop p chksum_len acc False) proto proto_len"

definition inet_chksum_pseudo_partial :: "chain \<Rightarrow> u8 \<Rightarrow> u16 \<Rightarrow> u16 \<Rightarrow> u32 \<Rightarrow> u32 \<Rightarrow> u16" where
  "inet_chksum_pseudo_partial p proto proto_len chksum_len src dest =
     inet_cksum_pseudo_partial_base p proto proto_len chksum_len (pseudo_addresses src dest)"

definition ip_chksum_pseudo_partial :: "chain \<Rightarrow> u8 \<Rightarrow> u16 \<Rightarrow> u16 \<Rightarrow> u32 \<Rightarrow> u32 \<Rightarrow> u16" where
  "ip_chksum_pseudo_partial p proto proto_len chksum_len src dest =
     inet_chksum_pseudo_partial p proto proto_len chksum_len src dest"

end
