(* ===== verification/Lwip_Chksum_Props.thy ===== *)
theory Lwip_Chksum_Props
  imports Lwip_Chksum
begin

text \<open>
  What the checksum is: the bytes as one number, low byte first, modulo \<open>2 ^ 16 - 1\<close>. All versions
  compute it, at any alignment; a chain has the checksum of its concatenation.
\<close>

section \<open>Canonical remainders\<close>

abbreviation same :: "nat \<Rightarrow> nat \<Rightarrow> bool" where
  "same x y \<equiv> x mod 65535 = y mod 65535"

lemma same_add: "same a b \<Longrightarrow> same c d \<Longrightarrow> same (a + c) (b + d)"
  by (rule mod_add_cong)

lemma same_mult: "same a b \<Longrightarrow> same (c * a) (c * b)"
  by (rule mod_mult_cong) simp_all

lemma same_wrap: "same (65536 * x) x" "same (256 * (256 * x)) x"
proof -
  have "65536 * x = x + 65535 * x" by simp
  then show "same (65536 * x) x" by (metis mod_mult_self2)
  then show "same (256 * (256 * x)) x" by (simp add: mult.assoc [symmetric])
qed

text \<open>Zero is only the remainder of zero; a multiple of \<open>65535\<close> is \<open>65535\<close>.\<close>

definition canon :: "nat \<Rightarrow> nat" where
  "canon s = (if s = 0 then 0 else (s - 1) mod 65535 + 1)"

lemma canon_le: "canon s \<le> 65535"
proof -
  have "(s - 1) mod 65535 < 65535" by simp
  then have "(s - 1) mod 65535 + 1 \<le> 65535" by linarith
  then show ?thesis unfolding canon_def by (cases "s = 0") (simp_all only: if_True if_False, simp)
qed

lemma canon_0 [simp]: "canon s = 0 \<longleftrightarrow> s = 0"
  by (simp add: canon_def)

lemma same_canon: "same (canon s) s"
proof (cases "s = 0")
  case False
  have "same ((s - 1) mod 65535 + 1) (s - 1 + 1)" by (rule same_add) simp_all
  then show ?thesis using False by (simp add: canon_def)
qed (simp add: canon_def)

lemma canon_cong: "same x y \<Longrightarrow> (x = 0 \<longleftrightarrow> y = 0) \<Longrightarrow> canon x = canon y"
proof -
  assume a: "same x y" "x = 0 \<longleftrightarrow> y = 0"
  show ?thesis
  proof (cases "x = 0")
    case False
    then obtain x' y' where xy: "x = Suc x'" "y = Suc y'" using a(2) by (cases x; cases y) auto
    then have "(Suc x' + 65534) mod 65535 = (Suc y' + 65534) mod 65535" using a(1) by (intro same_add) simp_all
    then have "same x' y'" by simp
    then show ?thesis by (simp add: canon_def xy)
  qed (use a in simp)
qed

lemma canon_small: "x \<le> 65535 \<Longrightarrow> canon x = x"
  by (cases x) (auto simp: canon_def)

lemma canon_eqI: "x \<le> 65535 \<Longrightarrow> same x s \<Longrightarrow> (x = 0 \<longleftrightarrow> s = 0) \<Longrightarrow> x = canon s"
  using canon_cong canon_small by metis

lemma canon_canon_add: "canon (canon a + b) = canon (a + b)"
  by (rule canon_cong) (auto intro: same_add same_canon)

lemma canon_mult: "0 < k \<Longrightarrow> canon (k * canon a) = canon (k * a)"
  by (rule canon_cong) (auto intro: same_mult same_canon)

lemma canon_swap_twice: "canon (256 * (256 * x)) = canon x"
  by (rule canon_cong) (simp_all add: same_wrap)

section \<open>The words as numbers\<close>

lemma unat_FOLD: "unat (FOLD_U32T u) = unat u div 65536 + unat u mod 65536"
proof -
  have m: "(u AND 0xffff) = take_bit 16 u" by (simp add: take_bit_eq_mask mask_eq_exp_minus_1)
  have d: "unat (drop_bit 16 u) = unat u div 65536" by (simp add: drop_bit_eq_div unat_div)
  have t: "unat (take_bit 16 u) = unat u mod 65536" by (simp add: take_bit_eq_mod unat_mod)
  have "unat u div 65536 < 65536" "unat u mod 65536 < 65536"
    using unsigned_less [where ?'a = nat, of u] by (simp_all add: div_less_iff_less_mult)
  then show ?thesis
    unfolding FOLD_U32T_def m by (subst unat_add_nat) (simp_all only: d t, simp)
qed

lemma same_fold: "same (n div 65536 + n mod 65536) n"
proof -
  have "same (n div 65536 + n mod 65536) (65536 * (n div 65536) + n mod 65536)"
    by (rule same_add) (simp_all add: same_wrap)
  then show ?thesis by simp
qed

lemma FOLD_once: "unat u \<le> 131070 \<Longrightarrow> unat (FOLD_U32T u) = canon (unat u)"
proof -
  assume u: "unat u \<le> 131070"
  have "unat u div 65536 + unat u mod 65536 \<le> 65535"
  proof (cases "unat u < 65536")
    case False
    then have "unat u div 65536 = 1" "unat u mod 65536 = unat u - 65536" using u by (simp_all add: div_nat_eqI mod_if)
    then show ?thesis using u by linarith
  qed simp
  then show ?thesis unfolding unat_FOLD by (rule canon_eqI) (auto simp: same_fold)
qed

lemma FOLD_twice: "unat (FOLD_U32T (FOLD_U32T u)) = canon (unat u)"
proof -
  have "unat u div 65536 < 65536" "unat u mod 65536 < 65536"
    using unsigned_less [where ?'a = nat, of u] by (simp_all add: div_less_iff_less_mult)
  then have "unat (FOLD_U32T u) \<le> 131070" unfolding unat_FOLD by linarith
  then have "unat (FOLD_U32T (FOLD_U32T u)) = canon (unat (FOLD_U32T u))" by (rule FOLD_once)
  also have "\<dots> = canon (unat u)"
    by (rule canon_cong) (auto simp: unat_FOLD same_fold)
  finally show ?thesis .
qed

text \<open>Two bytes side by side, in words of 16 and of 32 bits.\<close>

lemma unat_two_bytes:
  fixes x y :: "'a::len word"
  assumes "16 \<le> LENGTH('a)" "unat x < 256" "unat y < 256"
  shows "unat (push_bit 8 x OR y) = 256 * unat x + unat y"
proof -
  have 2: "(2 :: nat) ^ 16 \<le> 2 ^ LENGTH('a)" using assms(1) by (rule power_increasing) simp
  have x: "take_bit 8 x = x" "take_bit 8 y = y"
    using assms(2,3) by (simp_all add: word_unat_eq_iff unsigned_take_bit_eq take_bit_nat_eq_self)
  have "push_bit 8 x + y = push_bit 8 x OR y"
  proof (rule disjunctive_add_eq_or, rule bit_eqI)
    fix n
    have "\<not> (bit (push_bit 8 (take_bit 8 x)) n \<and> bit (take_bit 8 y) n)" by (auto simp: bit_simps)
    then show "bit (push_bit 8 x AND y) n \<longleftrightarrow> bit 0 n" unfolding x by (simp add: bit_and_iff)
  qed
  moreover have "unat (push_bit 8 x) = 256 * unat x"
    using assms(2) 2 by (simp add: unsigned_push_bit_eq push_bit_nat_def take_bit_nat_eq_self)
  moreover have "unat (push_bit 8 x + y) = unat (push_bit 8 x) + unat y"
    using assms(2,3) 2 calculation(2) by (intro unat_add_nat) simp
  ultimately show ?thesis by simp
qed

lemma unat_byte: "unat (c :: u8) < 256"
  using unsigned_less [where ?'a = nat, of c] by simp

lemma unat_ucast_byte: "8 \<le> LENGTH('a) \<Longrightarrow> unat (ucast (c :: u8) :: 'a::len word) = unat c"
proof -
  assume "8 \<le> LENGTH('a)"
  then have "(2 :: nat) ^ 8 \<le> 2 ^ LENGTH('a)" by (rule power_increasing) simp
  then show ?thesis using unat_byte [of c] by (simp add: unsigned_ucast_eq take_bit_nat_eq_self)
qed

lemma unat_be16: "unat (be16 a b) = 256 * unat a + unat b"
  unfolding be16_def by (subst unat_two_bytes) (simp_all add: unat_ucast_byte unat_byte)

lemma unat_load16: "unat (load16 a b) = unat a + 256 * unat b"
  by (simp add: load16_def unat_be16)

lemma unat_swap:
  fixes w :: "'a::len word"
  assumes "16 \<le> LENGTH('a)"
  shows "unat (push_bit 8 (w AND 0xff) OR drop_bit 8 (w AND 0xff00)) = 256 * (unat w mod 256) + unat w div 256 mod 256"
proof -
  have m: "(0xff :: 'a word) = mask 8" "(0xff00 :: 'a word) = push_bit 8 (mask 8)"
    by (simp_all add: mask_eq_exp_minus_1 push_bit_eq_mult)
  have d: "drop_bit 8 (w AND push_bit 8 (mask 8)) = take_bit 8 (drop_bit 8 w)"
    by (rule bit_eqI) (auto simp: bit_simps dest: bit_imp_le_length)
  have t: "unat (take_bit 8 v) = unat v mod 256" for v :: "'a word"
  proof -
    have "unat (take_bit 8 v) = take_bit 8 (unat v)" by (rule unsigned_take_bit_eq)
    then show ?thesis by (simp add: take_bit_eq_mod)
  qed
  have "unat (drop_bit 8 w) = drop_bit 8 (unat w)" 
    by (simp only: unsigned_drop_bit_eq take_bit_nat_eq_self [OF unsigned_less])
  then have dd: "unat (drop_bit 8 w) = unat w div 256" by (simp add: drop_bit_eq_div)
  have b: "unat (take_bit 8 v) < 256" for v :: "'a word" unfolding t by simp
  show ?thesis
    unfolding m d take_bit_eq_mask [symmetric] unat_two_bytes [OF assms b b] by (simp only: t dd)
qed

lemma SWAP_exact:
  assumes "unat w \<le> 65535"
  shows "unat (SWAP_BYTES_IN_WORD w) = 256 * (unat w mod 256) + unat w div 256"
proof -
  have "unat w div 256 mod 256 = unat w div 256"
    using assms less_mult_imp_div_less [of "unat w" 256 256] by simp
  then show ?thesis unfolding SWAP_BYTES_IN_WORD_def by (subst unat_swap) simp_all
qed

lemma unat_SWAP:
  assumes "unat w \<le> 65535"
  shows "unat (SWAP_BYTES_IN_WORD w) = canon (256 * unat w)"
proof -
  define n where "n = unat w"
  have "same (256 * n) (256 * (n mod 256) + n div 256)"
  proof -
    have "256 * n = 65536 * (n div 256) + 256 * (n mod 256)"
      using div_mult_mod_eq [of n 256] by linarith
    moreover have "same (65536 * (n div 256) + 256 * (n mod 256)) (n div 256 + 256 * (n mod 256))"
      by (rule same_add) (simp_all add: same_wrap)
    ultimately show ?thesis by (simp add: add.commute)
  qed
  moreover have "n mod 256 < 256" "n div 256 < 256"
    using assms less_mult_imp_div_less [of n 256 256] by (simp_all add: n_def)
  then have "256 * (n mod 256) + n div 256 \<le> 65535" by linarith
  moreover have "256 * (n mod 256) + n div 256 = 0 \<longleftrightarrow> 256 * n = 0"
    using div_mult_mod_eq [of n 256] by auto
  ultimately have "256 * (n mod 256) + n div 256 = canon (256 * n)" by (intro canon_eqI) simp_all
  then show ?thesis using SWAP_exact [OF assms] by (simp add: n_def)
qed

lemma unat_htons: "unat (lwip_htons x) = 256 * (unat x mod 256) + unat x div 256"
proof -
  have "unat x div 256 mod 256 = unat x div 256" using unat_u16_less [of x] less_mult_imp_div_less [of "unat x" 256 256] by simp
  then show ?thesis unfolding lwip_htons_def by (subst unat_swap) simp_all
qed

section \<open>Bytes as a number\<close>

fun le_num :: "u8 list \<Rightarrow> nat" where
  "le_num [] = 0"
| "le_num (b # bs) = unat b + 256 * le_num bs"

text \<open>The exact sums of the words: low byte first, and high byte first.\<close>

fun le_sum :: "u8 list \<Rightarrow> nat" where
  "le_sum (a # b # bs) = unat a + 256 * unat b + le_sum bs"
| "le_sum [a] = unat a"
| "le_sum [] = 0"

fun be_sum :: "u8 list \<Rightarrow> nat" where
  "be_sum (a # b # bs) = 256 * unat a + unat b + be_sum bs"
| "be_sum [a] = 256 * unat a"
| "be_sum [] = 0"

lemma le_num_pair: "same (le_num (a # b # bs)) (unat a + 256 * unat b + le_num bs)"
proof -
  have "le_num (a # b # bs) = unat a + 256 * unat b + 65536 * le_num bs" by simp
  then show ?thesis by (simp only:) (rule same_add, rule refl, rule same_wrap)
qed

lemma le_sum_num: "same (le_sum bs) (le_num bs)" "le_sum bs = 0 \<longleftrightarrow> le_num bs = 0"
proof -
  show "same (le_sum bs) (le_num bs)"
  proof (induction bs rule: le_sum.induct)
    case (1 a b bs)
    have "same (le_sum (a # b # bs)) (unat a + 256 * unat b + le_num bs)"
      using 1 by (simp only: le_sum.simps) (rule same_add, rule refl)
    then show ?case by (simp only: le_num_pair)
  qed simp_all
  show "le_sum bs = 0 \<longleftrightarrow> le_num bs = 0" by (induction bs rule: le_sum.induct) auto
qed

lemma be_sum_num: "same (256 * be_sum bs) (le_num bs)" "be_sum bs = 0 \<longleftrightarrow> le_num bs = 0"
proof -
  show "same (256 * be_sum bs) (le_num bs)"
  proof (induction bs rule: be_sum.induct)
    case (1 a b bs)
    have "256 * be_sum (a # b # bs) = 65536 * unat a + 256 * unat b + 256 * be_sum bs" by simp
    then have "same (256 * be_sum (a # b # bs)) (unat a + 256 * unat b + le_num bs)"
      using 1 by (simp only:) (intro same_add same_wrap refl, assumption)
    then show ?case by (simp only: le_num_pair)
  next
    case (2 a)
    have "256 * be_sum [a] = 65536 * unat a" by simp
    then show ?case using same_wrap(1) [of "unat a"] by simp
  qed simp
  show "be_sum bs = 0 \<longleftrightarrow> le_num bs = 0" by (induction bs rule: be_sum.induct) auto
qed

lemma sum_bounds: "le_sum bs \<le> 65535 * ((length bs + 1) div 2)" "be_sum bs \<le> 65535 * ((length bs + 1) div 2)"
proof -
  have b: "unat (a :: u8) \<le> 255" for a using unat_byte [of a] by simp
  show "le_sum bs \<le> 65535 * ((length bs + 1) div 2)"
  proof (induction bs rule: le_sum.induct)
    case (1 x y bs)
    then show ?case using b [of x] b [of y] by simp
  next
    case (2 x)
    then show ?case using b [of x] by simp
  qed simp
  show "be_sum bs \<le> 65535 * ((length bs + 1) div 2)"
  proof (induction bs rule: be_sum.induct)
    case (1 x y bs)
    then show ?case using b [of x] b [of y] by simp
  next
    case (2 x)
    then show ?case using b [of x] by simp
  qed simp
qed

definition checksum :: "u8 list \<Rightarrow> u16" where
  "checksum bs = of_nat (canon (le_num bs))"

lemma unat_checksum: "unat (checksum bs) = canon (le_num bs)"
  using canon_le [of "le_num bs"] by (simp add: checksum_def unat_of_nat take_bit_nat_eq_self)

lemma checksum_eqI: "unat v = canon (le_num bs) \<Longrightarrow> ucast (v :: u32) = checksum bs"
  using canon_le [of "le_num bs"]
  by (simp add: word_unat_eq_iff unat_checksum unsigned_ucast_eq take_bit_nat_eq_self)

section \<open>The versions agree\<close>

lemma unat_add_u16: "unat (s :: u32) + n < 2 ^ 32 \<Longrightarrow> unat (w :: u16) \<le> n \<Longrightarrow> unat (s + ucast w) = unat s + unat w"
  by (subst unat_add_nat) (simp_all add: unat_ucast_16_32)

lemma end_bytes_sum: "length left \<le> 1 \<Longrightarrow> unat (end_bytes f left) = 256 * unat f + le_sum left"
  by (cases left) (auto simp: end_bytes_def unat_load16)

lemma sum_u16_exact:
  "unat s + le_sum bs < 2 ^ 32 \<Longrightarrow> length (snd (sum_u16 bs s)) \<le> 1 \<and>
     unat (fst (sum_u16 bs s)) + le_sum (snd (sum_u16 bs s)) = unat s + le_sum bs"
proof (induction bs s rule: sum_u16.induct)
  case (1 a b bs s)
  have "unat (s + ucast (load16 a b)) = unat s + (unat a + 256 * unat b)"
    using 1(2) unat_add_u16 [of s "unat (load16 a b)" "load16 a b"] by (simp add: unat_load16)
  then show ?case using 1 by simp
qed simp_all

text \<open>The last steps, common to versions 2 and 3.\<close>

lemma finish:
  assumes t: "unat s + unat t < 2 ^ 32" and zero: "unat s + unat t = 0 \<longleftrightarrow> le_num data = 0"
    and eq: "if od then same (256 * (unat s + unat t)) (le_num data) else same (unat s + unat t) (le_num data)"
  shows "ucast (let s = s + ucast (t :: u16); s = FOLD_U32T s; s = FOLD_U32T s
      in if od then SWAP_BYTES_IN_WORD s else s) = checksum data"
proof -
  define v where "v = FOLD_U32T (FOLD_U32T (s + ucast t))"
  have v: "unat v = canon (unat s + unat t)"
    using unat_add_u16 [OF t order_refl] unfolding v_def FOLD_twice by simp
  have "unat (if od then SWAP_BYTES_IN_WORD v else v) = canon (le_num data)"
  proof (cases od)
    case True
    have "unat (SWAP_BYTES_IN_WORD v) = canon (256 * canon (unat s + unat t))"
      using canon_le unfolding v [symmetric] by (intro unat_SWAP) (simp add: v)
    also have "\<dots> = canon (256 * (unat s + unat t))" by (rule canon_mult) simp
    also have "\<dots> = canon (le_num data)" using True eq zero by (intro canon_cong) auto
    finally show ?thesis using True by simp
  next
    case False
    then show ?thesis using eq zero v by (auto intro: canon_cong)
  qed
  then show ?thesis unfolding Let_def v_def [symmetric] by (rule checksum_eqI)
qed

lemma standard_checksum:
  assumes "length data \<le> 0x20000"
  shows "lwip_standard_chksum pb data = checksum data"
proof -
  define od where "od = (pb AND 1 \<noteq> 0)"
  define f where "f = (if od \<and> data \<noteq> [] then hd data else 0)"
  define d where "d = (if od \<and> data \<noteq> [] then tl data else data)"
  have len: "length d \<le> 0x20000" using assms by (cases data) (simp_all add: d_def)
  obtain s left where s: "sum_u16 d 0 = (s, left)" by (cases "sum_u16 d 0")
  have "65535 * ((length d + 1) div 2) \<le> 65535 * ((0x20000 + 1) div 2)"
    using len by (intro mult_le_mono2 div_le_mono) simp
  then have bound: "le_sum d \<le> 2 ^ 32 - 65536" using sum_bounds(1) [of d] by simp
  then have exact: "length left \<le> 1" "unat s + le_sum left = le_sum d"
    using sum_u16_exact [of 0 d] by (simp_all add: s)
  have t: "unat s + unat (end_bytes f left) = 256 * unat f + le_sum d"
    using exact by (simp add: end_bytes_sum)
  have "unat f \<le> 255" using unat_byte [of f] by simp
  then have "unat s + unat (end_bytes f left) < 2 ^ 32" unfolding t using bound by simp
  moreover have "unat s + unat (end_bytes f left) = 0 \<longleftrightarrow> le_num data = 0"
    unfolding t using le_sum_num(2) [of d] by (cases data) (auto simp: f_def d_def)
  moreover have "if od then same (256 * (unat s + unat (end_bytes f left))) (le_num data)
      else same (unat s + unat (end_bytes f left)) (le_num data)"
  proof (cases "od \<and> data \<noteq> []")
    case True
    then obtain h where data: "data = h # d" "f = h" by (cases data) (auto simp: f_def d_def)
    have "256 * (256 * unat h + le_sum d) = 65536 * unat h + 256 * le_sum d" by simp
    then have "same (256 * (256 * unat h + le_sum d)) (unat h + 256 * le_num d)"
      by (simp only:) (intro same_add same_wrap same_mult le_sum_num(1))
    then show ?thesis using True unfolding t unfolding data by simp
  next
    case False
    then show ?thesis using le_sum_num(1) [of d] unfolding t by (auto simp: f_def d_def)
  qed
  ultimately have "ucast (let s = s + ucast (end_bytes f left); s = FOLD_U32T s; s = FOLD_U32T s
      in if od then SWAP_BYTES_IN_WORD s else s) = checksum data" by (rule finish)
  then show ?thesis
    unfolding lwip_standard_chksum_def Let_def od_def [symmetric]
    using s by (simp add: f_def d_def split: if_splits)
qed

text \<open>Versions 1 and 3.\<close>

lemma chksum1_exact: "unat acc + be_sum bs < 2 ^ 32 \<Longrightarrow> unat (chksum1_loop bs acc) = unat acc + be_sum bs"
proof (induction bs acc rule: chksum1_loop.induct)
  case (1 a b bs acc)
  have "push_bit 8 (ucast a) OR ucast b = be16 a b" by (simp add: be16_def)
  then have "unat (acc + ucast (push_bit 8 (ucast a) OR ucast b :: u16)) = unat acc + (256 * unat a + unat b)"
    using 1(2) unat_add_u16 [of acc "unat (be16 a b)" "be16 a b"] by (simp add: unat_be16)
  then show ?case using 1 by (simp add: Let_def)
next
  case (2 a acc)
  have "push_bit 8 (ucast a) = be16 a 0" by (simp add: be16_def)
  then show ?case using 2 unat_add_u16 [of acc "unat (be16 a 0)" "be16 a 0"] by (simp add: unat_be16)
qed simp

lemma high_half: "(v :: u32) AND 0xffff0000 \<noteq> 0 \<longleftrightarrow> 65536 \<le> unat v"
proof -
  have m: "(0xffff0000 :: u32) = push_bit 16 (mask 16)" by (simp add: mask_eq_exp_minus_1 push_bit_eq_mult)
  have "v AND push_bit 16 (mask 16) = push_bit 16 (drop_bit 16 v)"
    by (rule bit_eqI) (auto simp: bit_simps)
  moreover have "drop_bit 16 (push_bit 16 (drop_bit 16 v)) = drop_bit 16 v"
    by (rule bit_eqI) (auto simp: bit_simps dest: bit_imp_le_length)
  then have "push_bit 16 (drop_bit 16 v) = 0 \<longleftrightarrow> drop_bit 16 v = 0" by auto
  moreover have "unat (drop_bit 16 v) = unat v div 65536"
    by (simp add: drop_bit_eq_div unat_div)
  then have "drop_bit 16 v = 0 \<longleftrightarrow> unat v < 65536"
    by (simp add: word_unat_eq_iff div_eq_0_iff)
  ultimately show ?thesis unfolding m by (simp add: not_less)
qed

lemma version1_checksum:
  assumes "length data \<le> 0x20000"
  shows "lwip_standard_chksum_1 data = checksum data"
proof -
  define acc where "acc = chksum1_loop data 0"
  have "65535 * ((length data + 1) div 2) \<le> 65535 * ((0x20000 + 1) div 2)"
    using assms by (intro mult_le_mono2 div_le_mono) simp
  then have acc: "unat acc = be_sum data"
    unfolding acc_def using sum_bounds(2) [of data] by (subst chksum1_exact) simp_all
  define v where "v = (if FOLD_U32T acc AND 0xffff0000 \<noteq> 0 then FOLD_U32T (FOLD_U32T acc) else FOLD_U32T acc)"
  have "unat (FOLD_U32T acc) < 65536 \<Longrightarrow> FOLD_U32T (FOLD_U32T acc) = FOLD_U32T acc"
    by (simp add: word_unat_eq_iff unat_FOLD [of "FOLD_U32T acc"])
  then have v: "unat v = canon (be_sum data)"
    using FOLD_twice [of acc] acc unfolding v_def high_half by (auto simp: not_le)
  have v16: "unat (ucast v :: u16) = unat v"
    using canon_le [of "be_sum data"] v by (simp add: unsigned_ucast_eq take_bit_nat_eq_self)
  have "unat (lwip_htons (ucast v)) = unat (SWAP_BYTES_IN_WORD v)"
    using canon_le [of "be_sum data"] by (simp only: unat_htons v16 v [symmetric] SWAP_exact)
  also have "\<dots> = canon (256 * canon (be_sum data))"
    using canon_le unfolding v [symmetric] by (intro unat_SWAP) (simp add: v)
  also have "\<dots> = canon (256 * be_sum data)" by (rule canon_mult) simp
  also have "\<dots> = canon (le_num data)" by (rule canon_cong) (use be_sum_num [of data] in auto)
  finally have "lwip_htons (ucast v) = checksum data" by (simp add: word_unat_eq_iff unat_checksum)
  then show ?thesis
    unfolding lwip_standard_chksum_1_def Let_def acc_def [symmetric] FOLD_U32T_def [symmetric] v_def [symmetric] .
qed

lemma add_carry:
  fixes s w :: u32
  defines "t \<equiv> (if s + w < s then s + w + 1 else s + w)"
  shows "same (unat t) (unat s + unat w)" and "t = 0 \<longleftrightarrow> s = 0 \<and> w = 0"
proof -
  have b: "unat s < 4294967296" "unat w < 4294967296"
    using unsigned_less [where ?'a = nat, of s] unsigned_less [where ?'a = nat, of w] by simp_all
  have u: "unat (s + w) = (unat s + unat w) mod 4294967296" by (simp add: unat_word_ariths)
  have "same (unat t) (unat s + unat w) \<and> (unat t = 0 \<longleftrightarrow> unat s + unat w = 0)"
  proof (cases "unat s + unat w < 4294967296")
    case True
    then have "unat (s + w) = unat s + unat w" using u by simp
    then show ?thesis by (simp add: t_def word_less_nat_alt)
  next
    case False
    then have c: "unat (s + w) = unat s + unat w - 4294967296" using u b by (simp add: mod_if)
    then have "s + w < s" using False b by (simp add: word_less_nat_alt)
    moreover have "unat (s + w + 1) = unat (s + w) + 1"
      using c b False by (subst unat_add_nat) auto
    ultimately have t: "unat t = unat s + unat w - 4294967295" using c False by (simp add: t_def)
    then have "unat s + unat w = unat t + 65535 * 65537" using False by simp
    then have "same (unat s + unat w) (unat t)" by (metis mod_mult_self2)
    moreover have "unat t \<noteq> 0" "unat s + unat w \<noteq> 0" using t False by linarith+
    ultimately show ?thesis by simp
  qed
  then show "same (unat t) (unat s + unat w)" "t = 0 \<longleftrightarrow> s = 0 \<and> w = 0" by (simp_all add: word_unat_eq_iff)
qed

lemma unat_load32: "unat (load32 a b c d) = unat (load16 a b) + 65536 * unat (load16 c d)"
proof -
  define x where "x = (ucast (load16 a b) :: u32)"
  define y where "y = (ucast (load16 c d) :: u32)"
  have u: "unat x = unat (load16 a b)" "unat y = unat (load16 c d)"
    by (simp_all add: x_def y_def unat_ucast_16_32)
  have t: "take_bit 16 x = x" by (simp add: x_def word_unat_eq_iff unsigned_take_bit_eq take_bit_nat_eq_self
        unat_ucast_16_32 unat_u16_less)
  have "push_bit 16 y + take_bit 16 x = push_bit 16 y OR take_bit 16 x"
    by (rule disjunctive_add_eq_or, rule bit_eqI) (auto simp: bit_simps)
  moreover have "unat (push_bit 16 y) = 65536 * unat y"
    using unat_u16_less [of "load16 c d"]
    by (simp add: unsigned_push_bit_eq push_bit_nat_def take_bit_nat_eq_self u)
  moreover have "unat (push_bit 16 y + x) = unat (push_bit 16 y) + unat x"
    using calculation(2) unat_u16_less [of "load16 c d"] unat_u16_less [of "load16 a b"] u by (intro unat_add_nat) simp
  ultimately show ?thesis by (simp add: load32_def t u flip: x_def y_def)
qed

lemma le_num_word: "same (le_num (a # b # c # d # bs)) (unat (load32 a b c d) + le_num bs)"
  and load32_0: "load32 a b c d = 0 \<longleftrightarrow> a = 0 \<and> b = 0 \<and> c = 0 \<and> d = 0"
proof -
  have "le_num (a # b # c # d # bs) = unat (load32 a b c d) + 65536 * (65536 * le_num bs)"
    by (simp add: unat_load32 unat_load16)
  moreover have "same (65536 * (65536 * le_num bs)) (le_num bs)"
    using same_mult [OF same_wrap(1)] same_wrap(1) by metis
  ultimately show "same (le_num (a # b # c # d # bs)) (unat (load32 a b c d) + le_num bs)"
    by (simp only:) (rule same_add, rule refl)
  show "load32 a b c d = 0 \<longleftrightarrow> a = 0 \<and> b = 0 \<and> c = 0 \<and> d = 0"
    by (simp add: word_unat_eq_iff unat_load32 unat_load16)
qed

lemma sum_u32_same:
  "same (unat (fst (sum_u32 bs s)) + le_num (snd (sum_u32 bs s))) (unat s + le_num bs) \<and>
   (fst (sum_u32 bs s) = 0 \<and> le_num (snd (sum_u32 bs s)) = 0 \<longleftrightarrow> s = 0 \<and> le_num bs = 0) \<and>
   length (snd (sum_u32 bs s)) < 8"
proof (induction bs s rule: sum_u32.induct)
  case (1 a b c d e f g h bs s)
  define t where "t = (if s + load32 a b c d < s then s + load32 a b c d + 1 else s + load32 a b c d)"
  define t' where "t' = (if t + load32 e f g h < t then t + load32 e f g h + 1 else t + load32 e f g h)"
  have step: "sum_u32 (a # b # c # d # e # f # g # h # bs) s = sum_u32 bs t'"
    by (simp add: t_def t'_def Let_def)
  note IH = 1 [OF refl t_def refl t'_def]
  have "same (unat t' + le_num bs) (unat t + unat (load32 e f g h) + le_num bs)"
    unfolding t'_def by (rule same_add [OF add_carry(1) refl])
  also have "same (unat t + unat (load32 e f g h) + le_num bs) (unat t + le_num (e # f # g # h # bs))"
    unfolding add.assoc by (rule same_add [OF refl le_num_word [symmetric]])
  also have "same (unat t + le_num (e # f # g # h # bs)) (unat s + unat (load32 a b c d) + le_num (e # f # g # h # bs))"
    unfolding t_def by (rule same_add [OF add_carry(1) refl])
  also have "same (unat s + unat (load32 a b c d) + le_num (e # f # g # h # bs)) (unat s + le_num (a # b # c # d # e # f # g # h # bs))"
    unfolding add.assoc by (rule same_add [OF refl le_num_word [symmetric]])
  finally have "same (unat t' + le_num bs) (unat s + le_num (a # b # c # d # e # f # g # h # bs))" .
  moreover have "t' = 0 \<and> le_num bs = 0 \<longleftrightarrow> s = 0 \<and> le_num (a # b # c # d # e # f # g # h # bs) = 0"
    unfolding t'_def t_def add_carry(2) load32_0 by (auto simp: word_unat_eq_iff)
  ultimately show ?case using IH unfolding step by simp
qed simp_all

lemma version3_checksum: "lwip_standard_chksum_3 pb data = checksum data"
proof -
  define od where "od = (pb AND 1 \<noteq> 0)"
  define f where "f = (if od \<and> data \<noteq> [] then hd data else 0)"
  define d where "d = (if od \<and> data \<noteq> [] then tl data else data)"
  define ps where "ps = (if od \<and> data \<noteq> [] then pb + 1 else pb)"
  define s0 where "s0 = (if ps AND 3 \<noteq> 0 \<and> 1 < length d then ucast (load16 (d ! 0) (d ! 1)) else (0 :: u32))"
  define d0 where "d0 = (if ps AND 3 \<noteq> 0 \<and> 1 < length d then drop 2 d else d)"
  obtain s1 d1 where s1: "sum_u32 d0 s0 = (s1, d1)" by (cases "sum_u32 d0 s0")
  obtain s left where s: "sum_u16 d1 (FOLD_U32T s1) = (s, left)" by (cases "sum_u16 d1 (FOLD_U32T s1)")
  have head: "same (unat s0 + le_num d0) (le_num d) \<and> (s0 = 0 \<and> le_num d0 = 0 \<longleftrightarrow> le_num d = 0)"
  proof (cases "ps AND 3 \<noteq> 0 \<and> 1 < length d")
    case True
    then obtain a b r where d: "d = a # b # r" by (cases d; cases "tl d") auto
    have "unat s0 = unat a + 256 * unat b" "d0 = r" using True by (simp_all add: s0_def d0_def d unat_ucast_16_32 unat_load16)
    then show ?thesis using le_num_pair [of a b r] by (simp add: d word_unat_eq_iff)
  qed (auto simp: s0_def d0_def)
  have words: "same (unat s1 + le_num d1) (unat s0 + le_num d0)" "s1 = 0 \<and> le_num d1 = 0 \<longleftrightarrow> s0 = 0 \<and> le_num d0 = 0"
    "length d1 < 8" using sum_u32_same [of d0 s0] by (simp_all add: s1)
  have "65535 * ((length d1 + 1) div 2) \<le> 65535 * (8 div 2)"
    using words(3) by (intro mult_le_mono2 div_le_mono) simp
  then have small: "le_sum d1 \<le> 262140" using sum_bounds(1) [of d1] by simp
  have "unat s1 div 65536 < 65536" "unat s1 mod 65536 < 65536"
    using unsigned_less [where ?'a = nat, of s1] by (simp_all add: div_less_iff_less_mult)
  then have fold: "unat (FOLD_U32T s1) \<le> 131070" unfolding unat_FOLD by linarith
  have fold2: "same (unat (FOLD_U32T s1)) (unat s1)" "unat (FOLD_U32T s1) = 0 \<longleftrightarrow> unat s1 = 0"
    unfolding unat_FOLD by (rule same_fold) auto
  have exact: "length left \<le> 1" "unat s + le_sum left = unat (FOLD_U32T s1) + le_sum d1"
    using sum_u16_exact [of "FOLD_U32T s1" d1] small fold by (simp_all add: s)
  have t: "unat s + unat (end_bytes f left) = 256 * unat f + (unat (FOLD_U32T s1) + le_sum d1)"
    using exact by (simp add: end_bytes_sum)
  have rest: "same (unat (FOLD_U32T s1) + le_sum d1) (le_num d)"
    "unat (FOLD_U32T s1) + le_sum d1 = 0 \<longleftrightarrow> le_num d = 0"
  proof -
    have "same (unat (FOLD_U32T s1) + le_sum d1) (unat s1 + le_num d1)"
      by (intro same_add fold2(1) le_sum_num(1))
    then show "same (unat (FOLD_U32T s1) + le_sum d1) (le_num d)" using words(1) head by simp
    show "unat (FOLD_U32T s1) + le_sum d1 = 0 \<longleftrightarrow> le_num d = 0"
      using fold2(2) le_sum_num(2) [of d1] words(2) head by (auto simp: word_unat_eq_iff)
  qed
  have "unat f \<le> 255" using unat_byte [of f] by simp
  then have "unat s + unat (end_bytes f left) < 2 ^ 32" unfolding t using small fold by simp
  moreover have "unat s + unat (end_bytes f left) = 0 \<longleftrightarrow> le_num data = 0"
    unfolding t using rest(2) by (cases data) (auto simp: f_def d_def)
  moreover have "if od then same (256 * (unat s + unat (end_bytes f left))) (le_num data)
      else same (unat s + unat (end_bytes f left)) (le_num data)"
  proof (cases "od \<and> data \<noteq> []")
    case True
    then obtain h where data: "data = h # d" "f = h" by (cases data) (auto simp: f_def d_def)
    define z where "z = unat (FOLD_U32T s1) + le_sum d1"
    have "256 * (256 * unat h + z) = 65536 * unat h + 256 * z" by simp
    moreover have "same (65536 * unat h + 256 * z) (unat h + 256 * le_num d)"
      unfolding z_def by (intro same_add same_wrap same_mult rest(1))
    ultimately have "same (256 * (256 * unat h + z)) (unat h + 256 * le_num d)" by (simp only:)
    then show ?thesis using True unfolding t unfolding data z_def by simp
  next
    case False
    show ?thesis
    proof (cases od)
      case True
      then have "unat (FOLD_U32T s1) + le_sum d1 = 0" "f = 0" "data = []"
        using False rest(2) by (auto simp: f_def d_def)
      then show ?thesis unfolding t by simp
    next
      case False
      then show ?thesis using rest(1) unfolding t by (simp add: f_def d_def)
    qed
  qed
  ultimately have "ucast (let s = s + ucast (end_bytes f left); s = FOLD_U32T s; s = FOLD_U32T s
      in if od then SWAP_BYTES_IN_WORD s else s) = checksum data" by (rule finish)
  moreover have "(if od \<and> data \<noteq> [] then (hd data, pb + 1, tl data) else (0, pb, data)) = (f, ps, d)"
    by (simp add: f_def ps_def d_def)
  moreover have "(if ps AND 3 \<noteq> 0 \<and> 1 < length d then (ucast (load16 (d ! 0) (d ! 1)), drop 2 d) else (0 :: u32, d)) = (s0, d0)"
    by (simp add: s0_def d0_def)
  ultimately show ?thesis
    unfolding lwip_standard_chksum_3_def Let_def od_def [symmetric] by (simp add: s1 s)
qed

section \<open>Chains\<close>

lemma le_num_append: "le_num (xs @ ys) = le_num xs + 256 ^ length xs * le_num ys"
  by (induction xs) (simp_all add: algebra_simps)

text \<open>What the bytes behind an even or an odd number of others count.\<close>

definition weight :: "bool \<Rightarrow> nat" where
  "weight od = (if od then 256 else 1)"

lemma weight_pos [simp]: "0 < weight b" "weight b \<noteq> 0"
  by (simp_all add: weight_def)

lemma same_weight: "same (256 ^ n * x) (weight (odd n) * x)"
proof (induction n)
  case (Suc n)
  have "same (256 ^ Suc n * x) (256 * (weight (odd n) * x))"
    using same_mult [OF Suc, of 256] by (simp add: mult.assoc)
  also have "same (256 * (weight (odd n) * x)) (weight (odd (Suc n)) * x)"
    using same_wrap(2) [of x] by (simp add: weight_def)
  finally show ?case .
qed (simp add: weight_def)

lemma same_weight_twice: "same (weight b * (weight b * x)) x"
  using same_wrap(2) [of x] by (simp add: weight_def)

text \<open>
  The accumulator holds the number so far, multiplied by 256 if it is swapped. A buffer changes it
  by its bytes at the place they have behind the others.
\<close>

definition acc_is :: "u32 \<times> bool \<Rightarrow> nat \<Rightarrow> bool" where
  "acc_is a n \<longleftrightarrow> unat (fst a) = canon (weight (snd a) * n)"

lemma acc_is_le: "acc_is a n \<Longrightarrow> unat (fst a) \<le> 65535"
  using canon_le by (simp add: acc_is_def)

lemma acc_add:
  assumes "acc_is (acc, sw) n" "unat v = canon m"
  shows "acc_is (FOLD_U32T (acc + ucast (v :: u16)), sw) (n + weight sw * m)"
proof -
  have "unat (acc + ucast v) = unat acc + unat v"
    using acc_is_le [OF assms(1)] unat_u16_less [of v] by (intro unat_add_u16 [OF _ order_refl]) simp
  moreover have "unat acc + unat v \<le> 131070"
    using acc_is_le [OF assms(1)] unat_u16_less [of v] by simp
  ultimately have "unat (FOLD_U32T (acc + ucast v)) = canon (unat acc + unat v)"
    using FOLD_once [of "acc + ucast v"] by simp
  also have "\<dots> = canon (weight sw * (n + weight sw * m))"
  proof (rule canon_cong)
    have "same (unat acc + unat v) (weight sw * n + weight sw * (weight sw * m))"
      using assms same_weight_twice [of sw m] same_canon
      unfolding acc_is_def by (intro same_add) (simp_all add: same_canon)
    then show "same (unat acc + unat v) (weight sw * (n + weight sw * m))" by (simp add: distrib_left)
    show "unat acc + unat v = 0 \<longleftrightarrow> weight sw * (n + weight sw * m) = 0"
      using assms by (simp add: acc_is_def)
  qed
  finally show ?thesis by (simp add: acc_is_def)
qed

lemma acc_swap: "acc_is (acc, sw) n \<Longrightarrow> acc_is (SWAP_BYTES_IN_WORD acc, \<not> sw) n"
proof -
  assume a: "acc_is (acc, sw) n"
  have "unat (SWAP_BYTES_IN_WORD acc) = canon (256 * canon (weight sw * n))"
    using unat_SWAP [of acc] acc_is_le [OF a] a by (simp add: acc_is_def)
  also have "\<dots> = canon (256 * (weight sw * n))" by (rule canon_mult) simp
  also have "\<dots> = canon (weight (\<not> sw) * n)"
    by (rule canon_cong) (use same_wrap(2) [of n] in \<open>auto simp: weight_def\<close>)
  finally show ?thesis by (simp add: acc_is_def)
qed

abbreviation chain_bytes :: "chain \<Rightarrow> u8 list" where
  "chain_bytes p \<equiv> concat (map snd p)"

lemma acc_is_cong: "acc_is a n \<Longrightarrow> same n m \<Longrightarrow> (n = 0 \<longleftrightarrow> m = 0) \<Longrightarrow> acc_is a m"
  unfolding acc_is_def using canon_cong [of "weight (snd a) * n" "weight (snd a) * m"] same_mult [of n m] by simp

lemma weight_append: "same (weight (sw \<noteq> odd (length xs)) * x) (weight sw * (256 ^ length xs * x))"
proof -
  have "same (weight sw * (256 ^ length xs * x)) (weight sw * (weight (odd (length xs)) * x))"
    by (intro same_mult same_weight)
  also have "same (weight sw * (weight (odd (length xs)) * x)) (weight (sw \<noteq> odd (length xs)) * x)"
    using same_wrap(2) [of x] by (auto simp: weight_def)
  finally show ?thesis by simp
qed

text \<open>One buffer of the chain, of which the first bytes \<open>xs\<close> are summed.\<close>

lemma buffer_step:
  fixes pb :: u32
  assumes acc: "acc_is (acc, sw) n" and len: "length xs \<le> 0x20000"
  defines "acc' \<equiv> FOLD_U32T (acc + ucast (lwip_standard_chksum pb xs))"
  shows "acc_is (if od then (SWAP_BYTES_IN_WORD acc', \<not> sw) else (acc', sw)) (n + weight sw * le_num xs)"
proof -
  have "acc_is (acc', sw) (n + weight sw * le_num xs)"
    unfolding acc'_def using standard_checksum [OF len] by (intro acc_add acc) (simp add: unat_checksum)
  then show ?thesis using acc_swap by auto
qed

lemma chain_loop_is:
  assumes "acc_is (acc, sw) n" "\<forall>b \<in> set p. length (snd b) \<le> 0xFFFF"
  shows "acc_is (chain_loop p acc sw) (n + weight sw * le_num (chain_bytes p))"
  using assms
proof (induction p arbitrary: acc sw n)
  case (Cons b p)
  obtain pb xs where b: "b = (pb, xs)" by (cases b)
  define a where "a = (if odd (length xs) then (SWAP_BYTES_IN_WORD (FOLD_U32T (acc + ucast (lwip_standard_chksum pb xs))), \<not> sw)
      else (FOLD_U32T (acc + ucast (lwip_standard_chksum pb xs)), sw))"
  have sw: "snd a = (sw \<noteq> odd (length xs))" by (simp add: a_def)
  have "acc_is (fst a, snd a) (n + weight sw * le_num xs)"
    unfolding prod.collapse a_def using Cons.prems b by (intro buffer_step) simp_all
  then have "acc_is (chain_loop p (fst a) (snd a)) (n + weight sw * le_num xs + weight (snd a) * le_num (chain_bytes p))"
    by (rule Cons.IH) (use Cons.prems in simp)
  moreover have "chain_loop (b # p) acc sw = chain_loop p (fst a) (snd a)"
    by (simp add: b a_def odd_iff_mod_2_eq_one Let_def)
  moreover have "same (n + weight sw * le_num xs + weight (snd a) * le_num (chain_bytes p))
      (n + weight sw * le_num xs + weight sw * (256 ^ length xs * le_num (chain_bytes p)))"
    unfolding sw by (intro same_add refl weight_append)
  ultimately show ?case
    by (auto simp: b le_num_append distrib_left add.assoc elim: acc_is_cong)
qed simp

text \<open>The loop over the first \<open>k\<close> bytes.\<close>

lemma partial_loop_is:
  assumes "acc_is (acc, sw) n" "\<forall>b \<in> set p. length (snd b) \<le> 0xFFFF"
  shows "acc_is (partial_loop p k acc sw) (n + weight sw * le_num (take (unat k) (chain_bytes p)))"
  using assms
proof (induction p arbitrary: k acc sw n)
  case (Cons b p)
  obtain pb xs where b: "b = (pb, xs)" by (cases b)
  show ?case
  proof (cases "k = 0")
    case True
    then show ?thesis using Cons.prems by (simp add: b)
  next
    case False
    define c where "c = (if k < of_nat (length xs) then k else of_nat (length xs))"
    have len: "length xs \<le> 0xFFFF" using Cons.prems b by simp
    then have l: "unat (of_nat (length xs) :: u16) = length xs" by (simp add: unat_of_nat take_bit_nat_eq_self)
    have c: "unat c = min (unat k) (length xs)" by (auto simp: c_def word_less_nat_alt l)
    have kc: "unat (k - c) = unat k - length xs" using c by (subst unat_sub_nat) auto
    define a where "a = (if odd (length xs)
      then (SWAP_BYTES_IN_WORD (FOLD_U32T (acc + ucast (lwip_standard_chksum pb (take (unat c) xs)))), \<not> sw)
      else (FOLD_U32T (acc + ucast (lwip_standard_chksum pb (take (unat c) xs))), sw))"
    have sw: "snd a = (sw \<noteq> odd (length xs))" by (simp add: a_def)
    have tk: "take (unat c) xs = take (unat k) xs"
      unfolding c by (cases "unat k \<le> length xs") simp_all
    have "acc_is (fst a, snd a) (n + weight sw * le_num (take (unat k) xs))"
      unfolding prod.collapse a_def tk using Cons.prems b len by (intro buffer_step) (simp_all add: min_def)
    then have "acc_is (partial_loop p (k - c) (fst a) (snd a))
        (n + weight sw * le_num (take (unat k) xs) + weight (snd a) * le_num (take (unat (k - c)) (chain_bytes p)))"
      by (rule Cons.IH) (use Cons.prems in simp)
    moreover have "partial_loop (b # p) k acc sw = partial_loop p (k - c) (fst a) (snd a)"
      using False by (simp add: b a_def odd_iff_mod_2_eq_one Let_def c_def)
    moreover have "same (n + weight sw * le_num (take (unat k) xs) + weight (snd a) * le_num (take (unat (k - c)) (chain_bytes p)))
        (n + weight sw * le_num (take (unat k) (xs @ chain_bytes p)))"
    proof (cases "unat k \<le> length xs")
      case True
      then show ?thesis by (simp add: kc)
    next
      case False
      have "same (n + weight sw * le_num xs + weight (snd a) * le_num (take (unat k - length xs) (chain_bytes p)))
          (n + weight sw * le_num xs + weight sw * (256 ^ length xs * le_num (take (unat k - length xs) (chain_bytes p))))"
        unfolding sw by (intro same_add refl weight_append)
      then show ?thesis using False by (simp add: kc le_num_append distrib_left add.assoc)
    qed
    moreover have "n + weight sw * le_num (take (unat k) xs) + weight (snd a) * le_num (take (unat (k - c)) (chain_bytes p)) = 0 \<longleftrightarrow>
        n + weight sw * le_num (take (unat k) (xs @ chain_bytes p)) = 0"
      by (auto simp: kc le_num_append)
    moreover have "chain_bytes (b # p) = xs @ chain_bytes p" by (simp add: b)
    ultimately show ?thesis by (metis acc_is_cong)
  qed
qed simp

text \<open>The bytes of the pseudo header, as they would lie in front of the payload.\<close>

definition word_bytes :: "u32 \<Rightarrow> u8 list" where
  "word_bytes a = [lo8 (ucast a), hi8 (ucast a), lo8 (ucast (drop_bit 16 a)), hi8 (ucast (drop_bit 16 a))]"

definition pseudo_header :: "u32 \<Rightarrow> u32 \<Rightarrow> u8 \<Rightarrow> u16 \<Rightarrow> u8 list" where
  "pseudo_header src dest proto proto_len =
     word_bytes src @ word_bytes dest @ [0, proto, hi8 proto_len, lo8 proto_len]"

lemma unat_hi_lo: "unat (lo8 v) + 256 * unat (hi8 v) = unat v"
  using unat_be16 [of "hi8 v" "lo8 v"] by simp

lemma unat_not_u16: "unat (NOT (v :: u16)) = 65535 - unat v"
proof -
  have "NOT v = 65535 - v" by (simp add: not_eq_complement)
  moreover have "v \<le> 65535" using unat_u16_less [of v] by (simp add: word_le_nat_alt)
  ultimately show ?thesis by (simp add: unat_sub)
qed

lemma acc_is_0: "acc_is (0, False) 0"
  by (simp add: acc_is_def canon_def)

lemma unswapped:
  assumes "acc_is (acc, sw) n"
  shows "unat (if sw then SWAP_BYTES_IN_WORD acc else acc) = canon n"
  using assms acc_swap [OF assms] by (cases sw) (simp_all add: acc_is_def weight_def)

lemma complement:
  assumes "unat (acc :: u32) = canon (le_num bs)"
  shows "ucast (NOT (acc AND 0xffff)) = NOT (checksum bs)"
proof -
  have "ucast acc = checksum bs" using assms by (rule checksum_eqI)
  moreover have "ucast (NOT (acc AND mask 16)) = NOT (ucast acc :: u16)"
    by (rule bit_eqI) (auto simp: bit_simps)
  then have "ucast (NOT (acc AND 0xffff)) = NOT (ucast acc :: u16)" by (simp add: mask_eq_exp_minus_1)
  ultimately show ?thesis by simp
qed

lemma hi_lo_nat: "unat (hi8 v) = unat v div 256" "unat (lo8 v) = unat v mod 256"
proof -
  have "unat (hi8 v) = (unat (lo8 v) + 256 * unat (hi8 v)) div 256"
    "unat (lo8 v) = (unat (lo8 v) + 256 * unat (hi8 v)) mod 256"
    using unat_byte [of "lo8 v"] by simp_all
  then show "unat (hi8 v) = unat v div 256" "unat (lo8 v) = unat v mod 256" unfolding unat_hi_lo by simp_all
qed

text \<open>The sums the code adds up for the pseudo header.\<close>

definition halves :: "u32 \<Rightarrow> nat" where
  "halves a = unat (ucast a :: u16) + unat (ucast (drop_bit 16 a) :: u16)"

lemma halves_le: "halves a \<le> 131070"
  using unat_u16_less [of "ucast a"] unat_u16_less [of "ucast (drop_bit 16 a)"] by (simp add: halves_def)

lemma unat_and_ffff: "unat ((a :: u32) AND 0xffff) = unat (ucast a :: u16)"
proof -
  have "unat (a AND mask 16) = unat (ucast a :: u16)"
    by (simp add: take_bit_eq_mask [symmetric] unsigned_take_bit_eq unsigned_ucast_eq)
  then show ?thesis by (simp add: mask_eq_exp_minus_1)
qed

lemma pseudo_header_sum:
  "le_sum (pseudo_header src dest proto proto_len @ bs) =
     halves src + halves dest + 256 * unat proto + unat (lwip_htons proto_len) + le_sum bs"
proof -
  have "unat (lwip_htons proto_len) = unat (hi8 proto_len) + 256 * unat (lo8 proto_len)"
    by (simp add: unat_htons hi_lo_nat)
  moreover have "unat (lo8 v) + (256 * unat (hi8 v) + n) = unat v + n" for v :: u16 and n
    using unat_hi_lo [of v] by simp
  ultimately show ?thesis by (simp add: pseudo_header_def word_bytes_def halves_def)
qed

lemma pseudo_addresses_is: "acc_is (pseudo_addresses src dest, False) (halves src + halves dest)"
proof -
  have "unat ((src AND 0xffff) + (drop_bit 16 src AND 0xffff)) = halves src"
    using halves_le [of src] by (subst unat_add_nat) (simp_all add: unat_and_ffff halves_def)
  moreover have "unat (x + (dest AND 0xffff) + (drop_bit 16 dest AND 0xffff)) = unat x + halves dest"
    if "unat x \<le> 131070" for x :: u32
  proof -
    have "unat (x + (dest AND 0xffff)) = unat x + unat (ucast dest :: u16)"
      using that unat_u16_less [of "ucast dest"] by (subst unat_add_nat) (simp_all add: unat_and_ffff)
    then show ?thesis
      using that halves_le [of dest] by (subst unat_add_nat) (simp_all add: unat_and_ffff halves_def)
  qed
  ultimately show ?thesis
    using halves_le [of src]
    by (simp add: acc_is_def pseudo_addresses_def Let_def FOLD_twice weight_def)
qed

lemma pseudo_end_is:
  assumes "acc_is a (halves src + halves dest + le_num bs)"
  shows "pseudo_end a proto proto_len = NOT (checksum (pseudo_header src dest proto proto_len @ bs))"
proof -
  obtain acc sw where a: "a = (acc, sw)" by (cases a)
  define v where "v = (if sw then SWAP_BYTES_IN_WORD acc else acc)"
  define n where "n = halves src + halves dest + le_num bs"
  have v: "unat v = canon n"
    unfolding v_def n_def by (rule unswapped) (use assms a in simp)
  have p: "unat (lwip_htons (ucast proto)) = 256 * unat proto"
    using unat_byte [of proto] by (simp add: unat_htons unat_ucast_byte)
  have "unat (v + ucast (lwip_htons (ucast proto))) = unat v + 256 * unat proto"
    using canon_le [of n] unat_byte [of proto] unfolding v [symmetric]
    by (subst unat_add_u16 [OF _ order_refl]) (simp_all add: p)
  moreover have "unat (v + ucast (lwip_htons (ucast proto)) + ucast (lwip_htons proto_len)) =
      unat (v + ucast (lwip_htons (ucast proto))) + unat (lwip_htons proto_len)"
    using canon_le [of n] unat_byte [of proto] unat_u16_less [of "lwip_htons proto_len"] calculation
    unfolding v [symmetric] by (intro unat_add_u16 [OF _ order_refl]) simp
  ultimately have "unat (FOLD_U32T (FOLD_U32T (v + ucast (lwip_htons (ucast proto)) + ucast (lwip_htons proto_len)))) =
      canon (canon n + (256 * unat proto + unat (lwip_htons proto_len)))"
    by (simp add: FOLD_twice v add.assoc)
  also have "\<dots> = canon (n + (256 * unat proto + unat (lwip_htons proto_len)))" by (rule canon_canon_add)
  also have "\<dots> = canon (le_num (pseudo_header src dest proto proto_len @ bs))"
  proof (rule canon_cong)
    have "same (n + (256 * unat proto + unat (lwip_htons proto_len))) (le_sum (pseudo_header src dest proto proto_len @ bs))"
    proof -
      have "same (halves src + halves dest + 256 * unat proto + unat (lwip_htons proto_len) + le_num bs)
          (halves src + halves dest + 256 * unat proto + unat (lwip_htons proto_len) + le_sum bs)"
        by (intro same_add refl le_sum_num(1) [symmetric])
      then show ?thesis by (simp add: pseudo_header_sum n_def add_ac)
    qed
    then show "same (n + (256 * unat proto + unat (lwip_htons proto_len))) (le_num (pseudo_header src dest proto proto_len @ bs))"
      by (simp only: le_sum_num(1))
    show "n + (256 * unat proto + unat (lwip_htons proto_len)) = 0 \<longleftrightarrow>
        le_num (pseudo_header src dest proto proto_len @ bs) = 0"
      unfolding le_sum_num(2) [symmetric] pseudo_header_sum n_def using le_sum_num(2) [of bs] by auto
  qed
  finally show ?thesis
    unfolding pseudo_end_def a Let_def prod.case v_def [symmetric] by (rule complement)
qed

section \<open>Properties\<close>

text \<open>C31: the three versions of the checksum compute the same, at every alignment, for all lengths
  up to the documented \<open>0x20000\<close>: the plain one, the one in use that reads pairs at even addresses,
  and the one that reads eight bytes at a time and adds the carries back.\<close>

theorem checksum_versions_agree:
  assumes "length data \<le> 0x20000"
  shows "lwip_standard_chksum pb data = lwip_standard_chksum_1 data \<and>
     lwip_standard_chksum_3 pb' data = lwip_standard_chksum_1 data"
  using standard_checksum [OF assms] version1_checksum [OF assms] version3_checksum by simp

theorem checksum_versions_agree_witness:
  "lwip_standard_chksum 1 (replicate 1459 0xAB) = lwip_standard_chksum_1 (replicate 1459 0xAB) \<and>
   lwip_standard_chksum_3 2 (replicate 1459 0xAB) = lwip_standard_chksum_1 (replicate 1459 0xAB)"
  using checksum_versions_agree [of "replicate 1459 0xAB" 1 2] by simp

lemma pbuf_checksum:
  assumes "\<forall>b \<in> set p. length (snd b) \<le> 0xFFFF"
  shows "inet_chksum_pbuf p = NOT (checksum (chain_bytes p))"
proof -
  obtain acc sw where a: "chain_loop p 0 False = (acc, sw)" by (cases "chain_loop p 0 False")
  have "acc_is (chain_loop p 0 False) (0 + weight False * le_num (chain_bytes p))"
    by (rule chain_loop_is [OF acc_is_0 assms])
  then have "acc_is (acc, sw) (le_num (chain_bytes p))" by (simp add: a weight_def)
  then have "unat (if sw then SWAP_BYTES_IN_WORD acc else acc) = canon (le_num (chain_bytes p))" by (rule unswapped)
  then show ?thesis unfolding inet_chksum_pbuf_def a Let_def prod.case by (rule complement)
qed

lemma pseudo_checksum:
  assumes "\<forall>b \<in> set p. length (snd b) \<le> 0xFFFF"
  shows "ip_chksum_pseudo p proto proto_len src dest =
       NOT (checksum (pseudo_header src dest proto proto_len @ chain_bytes p))"
    and "ip_chksum_pseudo_partial p proto proto_len k src dest =
       NOT (checksum (pseudo_header src dest proto proto_len @ take (unat k) (chain_bytes p)))"
proof -
  show "ip_chksum_pseudo p proto proto_len src dest =
       NOT (checksum (pseudo_header src dest proto proto_len @ chain_bytes p))"
    using chain_loop_is [OF pseudo_addresses_is assms, of src dest]
    by (simp add: ip_chksum_pseudo_def inet_chksum_pseudo_def inet_cksum_pseudo_base_def pseudo_end_is weight_def)
  show "ip_chksum_pseudo_partial p proto proto_len k src dest =
       NOT (checksum (pseudo_header src dest proto proto_len @ take (unat k) (chain_bytes p)))"
    using partial_loop_is [OF pseudo_addresses_is assms, of k src dest]
    by (simp add: ip_chksum_pseudo_partial_def inet_chksum_pseudo_partial_def inet_cksum_pseudo_partial_base_def
        pseudo_end_is weight_def)
qed

lemma inet_chksum_is: "length bs \<le> 0x20000 \<Longrightarrow> inet_chksum pb bs = NOT (checksum bs)"
  by (simp add: inet_chksum_def standard_checksum)

text \<open>C32: the checksum of a chain of buffers is that of its bytes in one piece, however they are cut
  into buffers of even and odd length and wherever these lie; with the pseudo header it is that of
  the header's twelve bytes followed by the payload, or by the first bytes of the payload only.\<close>

theorem chain_checksum:
  assumes "\<forall>b \<in> set p. length (snd b) \<le> 0xFFFF" "length (chain_bytes p) \<le> 0xFFFF"
  shows "inet_chksum_pbuf p = inet_chksum pb (chain_bytes p) \<and>
     ip_chksum_pseudo p proto proto_len src dest =
       inet_chksum pb (pseudo_header src dest proto proto_len @ chain_bytes p) \<and>
     ip_chksum_pseudo_partial p proto proto_len k src dest =
       inet_chksum pb (pseudo_header src dest proto proto_len @ take (unat k) (chain_bytes p))"
proof -
  have len: "length (pseudo_header src dest proto proto_len @ take n (chain_bytes p)) \<le> 0x20000" for n
    using assms(2) by (simp add: pseudo_header_def word_bytes_def min_def)
  from inet_chksum_is [OF len [of "length (chain_bytes p)"]] inet_chksum_is [OF len [of "unat k"]]
  show ?thesis using assms(2) by (simp add: pbuf_checksum pseudo_checksum assms(1) inet_chksum_is)
qed

theorem chain_checksum_witness:
  "inet_chksum_pbuf [(3, [1, 2, 3]), (8, [4, 5])] = inet_chksum 0 [1, 2, 3, 4, 5] \<and>
   ip_chksum_pseudo [(3, [1, 2, 3]), (8, [4, 5])] 17 5 0x0100A8C0 0x0200A8C0 =
     inet_chksum 0 (pseudo_header 0x0100A8C0 0x0200A8C0 17 5 @ [1, 2, 3, 4, 5]) \<and>
   ip_chksum_pseudo_partial [(3, [1, 2, 3]), (8, [4, 5])] 17 5 4 0x0100A8C0 0x0200A8C0 =
     inet_chksum 0 (pseudo_header 0x0100A8C0 0x0200A8C0 17 5 @ [1, 2, 3, 4])"
  using chain_checksum [of "[(3, [1, 2, 3]), (8, [4, 5])]" 0 17 5 "0x0100A8C0" "0x0200A8C0" 4] by simp

text \<open>C33: a packet checksummed with its 16-bit checksum field zeroed verifies once the result is stored
  there: the field lies at an even position, and the receiver's sum over the whole packet is zero.\<close>

theorem checksum_verifies:
  assumes "even (length xs)" "length (xs @ [0, 0] @ ys) \<le> 0x20000"
    and c: "c = inet_chksum pb (xs @ [0, 0] @ ys)"
  shows "inet_chksum pb' (xs @ [lo8 c, hi8 c] @ ys) = 0"
proof -
  define N where "N = le_num (xs @ [0, 0] @ ys)"
  let ?full = "xs @ [lo8 c, hi8 c] @ ys"
  have full: "le_num ?full = N + 256 ^ length xs * unat c"
    using unat_hi_lo [of c] by (simp add: N_def le_num_append distrib_left [symmetric])
  have cN: "unat c = 65535 - canon N"
    using assms(2) unat_checksum [of "xs @ [0, 0] @ ys"] by (simp add: c inet_chksum_is unat_not_u16 N_def)
  have "same (N + 256 ^ length xs * unat c) (canon N + weight False * unat c)"
    using assms(1) same_weight [of "length xs" "unat c"] same_canon [of N] by (intro same_add) simp_all
  then have "same (N + 256 ^ length xs * unat c) 65535"
    using canon_le [of N] by (simp add: cN weight_def)
  moreover have "N + 256 ^ length xs * unat c \<noteq> 0" by (auto simp: cN canon_def)
  ultimately have "canon (le_num ?full) = 65535"
    unfolding full by (intro canon_eqI [symmetric]) simp_all
  then have "checksum ?full = - 1"
    using unat_checksum [of ?full] by (intro word_unat_eq_iff [THEN iffD2]) (simp add: unsigned_minus_1_eq_mask mask_eq_exp_minus_1)
  moreover have "length ?full \<le> 0x20000" using assms(2) by simp
  ultimately show ?thesis by (simp only: inet_chksum_is) simp
qed

theorem checksum_verifies_witness:
  "inet_chksum 3 ([0x45, 0, 0, 20] @ [lo8 (inet_chksum 0 ([0x45, 0, 0, 20] @ [0, 0] @ [192, 168, 0])),
     hi8 (inet_chksum 0 ([0x45, 0, 0, 20] @ [0, 0] @ [192, 168, 0]))] @ [192, 168, 0]) = 0"
  by (rule checksum_verifies [of "[0x45, 0, 0, 20]" "[192, 168, 0]" _ 0]) simp_all

end
