(* ===== verification/Spec2Isabelle.thy ===== *)
theory Spec2Isabelle
  imports Motor_Props Main_Props Rtt_Printf_Props Lwip_Pbuf_Props Lwip_Timeouts_Props Lwip_Chksum_Props
begin

text \<open>
  Verification development of the controller firmware for a geared stepper drive on an STM32F407:
  a 1 ms motion controller for the motor, an encoder with two interrupts, a debounced run switch,
  indicator lamps, a serial telemetry port, a settings record in flash, a Modbus/TCP server on the
  LwIP stack, and a main loop that arbitrates between switch and network.

  \<^bold>\<open>How the parts interact.\<close> The SysTick interrupt (\<open>SysTick_Handler\<close> in \<open>main.c\<close>) advances the
  motor, the switch and the lamps. The zero-pulse interrupt measures revolutions, the step interrupt
  streams positions through the serial port, whose receive interrupt answers position requests. The
  main loop polls the network: it hands received frames to the LwIP stack and lets its timers run;
  the stack keeps packets in buffers from its heap and pools, sums their checksums, and calls the
  Modbus server from within the poll; the server only sets parameters and pending flags in a shared record. The loop then saves settings, executes
  the pending flags, and decides from the motor state it read at the start of the pass whether to
  start or stop the motor. Every part prints diagnostics into the ring buffers of SEGGER RTT.

  \<^bold>\<open>Theories and the code they model.\<close>
    \<^item> \<open>Prelude\<close>: machine integers, byte packing, the fact collections, and two contracts shared by
      the components (a step that keeps an invariant, a step that makes progress).
    \<^item> \<open>Float_Round\<close>, \<open>Float32\<close>, \<open>Tenths\<close>: the C types \<open>float\<close> and \<open>double\<close>, exactly: rounding to
      nearest even, the arithmetic, comparisons and conversions the firmware uses, and the coding of
      register values in tenths. A conversion outside the integer type is \<open>None\<close>.
    \<^item> \<open>Hal\<close>: the boundary to the vendor library and the registers, as a trace of calls.
    \<^item> \<open>Hal_Motor\<close>, \<open>Motor\<close>, \<open>Motor_Props\<close>: \<open>src/hal/hal_motor.c\<close> and \<open>src/app_motor.c\<close>; the record
      \<open>motor\<close> holds the static variables of \<open>app_motor.c\<close>.
    \<^item> \<open>Switch\<close>, \<open>Lamp\<close>, \<open>Encoder\<close>, \<open>Telemetry\<close>: the pairs \<open>src/app_*.c\<close> and \<open>src/hal/hal_*.c\<close> of
      these names; \<open>Crc8\<close>: \<open>src/crc8.c\<close>.
    \<^item> \<open>Settings\<close>: \<open>src/app_settings.c\<close>; flash driver and checksum unit are arguments, and \<open>flash_ok\<close>
      states what the code relies on (a driver of that kind is given and shown to satisfy it).
    \<^item> \<open>Modbus\<close>: \<open>src/app_modbus.c\<close>; \<open>Ethernetif\<close>: \<open>src/ethernetif.c\<close>; \<open>Netconf\<close>: \<open>src/lwip.c\<close>.
    \<^item> \<open>Firmware\<close>: \<open>src/main.c\<close> up to its loop, with the interrupt handlers and the state of the whole
      firmware; \<open>Main_Loop\<close>: the loop; \<open>Main_Invariant\<close>: what keeps parameters and motor in order;
      \<open>Main_Reach\<close>: the reachable states; \<open>Main_Mask\<close>: runs with the interrupt mask; \<open>Main_Props\<close>.
    \<^item> \<open>Rtt\<close>, \<open>Rtt_Ring\<close>, \<open>Rtt_Props\<close>: \<open>lib/SEGGER_RTT/SEGGER_RTT.c\<close>, the abstraction of its ring
      buffers to byte queues, and their properties. \<open>Rtt_Format\<close>, \<open>Rtt_Printf\<close>, \<open>Rtt_Printf_Props\<close>:
      \<open>SEGGER_RTT_printf.c\<close>, the formatter with its staging buffer and every conversion.
    \<^item> \<open>Lwip_Mem\<close>: \<open>lib/LwIP/src/core/mem.c\<close>, the heap as the bytes of its array with the headers of
      the blocks in them. \<open>Lwip_Layout\<close>, \<open>Lwip_Heap\<close>: that these bytes are a list of blocks, and what
      linking does to it; \<open>Lwip_Alloc\<close>, \<open>Lwip_Free\<close>: the operations on the list; \<open>Lwip_Store\<close>: the
      contract \<open>block_store\<close> of a heap with its clients, interpreted on the model; \<open>Lwip_Props\<close>.
    \<^item> \<open>Lwip_Memp\<close>: \<open>core/memp.c\<close>, the pools, their contract \<open>element_pools\<close> and its interpretation;
      pointers as offsets into objects.
    \<^item> \<open>Lwip_Pbuf\<close>: \<open>core/pbuf.c\<close>. The headers of the packet buffers are a store indexed by address
      (\<open>pb_at\<close>), the bytes of all objects one array (\<open>bytes\<close>). \<open>Lwip_Packet\<close>, \<open>Lwip_Packet_Search\<close>,
      \<open>Lwip_Packet_Copy\<close>, \<open>Lwip_Packet_Clone\<close>: a chain as a list of buffers and as a sequence of bytes,
      and what searching and copying do to it; \<open>Lwip_Pbuf_Inv\<close>, \<open>Lwip_Pbuf_Steps\<close>,
      \<open>Lwip_Pbuf_Reach\<close>: the memory invariant and that every operation keeps it, from the contracts of
      heap and pools; \<open>Lwip_Chain\<close>, \<open>Lwip_Chain_Alloc\<close>: what the operations on whole chains do;
      \<open>Lwip_Pbuf_Props\<close>.
    \<^item> \<open>Lwip_Timeouts\<close>, \<open>Lwip_Timeouts_Props\<close>: \<open>core/timeouts.c\<close>, the list of timers of this build.
    \<^item> \<open>Lwip_Chksum\<close>, \<open>Lwip_Chksum_Props\<close>: \<open>core/inet_chksum.c\<close>, all three versions of the checksum.
  Definitions carry the names of the functions they translate. A module's static variables are a
  record that its operations take and return; what the hardware delivers is an argument.

  \<^bold>\<open>What is shown.\<close>
    \<^item> Motion: the profile stays well formed for any inputs, the ramp stays inside it, an accepted
      ramp ends at exactly the target, a stop ends with the driver off, the reload value is the exact
      quotient; and two defects, ramps absorbed by rounding and a rejected request that makes a stop
      accelerate.
    \<^item> Switch, lamps, encoder: refinement of the debouncer to a decision on the history of samples, the
      blink period, revolution times across wrap-around, the step filter.
    \<^item> Telemetry and checksum: the byte-wise parser refines a grammar of frames, the checksum is the
      remainder of a polynomial division, streamed packets are protected by it.
    \<^item> Settings and server: a successful save survives a restart, the server never leaves its buffers
      for any sequence of received buffers, requests are answered exactly; a short frame is executed
      with bytes behind it.
    \<^item> Network glue: the link follows the PHY, the receive buffers partition into free and used, chains
      are built in order, the addresses fall back to the factory's.
    \<^item> Whole firmware: in any interleaving of loop phases, server calls and interrupts every step is
      defined and keeps the invariant, a turning motor keeps its profile and direction (both while no
      client writes 200 RPM or more or a baud rate of 0), commands have a fixed priority, the stream
      flag agrees with the interrupt mask along every run, saved parameters return after a restart,
      and a switch that is on when the loop begins starts the motor.
    \<^item> Diagnostics: a channel is a queue, the fast writes agree with the general one, overwriting keeps
      the newest bytes, blocking writes end if the probe reads; the fill level is wrong after a
      wrap-around, and a handler above the lock's priority can lose data. Printed numbers read back;
      a format that ends in a percent sign is read past its end.
    \<^item> Heap and pools: to its clients the heap is a store of separate blocks for any sequence of calls,
      allocation is first fit, no element of a pool is lost or handed out twice.
    \<^item> Packet buffers: in every reachable state each buffer and its payload stay in their own memory and
      the pools list what is free; freeing a chain gives its elements and blocks back and calls the
      owners of its custom buffers; trimming, cloning, copying and searching of chains do what the
      same operations do to a sequence of bytes.
    \<^item> Timers and checksum: the protocol timers keep pace without drift for a run of any length, across
      the wrap-arounds of the clock, a poll ends; the three versions
      of the checksum agree, over chains of any shape, and a checksummed packet verifies.

  \<^bold>\<open>Bounds and fuel.\<close> \<open>motor_run n\<close> iterates the tick; the theorems on ramps compute an \<open>n\<close> that is
  enough. \<open>overwrite_loop\<close> runs on fuel \<open>n + 2\<close> for a message of \<open>n\<close> bytes: from the second round on
  every round stores at least one byte if the buffer has at least two. A blocking write takes a list of the
  read offsets the probe shows, and is proved to return if it is longer than the message. Chains of
  packet buffers in \<open>Ethernetif\<close> are followed through a store with the number of buffers as fuel. The
  loops of the heap (\<open>find_block\<close>, \<open>next_free\<close> and others) and of the packet buffers are partial
  functions into \<open>option\<close>; \<open>None\<close> also stands for an access outside the array or to a buffer that does
  not exist, and the theorems say that the result is \<open>Some\<close>. A poll of the timers (\<open>check_loop\<close>) takes
  the list of the clock readings it makes; two for each timer are shown to be enough.

  \<^bold>\<open>Assumptions of the model.\<close> A phase of the main loop and an interrupt handler are atomic steps: an
  interrupt between two statements of one phase is not modelled, except where a theorem says so
  (\<open>interrupted_write_loses\<close>). The start-up takes interrupts before and after the switch is initialised,
  during the delays, which end only after enough ticks, and from there to the loop; it does not come
  to the loop otherwise. Speed requests of 200 RPM or more are excluded from the first two theorems on
  the whole firmware, and \<open>rejected_request_runaway\<close> shows why; so is a baud rate of 0, which the
  server accepts and by which the code divides (\<open>zero_baud_divides\<close>). A received buffer is memory from
  its payload pointer on: a call of the server is defined if the bytes it reads, for which
  \<open>reads_no_further\<close> gives the number, are there, and the theorems ask for twelve of them. Custom
  packet buffers are of the types that refer to memory elsewhere, as the driver makes them.
  Diagnostic messages are entries of the trace; how RTT stores bytes is modelled on its own. The models
  of \<open>Ethernetif\<close> and of the checksum have chains of their own, cut down to the fields they use. The
  bytes of packets are apart from the array of the heap, of which the model keeps the headers of the
  blocks and the bytes of other clients; a failed assertion of the stack only prints.

  \<^bold>\<open>Not modelled.\<close> The protocols of the LwIP stack (TCP, UDP, IP, ARP, DHCP, the interface list; their
  calls are trace entries and their callbacks are events) and with them the freeing of TCP's
  out-of-order segments, for which \<open>pbuf_alloc\<close> leaves a flag; the parts of the stack that the build
  leaves out (sockets, the applications, PPP, IPv6, and in the modelled files the variants for
  threads, overflow checks, statistics and window scaling); the assembler variant of the skip write,
  the vendor HAL and CMSIS (not in the repository), the fault handlers of \<open>stm32f4xx_it.c\<close> (endless
  loops), \<open>sys_debug.h\<close> (macros), and the tools, the desktop client and the documents.
\<close>

end
